(* ===== verification/Prelude.thy ===== *)
theory Prelude
  imports Complex_Main "HOL-Library.Multiset" "HOL-Library.Char_ord" "HOL-Library.List_Lexorder"
    "HOL-Library.Product_Lexorder"
begin

text \<open>
  Shared vocabulary of the development: the types every component uses, the errors a
  Python call can raise, the values a float field can hold, and the generic facts on lists
  that the component proofs share.

  Times are POSIX timestamps in seconds (\<open>datetime.timestamp()\<close> of an aware UTC
  datetime) and are exact rationals; adding a \<open>timedelta\<close> is addition. Floats that the
  program computes with are exact rationals as well: rounding of IEEE doubles is not
  modelled. Where the code itself tests \<open>math.isfinite\<close> the type \<open>pyfloat\<close>
  keeps the infinities and NaN apart.
\<close>

type_synonym time = rat
type_synonym member = string

datatype pyfloat = Finite rat | PosInf | NegInf | NaN

text \<open>\<open>math.isfinite(v)\<close>, \<open>a <= b\<close> and the arithmetic of the latency average,
  with the IEEE rules for the special values (every comparison with NaN is false).\<close>

fun isfinite :: "pyfloat \<Rightarrow> bool" where
  "isfinite (Finite _) = True"
| "isfinite _ = False"

fun pf_le :: "pyfloat \<Rightarrow> pyfloat \<Rightarrow> bool" where
  "pf_le NaN _ = False"
| "pf_le _ NaN = False"
| "pf_le (Finite a) (Finite b) = (a \<le> b)"
| "pf_le NegInf _ = True"
| "pf_le _ PosInf = True"
| "pf_le _ _ = False"

text \<open>Multiplication by a positive constant, and addition.\<close>

fun pf_scale :: "pyfloat \<Rightarrow> rat \<Rightarrow> pyfloat" where
  "pf_scale (Finite a) k = Finite (a * k)"
| "pf_scale v _ = v"

fun pf_add :: "pyfloat \<Rightarrow> pyfloat \<Rightarrow> pyfloat" where
  "pf_add NaN _ = NaN"
| "pf_add _ NaN = NaN"
| "pf_add (Finite a) (Finite b) = Finite (a + b)"
| "pf_add PosInf NegInf = NaN"
| "pf_add NegInf PosInf = NaN"
| "pf_add PosInf _ = PosInf"
| "pf_add _ PosInf = PosInf"
| "pf_add NegInf _ = NegInf"
| "pf_add _ NegInf = NegInf"

text \<open>
  The exceptions the modelled code raises, by their Python class. The messages are kept
  where two branches of one function differ by their message only.
\<close>

datatype exn =
    ValueError string
  | TypeError string
  | LookupError string
  | RuntimeError string
  | LatencyIndexNotReady
  | ResponseError string
  | HTTPException int string
  | SuccessConflict string
  | InvalidReceipt string
  | ReceiptBindingError string
  | InvalidCursor string
  | OverflowError string
  | ResponseTooLarge string
  | NetworkBoundaryError string

type_synonym 'a result = "exn + 'a"

named_theorems step_defs \<open>definitions of the state-changing operations of a component\<close>

subsection \<open>Facts on lists\<close>

lemma set_take_drop: "x \<in> set (take n (drop k xs)) \<Longrightarrow> x \<in> set xs"
  by (meson in_set_dropD in_set_takeD)

lemma distinct_map_filter_fst:
  "distinct (map fst xs) \<Longrightarrow> distinct (map fst (filter P xs))"
  by (induction xs) auto

lemma distinct_map_take_drop:
  "distinct (map f xs) \<Longrightarrow> distinct (map f (take n (drop k xs)))"
  by (metis distinct_drop distinct_take drop_map take_map)

lemma sorted_map_filter:
  "sorted (map f xs) \<Longrightarrow> sorted (map f (filter P xs))"
  by (rule sorted_filter)

lemma take_drop_append_next:
  "take a (drop k xs) @ take b (drop (k + a) xs) = take (a + b) (drop k xs)"
  by (simp add: take_add add.commute)

lemma take_drop_split:
  "a \<le> n \<Longrightarrow> take n (drop k xs) = take a (drop k xs) @ take (n - a) (drop (k + a) xs)"
  using take_drop_append_next [of a k xs "n - a"] by simp

lemma mset_take_drop: "mset (take n xs) + mset (drop n xs) = mset xs"
  by (metis append_take_drop_id mset_append)

lemma mset_take_subset: "mset (take n xs) \<subseteq># mset xs"
  by (metis mset_subset_eq_add_left mset_take_drop)

lemma mset_rotate: "mset (drop n xs @ take n xs) = mset xs"
  using mset_take_drop [of n xs] by (simp add: add.commute)

lemma distinct_submultiset:
  "mset xs \<subseteq># mset ys \<Longrightarrow> distinct ys \<Longrightarrow> distinct xs"
proof -
  assume sub: "mset xs \<subseteq># mset ys" and d: "distinct ys"
  have "count (mset xs) a = (if a \<in> set xs then 1 else 0)" for a
  proof -
    have "count (mset xs) a \<le> count (mset ys) a" using sub by (rule mset_subset_eq_count)
    also have "\<dots> \<le> 1" using d by (simp add: distinct_count_atmost_1)
    finally show ?thesis by (cases "a \<in> set xs") (auto simp: count_mset_0_iff [symmetric] simp del: count_mset_0_iff intro: le_antisym Suc_leI)
  qed
  then show "distinct xs" by (simp add: distinct_count_atmost_1)
qed

end
