(* ===== verification/Redis.thy ===== *)
theory Redis
  imports Prelude
begin

text \<open>
  Redis is a service outside the repository. Each data structure the program stores is an
  abstract type with a record of the commands the program issues on one key of that type,
  and a locale that states what the Redis documentation promises of those commands; every
  definition of the development takes the record as an argument. A sorted set is ordered by
  score and, among equal scores, by member; \<open>LIMIT\<close> cuts an ordered reply; a full
  \<open>HSCAN\<close> iteration over an unchanged hash returns every field, in pages of a size the
  server chooses, possibly more than once. The last section is a reference implementation
  on sorted and association lists, which satisfies the laws and on which the witnesses
  evaluate.
\<close>

section \<open>Sorted sets\<close>

datatype bound = Below_All | Above_All | Incl rat | Excl rat

fun above :: "bound \<Rightarrow> rat \<Rightarrow> bool" where
  "above Below_All _ = True"
| "above Above_All _ = False"
| "above (Incl l) x = (l \<le> x)"
| "above (Excl l) x = (l < x)"

fun below :: "bound \<Rightarrow> rat \<Rightarrow> bool" where
  "below Above_All _ = True"
| "below Below_All _ = False"
| "below (Incl h) x = (x \<le> h)"
| "below (Excl h) x = (x < h)"

definition in_range :: "bound \<Rightarrow> bound \<Rightarrow> rat \<Rightarrow> bool" where
  "in_range lo hi x \<longleftrightarrow> above lo x \<and> below hi x"

lemma in_range_simps [simp]:
  "in_range Below_All hi x = below hi x"
  "in_range (Incl l) hi x = (l \<le> x \<and> below hi x)"
  "in_range (Excl l) hi x = (l < x \<and> below hi x)"
  by (simp_all add: in_range_def)

record 'z zset_api =
  z_empty :: 'z
  z_add :: "'z \<Rightarrow> member \<Rightarrow> rat \<Rightarrow> 'z"
  z_rem :: "'z \<Rightarrow> member \<Rightarrow> 'z"
  z_score :: "'z \<Rightarrow> member \<Rightarrow> rat option"
  z_card :: "'z \<Rightarrow> nat"
  z_range :: "'z \<Rightarrow> (member \<times> rat) list"
  z_rangebyscore :: "'z \<Rightarrow> bound \<Rightarrow> bound \<Rightarrow> (member \<times> rat) list"
  z_rangelimit :: "'z \<Rightarrow> bound \<Rightarrow> bound \<Rightarrow> nat \<Rightarrow> nat \<Rightarrow> (member \<times> rat) list"
  z_revrangelimit :: "'z \<Rightarrow> bound \<Rightarrow> bound \<Rightarrow> nat \<Rightarrow> nat \<Rightarrow> (member \<times> rat) list"
  z_count :: "'z \<Rightarrow> bound \<Rightarrow> bound \<Rightarrow> nat"
  z_remrangebyscore :: "'z \<Rightarrow> bound \<Rightarrow> bound \<Rightarrow> 'z"

text \<open>
  \<open>z_range\<close> is \<open>ZRANGE key 0 -1 WITHSCORES\<close>; \<open>z_rangelimit\<close> is
  \<open>ZRANGEBYSCORE ... LIMIT offset count\<close> and \<open>z_revrangelimit\<close> the reversed order.
\<close>

abbreviation zkey :: "member \<times> rat \<Rightarrow> rat \<times> member" where
  "zkey p \<equiv> (snd p, fst p)"

locale zset =
  fixes Z :: "'z zset_api"
  assumes score_empty: "z_score Z (z_empty Z) m = None"
    and score_add: "z_score Z (z_add Z z m s) m' = (if m' = m then Some s else z_score Z z m')"
    and score_rem: "z_score Z (z_rem Z z m) m' = (if m' = m then None else z_score Z z m')"
    and range_score: "(m, s) \<in> set (z_range Z z) \<longleftrightarrow> z_score Z z m = Some s"
    and range_distinct: "distinct (map fst (z_range Z z))"
    and range_sorted: "sorted (map zkey (z_range Z z))"
    and card_range: "z_card Z z = length (z_range Z z)"
    and rangebyscore_range:
      "z_rangebyscore Z z lo hi = filter (\<lambda>p. in_range lo hi (snd p)) (z_range Z z)"
    and rangelimit_range:
      "z_rangelimit Z z lo hi off n = take n (drop off (z_rangebyscore Z z lo hi))"
    and revrangelimit_range:
      "z_revrangelimit Z z hi lo off n = take n (drop off (rev (z_rangebyscore Z z lo hi)))"
    and count_range: "z_count Z z lo hi = length (z_rangebyscore Z z lo hi)"
    and score_remrange:
      "z_score Z (z_remrangebyscore Z z lo hi) m =
         (case z_score Z z m of
            None \<Rightarrow> None
          | Some s \<Rightarrow> if in_range lo hi s then None else Some s)"
begin

lemmas score_simps [simp] = score_empty score_add score_rem

lemma fold_rem_score:
  "z_score Z (fold (\<lambda>m z. z_rem Z z m) ms z) k = (if k \<in> set ms then None else z_score Z z k)"
  by (induction ms arbitrary: z) auto

lemma range_map_of: "map_of (z_range Z z) m = z_score Z z m"
proof (cases "z_score Z z m")
  case None
  then have "m \<notin> fst ` set (z_range Z z)" by (auto simp: range_score)
  then show ?thesis using None by (simp add: map_of_eq_None_iff)
next
  case (Some s)
  then have "(m, s) \<in> set (z_range Z z)" by (simp add: range_score)
  then show ?thesis using Some range_distinct by (simp add: map_of_is_SomeI)
qed

lemma rangebyscore_mem:
  "(m, s) \<in> set (z_rangebyscore Z z lo hi) \<longleftrightarrow> z_score Z z m = Some s \<and> in_range lo hi s"
  by (auto simp: rangebyscore_range range_score)

lemma rangebyscore_distinct: "distinct (map fst (z_rangebyscore Z z lo hi))"
  by (simp add: rangebyscore_range distinct_map_filter_fst range_distinct)

lemma rangebyscore_sorted: "sorted (map zkey (z_rangebyscore Z z lo hi))"
  by (simp add: rangebyscore_range range_sorted sorted_map_filter)

lemma rangelimit_mem:
  "(m, s) \<in> set (z_rangelimit Z z lo hi off n) \<Longrightarrow> z_score Z z m = Some s \<and> in_range lo hi s"
  unfolding rangelimit_range using rangebyscore_mem set_take_drop by metis

lemma rangelimit_distinct: "distinct (map fst (z_rangelimit Z z lo hi off n))"
  by (simp add: rangelimit_range distinct_map_take_drop rangebyscore_distinct)

lemma rangelimit_length: "length (z_rangelimit Z z lo hi off n) \<le> n"
  by (simp add: rangelimit_range)

lemma rangelimit_fst:
  "m \<in> set (map fst (z_rangelimit Z z lo hi off n)) \<Longrightarrow>
     \<exists>s. z_score Z z m = Some s \<and> in_range lo hi s"
  using rangelimit_mem by fastforce

lemma revrangelimit_mem:
  "(m, s) \<in> set (z_revrangelimit Z z hi lo off n) \<Longrightarrow>
     z_score Z z m = Some s \<and> in_range lo hi s"
  unfolding revrangelimit_range using rangebyscore_mem set_take_drop set_rev by metis

lemma card_score: "z_card Z z = card {m. z_score Z z m \<noteq> None}"
proof -
  have "set (map fst (z_range Z z)) = {m. z_score Z z m \<noteq> None}"
    using range_score by force
  then show ?thesis
    by (metis card_range distinct_card length_map range_distinct)
qed

end

section \<open>Hashes\<close>

record ('h, 'v) hash_api =
  h_empty :: 'h
  h_get :: "'h \<Rightarrow> member \<Rightarrow> 'v option"
  h_set :: "'h \<Rightarrow> member \<Rightarrow> 'v \<Rightarrow> 'h"
  h_del :: "'h \<Rightarrow> member \<Rightarrow> 'h"
  h_len :: "'h \<Rightarrow> nat"
  h_scan :: "'h \<Rightarrow> nat \<Rightarrow> (member \<times> 'v) list list"

text \<open>
  \<open>h_scan h c\<close> lists the replies of one complete \<open>HSCAN\<close> iteration with the hint
  \<open>COUNT c\<close>: the cursor of the last reply is 0, of every other reply nonzero.
\<close>

locale hash =
  fixes H :: "('h, 'v) hash_api"
  assumes get_empty: "h_get H (h_empty H) k = None"
    and get_set: "h_get H (h_set H h k v) k' = (if k' = k then Some v else h_get H h k')"
    and get_del: "h_get H (h_del H h k) k' = (if k' = k then None else h_get H h k')"
    and scan_get: "(k, v) \<in> set (concat (h_scan H h c)) \<longleftrightarrow> h_get H h k = Some v"
    and scan_nonempty: "h_scan H h c \<noteq> []"
    and len_get: "h_len H h = card {k. h_get H h k \<noteq> None}"
begin

lemmas get_simps [simp] = get_empty get_set get_del

lemma finite_keys: "finite {k. h_get H h k \<noteq> None}"
proof -
  have "{k. h_get H h k \<noteq> None} \<subseteq> fst ` set (concat (h_scan H h 0))"
    using scan_get [of _ _ h 0] by force
  then show ?thesis by (rule finite_subset) simp
qed

end

section \<open>Sets\<close>

record 's set_api =
  s_empty :: 's
  s_add :: "'s \<Rightarrow> member \<Rightarrow> 's"
  s_members :: "'s \<Rightarrow> member list"

locale redis_set =
  fixes S :: "'s set_api"
  assumes members_empty: "s_members S (s_empty S) = []"
    and members_add: "set (s_members S (s_add S s x)) = insert x (set (s_members S s))"
    and members_distinct: "distinct (s_members S s)"

section \<open>Keys with a time to live\<close>

text \<open>A key set with \<open>EXPIRE\<close>: its value with the clock reading at which Redis drops it.\<close>

definition alive :: "'t::linorder \<Rightarrow> ('v \<times> 't) option \<Rightarrow> 'v option" where
  "alive now k = (case k of None \<Rightarrow> None | Some (v, expires) \<Rightarrow> if now < expires then Some v else None)"

lemma alive_simps [simp]:
  "alive now None = None" "alive now (Some (v, e)) = (if now < e then Some v else None)"
  by (simp_all add: alive_def)

lemma alive_Some: "alive now k = Some v \<longleftrightarrow> (\<exists>e. k = Some (v, e) \<and> now < e)"
  by (auto simp: alive_def split: option.splits if_splits)

section \<open>The reference implementation\<close>

text \<open>A sorted set as the list of its entries in the documented order.\<close>

type_synonym zlist = "(member \<times> rat) list"

definition zl_rem :: "zlist \<Rightarrow> member \<Rightarrow> zlist" where
  "zl_rem z m = filter (\<lambda>p. fst p \<noteq> m) z"

definition zl_add :: "zlist \<Rightarrow> member \<Rightarrow> rat \<Rightarrow> zlist" where
  "zl_add z m s = insort_key zkey (m, s) (zl_rem z m)"

text \<open>
  The invariant of the list (sorted, no member twice) is kept by every command; the type
  below carries it, so the laws hold without a side condition.
\<close>

definition zl_ok :: "zlist \<Rightarrow> bool" where
  "zl_ok z \<longleftrightarrow> sorted (map zkey z) \<and> distinct (map fst z)"

lemma zl_ok_filter: "zl_ok z \<Longrightarrow> zl_ok (filter P z)"
  by (simp add: zl_ok_def sorted_map_filter distinct_map_filter_fst)

lemma zl_ok_rem: "zl_ok z \<Longrightarrow> zl_ok (zl_rem z m)"
  by (simp add: zl_rem_def zl_ok_filter)

lemma distinct_insort_fst:
  "distinct (map fst xs) \<Longrightarrow> fst x \<notin> fst ` set xs \<Longrightarrow> distinct (map fst (insort_key f x xs))"
  by (induction xs) (auto simp: set_insort_key)

lemma zl_ok_add: "zl_ok z \<Longrightarrow> zl_ok (zl_add z m s)"
proof -
  assume ok: "zl_ok z"
  then have "zl_ok (zl_rem z m)" by (rule zl_ok_rem)
  moreover have "m \<notin> fst ` set (zl_rem z m)" by (auto simp: zl_rem_def)
  ultimately show ?thesis
    by (simp add: zl_ok_def zl_add_def sorted_insort_key distinct_insort_fst)
qed

typedef ref_zset = "{z :: zlist. zl_ok z}"
  morphisms zl_of Zl
  by (rule exI [of _ "[]"]) (simp add: zl_ok_def)

setup_lifting type_definition_ref_zset

lift_definition rz_empty :: ref_zset is "[]" by (simp add: zl_ok_def)
lift_definition rz_add :: "ref_zset \<Rightarrow> member \<Rightarrow> rat \<Rightarrow> ref_zset" is zl_add by (rule zl_ok_add)
lift_definition rz_rem :: "ref_zset \<Rightarrow> member \<Rightarrow> ref_zset" is zl_rem by (rule zl_ok_rem)
lift_definition rz_remrangebyscore :: "ref_zset \<Rightarrow> bound \<Rightarrow> bound \<Rightarrow> ref_zset"
  is "\<lambda>z lo hi. filter (\<lambda>p. \<not> in_range lo hi (snd p)) z" by (rule zl_ok_filter)

definition rz_byscore :: "ref_zset \<Rightarrow> bound \<Rightarrow> bound \<Rightarrow> zlist" where
  "rz_byscore z lo hi = filter (\<lambda>p. in_range lo hi (snd p)) (zl_of z)"

definition ref_zset_api :: "ref_zset zset_api" where
  "ref_zset_api =
     \<lparr>z_empty = rz_empty, z_add = rz_add, z_rem = rz_rem,
      z_score = (\<lambda>z. map_of (zl_of z)),
      z_card = (\<lambda>z. length (zl_of z)),
      z_range = zl_of,
      z_rangebyscore = rz_byscore,
      z_rangelimit = (\<lambda>z lo hi off n. take n (drop off (rz_byscore z lo hi))),
      z_revrangelimit = (\<lambda>z hi lo off n. take n (drop off (rev (rz_byscore z lo hi)))),
      z_count = (\<lambda>z lo hi. length (rz_byscore z lo hi)),
      z_remrangebyscore = rz_remrangebyscore\<rparr>"

lemma zl_map_of: "zl_ok z \<Longrightarrow> (m, s) \<in> set z \<longleftrightarrow> map_of z m = Some s"
  by (metis map_of_SomeD map_of_is_SomeI zl_ok_def)

lemma map_of_zl_rem: "map_of (zl_rem z m) m' = (if m' = m then None else map_of z m')"
  by (induction z) (auto simp: zl_rem_def)

lemma map_of_insort:
  "m \<notin> fst ` set xs \<Longrightarrow> map_of (insort_key f (m, s) xs) m' = (if m' = m then Some s else map_of xs m')"
  by (induction xs) auto

lemma map_of_zl_add: "map_of (zl_add z m s) m' = (if m' = m then Some s else map_of z m')"
proof -
  have "m \<notin> fst ` set (zl_rem z m)" by (auto simp: zl_rem_def)
  then show ?thesis by (simp add: zl_add_def map_of_insort map_of_zl_rem)
qed

lemma map_of_filter_range:
  "zl_ok z \<Longrightarrow> map_of (filter (\<lambda>p. \<not> in_range lo hi (snd p)) z) m =
     (case map_of z m of None \<Rightarrow> None | Some s \<Rightarrow> if in_range lo hi s then None else Some s)"
proof -
  assume ok: "zl_ok z"
  then have "distinct (map fst z)" by (simp add: zl_ok_def)
  then show ?thesis
  proof (induction z)
    case Nil
    then show ?case by simp
  next
    case (Cons p z)
    obtain k s where p: "p = (k, s)" by (cases p)
    from Cons.prems p have "map_of z k = None" by (simp add: map_of_eq_None_iff)
    moreover from this have "map_of (filter (\<lambda>p. \<not> in_range lo hi (snd p)) z) k = None"
      by (simp add: map_of_eq_None_iff image_iff)
    ultimately show ?case using Cons p by auto
  qed
qed

lemma zl_of_ok: "zl_ok (zl_of z)"
  using zl_of [of z] by simp

interpretation ref_zset: zset ref_zset_api
proof (unfold_locales, goal_cases)
  case (2 z m s m')
  then show ?case by (simp add: ref_zset_api_def rz_add.rep_eq map_of_zl_add)
next
  case (3 z m m')
  then show ?case by (simp add: ref_zset_api_def rz_rem.rep_eq map_of_zl_rem)
next
  case (4 m s z)
  then show ?case by (simp add: ref_zset_api_def zl_map_of [OF zl_of_ok])
next
  case (5 z)
  then show ?case using zl_of_ok by (simp add: ref_zset_api_def zl_ok_def)
next
  case (6 z)
  then show ?case using zl_of_ok by (simp add: ref_zset_api_def zl_ok_def)
next
  case (12 z lo hi m)
  then show ?case
    by (simp add: ref_zset_api_def rz_remrangebyscore.rep_eq map_of_filter_range zl_of_ok)
qed (simp_all add: ref_zset_api_def rz_empty.rep_eq rz_byscore_def)

text \<open>
  Evaluation: the entries of a reference sorted set reduce to a list, by the representation
  equations of the lifted commands.
\<close>

lemmas ref_zset_eval =
  ref_zset_api_def rz_empty.rep_eq rz_add.rep_eq rz_rem.rep_eq rz_remrangebyscore.rep_eq
  rz_byscore_def zl_add_def zl_rem_def

text \<open>A hash as an association list; a small hash answers a scan in one reply.\<close>

definition ref_hash_api :: "((member \<times> 'v) list, 'v) hash_api" where
  "ref_hash_api =
     \<lparr>h_empty = [], h_get = map_of,
      h_set = (\<lambda>h k v. (k, v) # filter (\<lambda>p. fst p \<noteq> k) h),
      h_del = (\<lambda>h k. filter (\<lambda>p. fst p \<noteq> k) h),
      h_len = (\<lambda>h. card (fst ` set h)),
      h_scan = (\<lambda>h c. [map (\<lambda>k. (k, the (map_of h k))) (remdups (map fst h))])\<rparr>"

lemma map_of_filter_key: "map_of (filter (\<lambda>p. fst p \<noteq> k) h) k' = (if k' = k then None else map_of h k')"
  by (induction h) auto

lemma ref_scan_get:
  "(k, v) \<in> set (map (\<lambda>k. (k, the (map_of h k))) (remdups (map fst h))) \<longleftrightarrow> map_of h k = Some v"
proof -
  have "k \<in> fst ` set h \<longleftrightarrow> (\<exists>v. map_of h k = Some v)"
    by (metis map_of_eq_None_iff not_None_eq)
  then show ?thesis by (auto simp: image_iff)
qed

lemma ref_len_get: "card (fst ` set h) = card {k. map_of h k \<noteq> None}"
  by (rule arg_cong [of _ _ card]) (auto simp: map_of_eq_None_iff)

interpretation ref_hash: hash ref_hash_api
proof (unfold_locales, goal_cases)
  case (4 k v h c)
  then show ?case by (simp only: ref_hash_api_def hash_api.simps concat.simps append_Nil2 ref_scan_get)
next
  case (6 h)
  then show ?case by (simp only: ref_hash_api_def hash_api.simps ref_len_get)
qed (simp_all add: ref_hash_api_def map_of_filter_key)

text \<open>A set as a list without repetition.\<close>

definition ref_set_api :: "member list set_api" where
  "ref_set_api = \<lparr>s_empty = [], s_add = (\<lambda>s x. List.insert x s), s_members = remdups\<rparr>"

interpretation ref_set: redis_set ref_set_api
  by unfold_locales (simp_all add: ref_set_api_def)

end
