(* ===== verification/Keys.thy ===== *)
theory Keys
  imports Prelude
begin

text \<open>
  Redis key names (storage/keys.py, dashboard/keys.py). \<open>quote(s, safe='.-_')\<close> of the
  standard library keeps letters, digits and \<open>_.-~\<close> and writes every other byte as
  \<open>%XX\<close>. The lemmas show that no two keys the program builds from one prefix are equal:
  this is what allows the other theories to keep the pool of each domain, and each key of a
  pool, as separate fields of the state.
\<close>

section \<open>Percent encoding\<close>

definition unreserved :: "char \<Rightarrow> bool" where
  "unreserved c \<longleftrightarrow>
     (let n = (of_char c :: nat)
      in (48 \<le> n \<and> n \<le> 57) \<or> (65 \<le> n \<and> n \<le> 90) \<or> (97 \<le> n \<and> n \<le> 122)
         \<or> c \<in> {CHR ''_'', CHR ''.'', CHR ''-'', CHR ''~''})"

definition hex_digit :: "nat \<Rightarrow> char" where
  "hex_digit n = char_of (if n < 10 then 48 + n else 55 + n)"

definition quote_char :: "char \<Rightarrow> string" where
  "quote_char c =
     (if unreserved c then [c]
      else [CHR ''%'', hex_digit (of_char c div 16), hex_digit (of_char c mod 16)])"

definition quote :: "string \<Rightarrow> string" where
  "quote s = concat (map quote_char s)"

lemma of_char_bound: "(of_char c :: nat) < 256"
  by (metis of_char_mod_256 mod_less_divisor zero_less_numeral)

lemma hex_digit_inject:
  assumes "m < 16" and "n < 16" and "hex_digit m = hex_digit n"
  shows "m = n"
proof -
  have code: "(of_char (hex_digit k) :: nat) = (if k < 10 then 48 + k else 55 + k)" if "k < 16" for k
    using that by (simp add: hex_digit_def of_char_of)
  have "(of_char (hex_digit m) :: nat) = of_char (hex_digit n)" using assms(3) by simp
  with assms(1,2) show ?thesis by (simp add: code split: if_splits)
qed

lemma colon_notin_hex: "n < 16 \<Longrightarrow> hex_digit n \<noteq> CHR '':''"
proof
  assume "n < 16" and "hex_digit n = CHR '':''"
  then have "(of_char (hex_digit n) :: nat) = 58" by simp
  with \<open>n < 16\<close> show False by (simp add: hex_digit_def of_char_of split: if_splits)
qed

lemma hex_bounds: "(of_char c :: nat) div 16 < 16" "(of_char c :: nat) mod 16 < 16"
  using of_char_bound [of c] by (auto simp: div_less_iff_less_mult)

lemma quote_char_inject_prefix:
  assumes "quote_char c @ xs = quote_char d @ ys"
  shows "c = d \<and> xs = ys"
proof -
  have pc: "\<not> unreserved CHR ''%''" by (simp add: unreserved_def)
  show ?thesis
  proof (cases "unreserved c")
    case True
    with assms pc show ?thesis
      by (cases "unreserved d") (auto simp: quote_char_def)
  next
    case False
    with assms pc have d: "\<not> unreserved d" by (auto simp: quote_char_def split: if_splits)
    with False assms have h: "hex_digit (of_char c div 16) = hex_digit (of_char d div 16)"
      "hex_digit (of_char c mod 16) = hex_digit (of_char d mod 16)" "xs = ys"
      by (auto simp: quote_char_def)
    from h(1) have "(of_char c :: nat) div 16 = of_char d div 16"
      by (rule hex_digit_inject [OF hex_bounds(1) hex_bounds(1)])
    moreover from h(2) have "(of_char c :: nat) mod 16 = of_char d mod 16"
      by (rule hex_digit_inject [OF hex_bounds(2) hex_bounds(2)])
    ultimately have "(of_char c :: nat) = of_char d" by (metis div_mult_mod_eq)
    with h(3) show ?thesis by simp
  qed
qed

lemma quote_char_nonempty: "quote_char c \<noteq> []"
  by (simp add: quote_char_def)

lemma quote_inject: "quote s = quote t \<Longrightarrow> s = t"
proof (induction s arbitrary: t)
  case Nil
  then show ?case by (cases t) (auto simp: quote_def quote_char_nonempty)
next
  case (Cons c s)
  then obtain d t' where t: "t = d # t'"
    by (cases t) (auto simp: quote_def quote_char_nonempty)
  with Cons.prems have "quote_char c @ quote s = quote_char d @ quote t'"
    by (simp add: quote_def)
  then have "c = d \<and> quote s = quote t'" by (rule quote_char_inject_prefix)
  with Cons.IH t show ?case by blast
qed

lemma colon_notin_quote: "CHR '':'' \<notin> set (quote s)"
proof -
  have "CHR '':'' \<notin> set (quote_char c)" for c
    using colon_notin_hex [OF hex_bounds(1) [of c]] colon_notin_hex [OF hex_bounds(2) [of c]]
    by (auto simp: quote_char_def unreserved_def)
  then show ?thesis by (auto simp: quote_def)
qed

lemma quoted_segment_unique:
  assumes "quote s @ CHR '':'' # xs = quote t @ CHR '':'' # ys"
  shows "s = t \<and> xs = ys"
proof -
  have tw: "takeWhile (\<lambda>x. x \<noteq> CHR '':'') (quote u @ CHR '':'' # zs) = quote u" for u zs
    using colon_notin_quote [of u] by (subst takeWhile_append2) auto
  from assms have "quote s = quote t" by (metis tw)
  then have "s = t" by (rule quote_inject)
  with assms show ?thesis by simp
qed

section \<open>Key sets\<close>

record pool_keys =
  k_records :: string
  k_quality :: string
  k_due :: string
  k_leased :: string
  k_lease_owners :: string
  k_available_latency :: string
  k_available_latency_ready :: string
  k_priority_due :: string
  k_priority_due_ready :: string

definition keys_for :: "string \<Rightarrow> string \<Rightarrow> pool_keys result" where
  "keys_for prefix domain =
     (if prefix = [] \<or> domain = [] then Inl (ValueError ''prefix and domain must be non-empty'')
      else
        let base = prefix @ '':pool:'' @ quote domain
        in Inr \<lparr>k_records = base @ '':records'',
                k_quality = base @ '':quality'',
                k_due = base @ '':due'',
                k_leased = base @ '':leased'',
                k_lease_owners = base @ '':lease-owners'',
                k_available_latency = base @ '':available-latency'',
                k_available_latency_ready = base @ '':available-latency-ready'',
                k_priority_due = base @ '':priority-due'',
                k_priority_due_ready = base @ '':priority-due-ready''\<rparr>)"

definition all_pool_keys :: "pool_keys \<Rightarrow> string list" where
  "all_pool_keys k =
     [k_records k, k_quality k, k_due k, k_leased k, k_lease_owners k, k_available_latency k,
      k_available_latency_ready k, k_priority_due k, k_priority_due_ready k]"

definition domains_key :: "string \<Rightarrow> string" where
  "domains_key prefix = prefix @ '':domains''"

record peer_cache_keys =
  pk_records :: string
  pk_expiry :: string
  pk_suppression :: string
  pk_suppression_expiry :: string
  pk_evictions :: string
  pk_generation :: string
  pk_lock :: string
  pk_state :: string
  pk_receipts_prefix :: string

definition peer_cache_keys_for :: "string \<Rightarrow> string \<Rightarrow> string \<Rightarrow> peer_cache_keys result" where
  "peer_cache_keys_for prefix domain peer_name =
     (if prefix = [] \<or> domain = [] \<or> peer_name = []
      then Inl (ValueError ''prefix, domain and peer_name must be non-empty'')
      else
        let base = prefix @ '':peer-cache:'' @ quote domain @ '':'' @ quote peer_name
        in Inr \<lparr>pk_records = base @ '':records'',
                pk_expiry = base @ '':expiry'',
                pk_suppression = base @ '':suppression'',
                pk_suppression_expiry = base @ '':suppression-expiry'',
                pk_evictions = base @ '':evictions'',
                pk_generation = base @ '':generation'',
                pk_lock = base @ '':lock'',
                pk_state = base @ '':state'',
                pk_receipts_prefix = prefix @ '':peer-cache:receipt:''\<rparr>)"

definition all_peer_keys :: "peer_cache_keys \<Rightarrow> string list" where
  "all_peer_keys k =
     [pk_records k, pk_expiry k, pk_suppression k, pk_suppression_expiry k, pk_evictions k,
      pk_generation k, pk_lock k, pk_state k]"

text \<open>The history keys of a dashboard scope, for a resolution written \<open>5m\<close> or \<open>1h\<close>.\<close>

definition history_keys :: "string \<Rightarrow> string \<Rightarrow> string \<Rightarrow> (string \<times> string) result" where
  "history_keys prefix scope resolution =
     (if prefix = [] \<or> scope = [] then Inl (ValueError ''prefix and scope must be non-empty'')
      else
        let base = prefix @ '':dashboard:history:'' @ resolution @ '':'' @ quote scope
        in Inr (base @ '':index'', base @ '':data''))"

lemma pool_key_shape:
  assumes "keys_for p d = Inr k" and "x \<in> set (all_pool_keys k)"
  shows "\<exists>suf. x = p @ '':pool:'' @ quote d @ CHR '':'' # suf"
  using assms by (auto simp: keys_for_def all_pool_keys_def Let_def split: if_splits)

lemma peer_key_shape:
  assumes "peer_cache_keys_for p d n = Inr k" and "x \<in> set (all_peer_keys k)"
  shows "\<exists>suf. x = p @ '':peer-cache:'' @ quote d @ CHR '':'' # (quote n @ CHR '':'' # suf)"
  using assms by (auto simp: peer_cache_keys_for_def all_peer_keys_def Let_def split: if_splits)

lemma pool_keys_distinct: "keys_for p d = Inr k \<Longrightarrow> distinct (all_pool_keys k)"
  by (auto simp: keys_for_def all_pool_keys_def Let_def split: if_splits)

lemma peer_keys_distinct: "peer_cache_keys_for p d n = Inr k \<Longrightarrow> distinct (all_peer_keys k)"
  by (auto simp: peer_cache_keys_for_def all_peer_keys_def Let_def split: if_splits)

lemma pool_keys_disjoint:
  assumes "keys_for p d = Inr k" and "keys_for p d' = Inr k'" and "d \<noteq> d'"
  shows "set (all_pool_keys k) \<inter> set (all_pool_keys k') = {}"
proof -
  have "x \<noteq> y" if "x \<in> set (all_pool_keys k)" and "y \<in> set (all_pool_keys k')" for x y
    using pool_key_shape [OF assms(1) that(1)] pool_key_shape [OF assms(2) that(2)] assms(3)
    by (auto dest: quoted_segment_unique)
  then show ?thesis by blast
qed

lemma peer_keys_disjoint:
  assumes "peer_cache_keys_for p d n = Inr k" and "peer_cache_keys_for p d' n' = Inr k'"
    and "(d, n) \<noteq> (d', n')"
  shows "set (all_peer_keys k) \<inter> set (all_peer_keys k') = {}"
proof -
  have "x \<noteq> y" if "x \<in> set (all_peer_keys k)" and "y \<in> set (all_peer_keys k')" for x y
    using peer_key_shape [OF assms(1) that(1)] peer_key_shape [OF assms(2) that(2)] assms(3)
    by (auto dest!: quoted_segment_unique)
  then show ?thesis by blast
qed

lemma pool_peer_disjoint:
  assumes "keys_for p d = Inr k" and "peer_cache_keys_for p d' n = Inr k'"
  shows "set (all_pool_keys k) \<inter> set (all_peer_keys k') = {}"
proof -
  have "x \<noteq> y" if "x \<in> set (all_pool_keys k)" and "y \<in> set (all_peer_keys k')" for x y
    using pool_key_shape [OF assms(1) that(1)] peer_key_shape [OF assms(2) that(2)] by auto
  then show ?thesis by blast
qed

lemma domains_key_fresh:
  "keys_for p d = Inr k \<Longrightarrow> domains_key p \<notin> set (all_pool_keys k)"
  by (auto simp: domains_key_def dest: pool_key_shape)

end
