(* ===== verification/Models.thy ===== *)
theory Models
  imports Prelude
begin

text \<open>
  The persisted data model (models.py, checker/errors.py): proxy states, endpoints with their
  canonical text, proxy records and probe results, and the field constraints pydantic
  enforces when a record is built or decoded. \<open>model_copy(update=...)\<close> is a record
  update: pydantic does not validate it again.
\<close>

section \<open>Decimal text of integers\<close>

text \<open>Python's \<open>str(n)\<close> of a nonnegative integer.\<close>

fun digit_char :: "nat \<Rightarrow> char" where
  "digit_char d = char_of (48 + d)"

fun str_nat :: "nat \<Rightarrow> string" where
  "str_nat n = (if n < 10 then [digit_char n] else str_nat (n div 10) @ [digit_char (n mod 10)])"

declare str_nat.simps [simp del]

fun val_digits :: "string \<Rightarrow> nat \<Rightarrow> nat" where
  "val_digits [] acc = acc"
| "val_digits (c # cs) acc = val_digits cs (10 * acc + (of_char c - 48))"

lemma val_digits_append: "val_digits (xs @ ys) acc = val_digits ys (val_digits xs acc)"
  by (induction xs arbitrary: acc) auto

lemma of_digit_char: "d < 10 \<Longrightarrow> of_char (digit_char d) = 48 + (d :: nat)"
  by (simp add: of_char_of take_bit_nat_def)

lemma val_str_nat: "val_digits (str_nat n) 0 = n"
proof (induction n rule: str_nat.induct)
  case (1 n)
  show ?case
  proof (cases "n < 10")
    case True
    then have "str_nat n = [digit_char n]" by (subst str_nat.simps) simp
    with True show ?thesis by (simp add: of_digit_char del: digit_char.simps)
  next
    case False
    then have "str_nat n = str_nat (n div 10) @ [digit_char (n mod 10)]"
      by (subst str_nat.simps) simp
    with "1" [OF False] show ?thesis
      by (simp add: val_digits_append of_digit_char del: digit_char.simps)
  qed
qed

lemma str_nat_inject [simp]: "str_nat m = str_nat n \<longleftrightarrow> m = n"
  by (metis val_str_nat)

definition str_int :: "int \<Rightarrow> string" where
  "str_int n = (if n < 0 then CHR ''-'' # str_nat (nat (- n)) else str_nat (nat n))"

lemma str_nat_digits: "c \<in> set (str_nat n) \<Longrightarrow> 48 \<le> (of_char c :: nat) \<and> (of_char c :: nat) \<le> 57"
proof (induction n rule: str_nat.induct)
  case (1 n)
  then show ?case
    by (subst (asm) (2) str_nat.simps)
       (auto split: if_splits simp: of_digit_char simp del: digit_char.simps)
qed

lemma colon_notin_str_nat [simp]: "CHR '':'' \<notin> set (str_nat n)"
  using str_nat_digits [of "CHR '':''" n] by auto

section \<open>Proxy states, endpoints and records\<close>

datatype proxy_state = Candidate | Available | Degraded | Quarantined

text \<open>
  \<open>host\<close> is \<open>str(self.host)\<close>, the text of an \<open>IPv4Address\<close> or
  \<open>IPv6Address\<close>, and \<open>host_version\<close> the address family the object carries.
\<close>

record proxy_endpoint =
  host :: string
  host_version :: nat
  port :: nat

definition canonical :: "proxy_endpoint \<Rightarrow> string" where
  "canonical e =
     (if host_version e = 6 then ''['' @ host e @ '']:'' @ str_nat (port e)
      else host e @ '':'' @ str_nat (port e))"

text \<open>The text forms of the two address families (dotted digits, colon-separated hex).\<close>

definition valid_endpoint :: "proxy_endpoint \<Rightarrow> bool" where
  "valid_endpoint e \<longleftrightarrow> 1 \<le> port e \<and> port e \<le> 65535 \<and>
     (host_version e = 4 \<or> host_version e = 6) \<and> host e \<noteq> [] \<and>
     CHR '']'' \<notin> set (host e) \<and> CHR ''['' \<notin> set (host e) \<and>
     (host_version e = 4 \<longrightarrow> CHR '':'' \<notin> set (host e))"

record proxy_record =
  endpoint :: proxy_endpoint
  rec_domain :: string
  score :: int
  state :: proxy_state
  source_names :: "string set"
  first_seen_at :: time
  last_seen_at :: time
  last_checked_at :: "time option"
  next_check_at :: time
  consecutive_successes :: int
  consecutive_failures :: int
  success_count :: int
  failure_count :: int
  latency_ewma_ms :: "pyfloat option"
  last_status_code :: "int option"
  last_error_type :: "string option"
  last_error_message :: "string option"

text \<open>The \<open>Field(...)\<close> constraints of \<open>ProxyRecord\<close>.\<close>

definition valid_latency :: "pyfloat option \<Rightarrow> bool" where
  "valid_latency l = (case l of None \<Rightarrow> True | Some v \<Rightarrow> pf_le (Finite 0) v)"

definition valid_status :: "int option \<Rightarrow> bool" where
  "valid_status c = (case c of None \<Rightarrow> True | Some n \<Rightarrow> 100 \<le> n \<and> n \<le> 599)"

definition valid_text :: "nat \<Rightarrow> string option \<Rightarrow> bool" where
  "valid_text n t = (case t of None \<Rightarrow> True | Some s \<Rightarrow> length s \<le> n)"

definition valid_record :: "proxy_record \<Rightarrow> bool" where
  "valid_record r \<longleftrightarrow>
     valid_endpoint (endpoint r) \<and>
     1 \<le> length (rec_domain r) \<and> length (rec_domain r) \<le> 253 \<and>
     0 \<le> score r \<and> score r \<le> 100 \<and> finite (source_names r) \<and>
     0 \<le> consecutive_successes r \<and> 0 \<le> consecutive_failures r \<and>
     0 \<le> success_count r \<and> 0 \<le> failure_count r \<and>
     valid_latency (latency_ewma_ms r) \<and> valid_status (last_status_code r) \<and>
     valid_text 64 (last_error_type r) \<and> valid_text 256 (last_error_message r)"

section \<open>Probe results\<close>

datatype probe_category = Success | Proxy_Error | System_Error | Cancelled

record probe_result =
  category :: probe_category
  latency_ms :: "pyfloat option"
  status_code :: "int option"
  error_type :: "string option"
  error_message :: "string option"

definition valid_result :: "probe_result \<Rightarrow> bool" where
  "valid_result p \<longleftrightarrow> valid_latency (latency_ms p) \<and> valid_status (status_code p) \<and>
     valid_text 64 (error_type p) \<and> valid_text 256 (error_message p)"

section \<open>The canonical text identifies an endpoint\<close>

lemma last_part_unique:
  assumes "xs @ c # a = ys @ c # b" and "c \<notin> set a" and "c \<notin> set b"
  shows "xs = ys \<and> a = b"
proof -
  have "rev a @ c # rev xs = rev b @ c # rev ys"
    using assms(1) by (metis append.assoc append_Cons append_Nil rev.simps(2) rev_append)
  moreover have "\<And>zs us. c \<notin> set zs \<Longrightarrow> takeWhile (\<lambda>x. x \<noteq> c) (rev zs @ c # us) = rev zs"
    by (subst takeWhile_append2) auto
  ultimately have "rev a = rev b" using assms(2,3) by metis
  then have "a = b" by simp
  with assms(1) show ?thesis by simp
qed

lemma canonical_inj:
  assumes "valid_endpoint e" and "valid_endpoint f" and "canonical e = canonical f"
  shows "e = f"
proof -
  have v: "host_version e = host_version f"
  proof (rule ccontr)
    assume "host_version e \<noteq> host_version f"
    with assms(1,2) have "(host_version e = 6 \<and> host_version f = 4) \<or> (host_version e = 4 \<and> host_version f = 6)"
      by (auto simp: valid_endpoint_def)
    with assms show False
      by (auto simp: canonical_def valid_endpoint_def neq_Nil_conv)
  qed
  have h: "host e = host f \<and> port e = port f"
  proof (cases "host_version e = 6")
    case True
    with assms(3) v have "(host e @ '']'') @ CHR '':'' # str_nat (port e) = (host f @ '']'') @ CHR '':'' # str_nat (port f)"
      by (simp add: canonical_def)
    then have "host e @ '']'' = host f @ '']'' \<and> str_nat (port e) = str_nat (port f)"
      by (rule last_part_unique) simp_all
    then show ?thesis by simp
  next
    case False
    with assms(3) v have "host e @ CHR '':'' # str_nat (port e) = host f @ CHR '':'' # str_nat (port f)"
      by (simp add: canonical_def)
    then have "host e = host f \<and> str_nat (port e) = str_nat (port f)"
      by (rule last_part_unique) simp_all
    then show ?thesis by simp
  qed
  from v h show ?thesis by (cases e, cases f) simp
qed

section \<open>The endpoint check of security/network.py\<close>

text \<open>
  \<open>is_global\<close> is \<open>ipaddress\<close>'s property of the host; a compiled network is its address
  family with its membership test.
\<close>

type_synonym ip_network = "nat \<times> (string \<Rightarrow> bool)"

definition validate_proxy_endpoint ::
  "(string \<Rightarrow> bool) \<Rightarrow> bool \<Rightarrow> ip_network list \<Rightarrow> proxy_endpoint \<Rightarrow> proxy_endpoint result" where
  "validate_proxy_endpoint is_global allow_non_global networks ep =
     (if \<not> allow_non_global \<and> \<not> is_global (host ep)
      then Inl (NetworkBoundaryError ''proxy endpoint uses a non-global address'')
      else if \<exists>n \<in> set networks. host_version ep = fst n \<and> snd n (host ep)
      then Inl (NetworkBoundaryError ''proxy endpoint uses a blocked network'')
      else Inr ep)"

end
