(* ===== verification/Scoring.thy ===== *)
theory Scoring
  imports Models
begin

text \<open>
  Health scoring and check scheduling (checker/scoring.py, checker/scheduling.py): how a
  probe result changes a record, and how long the record waits for its next check. The
  lemmas show that scoring keeps the field constraints of a record, that a proxy is
  promoted only after two successes and quarantined after three failures in a row, and that
  every check is scheduled strictly later, inside the interval of the record's health.
\<close>

section \<open>Applying a probe result\<close>

definition penalty_for :: "int \<Rightarrow> int" where
  "penalty_for failures =
     (let penalty = (if failures = 1 then 15 else 25)
      in if failures \<ge> 3 then 35 else penalty)"

definition latency_average :: "pyfloat option \<Rightarrow> pyfloat option \<Rightarrow> pyfloat option" where
  "latency_average latency sample =
     (case sample of
        None \<Rightarrow> latency
      | Some v \<Rightarrow>
          (case latency of
             None \<Rightarrow> Some v
           | Some l \<Rightarrow> Some (pf_add (pf_scale l (7/10)) (pf_scale v (3/10)))))"

definition apply_success :: "proxy_record \<Rightarrow> probe_result \<Rightarrow> time \<Rightarrow> proxy_record" where
  "apply_success record result now =
     (let successes = consecutive_successes record + 1;
          confirmed = (state record = Available \<or> successes \<ge> 2)
      in record
           \<lparr>score := min 100 (max (if confirmed then 80 else 70) (score record) + 5),
            state := (if confirmed then Available else Candidate),
            last_checked_at := Some now,
            consecutive_successes := successes,
            consecutive_failures := 0,
            success_count := success_count record + 1,
            latency_ewma_ms := latency_average (latency_ewma_ms record) (latency_ms result),
            last_status_code := status_code result,
            last_error_type := None,
            last_error_message := None\<rparr>)"

definition apply_failure :: "proxy_record \<Rightarrow> probe_result \<Rightarrow> time \<Rightarrow> proxy_record" where
  "apply_failure record result now =
     (let failures = consecutive_failures record + 1;
          new_score = max 0 (score record - penalty_for failures);
          new_state =
            (if failures \<ge> 3 \<or> new_score = 0 then Quarantined
             else if new_score < 50 then Degraded
             else state record)
      in record
           \<lparr>score := new_score,
            state := new_state,
            last_checked_at := Some now,
            consecutive_successes := 0,
            consecutive_failures := failures,
            failure_count := failure_count record + 1,
            last_status_code := status_code result,
            last_error_type := error_type result,
            last_error_message := error_message result\<rparr>)"

definition apply_probe_result :: "proxy_record \<Rightarrow> probe_result \<Rightarrow> time \<Rightarrow> proxy_record" where
  "apply_probe_result record result now =
     (if category result = System_Error \<or> category result = Cancelled then record
      else if category result = Success then apply_success record result now
      else apply_failure record result now)"

lemmas apply_defs =
  apply_probe_result_def apply_success_def apply_failure_def penalty_for_def Let_def

section \<open>Scheduling the next check\<close>

definition check_interval_seconds :: "proxy_record \<Rightarrow> int \<times> int" where
  "check_interval_seconds record =
     (if state record = Quarantined then
        (if consecutive_failures record \<le> 1 then (300, 600)
         else if consecutive_failures record = 2 then (900, 1800)
         else if consecutive_failures record \<le> 4 then (3600, 7200)
         else (21600, 86400))
      else if consecutive_failures record \<ge> 3 then (3600, 7200)
      else if consecutive_failures record = 2 then (900, 1800)
      else if consecutive_failures record = 1 then (300, 600)
      else if state record = Candidate then (30, 60)
      else if score record \<ge> 90 then (180, 300)
      else if state record = Available \<and> score record \<ge> 80 then (180, 300)
      else if score record \<ge> 70 then (900, 1800)
      else (1800, 3600))"

text \<open>
  \<open>jitter\<close> is \<open>random.randint\<close>: any function with a value between its arguments.
\<close>

definition schedule_check :: "proxy_record \<Rightarrow> time \<Rightarrow> (int \<Rightarrow> int \<Rightarrow> int) \<Rightarrow> time" where
  "schedule_check record now jitter =
     (case check_interval_seconds record of
        (lower, upper) \<Rightarrow> now + of_int (jitter lower upper))"

definition randint_like :: "(int \<Rightarrow> int \<Rightarrow> int) \<Rightarrow> bool" where
  "randint_like jitter \<longleftrightarrow> (\<forall>a b. a \<le> b \<longrightarrow> a \<le> jitter a b \<and> jitter a b \<le> b)"

lemma interval_ordered:
  "check_interval_seconds r = (lo, hi) \<Longrightarrow> 30 \<le> lo \<and> lo \<le> hi \<and> hi \<le> 86400"
  by (auto simp: check_interval_seconds_def split: if_splits)

lemma schedule_check_bounds:
  assumes "randint_like jitter" and "check_interval_seconds r = (lo, hi)"
  shows "now + of_int lo \<le> schedule_check r now jitter \<and> schedule_check r now jitter \<le> now + of_int hi"
  using assms interval_ordered [OF assms(2)]
  by (simp add: schedule_check_def randint_like_def)

section \<open>Lemmas on scoring\<close>

lemma apply_identity [simp]:
  "endpoint (apply_probe_result r p now) = endpoint r"
  "rec_domain (apply_probe_result r p now) = rec_domain r"
  "source_names (apply_probe_result r p now) = source_names r"
  "first_seen_at (apply_probe_result r p now) = first_seen_at r"
  "last_seen_at (apply_probe_result r p now) = last_seen_at r"
  "next_check_at (apply_probe_result r p now) = next_check_at r"
  by (simp_all add: apply_defs)

lemma pf_nonneg_cases:
  assumes "pf_le (Finite 0) v"
  obtains "v = PosInf" | a where "v = Finite a" and "0 \<le> a"
  using assms by (cases v) auto

lemma latency_average_valid:
  "valid_latency l \<Longrightarrow> valid_latency v \<Longrightarrow> valid_latency (latency_average l v)"
  by (auto simp: valid_latency_def latency_average_def split: option.splits
      elim!: pf_nonneg_cases)

lemma apply_probe_result_valid:
  assumes "valid_record r" and "valid_result p"
  shows "valid_record (apply_probe_result r p now)"
proof -
  have "valid_record (apply_success r p now)"
    using assms latency_average_valid
    by (auto simp: valid_record_def valid_result_def apply_success_def valid_text_def Let_def)
  moreover have "valid_record (apply_failure r p now)"
    using assms
    by (auto simp: valid_record_def valid_result_def apply_failure_def penalty_for_def Let_def)
  ultimately show ?thesis using assms by (simp add: apply_probe_result_def)
qed

section \<open>Histories of checks\<close>

text \<open>
  A record under a sequence of probe results, each with the time it arrived. Results of the
  categories \<open>System_Error\<close> and \<open>Cancelled\<close> say nothing about the proxy; the others are
  decisive.
\<close>

definition check_history :: "proxy_record \<Rightarrow> (probe_result \<times> time) list \<Rightarrow> proxy_record" where
  "check_history r ps = foldl (\<lambda>r (p, now). apply_probe_result r p now) r ps"

definition decisive :: "(probe_result \<times> time) list \<Rightarrow> probe_category list" where
  "decisive ps =
     filter (\<lambda>c. c = Success \<or> c = Proxy_Error) (map (category \<circ> fst) ps)"

text \<open>How many of the last outcomes equal \<open>c\<close>.\<close>

definition streak :: "probe_category \<Rightarrow> probe_category list \<Rightarrow> nat" where
  "streak c cs = length (takeWhile (\<lambda>x. x = c) (rev cs))"

lemma check_history_snoc [simp]:
  "check_history r (ps @ [(p, now)]) = apply_probe_result (check_history r ps) p now"
  by (simp add: check_history_def)

lemma check_history_Nil [simp]: "check_history r [] = r"
  by (simp add: check_history_def)

lemma streak_snoc: "streak c (cs @ [d]) = (if d = c then Suc (streak c cs) else 0)"
  by (simp add: streak_def)

lemma decisive_snoc:
  "decisive (ps @ [(p, now)]) =
     (if category p = Success \<or> category p = Proxy_Error then decisive ps @ [category p] else decisive ps)"
  by (simp add: decisive_def)

lemma history_counters:
  assumes "consecutive_successes r = 0" and "consecutive_failures r = 0"
  shows "consecutive_successes (check_history r ps) = int (streak Success (decisive ps)) \<and>
    consecutive_failures (check_history r ps) = int (streak Proxy_Error (decisive ps)) \<and>
    success_count (check_history r ps) = success_count r + int (count_list (decisive ps) Success) \<and>
    failure_count (check_history r ps) = failure_count r + int (count_list (decisive ps) Proxy_Error)"
proof (induction ps rule: rev_induct)
  case Nil
  with assms show ?case by (simp add: decisive_def streak_def)
next
  case (snoc a ps)
  obtain p now where a: "a = (p, now)" by (cases a)
  from snoc show ?case
    by (cases "category p") (simp_all add: a decisive_snoc streak_snoc apply_defs)
qed

lemma history_valid:
  "valid_record r \<Longrightarrow> \<forall>(p, now) \<in> set ps. valid_result p \<Longrightarrow> valid_record (check_history r ps)"
  by (induction ps rule: rev_induct) (auto simp: apply_probe_result_valid)

lemma streak_two:
  "2 \<le> streak c cs \<Longrightarrow> \<exists>us. cs = us @ [c, c]"
proof -
  assume "2 \<le> streak c cs"
  then obtain a b us where rev: "rev cs = a # b # us" and "a = c" and "b = c"
    unfolding streak_def by (cases "rev cs"; cases "tl (rev cs)") (auto split: if_splits)
  then have "cs = rev us @ [c, c]" by (metis append_Cons append_Nil append_assoc rev.simps(2) rev_rev_ident)
  then show ?thesis by blast
qed

lemma apply_promotes:
  "state (apply_probe_result r p now) = Available \<Longrightarrow>
     state r = Available \<or> (category p = Success \<and> 2 \<le> consecutive_successes r + 1)"
  by (auto simp: apply_defs split: if_splits)

lemma history_promotes:
  assumes "consecutive_successes r = 0" and "consecutive_failures r = 0" and "state r \<noteq> Available"
    and "state (check_history r ps) = Available"
  shows "\<exists>us vs. decisive ps = us @ [Success, Success] @ vs"
  using assms(4)
proof (induction ps rule: rev_induct)
  case Nil
  with assms(3) show ?case by simp
next
  case (snoc a ps)
  obtain p now where a: "a = (p, now)" by (cases a)
  from snoc.prems have "state (apply_probe_result (check_history r ps) p now) = Available" by (simp add: a)
  then consider "state (check_history r ps) = Available"
    | "category p = Success" "2 \<le> consecutive_successes (check_history r ps) + 1"
    using apply_promotes by blast
  then show ?case
  proof cases
    case 1
    from snoc.IH [OF this] obtain us vs where "decisive ps = us @ [Success, Success] @ vs" by blast
    then have "decisive (ps @ [a]) = us @ [Success, Success] @ vs \<or>
        decisive (ps @ [a]) = us @ [Success, Success] @ (vs @ [category p])"
      by (simp add: a decisive_snoc)
    then show ?thesis by blast
  next
    case 2
    then have "2 \<le> streak Success (decisive (ps @ [a]))"
      using history_counters [OF assms(1,2), of ps] by (simp add: a decisive_snoc streak_snoc)
    then show ?thesis using streak_two by force
  qed
qed

section \<open>Properties\<close>

text \<open>
  C7: a probe result never breaks a record: the result satisfies every field constraint of
  \<open>ProxyRecord\<close> (although \<open>model_copy\<close> does not validate), the identity of the proxy, its
  sources and its schedule are kept, and a system error or a cancelled probe changes nothing.
\<close>

theorem probe_result_keeps_record_valid:
  assumes "valid_record r" and "\<forall>(p, now) \<in> set ps. valid_result p"
  shows "valid_record (check_history r ps) \<and> endpoint (check_history r ps) = endpoint r \<and>
    source_names (check_history r ps) = source_names r \<and>
    next_check_at (check_history r ps) = next_check_at r \<and>
    (decisive ps = [] \<longrightarrow> check_history r ps = r)"
proof -
  have "endpoint (check_history r ps) = endpoint r \<and> source_names (check_history r ps) = source_names r \<and>
    next_check_at (check_history r ps) = next_check_at r \<and>
    (decisive ps = [] \<longrightarrow> check_history r ps = r)"
  proof (induction ps rule: rev_induct)
    case (snoc a ps)
    obtain p now where a: "a = (p, now)" by (cases a)
    show ?case
      by (cases "category p") (use snoc in \<open>auto simp: a decisive_snoc apply_probe_result_def [of r p]\<close>)
  qed simp
  with history_valid [OF assms] show ?thesis by simp
qed

definition blank :: proxy_record where
  "blank =
     \<lparr>endpoint = \<lparr>host = ''h'', host_version = 4, port = 80\<rparr>, rec_domain = ''d'', score = 50,
      state = Candidate, source_names = {}, first_seen_at = 0, last_seen_at = 0,
      last_checked_at = None, next_check_at = 0, consecutive_successes = 0,
      consecutive_failures = 0, success_count = 0, failure_count = 0,
      latency_ewma_ms = None, last_status_code = None, last_error_type = None,
      last_error_message = None\<rparr>"

definition probe :: "probe_category \<Rightarrow> rat \<Rightarrow> probe_result" where
  "probe c l = \<lparr>category = c, latency_ms = Some (Finite l), status_code = None,
                error_type = None, error_message = None\<rparr>"

lemma blank_valid: "valid_record blank"
  by (simp add: blank_def valid_record_def valid_endpoint_def valid_latency_def valid_status_def valid_text_def)

lemma probe_valid: "0 \<le> l \<Longrightarrow> valid_result (probe c l)"
  by (simp add: probe_def valid_result_def valid_latency_def valid_status_def valid_text_def)

theorem probe_result_keeps_record_valid_witness:
  "valid_record (check_history blank [(probe Success 10, 1), (probe Proxy_Error 0, 2), (probe Cancelled 0, 3)])"
  using probe_result_keeps_record_valid [OF blank_valid,
      of "[(probe Success 10, 1), (probe Proxy_Error 0, 2), (probe Cancelled 0, 3)]"]
  by (simp add: probe_valid)

text \<open>
  A proxy that starts unproven becomes available only after two successful probes in a
  row, with no failure between them; and the counters of a record are at all times the
  lengths of the current streaks and the totals of the decisive outcomes.
\<close>

lemma promotion_needs_two_successes:
  assumes "consecutive_successes r = 0" and "consecutive_failures r = 0" and "state r \<noteq> Available"
  shows "(state (check_history r ps) = Available \<longrightarrow> (\<exists>us vs. decisive ps = us @ [Success, Success] @ vs)) \<and>
    consecutive_successes (check_history r ps) = int (streak Success (decisive ps)) \<and>
    consecutive_failures (check_history r ps) = int (streak Proxy_Error (decisive ps)) \<and>
    success_count (check_history r ps) = success_count r + int (count_list (decisive ps) Success) \<and>
    failure_count (check_history r ps) = failure_count r + int (count_list (decisive ps) Proxy_Error)"
  using history_promotes [OF assms] history_counters [OF assms(1,2)] by blast

lemma promotion_needs_two_successes_witness:
  "state (check_history blank [(probe Success 10, 1), (probe Cancelled 0, 2), (probe Success 10, 3)]) = Available \<and>
   (\<exists>us vs. decisive [(probe Success 10, 1), (probe Cancelled 0, 2), (probe Success 10, 3)] = us @ [Success, Success] @ vs)"
proof -
  let ?ps = "[(probe Success 10, 1), (probe Cancelled 0, 2), (probe Success 10, 3)]"
  have "state (check_history blank ?ps) = Available"
    by (simp add: check_history_def blank_def probe_def apply_defs)
  moreover have "consecutive_successes blank = 0" "consecutive_failures blank = 0" "state blank \<noteq> Available"
    by (simp_all add: blank_def)
  from promotion_needs_two_successes [OF this, of ?ps] calculation
  have "\<exists>us vs. decisive ?ps = us @ [Success, Success] @ vs" by blast
  ultimately show ?thesis by blast
qed



text \<open>
  The moving average of the latencies stays between the smallest and the largest latency
  measured, whatever the order of the results, and weights the last one with 3/10.
\<close>

lemma latency_average_between:
  assumes "latency_ewma_ms r = Some (Finite a)" and "lo \<le> a" and "a \<le> hi"
    and "\<forall>(p, now) \<in> set ps. case latency_ms p of None \<Rightarrow> True | Some v \<Rightarrow> (\<exists>x. v = Finite x \<and> lo \<le> x \<and> x \<le> hi)"
  shows "\<exists>x. latency_ewma_ms (check_history r ps) = Some (Finite x) \<and> lo \<le> x \<and> x \<le> hi"
  using assms(4)
proof (induction ps rule: rev_induct)
  case Nil
  with assms show ?case by simp
next
  case (snoc a ps)
  obtain p now where a: "a = (p, now)" by (cases a)
  from snoc obtain x where x: "latency_ewma_ms (check_history r ps) = Some (Finite x)" "lo \<le> x" "x \<le> hi"
    by auto
  have mix: "lo \<le> x * (7/10) + y * (3/10) \<and> x * (7/10) + y * (3/10) \<le> hi" if "lo \<le> y" "y \<le> hi" for y
    using x that by auto
  from snoc.prems have "case latency_ms p of None \<Rightarrow> True | Some v \<Rightarrow> (\<exists>x. v = Finite x \<and> lo \<le> x \<and> x \<le> hi)"
    by (simp add: a)
  with x mix show ?case
    by (auto simp: a apply_probe_result_def apply_success_def apply_failure_def latency_average_def Let_def
        split: option.splits)
qed

text \<open>
  Every check is scheduled in the future, between 30 seconds and one day away, whatever
  the record and whatever the random source draws; a quarantined proxy waits at least as long
  after each further failure, and a fresh candidate is checked within a minute.
\<close>

lemma schedule_bounds:
  assumes "randint_like jitter"
  shows "now + 30 \<le> schedule_check r now jitter \<and> schedule_check r now jitter \<le> now + 86400 \<and>
    (state r = Quarantined \<longrightarrow> consecutive_failures r \<le> k \<longrightarrow>
       fst (check_interval_seconds r) \<le> fst (check_interval_seconds (r\<lparr>consecutive_failures := k\<rparr>)) \<and>
       snd (check_interval_seconds r) \<le> snd (check_interval_seconds (r\<lparr>consecutive_failures := k\<rparr>))) \<and>
    (state r = Candidate \<longrightarrow> consecutive_failures r = 0 \<longrightarrow> schedule_check r now jitter \<le> now + 60)"
proof -
  obtain lo hi where i: "check_interval_seconds r = (lo, hi)" by fastforce
  note b = schedule_check_bounds [OF assms i, of now] and o = interval_ordered [OF i]
  have "(30 :: rat) \<le> of_int lo" "(of_int hi :: rat) \<le> 86400"
    using o by (metis of_int_le_iff of_int_numeral)+
  with b have "now + 30 \<le> schedule_check r now jitter \<and> schedule_check r now jitter \<le> now + 86400" by auto
  moreover have "schedule_check r now jitter \<le> now + 60" if "state r = Candidate" "consecutive_failures r = 0"
  proof -
    from that i have "hi = 60" by (simp add: check_interval_seconds_def)
    with b show ?thesis by simp
  qed
  ultimately show ?thesis by (auto simp: check_interval_seconds_def)
qed

lemma schedule_bounds_witness:
  "5 + 30 \<le> schedule_check blank 5 (\<lambda>a b. a) \<and> schedule_check blank 5 (\<lambda>a b. a) \<le> 5 + 60"
  using schedule_bounds [of "\<lambda>a b. a" 5 blank] by (simp add: randint_like_def blank_def)

end
