(* ===== verification/Pool.thy ===== *)
theory Pool
  imports Redis Keys Scoring
begin

text \<open>
  The proxy pool of storage/repository.py and its Lua scripts (storage/lua.py): the state of
  one domain's pool, the two index scores, and every operation that changes the state. A
  Lua script and a \<open>MULTI\<close> pipeline are one atomic function on the pool of a domain; a
  method of \<open>RedisRepository\<close> checks its arguments and runs the script on the pool of its
  domain. The record of services \<open>E\<close> holds the Redis commands and the JSON codec, which
  are outside the repository.
\<close>

section \<open>Services and state\<close>

record ('z, 'h, 'o, 's, 'p) svc =
  zs :: "'z zset_api"
  rh :: "('h, 'p) hash_api"
  oh :: "('o, string) hash_api"
  ss :: "'s set_api"
  encode_record :: "proxy_record \<Rightarrow> 'p"
  decode_record :: "'p \<Rightarrow> proxy_record option"

text \<open>
  The nine keys of \<open>PoolKeys\<close>. The two \<open>ready\<close> keys are Redis strings; the others are
  the hash of encoded records, the hash of lease owners and five sorted sets.
\<close>

record ('z, 'h, 'o) pool =
  records :: 'h
  quality :: 'z
  due :: 'z
  leased :: 'z
  lease_owners :: 'o
  available_latency :: 'z
  available_latency_ready :: "string option"
  priority_due :: 'z
  priority_due_ready :: "string option"

record ('z, 'h, 'o, 's) repo =
  domains :: 's
  pools :: "string \<Rightarrow> ('z, 'h, 'o) pool"

record lease =
  lease_domain :: string
  lease_endpoint :: member
  lease_owner :: string
  expires_at :: time

text \<open>
  What the codec promises (pydantic's \<open>model_dump_json\<close> and \<open>model_validate_json\<close>): a
  valid record with a finite latency reads back as itself, and whatever decodes satisfies
  the field constraints. (An infinite latency is written as \<open>null\<close>.)
\<close>

definition storable :: "proxy_record \<Rightarrow> bool" where
  "storable r \<longleftrightarrow> valid_record r \<and>
     (case latency_ewma_ms r of None \<Rightarrow> True | Some v \<Rightarrow> isfinite v)"

locale pool_svc =
  z: zset "zs E" + r: hash "rh E" + o: hash "oh E" + s: redis_set "ss E"
  for E :: "('z, 'h, 'o, 's, 'p) svc" +
  assumes codec: "storable rec \<Longrightarrow> decode_record E (encode_record E rec) = Some rec"
    and decoded_valid: "decode_record E raw = Some rec \<Longrightarrow> valid_record rec"

section \<open>Index scores\<close>

definition latency_index_score :: "proxy_record \<Rightarrow> rat option" where
  "latency_index_score record =
     (case latency_ewma_ms record of
        None \<Rightarrow> None
      | Some latency \<Rightarrow>
          if state record \<noteq> Available then None
          else (case latency of
                  Finite v \<Rightarrow> if v \<ge> 0 then Some v else None
                | _ \<Rightarrow> None))"

definition priority_due_score :: "proxy_record \<Rightarrow> rat \<Rightarrow> time option" where
  "priority_due_score record max_latency_ms =
     (case latency_index_score record of
        None \<Rightarrow> None
      | Some latency \<Rightarrow>
          if latency > max_latency_ms then None else Some (next_check_at record))"

text \<open>
  \<open>ZREM\<close> when there is no score, \<open>ZADD\<close> otherwise: the branch each write of the latency
  and the priority index takes.
\<close>

definition z_put :: "'z zset_api \<Rightarrow> 'z \<Rightarrow> member \<Rightarrow> rat option \<Rightarrow> 'z" where
  "z_put Z z m sc = (case sc of None \<Rightarrow> z_rem Z z m | Some v \<Rightarrow> z_add Z z m v)"

section \<open>Reading a record\<close>

definition get_record_pool ::
  "('z, 'h, 'o, 's, 'p) svc \<Rightarrow> ('z, 'h, 'o) pool \<Rightarrow> member \<Rightarrow> proxy_record option result" where
  "get_record_pool E p ep =
     (case h_get (rh E) (records p) ep of
        None \<Rightarrow> Inr None
      | Some raw \<Rightarrow>
          (case decode_record E raw of
             None \<Rightarrow> Inl (ValueError ''invalid record'')
           | Some rec \<Rightarrow> Inr (Some rec)))"

section \<open>Pipelines and scripts\<close>

definition insert_candidate ::
  "('z, 'h, 'o, 's, 'p) svc \<Rightarrow> proxy_record \<Rightarrow> ('z, 'h, 'o) pool \<Rightarrow> ('z, 'h, 'o) pool" where
  "insert_candidate E record p =
     (let ep = canonical (endpoint record);
          candidate = record\<lparr>state := Candidate\<rparr>
      in p\<lparr>records := h_set (rh E) (records p) ep (encode_record E candidate),
           quality := z_add (zs E) (quality p) ep (of_int (score candidate)),
           due := z_add (zs E) (due p) ep (next_check_at candidate),
           available_latency := z_rem (zs E) (available_latency p) ep,
           priority_due := z_rem (zs E) (priority_due p) ep\<rparr>)"

definition merge_seen :: "proxy_record \<Rightarrow> proxy_record \<Rightarrow> proxy_record" where
  "merge_seen existing record =
     existing\<lparr>source_names := source_names existing \<union> source_names record,
              first_seen_at := min (first_seen_at existing) (first_seen_at record),
              last_seen_at := max (last_seen_at existing) (last_seen_at record)\<rparr>"

definition merge_candidate ::
  "('z, 'h, 'o, 's, 'p) svc \<Rightarrow> rat \<Rightarrow> proxy_record \<Rightarrow> proxy_record
     \<Rightarrow> ('z, 'h, 'o) pool \<Rightarrow> ('z, 'h, 'o) pool" where
  "merge_candidate E max_latency existing record p =
     (let ep = canonical (endpoint record);
          merged = merge_seen existing record
      in p\<lparr>records := h_set (rh E) (records p) ep (encode_record E merged),
           available_latency :=
             z_put (zs E) (available_latency p) ep (latency_index_score merged),
           priority_due :=
             z_put (zs E) (priority_due p) ep (priority_due_score merged max_latency)\<rparr>)"

text \<open>The write of \<open>upsert_candidate\<close>, given what its read returned.\<close>

definition upsert_write ::
  "('z, 'h, 'o, 's, 'p) svc \<Rightarrow> rat \<Rightarrow> proxy_record option \<Rightarrow> proxy_record
     \<Rightarrow> ('z, 'h, 'o) pool \<Rightarrow> ('z, 'h, 'o) pool" where
  "upsert_write E max_latency existing record p =
     (case existing of
        None \<Rightarrow> insert_candidate E record p
      | Some old \<Rightarrow> merge_candidate E max_latency old record p)"

definition save_pool ::
  "('z, 'h, 'o, 's, 'p) svc \<Rightarrow> rat \<Rightarrow> proxy_record \<Rightarrow> ('z, 'h, 'o) pool \<Rightarrow> ('z, 'h, 'o) pool" where
  "save_pool E max_latency verified p =
     (let ep = canonical (endpoint verified)
      in p\<lparr>records := h_set (rh E) (records p) ep (encode_record E verified),
           quality := z_add (zs E) (quality p) ep (of_int (score verified)),
           due := z_add (zs E) (due p) ep (next_check_at verified),
           available_latency :=
             z_put (zs E) (available_latency p) ep (latency_index_score verified),
           priority_due :=
             z_put (zs E) (priority_due p) ep (priority_due_score verified max_latency)\<rparr>)"

text \<open>\<open>CLAIM_PRIORITY_DUE\<close>: the body of both of its loops, then the script.\<close>

fun claim_members ::
  "('z, 'h, 'o, 's, 'p) svc \<Rightarrow> time \<Rightarrow> string \<Rightarrow> member list \<Rightarrow> ('z, 'h, 'o) pool \<Rightarrow> member list
     \<Rightarrow> ('z, 'h, 'o) pool \<times> member list" where
  "claim_members E expires owner [] p claimed = (p, claimed)"
| "claim_members E expires owner (m # ms) p claimed =
     (if z_score (zs E) (leased p) m = None then
        claim_members E expires owner ms
          (p\<lparr>due := z_rem (zs E) (due p) m,
             leased := z_add (zs E) (leased p) m expires,
             lease_owners := h_set (oh E) (lease_owners p) m owner\<rparr>)
          (claimed @ [m])
      else claim_members E expires owner ms p claimed)"

definition claim_priority_due ::
  "('z, 'h, 'o, 's, 'p) svc \<Rightarrow> time \<Rightarrow> nat \<Rightarrow> nat \<Rightarrow> time \<Rightarrow> string
     \<Rightarrow> ('z, 'h, 'o) pool \<Rightarrow> ('z, 'h, 'o) pool \<times> member list" where
  "claim_priority_due E now limit priority_limit expires owner p =
     (let priority = map fst (z_rangelimit (zs E) (priority_due p) Below_All (Incl now) 0 priority_limit);
          (p1, claimed) = claim_members E expires owner priority p [];
          remaining = limit - length claimed
      in if remaining > 0 then
           (let general = map fst (z_rangelimit (zs E) (due p1) Below_All (Incl now) 0 remaining)
            in claim_members E expires owner general p1 claimed)
         else (p1, claimed))"

definition complete_lease ::
  "('z, 'h, 'o, 's, 'p) svc \<Rightarrow> member \<Rightarrow> string \<Rightarrow> 'p \<Rightarrow> rat \<Rightarrow> time \<Rightarrow> rat option \<Rightarrow> time option
     \<Rightarrow> ('z, 'h, 'o) pool \<Rightarrow> ('z, 'h, 'o) pool \<times> bool" where
  "complete_lease E m owner payload quality_score due_at latency priority_at p =
     (if h_get (oh E) (lease_owners p) m \<noteq> Some owner then (p, False)
      else
        (p\<lparr>records := h_set (rh E) (records p) m payload,
           quality := z_add (zs E) (quality p) m quality_score,
           due := z_add (zs E) (due p) m due_at,
           available_latency := z_put (zs E) (available_latency p) m latency,
           priority_due := z_put (zs E) (priority_due p) m priority_at,
           leased := z_rem (zs E) (leased p) m,
           lease_owners := h_del (oh E) (lease_owners p) m\<rparr>, True))"

definition release_lease ::
  "('z, 'h, 'o, 's, 'p) svc \<Rightarrow> member \<Rightarrow> string \<Rightarrow> time
     \<Rightarrow> ('z, 'h, 'o) pool \<Rightarrow> ('z, 'h, 'o) pool \<times> bool" where
  "release_lease E m owner due_at p =
     (if h_get (oh E) (lease_owners p) m \<noteq> Some owner then (p, False)
      else
        (p\<lparr>due := z_add (zs E) (due p) m due_at,
           priority_due :=
             (if z_score (zs E) (priority_due p) m \<noteq> None
              then z_add (zs E) (priority_due p) m due_at else priority_due p),
           leased := z_rem (zs E) (leased p) m,
           lease_owners := h_del (oh E) (lease_owners p) m\<rparr>, True))"

fun reclaim_members ::
  "('z, 'h, 'o, 's, 'p) svc \<Rightarrow> time \<Rightarrow> member list \<Rightarrow> ('z, 'h, 'o) pool \<Rightarrow> ('z, 'h, 'o) pool" where
  "reclaim_members E now [] p = p"
| "reclaim_members E now (m # ms) p =
     reclaim_members E now ms
       (p\<lparr>leased := z_rem (zs E) (leased p) m,
          due := z_add (zs E) (due p) m now,
          lease_owners := h_del (oh E) (lease_owners p) m\<rparr>)"

definition reclaim_expired_script ::
  "('z, 'h, 'o, 's, 'p) svc \<Rightarrow> time \<Rightarrow> nat \<Rightarrow> ('z, 'h, 'o) pool \<Rightarrow> ('z, 'h, 'o) pool \<times> member list" where
  "reclaim_expired_script E now limit p =
     (let members = map fst (z_rangelimit (zs E) (leased p) Below_All (Incl now) 0 limit)
      in (reclaim_members E now members p, members))"

definition delete_lease ::
  "('z, 'h, 'o, 's, 'p) svc \<Rightarrow> member \<Rightarrow> string \<Rightarrow> ('z, 'h, 'o) pool \<Rightarrow> ('z, 'h, 'o) pool \<times> bool" where
  "delete_lease E m owner p =
     (if h_get (oh E) (lease_owners p) m \<noteq> Some owner then (p, False)
      else
        (p\<lparr>records := h_del (rh E) (records p) m,
           quality := z_rem (zs E) (quality p) m,
           due := z_rem (zs E) (due p) m,
           leased := z_rem (zs E) (leased p) m,
           lease_owners := h_del (oh E) (lease_owners p) m,
           available_latency := z_rem (zs E) (available_latency p) m,
           priority_due := z_rem (zs E) (priority_due p) m\<rparr>, True))"

section \<open>Methods of the repository\<close>

definition on_pool ::
  "string \<Rightarrow> (('z, 'h, 'o) pool \<Rightarrow> ('z, 'h, 'o) pool) \<Rightarrow> ('z, 'h, 'o, 's) repo \<Rightarrow> ('z, 'h, 'o, 's) repo" where
  "on_pool d f R = R\<lparr>pools := (pools R)(d := f (pools R d))\<rparr>"

text \<open>The pool of a domain, or the error of \<open>keys_for\<close> for an empty domain.\<close>

definition pool_for ::
  "('z, 'h, 'o, 's) repo \<Rightarrow> string \<Rightarrow> ('z, 'h, 'o) pool result" where
  "pool_for R d =
     (if d = [] then Inl (ValueError ''prefix and domain must be non-empty'') else Inr (pools R d))"

definition list_domains :: "('z, 'h, 'o, 's, 'p) svc \<Rightarrow> ('z, 'h, 'o, 's) repo \<Rightarrow> string list" where
  "list_domains E R = sort (s_members (ss E) (domains R))"

definition get_record ::
  "('z, 'h, 'o, 's, 'p) svc \<Rightarrow> ('z, 'h, 'o, 's) repo \<Rightarrow> string \<Rightarrow> member \<Rightarrow> proxy_record option result" where
  "get_record E R d ep =
     (case pool_for R d of Inl e \<Rightarrow> Inl e | Inr p \<Rightarrow> get_record_pool E p ep)"

definition record_count ::
  "('z, 'h, 'o, 's, 'p) svc \<Rightarrow> ('z, 'h, 'o, 's) repo \<Rightarrow> string \<Rightarrow> nat result" where
  "record_count E R d =
     (case pool_for R d of Inl e \<Rightarrow> Inl e | Inr p \<Rightarrow> Inr (h_len (rh E) (records p)))"

definition is_due ::
  "('z, 'h, 'o, 's, 'p) svc \<Rightarrow> ('z, 'h, 'o, 's) repo \<Rightarrow> string \<Rightarrow> member \<Rightarrow> bool result" where
  "is_due E R d ep =
     (case pool_for R d of Inl e \<Rightarrow> Inl e | Inr p \<Rightarrow> Inr (z_score (zs E) (due p) ep \<noteq> None))"

definition upsert_candidate ::
  "('z, 'h, 'o, 's, 'p) svc \<Rightarrow> rat \<Rightarrow> proxy_record \<Rightarrow> ('z, 'h, 'o, 's) repo \<Rightarrow> ('z, 'h, 'o, 's) repo result" where
  "upsert_candidate E max_latency record R =
     (case get_record E R (rec_domain record) (canonical (endpoint record)) of
        Inl e \<Rightarrow> Inl e
      | Inr existing \<Rightarrow>
          Inr (on_pool (rec_domain record) (upsert_write E max_latency existing record)
                 (R\<lparr>domains := s_add (ss E) (domains R) (rec_domain record)\<rparr>)))"

definition save_record ::
  "('z, 'h, 'o, 's, 'p) svc \<Rightarrow> rat \<Rightarrow> proxy_record \<Rightarrow> ('z, 'h, 'o, 's) repo \<Rightarrow> ('z, 'h, 'o, 's) repo result" where
  "save_record E max_latency record R =
     (case pool_for R (rec_domain record) of
        Inl e \<Rightarrow> Inl e
      | Inr _ \<Rightarrow>
          Inr (on_pool (rec_domain record) (save_pool E max_latency record)
                 (R\<lparr>domains := s_add (ss E) (domains R) (rec_domain record)\<rparr>)))"

definition verified_of :: "proxy_record \<Rightarrow> proxy_record" where
  "verified_of record =
     record\<lparr>state := Available, score := max 80 (score record),
            consecutive_successes := max 2 (consecutive_successes record)\<rparr>"

definition upsert_verified ::
  "('z, 'h, 'o, 's, 'p) svc \<Rightarrow> rat \<Rightarrow> proxy_record \<Rightarrow> ('z, 'h, 'o, 's) repo \<Rightarrow> ('z, 'h, 'o, 's) repo result" where
  "upsert_verified E max_latency record R = save_record E max_latency (verified_of record) R"

definition priority_limit_of :: "int \<Rightarrow> int" where
  "priority_limit_of limit = (if limit = 1 then 1 else min (limit - 1) (max 1 (limit * 4 div 5)))"

text \<open>\<open>uuid\<close> is the value of \<open>uuid4().hex\<close>.\<close>

definition claim_due ::
  "('z, 'h, 'o, 's, 'p) svc \<Rightarrow> string \<Rightarrow> string \<Rightarrow> string \<Rightarrow> int \<Rightarrow> int \<Rightarrow> time
     \<Rightarrow> ('z, 'h, 'o, 's) repo \<Rightarrow> (('z, 'h, 'o, 's) repo \<times> lease list) result" where
  "claim_due E d worker_id uuid limit lease_seconds now R =
     (if \<not> (1 \<le> limit \<and> limit \<le> 1000) then Inl (ValueError ''limit must be within 1..1000'')
      else if worker_id = [] then Inl (ValueError ''worker_id must be non-empty'')
      else if lease_seconds \<le> 0 then Inl (ValueError ''lease_seconds must be positive'')
      else
        (case pool_for R d of
           Inl e \<Rightarrow> Inl e
         | Inr p \<Rightarrow>
             (let owner = worker_id @ '':'' @ uuid;
                  expires = now + of_int lease_seconds;
                  (p', members) = claim_priority_due E now (nat limit)
                                    (nat (priority_limit_of limit)) expires owner p
              in Inr (on_pool d (\<lambda>_. p') R,
                      map (\<lambda>m. \<lparr>lease_domain = d, lease_endpoint = m, lease_owner = owner,
                                expires_at = expires\<rparr>) members))))"

definition complete ::
  "('z, 'h, 'o, 's, 'p) svc \<Rightarrow> rat \<Rightarrow> lease \<Rightarrow> proxy_record
     \<Rightarrow> ('z, 'h, 'o, 's) repo \<Rightarrow> (('z, 'h, 'o, 's) repo \<times> bool) result" where
  "complete E max_latency l record R =
     (if rec_domain record \<noteq> lease_domain l
      then Inl (ValueError ''record domain does not match lease'')
      else if canonical (endpoint record) \<noteq> lease_endpoint l
      then Inl (ValueError ''record endpoint does not match lease'')
      else
        (case pool_for R (lease_domain l) of
           Inl e \<Rightarrow> Inl e
         | Inr p \<Rightarrow>
             (let (p', ok) = complete_lease E (lease_endpoint l) (lease_owner l)
                               (encode_record E record) (of_int (score record))
                               (next_check_at record) (latency_index_score record)
                               (priority_due_score record max_latency) p
              in Inr (on_pool (lease_domain l) (\<lambda>_. p') R, ok))))"

definition release ::
  "('z, 'h, 'o, 's, 'p) svc \<Rightarrow> lease \<Rightarrow> time
     \<Rightarrow> ('z, 'h, 'o, 's) repo \<Rightarrow> (('z, 'h, 'o, 's) repo \<times> bool) result" where
  "release E l due_at R =
     (case pool_for R (lease_domain l) of
        Inl e \<Rightarrow> Inl e
      | Inr p \<Rightarrow>
          (let (p', ok) = release_lease E (lease_endpoint l) (lease_owner l) due_at p
           in Inr (on_pool (lease_domain l) (\<lambda>_. p') R, ok)))"

definition delete_leased ::
  "('z, 'h, 'o, 's, 'p) svc \<Rightarrow> lease
     \<Rightarrow> ('z, 'h, 'o, 's) repo \<Rightarrow> (('z, 'h, 'o, 's) repo \<times> bool) result" where
  "delete_leased E l R =
     (case pool_for R (lease_domain l) of
        Inl e \<Rightarrow> Inl e
      | Inr p \<Rightarrow>
          (let (p', ok) = delete_lease E (lease_endpoint l) (lease_owner l) p
           in Inr (on_pool (lease_domain l) (\<lambda>_. p') R, ok)))"

definition reclaim_expired ::
  "('z, 'h, 'o, 's, 'p) svc \<Rightarrow> string \<Rightarrow> time \<Rightarrow> int
     \<Rightarrow> ('z, 'h, 'o, 's) repo \<Rightarrow> (('z, 'h, 'o, 's) repo \<times> member list) result" where
  "reclaim_expired E d now limit R =
     (if \<not> (1 \<le> limit \<and> limit \<le> 1000) then Inl (ValueError ''limit must be within 1..1000'')
      else
        (case pool_for R d of
           Inl e \<Rightarrow> Inl e
         | Inr p \<Rightarrow>
             (let (p', members) = reclaim_expired_script E now (nat limit) p
              in Inr (on_pool d (\<lambda>_. p') R, members))))"

section \<open>The reference services\<close>

text \<open>
  The services on the reference data structures of theory \<open>Redis\<close>, with records stored as
  they are; the witnesses of the properties run on them.
\<close>

definition ref_svc ::
  "(ref_zset, (member \<times> proxy_record) list, (member \<times> string) list, member list, proxy_record) svc" where
  "ref_svc =
     \<lparr>zs = ref_zset_api, rh = ref_hash_api, oh = ref_hash_api, ss = ref_set_api,
      encode_record = (\<lambda>r. r), decode_record = (\<lambda>r. if valid_record r then Some r else None)\<rparr>"

interpretation ref_svc: pool_svc ref_svc
proof -
  have "pool_svc_axioms ref_svc"
    by (rule pool_svc_axioms.intro) (auto simp: ref_svc_def storable_def split: if_splits)
  then show "pool_svc ref_svc"
    by (simp add: pool_svc_def ref_svc_def ref_zset.zset_axioms ref_hash.hash_axioms
        ref_set.redis_set_axioms)
qed

lemma ref_svc_pool: "pool_svc ref_svc"
  by (rule ref_svc.pool_svc_axioms)

lemmas ref_svc_eval = ref_svc_def ref_zset_eval ref_hash_api_def ref_set_api_def

text \<open>A record of domain \<open>d\<close> on port 80 of a host, for the witnesses.\<close>

definition sample ::
  "string \<Rightarrow> proxy_state \<Rightarrow> int \<Rightarrow> rat \<Rightarrow> time \<Rightarrow> proxy_record" where
  "sample h st sc latency next_check =
     \<lparr>endpoint = \<lparr>host = h, host_version = 4, port = 80\<rparr>, rec_domain = ''d'', score = sc,
      state = st, source_names = {''s''}, first_seen_at = 0, last_seen_at = 0,
      last_checked_at = Some 0, next_check_at = next_check, consecutive_successes = 2,
      consecutive_failures = 0, success_count = 2, failure_count = 0,
      latency_ewma_ms = Some (Finite latency), last_status_code = Some 200,
      last_error_type = None, last_error_message = None\<rparr>"

lemma sample_port: "str_nat 80 = ''80''"
  by code_simp

lemma canonical_sample: "canonical (endpoint (sample h st sc l t)) = h @ '':80''"
  by (simp add: canonical_def sample_def sample_port)

lemma sample_storable:
  "h \<noteq> [] \<Longrightarrow> set h \<inter> {CHR '':'', CHR ''['', CHR '']''} = {} \<Longrightarrow> 0 \<le> sc \<Longrightarrow> sc \<le> 100 \<Longrightarrow> 0 \<le> l \<Longrightarrow>
     storable (sample h st sc l t)"
  by (simp add: sample_def storable_def valid_record_def valid_endpoint_def valid_latency_def
      valid_status_def valid_text_def)

lemma sample_valid:
  "h \<noteq> [] \<Longrightarrow> set h \<inter> {CHR '':'', CHR ''['', CHR '']''} = {} \<Longrightarrow> 0 \<le> sc \<Longrightarrow> sc \<le> 100 \<Longrightarrow> 0 \<le> l \<Longrightarrow>
     valid_record (sample h st sc l t)"
  using sample_storable by (simp add: storable_def)

lemma sample_simps [simp]:
  "score (sample h st sc l t) = sc" "state (sample h st sc l t) = st"
  "next_check_at (sample h st sc l t) = t" "rec_domain (sample h st sc l t) = ''d''"
  "canonical (endpoint (sample h st sc l t)) = h @ '':80''"
  "latency_index_score (sample h st sc l t) = (if st = Available \<and> 0 \<le> l then Some l else None)"
  by (auto simp: canonical_def sample_port latency_index_score_def sample_def)

end
