(* ===== verification/PoolOps.thy ===== *)
theory PoolOps
  imports Pool
begin

text \<open>
  What each operation of the pool does, key by key: the lemmas about the scripts hold for
  any Redis that keeps its documented laws (\<open>pool_svc\<close>), and are the facts the invariant
  and the lease protocol rest on.
\<close>

section \<open>Reading back\<close>

text \<open>The record stored for an endpoint, when the stored text decodes.\<close>

definition record_at ::
  "('z, 'h, 'o, 's, 'p) svc \<Rightarrow> ('z, 'h, 'o) pool \<Rightarrow> member \<Rightarrow> proxy_record option" where
  "record_at E p m = Option.bind (h_get (rh E) (records p) m) (decode_record E)"

lemma record_at_cong:
  "h_get (rh E) (records p) m = h_get (rh E) (records q) m \<Longrightarrow> record_at E p m = record_at E q m"
  by (simp add: record_at_def)

lemma get_record_pool_eq:
  "get_record_pool E p m = Inr x \<Longrightarrow> x = record_at E p m \<and> (x = None \<longleftrightarrow> h_get (rh E) (records p) m = None)"
proof (cases "h_get (rh E) (records p) m")
  case None
  then show "get_record_pool E p m = Inr x \<Longrightarrow> ?thesis"
    by (simp add: get_record_pool_def record_at_def)
next
  case (Some raw)
  then show "get_record_pool E p m = Inr x \<Longrightarrow> ?thesis"
    by (cases "decode_record E raw") (auto simp: get_record_pool_def record_at_def)
qed

abbreviation is_leased :: "('z, 'h, 'o, 's, 'p) svc \<Rightarrow> ('z, 'h, 'o) pool \<Rightarrow> member \<Rightarrow> bool" where
  "is_leased E p m \<equiv> z_score (zs E) (leased p) m \<noteq> None"

abbreviation owner_of :: "('z, 'h, 'o, 's, 'p) svc \<Rightarrow> ('z, 'h, 'o) pool \<Rightarrow> member \<Rightarrow> string option" where
  "owner_of E p m \<equiv> h_get (oh E) (lease_owners p) m"

abbreviation due_at :: "('z, 'h, 'o, 's, 'p) svc \<Rightarrow> ('z, 'h, 'o) pool \<Rightarrow> member \<Rightarrow> time option" where
  "due_at E p m \<equiv> z_score (zs E) (due p) m"

abbreviation priority_at :: "('z, 'h, 'o, 's, 'p) svc \<Rightarrow> ('z, 'h, 'o) pool \<Rightarrow> member \<Rightarrow> time option" where
  "priority_at E p m \<equiv> z_score (zs E) (priority_due p) m"

abbreviation latency_at :: "('z, 'h, 'o, 's, 'p) svc \<Rightarrow> ('z, 'h, 'o) pool \<Rightarrow> member \<Rightarrow> rat option" where
  "latency_at E p m \<equiv> z_score (zs E) (available_latency p) m"

lemma latency_index_nonneg: "latency_index_score r = Some l \<Longrightarrow> 0 \<le> l \<and> state r = Available"
  by (auto simp: latency_index_score_def split: option.splits pyfloat.splits if_splits)

lemma priority_due_latency:
  "priority_due_score r x = Some t \<Longrightarrow>
     t = next_check_at r \<and> (\<exists>l. latency_index_score r = Some l \<and> l \<le> x)"
  by (auto simp: priority_due_score_def split: option.splits if_splits)

text \<open>The members that the first loop of a claim picks from the priority index.\<close>

definition first_picks ::
  "('z, 'h, 'o, 's, 'p) svc \<Rightarrow> time \<Rightarrow> nat \<Rightarrow> ('z, 'h, 'o) pool \<Rightarrow> member list" where
  "first_picks E now plimit p =
     filter (\<lambda>m. \<not> is_leased E p m)
       (map fst (z_rangelimit (zs E) (priority_due p) Below_All (Incl now) 0 plimit))"

section \<open>The claim loop\<close>

context pool_svc
begin

lemma put_score [simp]:
  "z_score (zs E) (z_put (zs E) zz m sc) m' = (if m' = m then sc else z_score (zs E) zz m')"
  by (simp add: z_put_def split: option.splits)

lemma claim_members_frame:
  "claim_members E x w ms p c = (p', c') \<Longrightarrow>
     records p' = records p \<and> quality p' = quality p \<and> available_latency p' = available_latency p \<and>
     priority_due p' = priority_due p \<and> available_latency_ready p' = available_latency_ready p \<and>
     priority_due_ready p' = priority_due_ready p"
  by (induction E x w ms p c rule: claim_members.induct) (auto split: if_splits)

lemma claim_members_leased:
  "claim_members E x w ms p c = (p', c') \<Longrightarrow>
     z_score (zs E) (leased p') m =
       (if m \<in> set ms \<and> \<not> is_leased E p m then Some x else z_score (zs E) (leased p) m)"
  by (induction ms arbitrary: p c) (auto split: if_splits)

lemma claim_members_owner:
  "claim_members E x w ms p c = (p', c') \<Longrightarrow>
     owner_of E p' m = (if m \<in> set ms \<and> \<not> is_leased E p m then Some w else owner_of E p m)"
  by (induction ms arbitrary: p c) (auto split: if_splits)

lemma claim_members_due:
  "claim_members E x w ms p c = (p', c') \<Longrightarrow>
     due_at E p' m = (if m \<in> set ms \<and> \<not> is_leased E p m then None else due_at E p m)"
  by (induction ms arbitrary: p c) (auto split: if_splits)

lemma claim_members_list:
  "claim_members E x w ms p c = (p', c') \<Longrightarrow> distinct ms \<Longrightarrow>
     c' = c @ filter (\<lambda>m. \<not> is_leased E p m) ms"
proof (induction ms arbitrary: p c)
  case Nil
  then show ?case by simp
next
  case (Cons a ms)
  show ?case
  proof (cases "is_leased E p a")
    case True
    with Cons show ?thesis by auto
  next
    case False
    let ?q = "p\<lparr>due := z_rem (zs E) (due p) a, leased := z_add (zs E) (leased p) a x,
                lease_owners := h_set (oh E) (lease_owners p) a w\<rparr>"
    from False Cons.prems have run: "claim_members E x w ms ?q (c @ [a]) = (p', c')" by simp
    from Cons.prems have "distinct ms" and "a \<notin> set ms" by auto
    from Cons.IH [OF run this(1)]
    have "c' = (c @ [a]) @ filter (\<lambda>m. \<not> is_leased E ?q m) ms" .
    moreover have "filter (\<lambda>m. \<not> is_leased E ?q m) ms = filter (\<lambda>m. \<not> is_leased E p m) ms"
      using \<open>a \<notin> set ms\<close> by (intro filter_cong) auto
    ultimately show ?thesis using False by simp
  qed
qed

lemmas claim_members_facts =
  claim_members_frame claim_members_leased claim_members_owner claim_members_due

text \<open>
  The two loops of the script: the members picked from the priority index, the pool between
  the loops, and the members picked from the general queue.
\<close>

lemma claim_split:
  assumes "claim_priority_due E now limit plimit x w p = (p', ms)"
  obtains p1 gen where
    "claim_members E x w (map fst (z_rangelimit (zs E) (priority_due p) Below_All (Incl now) 0 plimit)) p []
       = (p1, first_picks E now plimit p)"
    and "gen = (if limit > length (first_picks E now plimit p)
                then map fst (z_rangelimit (zs E) (due p1) Below_All (Incl now) 0
                                (limit - length (first_picks E now plimit p)))
                else [])"
    and "claim_members E x w gen p1 (first_picks E now plimit p) = (p', ms)"
    and "distinct gen"
proof -
  let ?pr = "map fst (z_rangelimit (zs E) (priority_due p) Below_All (Incl now) 0 plimit)"
  obtain p1 c1 where run1: "claim_members E x w ?pr p [] = (p1, c1)" by (metis surj_pair)
  have c1: "c1 = first_picks E now plimit p"
    using claim_members_list [OF run1 z.rangelimit_distinct] by (simp add: first_picks_def)
  let ?gen = "if limit > length c1 then map fst (z_rangelimit (zs E) (due p1) Below_All (Incl now) 0 (limit - length c1)) else []"
  have run2: "claim_members E x w ?gen p1 c1 = (p', ms)"
    using assms run1 by (simp add: claim_priority_due_def Let_def split: if_splits)
  have "distinct ?gen" using z.rangelimit_distinct by simp
  with that run1 run2 c1 show ?thesis by blast
qed

lemma first_picks_facts:
  shows "distinct (first_picks E now plimit p)" and "length (first_picks E now plimit p) \<le> plimit"
    and "m \<in> set (first_picks E now plimit p) \<Longrightarrow>
           \<not> is_leased E p m \<and> (\<exists>s. priority_at E p m = Some s \<and> s \<le> now)"
proof -
  show "distinct (first_picks E now plimit p)"
    unfolding first_picks_def using z.rangelimit_distinct by (intro distinct_filter)
  show "length (first_picks E now plimit p) \<le> plimit"
    unfolding first_picks_def
    by (rule order_trans [OF length_filter_le]) (simp add: z.rangelimit_length)
  show "m \<in> set (first_picks E now plimit p) \<Longrightarrow>
           \<not> is_leased E p m \<and> (\<exists>s. priority_at E p m = Some s \<and> s \<le> now)"
    unfolding first_picks_def using z.rangelimit_fst by fastforce
qed

lemma claim_frame:
  assumes "claim_priority_due E now limit plimit x w p = (p', ms)"
  shows "records p' = records p \<and> quality p' = quality p \<and> available_latency p' = available_latency p \<and>
     priority_due p' = priority_due p \<and> available_latency_ready p' = available_latency_ready p \<and>
     priority_due_ready p' = priority_due_ready p"
  using assms by (elim claim_split) (metis claim_members_frame)

lemma claim_members_set:
  assumes run: "claim_priority_due E now limit plimit x w p = (p', ms)"
  shows "distinct ms \<and> length ms \<le> max limit plimit \<and> (plimit \<le> limit \<longrightarrow> length ms \<le> limit) \<and>
    take (length (first_picks E now plimit p)) ms = first_picks E now plimit p \<and>
    (\<forall>m \<in> set ms. \<not> is_leased E p m \<and>
        (\<exists>s \<le> now. due_at E p m = Some s \<or> priority_at E p m = Some s))"
proof -
  let ?f = "first_picks E now plimit p"
  from run obtain p1 gen where
    r1: "claim_members E x w (map fst (z_rangelimit (zs E) (priority_due p) Below_All (Incl now) 0 plimit)) p [] = (p1, ?f)"
    and gen: "gen = (if limit > length ?f then map fst (z_rangelimit (zs E) (due p1) Below_All (Incl now) 0 (limit - length ?f)) else [])"
    and r2: "claim_members E x w gen p1 ?f = (p', ms)" and dg: "distinct gen"
    by (rule claim_split)
  let ?g = "filter (\<lambda>m. \<not> is_leased E p1 m) gen"
  have ms: "ms = ?f @ ?g" using claim_members_list [OF r2 dg] .
  have fl: "is_leased E p1 m" if "m \<in> set ?f" for m
  proof -
    from that have "m \<in> set (map fst (z_rangelimit (zs E) (priority_due p) Below_All (Incl now) 0 plimit))"
      by (simp add: first_picks_def)
    with claim_members_leased [OF r1, of m] show ?thesis by auto
  qed
  have g: "\<not> is_leased E p m \<and> (\<exists>s \<le> now. due_at E p m = Some s)" if "m \<in> set ?g" for m
  proof -
    from that have "m \<in> set gen" and nl: "\<not> is_leased E p1 m" by auto
    then obtain s where "due_at E p1 m = Some s" and "s \<le> now"
      using gen z.rangelimit_fst [of m "due p1" Below_All "Incl now" 0] by (auto split: if_splits)
    with claim_members_due [OF r1, of m] claim_members_leased [OF r1, of m] nl
    show ?thesis by (auto split: if_splits)
  qed
  have len: "length ?g \<le> limit - length ?f"
    using gen z.rangelimit_length [of "due p1" Below_All "Incl now" 0]
    by (auto intro: order_trans [OF length_filter_le] split: if_splits)
  have "set ?f \<inter> set ?g = {}" by (auto dest!: fl)
  then have "distinct ms"
    unfolding ms using first_picks_facts(1) dg by (simp add: distinct_filter)
  moreover have "length ms \<le> max limit plimit" and "plimit \<le> limit \<longrightarrow> length ms \<le> limit"
    using len first_picks_facts(2) [of now plimit p] unfolding ms by auto
  ultimately show ?thesis
    using first_picks_facts(3) g unfolding ms by fastforce
qed

lemma claim_effect:
  assumes run: "claim_priority_due E now limit plimit x w p = (p', ms)"
  shows "z_score (zs E) (leased p') m = (if m \<in> set ms then Some x else z_score (zs E) (leased p) m)"
    and "owner_of E p' m = (if m \<in> set ms then Some w else owner_of E p m)"
    and "due_at E p' m = (if m \<in> set ms then None else due_at E p m)"
proof -
  let ?f = "first_picks E now plimit p"
  from run obtain p1 gen where
    r1: "claim_members E x w (map fst (z_rangelimit (zs E) (priority_due p) Below_All (Incl now) 0 plimit)) p [] = (p1, ?f)"
    and r2: "claim_members E x w gen p1 ?f = (p', ms)" and dg: "distinct gen"
    by (rule claim_split)
  have ms: "set ms = set ?f \<union> {m \<in> set gen. \<not> is_leased E p1 m}"
    using claim_members_list [OF r2 dg] by auto
  have f: "m \<in> set ?f \<longleftrightarrow> m \<in> set (map fst (z_rangelimit (zs E) (priority_due p) Below_All (Incl now) 0 plimit)) \<and> \<not> is_leased E p m"
    by (auto simp: first_picks_def)
  show "z_score (zs E) (leased p') m = (if m \<in> set ms then Some x else z_score (zs E) (leased p) m)"
    using claim_members_leased [OF r1, of m] claim_members_leased [OF r2, of m] ms f by (simp split: if_splits)
  show "owner_of E p' m = (if m \<in> set ms then Some w else owner_of E p m)"
    using claim_members_owner [OF r1, of m] claim_members_owner [OF r2, of m]
      claim_members_leased [OF r1, of m] ms f by (simp split: if_splits)
  show "due_at E p' m = (if m \<in> set ms then None else due_at E p m)"
    using claim_members_due [OF r1, of m] claim_members_due [OF r2, of m]
      claim_members_leased [OF r1, of m] ms f by (simp split: if_splits)
qed

section \<open>Settling, reclaiming and writing\<close>

lemma reclaim_members_frame:
  "records (reclaim_members E now ms p) = records p \<and>
   quality (reclaim_members E now ms p) = quality p \<and>
   available_latency (reclaim_members E now ms p) = available_latency p \<and>
   priority_due (reclaim_members E now ms p) = priority_due p \<and>
   available_latency_ready (reclaim_members E now ms p) = available_latency_ready p \<and>
   priority_due_ready (reclaim_members E now ms p) = priority_due_ready p"
  by (induction ms arbitrary: p) auto

lemma reclaim_members_leased:
  "z_score (zs E) (leased (reclaim_members E now ms p)) m =
     (if m \<in> set ms then None else z_score (zs E) (leased p) m)"
  by (induction ms arbitrary: p) auto

lemma reclaim_members_owner:
  "owner_of E (reclaim_members E now ms p) m = (if m \<in> set ms then None else owner_of E p m)"
  by (induction ms arbitrary: p) auto

lemma reclaim_members_due:
  "due_at E (reclaim_members E now ms p) m = (if m \<in> set ms then Some now else due_at E p m)"
  by (induction ms arbitrary: p) auto

lemmas reclaim_effect =
  reclaim_members_frame reclaim_members_leased reclaim_members_owner reclaim_members_due

lemma reclaim_script_eq:
  "reclaim_expired_script E now limit p = (p', ms) \<Longrightarrow>
     p' = reclaim_members E now ms p \<and>
     ms = map fst (z_rangelimit (zs E) (leased p) Below_All (Incl now) 0 limit)"
  by (auto simp: reclaim_expired_script_def Let_def)

lemma reclaim_script_expired:
  assumes "reclaim_expired_script E now limit p = (p', ms)" and "m \<in> set ms"
  shows "\<exists>t \<le> now. z_score (zs E) (leased p) m = Some t"
  using assms reclaim_script_eq [OF assms(1)]
    z.rangelimit_fst [of m "leased p" Below_All "Incl now" 0 limit] by auto

text \<open>The stored text of a record that is written, read back.\<close>

lemma record_at_set:
  "storable rec \<Longrightarrow>
     Option.bind (h_get (rh E) (h_set (rh E) h k (encode_record E rec)) m) (decode_record E) =
       (if m = k then Some rec else Option.bind (h_get (rh E) h m) (decode_record E))"
  by (simp add: codec)

lemma record_at_del:
  "Option.bind (h_get (rh E) (h_del (rh E) h k) m) (decode_record E) =
     (if m = k then None else Option.bind (h_get (rh E) h m) (decode_record E))"
  by simp

end

text \<open>Writing or deleting the record of one endpoint leaves the other records alone.\<close>

lemmas pool_writes =
  insert_candidate_def merge_candidate_def upsert_write_def save_pool_def
  complete_lease_def release_lease_def delete_lease_def Let_def

lemma storable_candidate: "storable r \<Longrightarrow> storable (r\<lparr>state := Candidate\<rparr>)"
  by (simp add: storable_def valid_record_def)

lemma storable_merge: "storable old \<Longrightarrow> storable r \<Longrightarrow> storable (merge_seen old r)"
  by (simp add: storable_def valid_record_def merge_seen_def)

lemma storable_verified: "storable r \<Longrightarrow> storable (verified_of r)"
  by (auto simp: storable_def valid_record_def verified_of_def max_def)

end
