(* ===== verification/Capacity.thy ===== *)
theory Capacity
  imports PoolOps
begin

text \<open>
  \<open>enforce_capacity\<close> of storage/repository.py: the records of a full pool are scanned page by
  page, the unleased ones are ranked, only the \<open>excess\<close> lowest ranks are kept between pages,
  and the survivors are deleted in chunks of 500. The lemmas show that keeping the lowest
  ranks page by page equals ranking the whole pool at once, and what one deletion changes.
\<close>

section \<open>The operation\<close>

type_synonym rank = "int \<times> int \<times> rat \<times> string"

definition evict_rank :: "proxy_record \<Rightarrow> member \<Rightarrow> rank" where
  "evict_rank record ep =
     (let state_rank = (if state record = Quarantined then 0 else 1);
          age = (if state record = Quarantined
                 then (case last_checked_at record of Some t \<Rightarrow> t | None \<Rightarrow> first_seen_at record)
                 else last_seen_at record)
      in (state_rank, score record, age, ep))"

fun rank_batch ::
  "('z, 'h, 'o, 's, 'p) svc \<Rightarrow> ('z, 'h, 'o) pool \<Rightarrow> (member \<times> 'p) list \<Rightarrow> (rank \<times> member) list result" where
  "rank_batch E p [] = Inr []"
| "rank_batch E p ((ep, raw) # xs) =
     (if z_score (zs E) (leased p) ep \<noteq> None then rank_batch E p xs
      else
        (case decode_record E raw of
           None \<Rightarrow> Inl (ValueError ''invalid record'')
         | Some record \<Rightarrow>
             (case rank_batch E p xs of
                Inl e \<Rightarrow> Inl e
              | Inr batch \<Rightarrow> Inr ((evict_rank record ep, ep) # batch))))"

fun lowest_ranks ::
  "('z, 'h, 'o, 's, 'p) svc \<Rightarrow> ('z, 'h, 'o) pool \<Rightarrow> nat \<Rightarrow> (member \<times> 'p) list list
     \<Rightarrow> (rank \<times> member) list \<Rightarrow> (rank \<times> member) list result" where
  "lowest_ranks E p excess [] candidates = Inr candidates"
| "lowest_ranks E p excess (page # pages) candidates =
     (case rank_batch E p page of
        Inl e \<Rightarrow> Inl e
      | Inr batch \<Rightarrow> lowest_ranks E p excess pages (take excess (sort (candidates @ batch))))"

text \<open>The deletion pipeline of one chunk: four keys, each with all the members of the chunk.\<close>

definition evict_chunk ::
  "('z, 'h, 'o, 's, 'p) svc \<Rightarrow> member list \<Rightarrow> ('z, 'h, 'o) pool \<Rightarrow> ('z, 'h, 'o) pool" where
  "evict_chunk E chunk p =
     p\<lparr>records := fold (\<lambda>m h. h_del (rh E) h m) chunk (records p),
       quality := fold (\<lambda>m z. z_rem (zs E) z m) chunk (quality p),
       due := fold (\<lambda>m z. z_rem (zs E) z m) chunk (due p),
       available_latency := fold (\<lambda>m z. z_rem (zs E) z m) chunk (available_latency p)\<rparr>"

function chunks :: "nat \<Rightarrow> 'a list \<Rightarrow> 'a list list" where
  "chunks n xs = (if n = 0 \<or> xs = [] then [] else take n xs # chunks n (drop n xs))"
  by pat_completeness auto
termination
  by (relation "measure (\<lambda>(n, xs). length xs)") auto

declare chunks.simps [simp del]

text \<open>The reading half (which endpoints to remove) and the writing half of the method.\<close>

definition evict_all ::
  "('z, 'h, 'o, 's, 'p) svc \<Rightarrow> member list \<Rightarrow> ('z, 'h, 'o) pool \<Rightarrow> ('z, 'h, 'o) pool" where
  "evict_all E endpoints_to_remove p = fold (evict_chunk E) (chunks 500 endpoints_to_remove) p"

definition enforce_capacity_pool ::
  "('z, 'h, 'o, 's, 'p) svc \<Rightarrow> int \<Rightarrow> ('z, 'h, 'o) pool \<Rightarrow> (('z, 'h, 'o) pool \<times> nat) result" where
  "enforce_capacity_pool E maximum p =
     (let total = int (h_len (rh E) (records p));
          excess = total - maximum
      in if excess \<le> 0 then Inr (p, 0)
         else
           (case lowest_ranks E p (nat excess) (h_scan (rh E) (records p) 200) [] of
              Inl e \<Rightarrow> Inl e
            | Inr candidates \<Rightarrow>
                (let to_remove = map snd candidates
                 in Inr (evict_all E to_remove p, length to_remove))))"

definition enforce_capacity ::
  "('z, 'h, 'o, 's, 'p) svc \<Rightarrow> string \<Rightarrow> int \<Rightarrow> ('z, 'h, 'o, 's) repo
     \<Rightarrow> (('z, 'h, 'o, 's) repo \<times> nat) result" where
  "enforce_capacity E d maximum R =
     (if maximum < 1 then Inl (ValueError ''maximum must be positive'')
      else
        (case pool_for R d of
           Inl e \<Rightarrow> Inl e
         | Inr p \<Rightarrow>
             (case enforce_capacity_pool E maximum p of
                Inl e \<Rightarrow> Inl e
              | Inr (p', n) \<Rightarrow> Inr (on_pool d (\<lambda>_. p') R, n))))"

section \<open>Keeping the lowest ranks page by page\<close>

lemma dropWhile_above:
  fixes s :: "'a :: linorder list"
  shows "sorted s \<Longrightarrow> \<forall>x \<in> set (dropWhile (\<lambda>x. x \<le> d) s). d \<le> x"
  by (induction s) (auto intro: order_trans dest: order.strict_implies_order simp: not_le)

lemma insort_behind:
  fixes s :: "'a :: linorder list"
  assumes "sorted s"
  shows "insort d s = takeWhile (\<lambda>x. x \<le> d) s @ d # dropWhile (\<lambda>x. x \<le> d) s"
proof -
  let ?t = "takeWhile (\<lambda>x. x \<le> d) s" and ?w = "dropWhile (\<lambda>x. x \<le> d) s"
  have split: "s = ?t @ ?w" by simp
  have t: "\<forall>x \<in> set ?t. x \<le> d" by (auto dest: set_takeWhileD)
  have w: "\<forall>x \<in> set ?w. d \<le> x" using assms by (rule dropWhile_above)
  have "sorted (?t @ d # ?w)"
    using t w assms sorted_takeWhile [OF assms] sorted_dropWhile [OF assms]
    by (auto simp: sorted_append intro: order_trans)
  moreover have "mset (?t @ d # ?w) = mset (d # s)"
    using arg_cong [OF split, of mset] by (simp del: takeWhile_dropWhile_id)
  ultimately have "sort (d # s) = ?t @ d # ?w" by (metis properties_for_sort)
  then show ?thesis using assms by (simp add: sorted_sort_id)
qed

lemma take_insort_big:
  fixes s :: "'a :: linorder list"
  assumes "sorted s" and "k \<le> length (takeWhile (\<lambda>x. x \<le> d) s)"
  shows "take k (insort d s) = take k s"
proof -
  have "take k s = take k (takeWhile (\<lambda>x. x \<le> d) s @ dropWhile (\<lambda>x. x \<le> d) s)" by simp
  then show ?thesis using assms insort_behind [OF assms(1), of d]
    by (metis append_take_drop_id take_append take_all_iff diff_is_0_eq' take0 append_Nil2)
qed

lemma count_le_insort:
  fixes s :: "'a :: linorder list"
  assumes "sorted s"
  shows "length (takeWhile (\<lambda>x. x \<le> d) s) = size (filter_mset (\<lambda>x. x \<le> d) (mset s))"
  using assms
proof (induction s)
  case Nil
  then show ?case by simp
next
  case (Cons a s)
  show ?case
  proof (cases "a \<le> d")
    case True
    with Cons show ?thesis by simp
  next
    case False
    with Cons.prems have "\<forall>x \<in> set s. \<not> x \<le> d" by auto
    then have "filter_mset (\<lambda>x. x \<le> d) (mset s) = {#}" by (simp add: filter_mset_eq_mempty_iff)
    with False show ?thesis by simp
  qed
qed

lemma take_sort_drop_big:
  fixes xs ds :: "'a :: linorder list"
  assumes "\<forall>d \<in> set ds. k \<le> size (filter_mset (\<lambda>x. x \<le> d) (mset xs))"
  shows "take k (sort (ds @ xs)) = take k (sort xs)"
  using assms
proof (induction ds)
  case Nil
  then show ?case by simp
next
  case (Cons d ds)
  have "mset xs \<subseteq># mset (ds @ xs)" by simp
  then have "filter_mset (\<lambda>x. x \<le> d) (mset xs) \<subseteq># filter_mset (\<lambda>x. x \<le> d) (mset (ds @ xs))"
    by (rule multiset_filter_mono)
  then have "k \<le> size (filter_mset (\<lambda>x. x \<le> d) (mset (sort (ds @ xs))))"
    using Cons.prems size_mset_mono by fastforce
  then have "k \<le> length (takeWhile (\<lambda>x. x \<le> d) (sort (ds @ xs)))"
    by (simp add: count_le_insort)
  then have "take k (insort d (sort (ds @ xs))) = take k (sort (ds @ xs))"
    by (simp add: take_insort_big)
  with Cons show ?case by simp
qed

lemma take_sort_page:
  fixes a b :: "'a :: linorder list"
  shows "take k (sort (take k (sort a) @ b)) = take k (sort (a @ b))"
proof -
  let ?L = "take k (sort a)" and ?D = "drop k (sort a)"
  have big: "\<forall>d \<in> set ?D. k \<le> size (filter_mset (\<lambda>x. x \<le> d) (mset (?L @ b)))"
  proof
    fix d assume d: "d \<in> set ?D"
    then have "length ?L = k" by (cases "k \<le> length (sort a)") auto
    moreover have "\<forall>x \<in> set ?L. x \<le> d"
      using d sorted_sort [of a] by (metis append_take_drop_id sorted_append)
    then have "filter_mset (\<lambda>x. x \<le> d) (mset ?L) = mset ?L"
      by (simp add: filter_mset_eq_conv)
    ultimately show "k \<le> size (filter_mset (\<lambda>x. x \<le> d) (mset (?L @ b)))" by simp
  qed
  have "mset ?L + mset ?D = mset a" by (metis append_take_drop_id mset_append mset_sort)
  then have "mset (?D @ ?L @ b) = mset (a @ b)" by (simp del: mset_sort add: add.commute add.left_commute)
  then have "sort (?D @ ?L @ b) = sort (a @ b)" by (metis properties_for_sort mset_sort sorted_sort)
  with take_sort_drop_big [OF big] show ?thesis by simp
qed

lemma rank_batch_append:
  "rank_batch E p (xs @ ys) =
     (case rank_batch E p xs of
        Inl e \<Rightarrow> Inl e
      | Inr a \<Rightarrow> (case rank_batch E p ys of Inl e \<Rightarrow> Inl e | Inr b \<Rightarrow> Inr (a @ b)))"
proof (induction xs)
  case Nil
  then show ?case by (simp split: sum.split)
next
  case (Cons x xs)
  obtain ep raw where x: "x = (ep, raw)" by (cases x)
  show ?case
    by (cases "z_score (zs E) (leased p) ep = None"; cases "decode_record E raw")
       (auto simp: x Cons split: sum.split)
qed

lemma lowest_ranks_global:
  assumes "lowest_ranks E p k pages acc = Inr cs" and "pages \<noteq> []"
  shows "\<exists>all. rank_batch E p (concat pages) = Inr all \<and> cs = take k (sort (acc @ all))"
  using assms
proof (induction pages arbitrary: acc)
  case Nil
  then show ?case by simp
next
  case (Cons page pages)
  from Cons.prems obtain batch where b: "rank_batch E p page = Inr batch"
    and rest: "lowest_ranks E p k pages (take k (sort (acc @ batch))) = Inr cs"
    by (auto split: sum.splits)
  show ?case
  proof (cases "pages = []")
    case True
    with b rest show ?thesis by (simp add: rank_batch_append)
  next
    case False
    from Cons.IH [OF rest False] obtain all where
      "rank_batch E p (concat pages) = Inr all"
      and "cs = take k (sort (take k (sort (acc @ batch)) @ all))" by blast
    with b show ?thesis by (simp add: rank_batch_append take_sort_page)
  qed
qed

lemma concat_chunks: "0 < n \<Longrightarrow> concat (chunks n xs) = xs"
  by (induction n xs rule: chunks.induct) (subst chunks.simps, auto)

section \<open>What an eviction removes\<close>

lemma rank_batch_eq:
  "rank_batch E p xs = Inr all \<Longrightarrow>
     all = map (\<lambda>(m, raw). (evict_rank (the (decode_record E raw)) m, m))
             (filter (\<lambda>(m, raw). \<not> is_leased E p m) xs)"
  by (induction E p xs arbitrary: all rule: rank_batch.induct)
     (auto split: if_splits option.splits sum.splits)

lemma fold_evict_frame:
  "leased (fold (evict_chunk E) cs p) = leased p \<and>
   lease_owners (fold (evict_chunk E) cs p) = lease_owners p \<and>
   priority_due (fold (evict_chunk E) cs p) = priority_due p \<and>
   available_latency_ready (fold (evict_chunk E) cs p) = available_latency_ready p \<and>
   priority_due_ready (fold (evict_chunk E) cs p) = priority_due_ready p"
  by (induction cs arbitrary: p) (simp_all add: evict_chunk_def)

lemma evict_frame:
  "leased (evict_all E ms p) = leased p" "lease_owners (evict_all E ms p) = lease_owners p"
  "priority_due (evict_all E ms p) = priority_due p"
  "available_latency_ready (evict_all E ms p) = available_latency_ready p"
  "priority_due_ready (evict_all E ms p) = priority_due_ready p"
  by (simp_all add: evict_all_def fold_evict_frame)

text \<open>The unleased records of the pool, and the ones an eviction takes away.\<close>

definition evictable :: "('z, 'h, 'o, 's, 'p) svc \<Rightarrow> ('z, 'h, 'o) pool \<Rightarrow> member set" where
  "evictable E p = {m. h_get (rh E) (records p) m \<noteq> None \<and> \<not> is_leased E p m}"

definition evicted :: "('z, 'h, 'o, 's, 'p) svc \<Rightarrow> ('z, 'h, 'o) pool \<Rightarrow> ('z, 'h, 'o) pool \<Rightarrow> member set" where
  "evicted E p p' = {m. h_get (rh E) (records p) m \<noteq> None \<and> h_get (rh E) (records p') m = None}"

definition rank_at :: "('z, 'h, 'o, 's, 'p) svc \<Rightarrow> ('z, 'h, 'o) pool \<Rightarrow> member \<Rightarrow> rank" where
  "rank_at E p m = evict_rank (the (record_at E p m)) m"

context pool_svc
begin

lemma fold_del_get:
  "h_get (rh E) (fold (\<lambda>m h. h_del (rh E) h m) ms h) k =
     (if k \<in> set ms then None else h_get (rh E) h k)"
  by (induction ms arbitrary: h) auto

lemma fold_evict_effect:
  "h_get (rh E) (records (fold (evict_chunk E) cs p)) m =
     (if m \<in> set (concat cs) then None else h_get (rh E) (records p) m)"
  "z_score (zs E) (quality (fold (evict_chunk E) cs p)) m =
     (if m \<in> set (concat cs) then None else z_score (zs E) (quality p) m)"
  "due_at E (fold (evict_chunk E) cs p) m = (if m \<in> set (concat cs) then None else due_at E p m)"
  "latency_at E (fold (evict_chunk E) cs p) m =
     (if m \<in> set (concat cs) then None else latency_at E p m)"
  by (induction cs arbitrary: p) (simp_all add: evict_chunk_def fold_del_get z.fold_rem_score)

lemma evict_effect:
  "h_get (rh E) (records (evict_all E ms p)) m =
     (if m \<in> set ms then None else h_get (rh E) (records p) m)"
  "z_score (zs E) (quality (evict_all E ms p)) m =
     (if m \<in> set ms then None else z_score (zs E) (quality p) m)"
  "due_at E (evict_all E ms p) m = (if m \<in> set ms then None else due_at E p m)"
  "latency_at E (evict_all E ms p) m = (if m \<in> set ms then None else latency_at E p m)"
  unfolding evict_all_def fold_evict_effect by (simp_all only: concat_chunks zero_less_numeral)

lemma take_sort_below:
  fixes xs :: "'a :: linorder list"
  assumes "distinct xs" and "x \<in> set (take k (sort xs))" and "y \<in> set xs"
    and "y \<notin> set (take k (sort xs))"
  shows "x < y"
proof -
  have "y \<in> set (drop k (sort xs))"
    using assms(3,4) by (metis Un_iff append_take_drop_id set_append set_sort)
  then have "x \<le> y"
    using assms(2) sorted_sort [of xs] by (metis append_take_drop_id sorted_append)
  then show ?thesis using assms(2,4) by (cases "x = y") auto
qed

lemma enforce_plan:
  assumes run: "enforce_capacity_pool E mx p = Inr (p', n)"
    and big: "mx < int (h_len (rh E) (records p))"
    and once: "distinct (map fst (concat (h_scan (rh E) (records p) 200)))"
  obtains ranked where "distinct ranked"
    and "set ranked = (\<lambda>m. (rank_at E p m, m)) ` evictable E p"
    and "p' = evict_all E (map snd (take (nat (int (h_len (rh E) (records p)) - mx)) (sort ranked))) p"
    and "n = length (take (nat (int (h_len (rh E) (records p)) - mx)) (sort ranked))"
    and "card (evictable E p) = length ranked"
proof -
  let ?k = "nat (int (h_len (rh E) (records p)) - mx)"
  let ?pages = "h_scan (rh E) (records p) 200"
  let ?xs = "filter (\<lambda>(m, raw). \<not> is_leased E p m) (concat ?pages)"
  from run big obtain cs where cs: "lowest_ranks E p ?k ?pages [] = Inr cs"
    and p': "p' = evict_all E (map snd cs) p" "n = length cs"
    by (auto simp: enforce_capacity_pool_def Let_def split: sum.splits if_splits)
  from lowest_ranks_global [OF cs r.scan_nonempty] obtain all where
    all: "rank_batch E p (concat ?pages) = Inr all" and take: "cs = take ?k (sort all)"
    by auto
  have rk: "(\<lambda>(m, raw). (evict_rank (the (decode_record E raw)) m, m)) x = (rank_at E p (fst x), fst x)"
    if "x \<in> set ?xs" for x
    using that by (auto simp: rank_at_def record_at_def r.scan_get simp del: set_concat)
  have eq: "all = map (\<lambda>m. (rank_at E p m, m)) (map fst ?xs)"
    unfolding rank_batch_eq [OF all] map_map using rk by (intro map_cong refl) auto
  have keys: "set (map fst ?xs) = evictable E p"
    using r.scan_get [of _ _ "records p" 200] by (force simp: evictable_def)
  have d: "distinct (map fst ?xs)" using once by (rule distinct_map_filter_fst)
  then have "distinct all" unfolding eq distinct_map [of _ "map fst ?xs"]
    by (auto intro: inj_onI)
  moreover have "set all = (\<lambda>m. (rank_at E p m, m)) ` evictable E p"
    using keys unfolding eq set_map [of _ "map fst ?xs"] by simp
  moreover have "card (evictable E p) = length all"
    using distinct_card [OF d] unfolding keys eq by simp
  ultimately show ?thesis using that [of all] p' take by simp
qed

lemma enforce_effect:
  assumes run: "enforce_capacity_pool E mx p = Inr (p', n)"
    and big: "mx < int (h_len (rh E) (records p))"
    and once: "distinct (map fst (concat (h_scan (rh E) (records p) 200)))"
  shows "\<exists>ms. p' = evict_all E ms p \<and> set ms = evicted E p p' \<and> evicted E p p' \<subseteq> evictable E p \<and>
           n = card (evicted E p p') \<and>
           n = min (nat (int (h_len (rh E) (records p)) - mx)) (card (evictable E p)) \<and>
           (\<forall>m \<in> evicted E p p'. \<forall>m' \<in> evictable E p - evicted E p p'. (rank_at E p m, m) < (rank_at E p m', m'))"
proof -
  let ?k = "nat (int (h_len (rh E) (records p)) - mx)"
  obtain ranked where d: "distinct ranked"
    and rs: "set ranked = (\<lambda>m. (rank_at E p m, m)) ` evictable E p"
    and p': "p' = evict_all E (map snd (take ?k (sort ranked))) p"
    and n: "n = length (take ?k (sort ranked))" and c: "card (evictable E p) = length ranked"
    by (rule enforce_plan [OF run big once])
  let ?t = "take ?k (sort ranked)"
  have t: "set ?t \<subseteq> (\<lambda>m. (rank_at E p m, m)) ` evictable E p"
    using set_take_subset [of ?k "sort ranked"] rs by simp
  then have pair: "x = (rank_at E p (snd x), snd x)" if "x \<in> set ?t" for x
    using that by auto
  have ev: "evicted E p p' = set (map snd ?t)"
    using t unfolding p' by (auto simp: evicted_def evictable_def evict_effect)
  have "inj_on snd (set ?t)" by (rule inj_onI) (metis pair)
  then have "distinct (map snd ?t)" using d by (simp add: distinct_map)
  then have card: "card (evicted E p p') = length ?t"
    unfolding ev by (metis distinct_card length_map)
  have order: "(rank_at E p m, m) < (rank_at E p m', m')"
    if "m \<in> evicted E p p'" and "m' \<in> evictable E p - evicted E p p'" for m m'
  proof (rule take_sort_below [OF d])
    show "(rank_at E p m, m) \<in> set ?t" using that(1) pair unfolding ev by force
    show "(rank_at E p m', m') \<in> set ranked" using that(2) rs by auto
    show "(rank_at E p m', m') \<notin> set ?t" using that(2) unfolding ev by force
  qed
  have "evicted E p p' \<subseteq> evictable E p" using t unfolding ev by auto
  with p' ev card n c order show ?thesis by (intro exI [of _ "map snd ?t"]) auto
qed

end

end
