(* ===== verification/LeaseProtocol.thy ===== *)
theory LeaseProtocol
  imports Capacity
begin

text \<open>
  The pool of one domain as a transition system. Several collectors, checkers and API
  processes work on one Redis; every script and every \<open>MULTI\<close> pipeline of
  storage/repository.py is one step. \<open>upsert_candidate\<close> reads a record in one round trip
  and writes it back in another, so its write appears twice: as \<open>Upsert\<close>, where nothing
  happened in between, and as \<open>Late_Write\<close>, where the record it read may be outdated.
  The invariants are proved by rule induction over all runs, and say which of them survive
  late writes and which do not.
\<close>

section \<open>Steps\<close>

datatype pool_op =
    Upsert proxy_record
  | Late_Write "proxy_record option" proxy_record
  | Save proxy_record
  | Claim time nat nat time string
  | Complete string proxy_record
  | Release member string time
  | Delete member string
  | Reclaim time nat
  | Evict "member list"

text \<open>What the read of an upsert can return: nothing, or a valid record of that endpoint.\<close>

definition readable_as :: "proxy_record option \<Rightarrow> member \<Rightarrow> bool" where
  "readable_as old m \<longleftrightarrow>
     (\<forall>r. old = Some r \<longrightarrow> storable r \<and> canonical (endpoint r) = m)"

inductive pool_step ::
  "('z, 'h, 'o, 's, 'p) svc \<Rightarrow> rat \<Rightarrow> ('z, 'h, 'o) pool \<Rightarrow> pool_op \<Rightarrow> ('z, 'h, 'o) pool \<Rightarrow> bool"
  for E :: "('z, 'h, 'o, 's, 'p) svc" and x :: rat where
  upsert: "storable r \<Longrightarrow> get_record_pool E p (canonical (endpoint r)) = Inr old \<Longrightarrow>
     pool_step E x p (Upsert r) (upsert_write E x old r p)"
| late_write: "storable r \<Longrightarrow>
     readable_as old (canonical (endpoint r)) \<Longrightarrow>
     pool_step E x p (Late_Write old r) (upsert_write E x old r p)"
| save: "storable r \<Longrightarrow> pool_step E x p (Save r) (save_pool E x r p)"
| claim: "claim_priority_due E now limit plimit expires owner p = (p', ms) \<Longrightarrow>
     pool_step E x p (Claim now limit plimit expires owner) p'"
| complete: "storable r \<Longrightarrow>
     complete_lease E (canonical (endpoint r)) owner (encode_record E r) (of_int (score r))
       (next_check_at r) (latency_index_score r) (priority_due_score r x) p = (p', ok) \<Longrightarrow>
     pool_step E x p (Complete owner r) p'"
| release: "release_lease E m owner t p = (p', ok) \<Longrightarrow> pool_step E x p (Release m owner t) p'"
| delete: "delete_lease E m owner p = (p', ok) \<Longrightarrow> pool_step E x p (Delete m owner) p'"
| reclaim: "reclaim_expired_script E now limit p = (p', ms) \<Longrightarrow>
     pool_step E x p (Reclaim now limit) p'"
| evict: "pool_step E x p (Evict ms) (evict_all E ms p)"

inductive_cases pool_step_cases:
  "pool_step E x p (Upsert r) q" "pool_step E x p (Late_Write old r) q"
  "pool_step E x p (Save r) q" "pool_step E x p (Claim now limit plimit expires owner) q"
  "pool_step E x p (Complete owner r) q" "pool_step E x p (Release m owner t) q"
  "pool_step E x p (Delete m owner) q" "pool_step E x p (Reclaim now limit) q"
  "pool_step E x p (Evict ms) q"

definition empty_pool :: "('z, 'h, 'o, 's, 'p) svc \<Rightarrow> ('z, 'h, 'o) pool" where
  "empty_pool E =
     \<lparr>records = h_empty (rh E), quality = z_empty (zs E), due = z_empty (zs E),
      leased = z_empty (zs E), lease_owners = h_empty (oh E),
      available_latency = z_empty (zs E), available_latency_ready = None,
      priority_due = z_empty (zs E), priority_due_ready = None\<rparr>"

text \<open>A run is a sequence of steps whose operations satisfy \<open>ok\<close>.\<close>

inductive pool_run ::
  "('z, 'h, 'o, 's, 'p) svc \<Rightarrow> rat \<Rightarrow> (pool_op \<Rightarrow> bool) \<Rightarrow> ('z, 'h, 'o) pool \<Rightarrow> ('z, 'h, 'o) pool \<Rightarrow> bool"
  for E :: "('z, 'h, 'o, 's, 'p) svc" and x :: rat and ok :: "pool_op \<Rightarrow> bool" where
  start: "pool_run E x ok p p"
| next_step: "pool_run E x ok p q \<Longrightarrow> ok op \<Longrightarrow> pool_step E x q op q' \<Longrightarrow> pool_run E x ok p q'"

text \<open>Every write of an upsert follows its read at once.\<close>

fun unraced :: "pool_op \<Rightarrow> bool" where
  "unraced (Late_Write _ _) = False"
| "unraced _ = True"

lemma pool_run_invariant:
  assumes "pool_run E x ok p q" and "P p"
    and "\<And>a op b. P a \<Longrightarrow> ok op \<Longrightarrow> pool_step E x a op b \<Longrightarrow> P b"
  shows "P q"
  using assms(1,2) by (induction rule: pool_run.induct) (auto intro: assms(3))

section \<open>Invariants\<close>

text \<open>The set of leases and the hash of their owners have the same members.\<close>

definition leases_agree :: "('z, 'h, 'o, 's, 'p) svc \<Rightarrow> ('z, 'h, 'o) pool \<Rightarrow> bool" where
  "leases_agree E p \<longleftrightarrow> (\<forall>m. owner_of E p m = None \<longleftrightarrow> \<not> is_leased E p m)"

text \<open>Every stored text decodes to a valid record, stored under its canonical endpoint.\<close>

definition stored_ok :: "('z, 'h, 'o, 's, 'p) svc \<Rightarrow> ('z, 'h, 'o) pool \<Rightarrow> bool" where
  "stored_ok E p \<longleftrightarrow>
     (\<forall>m raw. h_get (rh E) (records p) m = Some raw \<longrightarrow>
        (\<exists>r. decode_record E raw = Some r \<and> storable r \<and> canonical (endpoint r) = m))"

text \<open>The latency index is exactly the latency of the available records.\<close>

definition latency_exact :: "('z, 'h, 'o, 's, 'p) svc \<Rightarrow> ('z, 'h, 'o) pool \<Rightarrow> bool" where
  "latency_exact E p \<longleftrightarrow>
     (\<forall>m. latency_at E p m = Option.bind (record_at E p m) latency_index_score)"

text \<open>A stored record is in the priority index exactly when it qualifies for it.\<close>

definition priority_agrees :: "('z, 'h, 'o, 's, 'p) svc \<Rightarrow> rat \<Rightarrow> ('z, 'h, 'o) pool \<Rightarrow> bool" where
  "priority_agrees E x p \<longleftrightarrow>
     (\<forall>m r. record_at E p m = Some r \<longrightarrow>
        (priority_at E p m = None \<longleftrightarrow> priority_due_score r x = None))"

text \<open>The quality set is exactly the scores of the records.\<close>

definition quality_exact :: "('z, 'h, 'o, 's, 'p) svc \<Rightarrow> ('z, 'h, 'o) pool \<Rightarrow> bool" where
  "quality_exact E p \<longleftrightarrow>
     (\<forall>m. z_score (zs E) (quality p) m = map_option (\<lambda>r. of_int (score r)) (record_at E p m))"

text \<open>Every stored record waits for a check or is being checked.\<close>

definition none_forgotten :: "('z, 'h, 'o, 's, 'p) svc \<Rightarrow> ('z, 'h, 'o) pool \<Rightarrow> bool" where
  "none_forgotten E p \<longleftrightarrow>
     (\<forall>m. due_at E p m = None \<and> \<not> is_leased E p m \<longrightarrow> h_get (rh E) (records p) m = None)"

text \<open>No member waits and is leased at the same time.\<close>

definition queues_disjoint :: "('z, 'h, 'o, 's, 'p) svc \<Rightarrow> ('z, 'h, 'o) pool \<Rightarrow> bool" where
  "queues_disjoint E p \<longleftrightarrow> (\<forall>m. due_at E p m = None \<or> \<not> is_leased E p m)"

definition pool_inv :: "('z, 'h, 'o, 's, 'p) svc \<Rightarrow> rat \<Rightarrow> ('z, 'h, 'o) pool \<Rightarrow> bool" where
  "pool_inv E x p \<longleftrightarrow> leases_agree E p \<and> stored_ok E p \<and> latency_exact E p \<and> priority_agrees E x p"

definition pool_inv_unraced :: "('z, 'h, 'o, 's, 'p) svc \<Rightarrow> rat \<Rightarrow> ('z, 'h, 'o) pool \<Rightarrow> bool" where
  "pool_inv_unraced E x p \<longleftrightarrow> pool_inv E x p \<and> quality_exact E p \<and> none_forgotten E p"

text \<open>The lease of \<open>w\<close> on \<open>m\<close>, until \<open>t\<close>; the endpoints that are due at a time.\<close>

definition holds_lease ::
  "('z, 'h, 'o, 's, 'p) svc \<Rightarrow> ('z, 'h, 'o) pool \<Rightarrow> member \<Rightarrow> string \<Rightarrow> time \<Rightarrow> bool" where
  "holds_lease E p m w t \<longleftrightarrow> z_score (zs E) (leased p) m = Some t \<and> owner_of E p m = Some w"

definition due_now :: "('z, 'h, 'o, 's, 'p) svc \<Rightarrow> ('z, 'h, 'o) pool \<Rightarrow> time \<Rightarrow> member set" where
  "due_now E p now = {m. \<exists>s \<le> now. due_at E p m = Some s}"

text \<open>The owner that a claim names.\<close>

fun claims_for :: "string \<Rightarrow> pool_op \<Rightarrow> bool" where
  "claims_for w (Claim _ _ _ _ owner) = (owner = w)"
| "claims_for w _ = False"

text \<open>Operations that may end the lease of \<open>w\<close> on \<open>m\<close> that expires at \<open>t\<close>.\<close>

fun ends_lease :: "member \<Rightarrow> string \<Rightarrow> time \<Rightarrow> pool_op \<Rightarrow> bool" where
  "ends_lease m w t (Complete owner r) = (owner = w \<and> canonical (endpoint r) = m)"
| "ends_lease m w t (Release m' owner _) = (owner = w \<and> m' = m)"
| "ends_lease m w t (Delete m' owner) = (owner = w \<and> m' = m)"
| "ends_lease m w t (Reclaim now _) = (t \<le> now)"
| "ends_lease m w t _ = False"

lemma merge_seen_simps [simp]:
  "endpoint (merge_seen old r) = endpoint old" "score (merge_seen old r) = score old"
  "state (merge_seen old r) = state old" "next_check_at (merge_seen old r) = next_check_at old"
  by (simp_all add: merge_seen_def)

lemma candidate_scores [simp]:
  "latency_index_score (r\<lparr>state := Candidate\<rparr>) = None"
  "priority_due_score (r\<lparr>state := Candidate\<rparr>) x = None"
  by (simp_all add: latency_index_score_def priority_due_score_def split: option.splits)

lemmas pool_invariants =
  leases_agree_def stored_ok_def latency_exact_def priority_agrees_def quality_exact_def
  none_forgotten_def queues_disjoint_def record_at_def

context pool_svc
begin

text \<open>Which fields of the pool a settling step writes, when it is accepted.\<close>

lemma complete_lease_cases:
  assumes "complete_lease E m w raw q d l pr p = (p', ok)"
  obtains "p' = p" and "\<not> ok" and "owner_of E p m \<noteq> Some w"
  | "p' = p\<lparr>records := h_set (rh E) (records p) m raw, quality := z_add (zs E) (quality p) m q,
             due := z_add (zs E) (due p) m d,
             available_latency := z_put (zs E) (available_latency p) m l,
             priority_due := z_put (zs E) (priority_due p) m pr,
             leased := z_rem (zs E) (leased p) m,
             lease_owners := h_del (oh E) (lease_owners p) m\<rparr>"
    and "ok" and "owner_of E p m = Some w"
  using assms by (auto simp: complete_lease_def split: if_splits)

lemma reclaim_run_effect:
  assumes "reclaim_expired_script E now limit p = (p', ms)"
  shows "records p' = records p" "quality p' = quality p"
    "available_latency p' = available_latency p" "priority_due p' = priority_due p"
    "z_score (zs E) (leased p') m = (if m \<in> set ms then None else z_score (zs E) (leased p) m)"
    "owner_of E p' m = (if m \<in> set ms then None else owner_of E p m)"
    "due_at E p' m = (if m \<in> set ms then Some now else due_at E p m)"
proof -
  from assms have "p' = reclaim_members E now ms p" using reclaim_script_eq by blast
  then show "records p' = records p" "quality p' = quality p"
    "available_latency p' = available_latency p" "priority_due p' = priority_due p"
    "z_score (zs E) (leased p') m = (if m \<in> set ms then None else z_score (zs E) (leased p) m)"
    "owner_of E p' m = (if m \<in> set ms then None else owner_of E p m)"
    "due_at E p' m = (if m \<in> set ms then Some now else due_at E p m)"
    by (simp_all add: reclaim_effect)
qed

lemma upsert_read:
  assumes "stored_ok E p" and "get_record_pool E p m = Inr old"
  shows "readable_as old m \<and> old = record_at E p m \<and> (old = None \<longleftrightarrow> h_get (rh E) (records p) m = None)"
  using assms get_record_pool_eq [OF assms(2)]
  by (fastforce simp: stored_ok_def readable_as_def get_record_pool_def split: option.splits)

lemma leases_agree_step:
  assumes "leases_agree E p" and "pool_step E x p op q"
  shows "leases_agree E q"
  using assms(2,1)
proof (cases rule: pool_step.cases)
  case (claim now limit plimit expires w ms)
  then show ?thesis using assms(1) by (auto simp: pool_invariants claim_effect)
next
  case (reclaim now limit ms)
  then show ?thesis using assms(1)
    by (auto simp: pool_invariants reclaim_run_effect split: if_splits)
qed (auto simp: pool_invariants pool_writes evict_frame split: option.splits if_splits)

lemma stored_ok_step:
  assumes "stored_ok E p" and "pool_step E x p op q"
  shows "stored_ok E q"
  using assms(2)
proof (cases rule: pool_step.cases)
  case (claim now limit plimit expires w ms)
  then show ?thesis using assms(1) by (auto simp: pool_invariants dest: claim_frame)
next
  case (reclaim now limit ms)
  then show ?thesis using assms(1)
    by (auto simp: pool_invariants reclaim_run_effect split: if_splits)
next
  case (upsert r old)
  then show ?thesis using assms(1)
    by (auto simp: pool_invariants pool_writes codec storable_candidate storable_merge
        readable_as_def dest!: upsert_read [OF assms(1)] split: option.splits if_splits)
qed (use assms(1) in \<open>auto simp: pool_invariants pool_writes evict_effect codec storable_candidate storable_merge
        readable_as_def split: option.splits if_splits\<close>)

lemma latency_exact_write:
  assumes "latency_exact E p" and "storable r"
    and "readable_as old (canonical (endpoint r))"
  shows "latency_exact E (upsert_write E x old r p)"
  using assms
  by (cases old) (auto simp: pool_invariants pool_writes codec storable_candidate storable_merge readable_as_def)

lemma latency_exact_step:
  assumes "stored_ok E p" and "latency_exact E p" and "pool_step E x p op q"
  shows "latency_exact E q"
  using assms(3)
proof (cases rule: pool_step.cases)
  case (claim now limit plimit expires w ms)
  then show ?thesis using assms(2) claim_frame [of now limit plimit expires w p q ms]
    by (auto simp: pool_invariants)
next
  case (reclaim now limit ms)
  then show ?thesis using assms(2) by (auto simp: pool_invariants reclaim_run_effect)
next
  case (upsert r old)
  then show ?thesis using latency_exact_write [OF assms(2)] upsert_read [OF assms(1)] by simp
next
  case (late_write r old)
  then show ?thesis using latency_exact_write [OF assms(2)] by simp
qed (use assms(2) in \<open>auto simp: pool_invariants pool_writes evict_effect codec split: if_splits\<close>)

lemma priority_agrees_write:
  assumes "priority_agrees E x p" and "storable r"
    and "readable_as old (canonical (endpoint r))"
  shows "priority_agrees E x (upsert_write E x old r p)"
  using assms
  by (cases old) (auto simp: pool_invariants pool_writes codec storable_candidate storable_merge readable_as_def)

lemma priority_agrees_step:
  assumes "stored_ok E p" and "priority_agrees E x p" and "pool_step E x p op q"
  shows "priority_agrees E x q"
  using assms(3)
proof (cases rule: pool_step.cases)
  case (claim now limit plimit expires w ms)
  then show ?thesis using assms(2) claim_frame [of now limit plimit expires w p q ms]
    by (auto simp: pool_invariants)
next
  case (reclaim now limit ms)
  then show ?thesis using assms(2) by (auto simp: pool_invariants reclaim_run_effect)
next
  case (upsert r old)
  then show ?thesis using priority_agrees_write [OF assms(2)] upsert_read [OF assms(1)] by simp
next
  case (late_write r old)
  then show ?thesis using priority_agrees_write [OF assms(2)] by simp
next
  case (release m owner t ok)
  have "priority_at E q m' = None \<longleftrightarrow> priority_at E p m' = None" for m'
    using release by (auto simp: release_lease_def split: if_splits)
  moreover have "record_at E q m' = record_at E p m'" for m'
    using release by (auto simp: release_lease_def record_at_def split: if_splits)
  ultimately show ?thesis using assms(2) by (simp add: priority_agrees_def)
qed (use assms(2) in \<open>auto simp: pool_invariants pool_writes evict_effect evict_frame codec split: if_splits\<close>)

lemma quality_exact_write:
  assumes "quality_exact E p" and "storable r" and "old = record_at E p (canonical (endpoint r))"
    and "readable_as old (canonical (endpoint r))"
  shows "quality_exact E (upsert_write E x old r p)"
proof (cases old)
  case None
  with assms show ?thesis
    by (auto simp: pool_invariants pool_writes codec storable_candidate)
next
  case (Some old')
  moreover from Some assms(4) have "storable (merge_seen old' r)" by (simp add: storable_merge assms(2) readable_as_def)
  moreover from Some assms(1,3)
  have "z_score (zs E) (quality p) (canonical (endpoint r)) = Some (of_int (score old'))"
    by (simp add: quality_exact_def)
  ultimately show ?thesis using assms(1)
    by (simp add: pool_invariants pool_writes codec)
qed

lemma none_forgotten_write:
  assumes "none_forgotten E p"
    and "old = None \<longleftrightarrow> h_get (rh E) (records p) (canonical (endpoint r)) = None"
  shows "none_forgotten E (upsert_write E x old r p)"
proof (cases old)
  case None
  with assms show ?thesis by (auto simp: pool_invariants pool_writes)
next
  case (Some old')
  with assms have "\<not> (due_at E p (canonical (endpoint r)) = None \<and> \<not> is_leased E p (canonical (endpoint r)))"
    by (auto simp: none_forgotten_def)
  with Some assms(1) show ?thesis by (auto simp: pool_invariants pool_writes)
qed

lemma quality_exact_step:
  assumes "stored_ok E p" and "quality_exact E p" and "pool_step E x p op q" and "unraced op"
  shows "quality_exact E q"
  using assms(3)
proof (cases rule: pool_step.cases)
  case (claim now limit plimit expires w ms)
  then show ?thesis using assms(2) claim_frame [of now limit plimit expires w p q ms]
    by (auto simp: pool_invariants)
next
  case (reclaim now limit ms)
  then show ?thesis using assms(2) by (auto simp: pool_invariants reclaim_run_effect)
next
  case (upsert r old)
  then show ?thesis using quality_exact_write [OF assms(2), of r old] upsert_read [OF assms(1)] by simp
qed (use assms(2,4) in \<open>auto simp: pool_invariants pool_writes evict_effect codec split: if_splits\<close>)

lemma none_forgotten_step:
  assumes "stored_ok E p" and "none_forgotten E p" and "pool_step E x p op q" and "unraced op"
  shows "none_forgotten E q"
  using assms(3)
proof (cases rule: pool_step.cases)
  case (claim now limit plimit expires w ms)
  then show ?thesis using assms(2) claim_frame [of now limit plimit expires w p q ms]
    by (auto simp: pool_invariants claim_effect)
next
  case (reclaim now limit ms)
  then show ?thesis using assms(2) by (auto simp: pool_invariants reclaim_run_effect)
next
  case (upsert r old)
  then show ?thesis using none_forgotten_write [OF assms(2)] upsert_read [OF assms(1)] by simp
qed (use assms(2,4) in \<open>auto simp: pool_invariants pool_writes evict_effect evict_frame split: if_splits\<close>)

lemma pool_inv_step:
  assumes "pool_inv E x p" and "pool_step E x p op q"
  shows "pool_inv E x q"
  using assms leases_agree_step [OF _ assms(2)] stored_ok_step [OF _ assms(2)]
    latency_exact_step [OF _ _ assms(2)] priority_agrees_step [OF _ _ assms(2)]
  by (simp add: pool_inv_def)

lemma pool_inv_unraced_step:
  assumes "pool_inv_unraced E x p" and "unraced op" and "pool_step E x p op q"
  shows "pool_inv_unraced E x q"
  using assms pool_inv_step [OF _ assms(3)] quality_exact_step [OF _ _ assms(3,2)]
    none_forgotten_step [OF _ _ assms(3,2)]
  by (simp add: pool_inv_unraced_def pool_inv_def)

lemma pool_inv_empty: "pool_inv_unraced E x (empty_pool E)"
  by (simp add: pool_inv_unraced_def pool_inv_def pool_invariants empty_pool_def)

lemma pool_inv_run:
  assumes "pool_run E x ok (empty_pool E) p" shows "pool_inv E x p"
proof (rule pool_run_invariant [where P = "pool_inv E x", OF assms])
  show "pool_inv E x (empty_pool E)" using pool_inv_empty by (simp add: pool_inv_unraced_def)
qed (rule pool_inv_step)

lemma pool_inv_unraced_run:
  assumes "pool_run E x unraced (empty_pool E) p" shows "pool_inv_unraced E x p"
  by (rule pool_run_invariant [where P = "pool_inv_unraced E x", OF assms pool_inv_empty])
     (rule pool_inv_unraced_step)

section \<open>Leases\<close>

text \<open>Settling under another owner's name changes nothing.\<close>

lemma settle_fenced:
  assumes "owner_of E p m \<noteq> Some w"
  shows "complete_lease E m w raw qs d l pr p = (p, False)"
    and "release_lease E m w d p = (p, False)"
    and "delete_lease E m w p = (p, False)"
  using assms by (simp_all add: complete_lease_def release_lease_def delete_lease_def)

lemma settled_free:
  assumes "complete_lease E m w raw qs d l pr p = (p', True) \<or> release_lease E m w d p = (p', True) \<or>
     delete_lease E m w p = (p', True) \<or>
     (\<exists>ms. reclaim_expired_script E now limit p = (p', ms) \<and> m \<in> set ms)"
  shows "owner_of E p' m = None"
  using assms reclaim_run_effect(6) [of now limit p p']
  by (auto simp: complete_lease_def release_lease_def delete_lease_def split: if_splits)

lemma not_owner_step:
  assumes "owner_of E p m \<noteq> Some w" and "\<not> claims_for w op" and "pool_step E x p op q"
  shows "owner_of E q m \<noteq> Some w"
  using assms(3)
proof (cases rule: pool_step.cases)
  case (claim now limit plimit expires owner ms)
  then show ?thesis using assms(1,2) by (auto simp: claim_effect)
next
  case (reclaim now limit ms)
  then show ?thesis using assms(1) by (auto simp: reclaim_run_effect)
qed (use assms(1) in \<open>auto simp: pool_writes evict_frame split: option.splits if_splits\<close>)

lemma not_owner_run:
  assumes "pool_run E x (\<lambda>op. \<not> claims_for w op) p q" and "owner_of E p m \<noteq> Some w"
  shows "owner_of E q m \<noteq> Some w"
  by (rule pool_run_invariant [where P = "\<lambda>p. owner_of E p m \<noteq> Some w", OF assms])
     (rule not_owner_step)

lemma holds_lease_step:
  assumes "holds_lease E p m w t" and "\<not> ends_lease m w t op" and "pool_step E x p op q"
  shows "holds_lease E q m w t"
  using assms(3)
proof (cases rule: pool_step.cases)
  case (claim now limit plimit expires owner ms)
  have "m \<notin> set ms" using claim_members_set [OF claim(2)] assms(1) by (auto simp: holds_lease_def)
  with claim show ?thesis using assms(1) by (auto simp: holds_lease_def claim_effect)
next
  case (reclaim now limit ms)
  have "m \<notin> set ms"
    using reclaim_script_expired [OF reclaim(2), of m] assms(1,2) reclaim(1)
    by (auto simp: holds_lease_def)
  with reclaim show ?thesis using assms(1) by (auto simp: holds_lease_def reclaim_run_effect)
qed (use assms(1,2) in \<open>auto simp: holds_lease_def pool_writes evict_frame split: option.splits if_splits\<close>)

lemma holds_lease_run:
  assumes "pool_run E x (\<lambda>op. \<not> ends_lease m w t op) p q" and "holds_lease E p m w t"
  shows "holds_lease E q m w t"
  by (rule pool_run_invariant [where P = "\<lambda>p. holds_lease E p m w t", OF assms])
     (rule holds_lease_step)

text \<open>The documented effect of each command, for proofs outside the locale.\<close>

lemma command_facts:
  "h_get (rh E) (h_set (rh E) h m v) m' = (if m' = m then Some v else h_get (rh E) h m')"
  "h_get (rh E) (h_del (rh E) h m) m' = (if m' = m then None else h_get (rh E) h m')"
  "z_score (zs E) (z_put (zs E) zz m sc) m' = (if m' = m then sc else z_score (zs E) zz m')"
  "z_score (zs E) (z_add (zs E) zz m s) m' = (if m' = m then Some s else z_score (zs E) zz m')"
  "z_score (zs E) (z_rem (zs E) zz m) m' = (if m' = m then None else z_score (zs E) zz m')"
  "h_get (oh E) (h_del (oh E) hh m) m' = (if m' = m then None else h_get (oh E) hh m')"
  by simp_all

section \<open>Progress of a claim\<close>

lemma due_now_list:
  "set (map fst (z_rangebyscore (zs E) (due p) Below_All (Incl now))) = due_now E p now"
  unfolding due_now_def using z.rangebyscore_mem [of _ _ "due p" Below_All "Incl now"] by force

lemma due_now_card: "card (due_now E p now) = length (z_rangebyscore (zs E) (due p) Below_All (Incl now))"
  by (metis distinct_card due_now_list length_map z.rangebyscore_distinct)

lemma due_now_finite: "finite (due_now E p now)"
  by (metis List.finite_set due_now_list)

lemma claim_progress_lemma:
  assumes run: "claim_priority_due E now limit plimit x w p = (p', ms)"
    and disj: "queues_disjoint E p"
  shows "min limit (card (due_now E p now)) \<le> length ms"
proof -
  let ?f = "first_picks E now plimit p"
  from run obtain p1 gen where
    r1: "claim_members E x w (map fst (z_rangelimit (zs E) (priority_due p) Below_All (Incl now) 0 plimit)) p [] = (p1, ?f)"
    and gen: "gen = (if limit > length ?f then map fst (z_rangelimit (zs E) (due p1) Below_All (Incl now) 0 (limit - length ?f)) else [])"
    and r2: "claim_members E x w gen p1 ?f = (p', ms)" and dg: "distinct gen"
    by (rule claim_split)
  have ms: "ms = ?f @ filter (\<lambda>m. \<not> is_leased E p1 m) gen" using claim_members_list [OF r2 dg] .
  have free: "\<not> is_leased E p1 m" if "m \<in> set gen" for m
  proof -
    from that gen obtain s where "due_at E p1 m = Some s"
      using z.rangelimit_fst [of m "due p1" Below_All "Incl now" 0] by (auto split: if_splits)
    with claim_members_due [OF r1, of m] claim_members_leased [OF r1, of m] disj [unfolded queues_disjoint_def, rule_format, of m]
    show ?thesis by (auto split: if_splits)
  qed
  then have all: "filter (\<lambda>m. \<not> is_leased E p1 m) gen = gen" by (simp add: filter_id_conv)
  have "due_now E p now \<subseteq> set ?f \<union> due_now E p1 now"
    using claim_members_due [OF r1] by (auto simp: due_now_def first_picks_def split: if_splits)
  then have "card (due_now E p now) \<le> card (set ?f \<union> due_now E p1 now)"
    by (intro card_mono) (simp_all add: due_now_finite)
  also have "\<dots> \<le> length ?f + card (due_now E p1 now)"
    by (rule order_trans [OF card_Un_le]) (simp add: card_length)
  finally have "card (due_now E p now) \<le> length ?f + card (due_now E p1 now)" .
  moreover have "length gen = min (limit - length ?f) (card (due_now E p1 now))" if "limit > length ?f"
    using gen that by (simp add: z.rangelimit_range due_now_card)
  ultimately show ?thesis unfolding ms all by (cases "limit > length ?f") auto
qed

lemma priority_claimed:
  assumes run: "claim_priority_due E now limit plimit x w p = (p', ms)" and free: "\<not> is_leased E p m"
    and "priority_at E p m = Some s" and "s \<le> now"
    and room: "z_count (zs E) (priority_due p) Below_All (Incl now) \<le> plimit"
  shows "m \<in> set ms"
proof -
  have "(m, s) \<in> set (z_rangelimit (zs E) (priority_due p) Below_All (Incl now) 0 plimit)"
    using assms(3,4) room by (simp add: z.rangelimit_range z.count_range z.rangebyscore_mem)
  then have "m \<in> set (first_picks E now plimit p)" using free by (force simp: first_picks_def)
  then show ?thesis using claim_members_set [OF run] by (metis in_set_takeD)
qed

end

end
