(* ===== verification/PoolProperties.thy ===== *)
theory PoolProperties
  imports LeaseProtocol
begin

text \<open>
  The properties of the pool, its leases and its capacity limit, each for any services that
  keep their documented laws (\<open>pool_svc\<close>), with witnesses on the reference services.
\<close>

section \<open>A sample pool\<close>

text \<open>Two available proxies, one fast and one slow, both due.\<close>

definition two_due :: "(ref_zset, (member \<times> proxy_record) list, (member \<times> string) list) pool" where
  "two_due =
     save_pool ref_svc 1000 (sample ''a'' Available 85 100 5)
       (save_pool ref_svc 1000 (sample ''b'' Available 90 2000 3) (empty_pool ref_svc))"

lemmas pool_eval =
  two_due_def save_pool_def priority_due_score_def Let_def z_put_def empty_pool_def
  claim_priority_due_def ref_svc_eval in_range_def

lemma two_due_run: "pool_run ref_svc 1000 unraced (empty_pool ref_svc) two_due"
proof -
  have "pool_run ref_svc 1000 unraced (empty_pool ref_svc)
          (save_pool ref_svc 1000 (sample ''b'' Available 90 2000 3) (empty_pool ref_svc))"
    by (rule pool_run.next_step [OF pool_run.start _ pool_step.save])
       (simp_all add: sample_storable)
  then show ?thesis unfolding two_due_def
    by (rule pool_run.next_step [OF _ _ pool_step.save]) (simp_all add: sample_storable)
qed

lemma two_due_claim:
  "snd (claim_priority_due ref_svc 10 1 1 70 ''w'' two_due) = [''a:80'']"
  by (simp add: pool_eval)

definition one_leased :: "(ref_zset, (member \<times> proxy_record) list, (member \<times> string) list) pool" where
  "one_leased = fst (claim_priority_due ref_svc 10 1 1 70 ''w'' two_due)"

lemma one_leased_holds: "holds_lease ref_svc one_leased ''a:80'' ''w'' 70"
  by (simp add: holds_lease_def one_leased_def pool_eval)

section \<open>Invariants over all runs\<close>



text \<open>
  When every upsert writes what it has just read, the quality set is also exactly the
  scores of the stored records, and no stored record is forgotten: each is due or leased.
\<close>

lemma unraced_invariant_kept:
  assumes "pool_svc E" and "pool_run E x unraced (empty_pool E) p"
  shows "quality_exact E p \<and> none_forgotten E p"
  using pool_svc.pool_inv_unraced_run [OF assms] by (simp add: pool_inv_unraced_def)

lemma unraced_invariant_kept_witness:
  "quality_exact ref_svc two_due \<and> none_forgotten ref_svc two_due"
  by (rule unraced_invariant_kept [OF ref_svc_pool two_due_run])

text \<open>
  C1: a lease excludes every other worker. From any state in which \<open>w\<close> holds the lease of
  \<open>m\<close> until \<open>t\<close>, as long as \<open>w\<close> does not settle it and no reclaim runs at or after \<open>t\<close>,
  no claim returns \<open>m\<close>, and a completion, release or deletion under another owner is
  refused and leaves the pool as it is.
\<close>

theorem lease_excludes_others:
  assumes "pool_svc E" and "holds_lease E p m w t"
    and "pool_run E x (\<lambda>op. \<not> ends_lease m w t op) p q"
  shows "m \<notin> set (snd (claim_priority_due E now limit plimit expires w' q)) \<and>
         (w' \<noteq> w \<longrightarrow> complete_lease E m w' raw qs d l pr q = (q, False) \<and>
            release_lease E m w' d q = (q, False) \<and> delete_lease E m w' q = (q, False))"
proof -
  have "holds_lease E q m w t" by (rule pool_svc.holds_lease_run [OF assms(1,3,2)])
  then show ?thesis
    using pool_svc.claim_members_set [OF assms(1), of now limit plimit expires w' q]
      pool_svc.settle_fenced [OF assms(1), of q m w']
    by (cases "claim_priority_due E now limit plimit expires w' q") (auto simp: holds_lease_def)
qed

theorem lease_excludes_others_witness:
  "''a:80'' \<notin> set (snd (claim_priority_due ref_svc 60 5 4 120 ''v'' one_leased)) \<and>
     complete_lease ref_svc ''a:80'' ''v'' (sample ''a'' Candidate 1 1 1) 1 1 None None one_leased
       = (one_leased, False) \<and>
     release_lease ref_svc ''a:80'' ''v'' 1 one_leased = (one_leased, False) \<and>
     delete_lease ref_svc ''a:80'' ''v'' one_leased = (one_leased, False)"
proof -
  have "''v'' \<noteq> (''w'' :: string)" by simp
  with lease_excludes_others [OF ref_svc_pool one_leased_holds pool_run.start, of 60 5 4 120 "''v''"
      "sample ''a'' Candidate 1 1 1" 1 1 None None]
  show ?thesis by blast
qed

text \<open>
  C3: a lease that has ended stays ended. Once its owner's completion, release or deletion
  is accepted, or a reclaim returns the endpoint, every later attempt to settle it under that
  owner is refused without effect, for as long as no claim uses the same owner text again
  (each claim draws a fresh UUID).
\<close>

theorem ended_lease_is_fenced:
  assumes "pool_svc E"
    and "complete_lease E m w raw qs d l pr p = (p', True) \<or> release_lease E m w d p = (p', True) \<or>
         delete_lease E m w p = (p', True) \<or>
         (\<exists>ms. reclaim_expired_script E now limit p = (p', ms) \<and> m \<in> set ms)"
    and "pool_run E x (\<lambda>op. \<not> claims_for w op) p' q"
  shows "complete_lease E m w raw' qs' d' l' pr' q = (q, False) \<and>
         release_lease E m w d' q = (q, False) \<and> delete_lease E m w q = (q, False)"
proof -
  have "owner_of E p' m = None" by (rule pool_svc.settled_free [OF assms(1,2)])
  then have "owner_of E q m \<noteq> Some w"
    using pool_svc.not_owner_run [OF assms(1,3), of m] by simp
  then show ?thesis using pool_svc.settle_fenced [OF assms(1)] by blast
qed

lemma one_leased_release: "snd (release_lease ref_svc ''a:80'' ''w'' 20 one_leased)"
  by (simp add: one_leased_def release_lease_def pool_eval)

theorem ended_lease_is_fenced_witness:
  "let q = fst (release_lease ref_svc ''a:80'' ''w'' 20 one_leased)
   in complete_lease ref_svc ''a:80'' ''w'' (sample ''a'' Candidate 1 1 1) 1 1 None None q = (q, False) \<and>
      release_lease ref_svc ''a:80'' ''w'' 1 q = (q, False) \<and> delete_lease ref_svc ''a:80'' ''w'' q = (q, False)"
  unfolding Let_def
  by (rule ended_lease_is_fenced [OF ref_svc_pool _ pool_run.start, where p = one_leased and d = 20])
     (use one_leased_release in \<open>simp add: prod_eq_iff\<close>)

lemma claim_due_all:
  assumes "pool_svc E" and "d \<noteq> []" and "1 \<le> limit" and "limit \<le> 1000" and "worker \<noteq> []" and "0 < secs"
  shows "\<exists>R' ls. claim_due E d worker uuid limit secs now R = Inr (R', ls) \<and>
     (\<forall>l \<in> set ls. lease_domain l = d \<and> lease_owner l = worker @ '':'' @ uuid \<and>
        expires_at l = now + of_int secs) \<and>
     distinct (map lease_endpoint ls) \<and> length ls \<le> nat limit \<and>
     (\<forall>m \<in> set (map lease_endpoint ls). \<not> is_leased E (pools R d) m \<and>
        (\<exists>s \<le> now. due_at E (pools R d) m = Some s \<or> priority_at E (pools R d) m = Some s)) \<and>
     (\<forall>m. if m \<in> set (map lease_endpoint ls)
          then holds_lease E (pools R' d) m (worker @ '':'' @ uuid) (now + of_int secs) \<and>
               due_at E (pools R' d) m = None
          else z_score (zs E) (leased (pools R' d)) m = z_score (zs E) (leased (pools R d)) m \<and>
               owner_of E (pools R' d) m = owner_of E (pools R d) m \<and>
               due_at E (pools R' d) m = due_at E (pools R d) m) \<and>
     records (pools R' d) = records (pools R d) \<and> quality (pools R' d) = quality (pools R d) \<and>
     priority_due (pools R' d) = priority_due (pools R d) \<and>
     available_latency (pools R' d) = available_latency (pools R d) \<and>
     (\<forall>d'. d' \<noteq> d \<longrightarrow> pools R' d' = pools R d')"
proof -
  let ?own = "worker @ '':'' @ uuid" and ?exp = "now + of_int secs"
  obtain p' ms where run: "claim_priority_due E now (nat limit) (nat (priority_limit_of limit)) ?exp ?own (pools R d) = (p', ms)"
    by (metis surj_pair)
  have share: "nat (priority_limit_of limit) \<le> nat limit"
    using assms(3) by (auto simp: priority_limit_of_def intro!: nat_mono)
  obtain ls where res: "claim_due E d worker uuid limit secs now R = Inr (on_pool d (\<lambda>_. p') R, ls)"
    and eps: "map lease_endpoint ls = ms"
    and each: "\<forall>l \<in> set ls. lease_domain l = d \<and> lease_owner l = ?own \<and> expires_at l = ?exp"
    using assms run by (simp add: claim_due_def pool_for_def o_def)
  have len: "length ls = length ms" using eps by auto
  note facts = pool_svc.claim_members_set [OF assms(1) run] pool_svc.claim_effect [OF assms(1) run]
    pool_svc.claim_frame [OF assms(1) run]
  show ?thesis using res each share facts
    by (intro exI [of _ "on_pool d (\<lambda>_. p') R"] exI [of _ ls])
       (simp add: eps len on_pool_def holds_lease_def)
qed

lemma claim_due_facts:
  assumes "pool_svc E" and "d \<noteq> []" and "1 \<le> limit" and "limit \<le> 1000" and "worker \<noteq> []" and "0 < secs"
    and "claim_due E d worker uuid limit secs now R = Inr (R', ls)"
  shows "\<forall>l \<in> set ls. lease_domain l = d \<and> owner_of E (pools R' d) (lease_endpoint l) = Some (lease_owner l)"
    and "distinct (map lease_endpoint ls)"
    and "m \<notin> set (map lease_endpoint ls) \<Longrightarrow> owner_of E (pools R' d) m = owner_of E (pools R d) m"
proof -
  from claim_due_all [OF assms(1-6), of uuid now R] assms(7)
  have all: "\<forall>l \<in> set ls. lease_domain l = d \<and> lease_owner l = worker @ '':'' @ uuid"
    and dist: "distinct (map lease_endpoint ls)"
    and each: "\<forall>m. if m \<in> set (map lease_endpoint ls)
        then holds_lease E (pools R' d) m (worker @ '':'' @ uuid) (now + of_int secs) \<and> due_at E (pools R' d) m = None
        else z_score (zs E) (leased (pools R' d)) m = z_score (zs E) (leased (pools R d)) m \<and>
             owner_of E (pools R' d) m = owner_of E (pools R d) m \<and> due_at E (pools R' d) m = due_at E (pools R d) m"
    by (metis (no_types, lifting) Inr_inject prod.inject)+
  show "distinct (map lease_endpoint ls)" by (rule dist)
  show "m \<notin> set (map lease_endpoint ls) \<Longrightarrow> owner_of E (pools R' d) m = owner_of E (pools R d) m"
    using each by metis
  show "\<forall>l \<in> set ls. lease_domain l = d \<and> owner_of E (pools R' d) (lease_endpoint l) = Some (lease_owner l)"
  proof
    fix l assume l: "l \<in> set ls"
    then have "lease_endpoint l \<in> set (map lease_endpoint ls)" by simp
    with each have "holds_lease E (pools R' d) (lease_endpoint l) (worker @ '':'' @ uuid) (now + of_int secs)" by metis
    with all l show "lease_domain l = d \<and> owner_of E (pools R' d) (lease_endpoint l) = Some (lease_owner l)"
      by (simp add: holds_lease_def)
  qed
qed

text \<open>
  C4: \<open>claim_due\<close> with valid arguments returns leases for the domain that all carry the
  fresh owner and the expiry \<open>now + lease_seconds\<close>, at most \<open>limit\<close> of them, of distinct
  endpoints that nobody had leased and whose check time has come; afterwards each is leased
  to that owner and no longer due, every other endpoint and every other domain is untouched,
  and no record or index other than the three queues of leases has changed.
\<close>

lemma claim_due_leases:
  assumes "pool_svc E" and "d \<noteq> []" and "1 \<le> limit" and "limit \<le> 1000" and "worker \<noteq> []" and "0 < secs"
  shows "\<exists>R' ls. claim_due E d worker uuid limit secs now R = Inr (R', ls) \<and>
     (\<forall>l \<in> set ls. lease_domain l = d \<and> lease_owner l = worker @ '':'' @ uuid \<and>
        expires_at l = now + of_int secs) \<and>
     distinct (map lease_endpoint ls) \<and> length ls \<le> nat limit \<and>
     (\<forall>m \<in> set (map lease_endpoint ls). \<not> is_leased E (pools R d) m \<and>
        (\<exists>s \<le> now. due_at E (pools R d) m = Some s \<or> priority_at E (pools R d) m = Some s)) \<and>
     (\<forall>m. if m \<in> set (map lease_endpoint ls)
          then holds_lease E (pools R' d) m (worker @ '':'' @ uuid) (now + of_int secs) \<and>
               due_at E (pools R' d) m = None
          else z_score (zs E) (leased (pools R' d)) m = z_score (zs E) (leased (pools R d)) m \<and>
               owner_of E (pools R' d) m = owner_of E (pools R d) m \<and>
               due_at E (pools R' d) m = due_at E (pools R d) m) \<and>
     records (pools R' d) = records (pools R d) \<and> quality (pools R' d) = quality (pools R d) \<and>
     priority_due (pools R' d) = priority_due (pools R d) \<and>
     available_latency (pools R' d) = available_latency (pools R d) \<and>
     (\<forall>d'. d' \<noteq> d \<longrightarrow> pools R' d' = pools R d')"
  by (rule claim_due_all [OF assms])

definition sample_repo ::
  "(ref_zset, (member \<times> proxy_record) list, (member \<times> string) list, member list) repo" where
  "sample_repo = \<lparr>domains = [''d''], pools = (\<lambda>_. one_leased)\<rparr>"

lemma claim_due_leases_witness:
  "\<exists>R' ls. claim_due ref_svc ''d'' ''w'' ''u'' 5 60 10 sample_repo = Inr (R', ls) \<and>
     distinct (map lease_endpoint ls) \<and> length ls \<le> 5 \<and> (\<forall>l \<in> set ls. expires_at l = 70)"
  using claim_due_leases [OF ref_svc_pool, of "''d''" 5 "''w''" 60 "''u''" 10 sample_repo] by auto

text \<open>
  C4: claiming makes progress. While no endpoint is both queued and leased, a claim returns
  at least \<open>limit\<close> endpoints, or all the endpoints that are due if they are fewer, even when
  the priority index is full of endpoints that are leased already.
\<close>

theorem claim_progress:
  assumes "pool_svc E" and "queues_disjoint E p"
  shows "min limit (card (due_now E p now))
           \<le> length (snd (claim_priority_due E now limit plimit expires w p))"
  using pool_svc.claim_progress_lemma [OF assms(1) _ assms(2)] by (metis prod.collapse)

lemma two_due_disjoint: "queues_disjoint ref_svc two_due"
  by (simp add: queues_disjoint_def pool_eval)

theorem claim_progress_witness:
  "min 2 (card (due_now ref_svc two_due 10))
     \<le> length (snd (claim_priority_due ref_svc 10 2 1 70 ''w'' two_due))"
  by (rule claim_progress [OF ref_svc_pool two_due_disjoint])

text \<open>
  A completion by the owner of the lease is accepted, and the record then reads back as
  it was completed; the endpoint is due at the record's next check, no longer leased, ranked
  by the record's score, and in the latency and priority indexes exactly when the record
  qualifies; every other endpoint of the domain and every other domain is untouched.
\<close>

lemma complete_reads_back:
  assumes "pool_svc E" and "storable r" and "lease_domain l = rec_domain r"
    and "lease_endpoint l = canonical (endpoint r)"
    and "owner_of E (pools R (rec_domain r)) (lease_endpoint l) = Some (lease_owner l)"
  shows "\<exists>R'. complete E x l r R = Inr (R', True) \<and>
     get_record E R' (rec_domain r) (lease_endpoint l) = Inr (Some r) \<and>
     is_due E R' (rec_domain r) (lease_endpoint l) = Inr True \<and>
     due_at E (pools R' (rec_domain r)) (lease_endpoint l) = Some (next_check_at r) \<and>
     \<not> is_leased E (pools R' (rec_domain r)) (lease_endpoint l) \<and>
     z_score (zs E) (quality (pools R' (rec_domain r))) (lease_endpoint l) = Some (of_int (score r)) \<and>
     latency_at E (pools R' (rec_domain r)) (lease_endpoint l) = latency_index_score r \<and>
     priority_at E (pools R' (rec_domain r)) (lease_endpoint l) = priority_due_score r x \<and>
     (\<forall>m. m \<noteq> lease_endpoint l \<longrightarrow>
        get_record E R' (rec_domain r) m = get_record E R (rec_domain r) m \<and>
        due_at E (pools R' (rec_domain r)) m = due_at E (pools R (rec_domain r)) m \<and>
        owner_of E (pools R' (rec_domain r)) m = owner_of E (pools R (rec_domain r)) m) \<and>
     (\<forall>d. d \<noteq> rec_domain r \<longrightarrow> pools R' d = pools R d)"
proof -
  have "rec_domain r \<noteq> []" using assms(2) by (auto simp: storable_def valid_record_def)
  then show ?thesis
    using assms pool_svc.command_facts [OF assms(1)] pool_svc.codec [OF assms(1,2)]
    by (simp add: complete_def complete_lease_def pool_for_def get_record_def get_record_pool_def
        is_due_def on_pool_def)
qed

lemma complete_reads_back_witness:
  "\<exists>R'. complete ref_svc 1000 \<lparr>lease_domain = ''d'', lease_endpoint = ''a:80'', lease_owner = ''w'', expires_at = 70\<rparr>
          (sample ''a'' Degraded 40 100 300) sample_repo = Inr (R', True) \<and>
     get_record ref_svc R' ''d'' ''a:80'' = Inr (Some (sample ''a'' Degraded 40 100 300))"
  using complete_reads_back [OF ref_svc_pool sample_storable, of "''a''" 40 100
      "\<lparr>lease_domain = ''d'', lease_endpoint = ''a:80'', lease_owner = ''w'', expires_at = 70\<rparr>" Degraded 300 sample_repo 1000]
    one_leased_holds
  by (auto simp: sample_repo_def holds_lease_def)

section \<open>Capacity\<close>


definition over_capacity ::
  "(ref_zset, (member \<times> proxy_record) list, (member \<times> string) list, member list) repo" where
  "over_capacity = \<lparr>domains = [''d''], pools = (\<lambda>_. two_due)\<rparr>"

lemma two_due_over: "1 < int (h_len (rh ref_svc) (records two_due))"
  by (simp add: pool_eval)

lemma two_due_scan: "distinct (map fst (concat (h_scan (rh ref_svc) (records two_due) 200)))"
  by (simp add: ref_svc_def ref_hash_api_def comp_def)

lemma two_due_enforced: "\<exists>R' n. enforce_capacity ref_svc ''d'' 1 over_capacity = Inr (R', n)"
  by (simp add: enforce_capacity_def enforce_capacity_pool_def over_capacity_def pool_for_def pool_eval
      sample_valid)


text \<open>What is left of an evicted endpoint.\<close>

lemma evicted_endpoint_gone:
  assumes "pool_svc E" and "enforce_capacity E d maximum R = Inr (R', n)"
    and "maximum < int (h_len (rh E) (records (pools R d)))"
    and "distinct (map fst (concat (h_scan (rh E) (records (pools R d)) 200)))"
    and "m \<in> evicted E (pools R d) (pools R' d)"
  shows "h_get (rh E) (records (pools R' d)) m = None" and "\<not> is_leased E (pools R' d) m"
proof -
  from assms(2) obtain p' where run: "enforce_capacity_pool E maximum (pools R d) = Inr (p', n)"
    and p': "pools R' d = p'"
    by (auto simp: enforce_capacity_def on_pool_def pool_for_def split: if_splits sum.splits prod.splits)
  from pool_svc.enforce_effect [OF assms(1) run assms(3,4)] obtain ms where
    ms: "p' = evict_all E ms (pools R d)" "set ms = evicted E (pools R d) p'" "evicted E (pools R d) p' \<subseteq> evictable E (pools R d)"
    by blast
  from pool_svc.evict_effect [OF assms(1), of ms "pools R d"] ms assms(5)
  show "h_get (rh E) (records (pools R' d)) m = None" by (simp add: p')
  from ms(3) assms(5) show "\<not> is_leased E (pools R' d) m"
    using evict_frame [of E ms "pools R d", folded ms(1)] unfolding p' by (auto simp: evictable_def)
qed

text \<open>
  Eviction leaves the priority index alone, and such a leftover never goes away: an
  endpoint without a record whose priority entry is due is claimed by every claim that is
  large enough to reach it, and the release its worker then performs queues it again, both
  in the check queue and in the priority index.
\<close>

lemma evicted_endpoint_returns:
  assumes "pool_svc E" and "enforce_capacity E d maximum R = Inr (R', n)"
    and "m \<in> evicted E (pools R d) (pools R' d)"
    and "maximum < int (h_len (rh E) (records (pools R d)))"
    and "distinct (map fst (concat (h_scan (rh E) (records (pools R d)) 200)))"
    and "priority_at E (pools R d) m = Some s" and "s \<le> now"
    and "z_count (zs E) (priority_due (pools R d)) Below_All (Incl now) \<le> plimit"
  shows "\<exists>q ms. claim_priority_due E now limit plimit expires w (pools R' d) = (q, ms) \<and> m \<in> set ms \<and>
     record_at E q m = None \<and>
     (\<exists>q'. release_lease E m w t q = (q', True) \<and> record_at E q' m = None \<and>
        due_at E q' m = Some t \<and> priority_at E q' m = Some t \<and> \<not> is_leased E q' m)"
proof -
  let ?p = "pools R' d"
  obtain q ms where run: "claim_priority_due E now limit plimit expires w ?p = (q, ms)" by (metis surj_pair)
  note gone = evicted_endpoint_gone(1) [OF assms(1,2,4,5,3)] and free = evicted_endpoint_gone(2) [OF assms(1,2,4,5,3)]
  have prio: "priority_due ?p = priority_due (pools R d)"
    using assms(2) evict_frame(3)
    by (auto simp: enforce_capacity_def enforce_capacity_pool_def on_pool_def pool_for_def Let_def
        split: if_splits sum.splits prod.splits)
  have "m \<in> set ms"
    using pool_svc.priority_claimed [OF assms(1) run free, of s] assms(6-8) prio by simp
  moreover have "owner_of E q m = Some w" and "records q = records ?p" and "priority_due q = priority_due ?p"
    using pool_svc.claim_effect(2) [OF assms(1) run] pool_svc.claim_frame [OF assms(1) run] \<open>m \<in> set ms\<close> by auto
  ultimately show ?thesis
    using run gone prio assms(6) pool_svc.command_facts [OF assms(1)]
    by (auto simp: release_lease_def record_at_def)
qed

lemma two_due_evicts:
  "\<exists>R' n. enforce_capacity ref_svc ''d'' 1 over_capacity = Inr (R', n) \<and>
     ''a:80'' \<in> evicted ref_svc two_due (pools R' ''d'')"
  by (simp add: enforce_capacity_def enforce_capacity_pool_def over_capacity_def pool_for_def pool_eval
      sample_valid on_pool_def evict_all_def evict_chunk_def chunks.simps evicted_def evict_rank_def)

lemma evicted_endpoint_returns_witness:
  "\<exists>R' n q ms. enforce_capacity ref_svc ''d'' 1 over_capacity = Inr (R', n) \<and>
     claim_priority_due ref_svc 10 5 4 70 ''w'' (pools R' ''d'') = (q, ms) \<and> ''a:80'' \<in> set ms \<and>
     (\<exists>q'. release_lease ref_svc ''a:80'' ''w'' 20 q = (q', True) \<and>
        record_at ref_svc q' ''a:80'' = None \<and> priority_at ref_svc q' ''a:80'' = Some 20)"
proof -
  obtain R' n where run: "enforce_capacity ref_svc ''d'' 1 over_capacity = Inr (R', n)"
    and gone: "''a:80'' \<in> evicted ref_svc two_due (pools R' ''d'')"
    using two_due_evicts by blast
  have pool: "pools over_capacity ''d'' = two_due" by (simp add: over_capacity_def)
  have pr: "priority_at ref_svc two_due ''a:80'' = Some 5"
    "z_count (zs ref_svc) (priority_due two_due) Below_All (Incl 10) \<le> 4"
    by (simp_all add: pool_eval)
  show ?thesis
    using evicted_endpoint_returns [OF ref_svc_pool run, unfolded pool, OF gone two_due_over two_due_scan
        pr(1) _ pr(2), of 5 70 "''w''" 20] run by auto
qed

section \<open>Late writes\<close>

text \<open>
  A merge that writes after the checker has completed the endpoint it read discards the
  result of that check: the stored record is the outdated one again (with the merged
  sources), while the quality score and the next check are those of the discarded result, so
  the quality set no longer agrees with the records when the score had changed.
\<close>

lemma late_upsert_discards_check:
  assumes "pool_svc E" and "storable old" and "storable seen" and "canonical (endpoint old) = m"
    and "canonical (endpoint seen) = m"
    and "complete_lease E m w (encode_record E checked) (of_int (score checked)) (next_check_at checked)
           l pr p = (p1, True)"
  shows "let p2 = upsert_write E x (Some old) seen p1 in
     record_at E p2 m = Some (merge_seen old seen) \<and>
     z_score (zs E) (quality p2) m = Some (of_int (score checked)) \<and>
     due_at E p2 m = Some (next_check_at checked) \<and>
     (score checked \<noteq> score old \<longrightarrow> \<not> quality_exact E p2)"
proof -
  let ?p2 = "upsert_write E x (Some old) seen p1"
  have rec: "record_at E ?p2 m = Some (merge_seen old seen)"
    using assms(5) pool_svc.codec [OF assms(1) storable_merge [OF assms(2,3)]]
    by (simp add: upsert_write_def merge_candidate_def record_at_def pool_svc.command_facts [OF assms(1)] Let_def)
  have q: "z_score (zs E) (quality ?p2) m = Some (of_int (score checked))"
    and d: "due_at E ?p2 m = Some (next_check_at checked)"
    using assms(6) pool_svc.command_facts [OF assms(1)]
    by (auto simp: upsert_write_def merge_candidate_def complete_lease_def Let_def split: if_splits)
  from rec q have "score checked \<noteq> score old \<longrightarrow> \<not> quality_exact E ?p2"
    by (metis (no_types, lifting) merge_seen_simps(2) of_int_eq_iff option.inject option.simps(9) quality_exact_def)
  with rec q d show ?thesis by (simp add: Let_def)
qed

lemma one_leased_complete:
  "snd (complete_lease ref_svc ''a:80'' ''w'' (encode_record ref_svc (sample ''a'' Degraded 40 100 300))
     (of_int (score (sample ''a'' Degraded 40 100 300))) (next_check_at (sample ''a'' Degraded 40 100 300))
     None None one_leased)"
  using one_leased_holds by (simp add: holds_lease_def complete_lease_def)

lemma late_upsert_discards_check_witness:
  "let p1 = fst (complete_lease ref_svc ''a:80'' ''w'' (encode_record ref_svc (sample ''a'' Degraded 40 100 300))
              (of_int (score (sample ''a'' Degraded 40 100 300)))
              (next_check_at (sample ''a'' Degraded 40 100 300)) None None one_leased)
   in \<not> quality_exact ref_svc (upsert_write ref_svc 1000 (Some (sample ''a'' Available 85 100 5))
          (sample ''a'' Candidate 50 100 9) p1)"
proof -
  let ?done = "sample ''a'' Degraded 40 100 300"
  obtain p1 where run: "complete_lease ref_svc ''a:80'' ''w'' (encode_record ref_svc ?done)
      (of_int (score ?done)) (next_check_at ?done) None None one_leased = (p1, True)"
    using one_leased_complete by (metis prod.collapse)
  have "storable (sample ''a'' Available 85 100 5)" and "storable (sample ''a'' Candidate 50 100 9)"
    by (simp_all add: sample_storable)
  from late_upsert_discards_check [OF ref_svc_pool this _ _ run, of 1000] show ?thesis
    unfolding run Let_def by simp
qed

end
