(* ===== verification/PoolQuery.thy ===== *)
theory PoolQuery
  imports PoolProperties
begin

text \<open>
  The reads of storage/repository.py: paged listing by score, random selection from the
  latency index with its cleanup of stale entries, selection counts, statistics, scans and
  index readiness. Each read is modelled on a pool that does not change while it runs. The
  random draws are arguments: the start of the selection and the final shuffle.
\<close>

section \<open>Index readiness and scans\<close>

definition latency_index_ready :: "('z, 'h, 'o, 's) repo \<Rightarrow> string \<Rightarrow> bool result" where
  "latency_index_ready R d =
     (case pool_for R d of
        Inl e \<Rightarrow> Inl e
      | Inr p \<Rightarrow> Inr (available_latency_ready p = Some ''1''))"

definition priority_due_index_ready :: "('z, 'h, 'o, 's) repo \<Rightarrow> string \<Rightarrow> bool result" where
  "priority_due_index_ready R d =
     (case pool_for R d of
        Inl e \<Rightarrow> Inl e
      | Inr p \<Rightarrow> Inr (priority_due_ready p = Some ''1''))"

fun all_ready :: "(string \<Rightarrow> bool result) list \<Rightarrow> string list \<Rightarrow> bool result" where
  "all_ready checks [] = Inr True"
| "all_ready checks (d # ds) =
     (let rest = foldr (\<lambda>check k. case check d of
                          Inl e \<Rightarrow> Inl e
                        | Inr ok \<Rightarrow> if \<not> ok then Inr False else k) checks
      in rest (all_ready checks ds))"

definition all_latency_indexes_ready ::
  "('z, 'h, 'o, 's, 'p) svc \<Rightarrow> ('z, 'h, 'o, 's) repo \<Rightarrow> bool result" where
  "all_latency_indexes_ready E R = all_ready [latency_index_ready R] (list_domains E R)"

definition all_selection_indexes_ready ::
  "('z, 'h, 'o, 's, 'p) svc \<Rightarrow> ('z, 'h, 'o, 's) repo \<Rightarrow> bool result" where
  "all_selection_indexes_ready E R =
     all_ready [latency_index_ready R, priority_due_index_ready R] (list_domains E R)"

text \<open>
  \<open>scan_page\<close> is the body of the outer loop of \<open>scan_records\<close>: \<open>cursor_open\<close> says that the
  cursor of the page is not 0. The result is either a finished scan or the records so far.
\<close>

record record_scan =
  scan_items :: "proxy_record list"
  scanned :: nat
  partial :: bool

fun scan_page ::
  "('z, 'h, 'o, 's, 'p) svc \<Rightarrow> nat \<Rightarrow> bool \<Rightarrow> 'p list \<Rightarrow> proxy_record list
     \<Rightarrow> (record_scan + proxy_record list) result" where
  "scan_page E limit cursor_open [] acc = Inr (Inr acc)"
| "scan_page E limit cursor_open (payload # rest) acc =
     (case decode_record E payload of
        None \<Rightarrow> Inl (ValueError ''invalid record'')
      | Some r \<Rightarrow>
          (let acc' = acc @ [r]
           in if length acc' = limit
              then Inr (Inl \<lparr>scan_items = acc', scanned = length acc', partial = (rest \<noteq> [] \<or> cursor_open)\<rparr>)
              else scan_page E limit cursor_open rest acc'))"

fun scan_pages ::
  "('z, 'h, 'o, 's, 'p) svc \<Rightarrow> nat \<Rightarrow> (member \<times> 'p) list list \<Rightarrow> proxy_record list \<Rightarrow> record_scan result" where
  "scan_pages E limit [] acc = Inr \<lparr>scan_items = acc, scanned = length acc, partial = False\<rparr>"
| "scan_pages E limit (page # pages) acc =
     (case scan_page E limit (pages \<noteq> []) (map snd page) acc of
        Inl e \<Rightarrow> Inl e
      | Inr (Inl done) \<Rightarrow> Inr done
      | Inr (Inr acc') \<Rightarrow> scan_pages E limit pages acc')"

definition scan_records ::
  "('z, 'h, 'o, 's, 'p) svc \<Rightarrow> ('z, 'h, 'o, 's) repo \<Rightarrow> string \<Rightarrow> int \<Rightarrow> int \<Rightarrow> record_scan result" where
  "scan_records E R d limit batch_size =
     (if \<not> (1 \<le> limit \<and> limit \<le> 100000) then Inl (ValueError ''scan limit must be within 1..100000'')
      else if \<not> (1 \<le> batch_size \<and> batch_size \<le> 1000)
      then Inl (ValueError ''scan batch size must be within 1..1000'')
      else
        (case pool_for R d of
           Inl e \<Rightarrow> Inl e
         | Inr p \<Rightarrow> scan_pages E (nat limit) (h_scan (rh E) (records p) (nat batch_size)) []))"

section \<open>Statistics\<close>

record pool_stats =
  st_total :: nat
  st_candidate :: nat
  st_available :: nat
  st_degraded :: nat
  st_quarantined :: nat
  st_due :: nat
  st_leased :: nat

definition no_stats :: pool_stats where
  "no_stats = \<lparr>st_total = 0, st_candidate = 0, st_available = 0, st_degraded = 0,
               st_quarantined = 0, st_due = 0, st_leased = 0\<rparr>"

definition count_record :: "proxy_record \<Rightarrow> pool_stats \<Rightarrow> pool_stats" where
  "count_record r s =
     (case state r of
        Candidate \<Rightarrow> s\<lparr>st_total := st_total s + 1, st_candidate := st_candidate s + 1\<rparr>
      | Available \<Rightarrow> s\<lparr>st_total := st_total s + 1, st_available := st_available s + 1\<rparr>
      | Degraded \<Rightarrow> s\<lparr>st_total := st_total s + 1, st_degraded := st_degraded s + 1\<rparr>
      | Quarantined \<Rightarrow> s\<lparr>st_total := st_total s + 1, st_quarantined := st_quarantined s + 1\<rparr>)"

fun count_records ::
  "('z, 'h, 'o, 's, 'p) svc \<Rightarrow> (member \<times> 'p) list \<Rightarrow> pool_stats \<Rightarrow> pool_stats result" where
  "count_records E [] s = Inr s"
| "count_records E ((m, raw) # xs) s =
     (case decode_record E raw of
        None \<Rightarrow> Inl (ValueError ''invalid record'')
      | Some r \<Rightarrow> count_records E xs (count_record r s))"

definition domain_stats ::
  "('z, 'h, 'o, 's, 'p) svc \<Rightarrow> ('z, 'h, 'o, 's) repo \<Rightarrow> string \<Rightarrow> pool_stats result" where
  "domain_stats E R d =
     (case pool_for R d of
        Inl e \<Rightarrow> Inl e
      | Inr p \<Rightarrow>
          (case count_records E (concat (h_scan (rh E) (records p) 200)) no_stats of
             Inl e \<Rightarrow> Inl e
           | Inr s \<Rightarrow> Inr (s\<lparr>st_due := z_card (zs E) (due p), st_leased := z_card (zs E) (leased p)\<rparr>)))"

definition add_stats :: "pool_stats \<Rightarrow> pool_stats \<Rightarrow> pool_stats" where
  "add_stats a b =
     \<lparr>st_total = st_total a + st_total b, st_candidate = st_candidate a + st_candidate b,
      st_available = st_available a + st_available b, st_degraded = st_degraded a + st_degraded b,
      st_quarantined = st_quarantined a + st_quarantined b, st_due = st_due a + st_due b,
      st_leased = st_leased a + st_leased b\<rparr>"

fun total_stats ::
  "('z, 'h, 'o, 's, 'p) svc \<Rightarrow> ('z, 'h, 'o, 's) repo \<Rightarrow> string list \<Rightarrow> pool_stats \<Rightarrow> pool_stats result" where
  "total_stats E R [] totals = Inr totals"
| "total_stats E R (d # ds) totals =
     (case domain_stats E R d of
        Inl e \<Rightarrow> Inl e
      | Inr current \<Rightarrow> total_stats E R ds (add_stats totals current))"

definition stats ::
  "('z, 'h, 'o, 's, 'p) svc \<Rightarrow> ('z, 'h, 'o, 's) repo \<Rightarrow> string option \<Rightarrow> pool_stats result" where
  "stats E R d =
     (case d of
        None \<Rightarrow> total_stats E R (list_domains E R) no_stats
      | Some item \<Rightarrow> domain_stats E R item)"

section \<open>Listing by score\<close>

record page =
  page_items :: "proxy_record list"
  page_offset :: nat
  next_offset :: "nat option"

definition list_match :: "proxy_state option \<Rightarrow> string option \<Rightarrow> proxy_record \<Rightarrow> bool" where
  "list_match st src r \<longleftrightarrow>
     (case st of None \<Rightarrow> True | Some x \<Rightarrow> state r = x) \<and>
     (case src of None \<Rightarrow> True | Some n \<Rightarrow> n \<in> source_names r)"

text \<open>The inner loop over one reply: how many members it consumed, and the items so far.\<close>

fun take_members ::
  "('z, 'h, 'o, 's, 'p) svc \<Rightarrow> ('z, 'h, 'o) pool \<Rightarrow> (proxy_record \<Rightarrow> bool) \<Rightarrow> nat \<Rightarrow> member list
     \<Rightarrow> nat \<Rightarrow> proxy_record list \<Rightarrow> (nat \<times> proxy_record list) result" where
  "take_members E p ok limit [] consumed items = Inr (consumed, items)"
| "take_members E p ok limit (m # ms) consumed items =
     (case h_get (rh E) (records p) m of
        None \<Rightarrow> take_members E p ok limit ms (Suc consumed) items
      | Some raw \<Rightarrow>
          (case decode_record E raw of
             None \<Rightarrow> Inl (ValueError ''invalid record'')
           | Some r \<Rightarrow>
               if \<not> ok r then take_members E p ok limit ms (Suc consumed) items
               else if length (items @ [r]) = limit then Inr (Suc consumed, items @ [r])
               else take_members E p ok limit ms (Suc consumed) (items @ [r])))"

lemma take_members_consumed:
  "take_members E p ok limit ms consumed items = Inr (consumed', items') \<Longrightarrow>
     consumed \<le> consumed' \<and> (ms \<noteq> [] \<longrightarrow> consumed < consumed')"
  by (induction E p ok limit ms consumed items rule: take_members.induct)
     (fastforce split: option.splits if_splits)+

definition list_fetch_count :: "nat \<Rightarrow> nat \<Rightarrow> nat" where
  "list_fetch_count limit current = min (min (max (limit * 5) 50) 1001) (10001 - current)"

function list_pages ::
  "('z, 'h, 'o, 's, 'p) svc \<Rightarrow> ('z, 'h, 'o) pool \<Rightarrow> (proxy_record \<Rightarrow> bool) \<Rightarrow> int \<Rightarrow> int \<Rightarrow> nat \<Rightarrow> nat
     \<Rightarrow> nat \<Rightarrow> proxy_record list \<Rightarrow> page result" where
  "list_pages E p ok min_score max_score limit offset current items =
     (if \<not> current \<le> 10000 then Inr \<lparr>page_items = items, page_offset = offset, next_offset = None\<rparr>
      else
        let fetch_count = list_fetch_count limit current;
            members = map fst (z_revrangelimit (zs E) (quality p) (Incl (of_int max_score))
                                 (Incl (of_int min_score)) current fetch_count)
        in if members = [] then Inr \<lparr>page_items = items, page_offset = offset, next_offset = None\<rparr>
           else
             (case take_members E p ok limit members 0 items of
                Inl e \<Rightarrow> Inl e
              | Inr (consumed, items') \<Rightarrow>
                  if length items' = limit then
                    let has_more = (consumed < length members \<or> length members = fetch_count)
                    in Inr \<lparr>page_items = items', page_offset = offset,
                            next_offset = (if has_more \<and> current + consumed \<le> 10000
                                           then Some (current + consumed) else None)\<rparr>
                  else if length members < fetch_count
                  then Inr \<lparr>page_items = items', page_offset = offset, next_offset = None\<rparr>
                  else list_pages E p ok min_score max_score limit offset (current + consumed) items'))"
  by pat_completeness auto
termination
proof (relation "measure (\<lambda>(E, p, ok, lo, hi, limit, offset, current, items). 10001 - current)", goal_cases)
  case 1
  then show ?case by simp
next
  case (2 E p ok lo hi limit offset current items fetch members res consumed items')
  then have "0 < consumed" using take_members_consumed by blast
  with 2 show ?case by simp
qed

declare list_pages.simps [simp del]

definition list_proxies ::
  "('z, 'h, 'o, 's, 'p) svc \<Rightarrow> ('z, 'h, 'o, 's) repo \<Rightarrow> string \<Rightarrow> int \<Rightarrow> int \<Rightarrow> int \<Rightarrow> proxy_state option
     \<Rightarrow> int \<Rightarrow> string option \<Rightarrow> page result" where
  "list_proxies E R d min_score limit offset st max_score src =
     (if \<not> (1 \<le> limit \<and> limit \<le> 200) then Inl (ValueError ''limit must be within 1..200'')
      else if \<not> (0 \<le> offset \<and> offset \<le> 10000) then Inl (ValueError ''offset must be within 0..10000'')
      else if \<not> (0 \<le> min_score \<and> min_score \<le> 100) then Inl (ValueError ''min_score must be within 0..100'')
      else if \<not> (0 \<le> max_score \<and> max_score \<le> 100) then Inl (ValueError ''max_score must be within 0..100'')
      else if min_score > max_score then Inl (ValueError ''min_score must not exceed max_score'')
      else if (case src of None \<Rightarrow> False | Some s \<Rightarrow> \<not> (1 \<le> length s \<and> length s \<le> 64))
      then Inl (ValueError ''source must be within 1..64 characters'')
      else
        (case pool_for R d of
           Inl e \<Rightarrow> Inl e
         | Inr p \<Rightarrow> list_pages E p (list_match st src) min_score max_score (nat limit) (nat offset)
                      (nat offset) []))"

section \<open>Random selection\<close>

record criteria =
  c_min_score :: int
  c_max_latency :: "rat option"
  c_checked_after :: "time option"
  c_min_successes :: int

datatype skip_reason = Inconsistent | Low_Score | Few_Successes | Stale_Check

definition selection_skip_reason :: "criteria \<Rightarrow> proxy_record \<Rightarrow> rat \<Rightarrow> skip_reason option" where
  "selection_skip_reason c record indexed_latency =
     (case latency_index_score record of
        None \<Rightarrow> Some Inconsistent
      | Some actual \<Rightarrow>
          if \<not> \<bar>actual - indexed_latency\<bar> \<le> 1 / 1000 then Some Inconsistent
          else if (case c_max_latency c of None \<Rightarrow> False | Some l \<Rightarrow> actual > l) then Some Inconsistent
          else if score record < c_min_score c then Some Low_Score
          else if consecutive_successes record < c_min_successes c then Some Few_Successes
          else if (case c_checked_after c of
                     None \<Rightarrow> False
                   | Some t \<Rightarrow> (case last_checked_at record of None \<Rightarrow> True | Some at' \<Rightarrow> at' < t))
          then Some Stale_Check
          else None)"

record selecting =
  selected :: "proxy_record list"
  stale_members :: "member list"
  inspected :: nat
  skipped_score :: nat
  skipped_freshness :: nat
  skipped_successes :: nat
  skipped_inconsistent :: nat

definition start_selecting :: selecting where
  "start_selecting = \<lparr>selected = [], stale_members = [], inspected = 0, skipped_score = 0,
     skipped_freshness = 0, skipped_successes = 0, skipped_inconsistent = 0\<rparr>"

definition mark_stale :: "member \<Rightarrow> selecting \<Rightarrow> selecting" where
  "mark_stale m s = s\<lparr>stale_members := stale_members s @ [m],
                      skipped_inconsistent := skipped_inconsistent s + 1\<rparr>"

text \<open>The body of the innermost loop, for one index entry.\<close>

definition inspect ::
  "('z, 'h, 'o, 's, 'p) svc \<Rightarrow> ('z, 'h, 'o) pool \<Rightarrow> criteria \<Rightarrow> member \<times> rat \<Rightarrow> selecting \<Rightarrow> selecting" where
  "inspect E p c entry s0 =
     (let s = s0\<lparr>inspected := inspected s0 + 1\<rparr>
      in case record_at E p (fst entry) of
        None \<Rightarrow> mark_stale (fst entry) s
      | Some record \<Rightarrow>
          (case selection_skip_reason c record (snd entry) of
             Some Inconsistent \<Rightarrow> mark_stale (fst entry) s
           | Some Low_Score \<Rightarrow> s\<lparr>skipped_score := skipped_score s + 1\<rparr>
           | Some Few_Successes \<Rightarrow> s\<lparr>skipped_successes := skipped_successes s + 1\<rparr>
           | Some Stale_Check \<Rightarrow> s\<lparr>skipped_freshness := skipped_freshness s + 1\<rparr>
           | None \<Rightarrow> s\<lparr>selected := selected s @ [record]\<rparr>))"

definition latency_bound :: "rat option \<Rightarrow> bound" where
  "latency_bound max_latency = (case max_latency of None \<Rightarrow> Above_All | Some l \<Rightarrow> Incl l)"

function select_batches ::
  "('z, 'h, 'o, 's, 'p) svc \<Rightarrow> ('z, 'h, 'o) pool \<Rightarrow> criteria \<Rightarrow> nat \<Rightarrow> nat \<Rightarrow> nat \<Rightarrow> nat \<Rightarrow> selecting \<Rightarrow> selecting" where
  "select_batches E p c requested segment_start segment_size consumed s =
     (if \<not> consumed < segment_size then s
      else
        let batch_size = min 200 (segment_size - consumed);
            indexed = z_rangelimit (zs E) (available_latency p) (Incl 0) (latency_bound (c_max_latency c))
                        (segment_start + consumed) batch_size
        in if indexed = [] then s
           else
             let s' = fold (inspect E p c) indexed s
             in if length (selected s') \<ge> requested then s'
                else select_batches E p c requested segment_start segment_size
                       (consumed + length indexed) s')"
  by pat_completeness auto
termination
  by (relation "measure (\<lambda>(E, p, c, requested, seg, size, consumed, s). size - consumed)")
     (auto intro!: diff_less_mono2)

declare select_batches.simps [simp del]

fun select_segments ::
  "('z, 'h, 'o, 's, 'p) svc \<Rightarrow> ('z, 'h, 'o) pool \<Rightarrow> criteria \<Rightarrow> nat \<Rightarrow> (nat \<times> nat) list \<Rightarrow> selecting \<Rightarrow> selecting" where
  "select_segments E p c requested [] s = s"
| "select_segments E p c requested ((segment_start, segment_size) # segments) s =
     (let s' = select_batches E p c requested segment_start segment_size 0 s
      in if length (selected s') \<ge> requested then s'
         else select_segments E p c requested segments s')"

record proxy_selection =
  sel_records :: "proxy_record list"
  index_members :: nat
  indexed_candidates :: nat
  sel_counts :: selecting

text \<open>
  \<open>draw n\<close> is \<open>random.randrange(n)\<close> and \<open>shuffle\<close> the permutation of
  \<open>random.shuffle\<close>. The counters of the reply are those of \<open>sel_counts\<close>.
\<close>

definition select_pool ::
  "('z, 'h, 'o, 's, 'p) svc \<Rightarrow> criteria \<Rightarrow> nat \<Rightarrow> bool \<Rightarrow> (nat \<Rightarrow> nat)
     \<Rightarrow> (proxy_record list \<Rightarrow> proxy_record list) \<Rightarrow> ('z, 'h, 'o) pool \<Rightarrow> ('z, 'h, 'o) pool \<times> proxy_selection" where
  "select_pool E c requested cleanup_stale draw shuffle p =
     (let members = z_card (zs E) (available_latency p);
          candidate_count = z_count (zs E) (available_latency p) (Incl 0) (latency_bound (c_max_latency c))
      in if candidate_count = 0
         then (p, \<lparr>sel_records = [], index_members = members, indexed_candidates = 0,
                   sel_counts = start_selecting\<rparr>)
         else
           let start = draw candidate_count;
               s = select_segments E p c requested [(start, candidate_count - start), (0, start)] start_selecting;
               p' = (if stale_members s \<noteq> [] \<and> cleanup_stale
                     then p\<lparr>available_latency := fold (\<lambda>m z. z_rem (zs E) z m) (stale_members s) (available_latency p)\<rparr>
                     else p)
           in (p', \<lparr>sel_records = take requested (shuffle (selected s)), index_members = members,
                    indexed_candidates = candidate_count, sel_counts = s\<rparr>))"

definition criteria_of :: "int \<Rightarrow> rat option \<Rightarrow> int option \<Rightarrow> int \<Rightarrow> time \<Rightarrow> criteria" where
  "criteria_of min_score max_latency max_age min_successes now =
     \<lparr>c_min_score = min_score, c_max_latency = max_latency,
      c_checked_after = map_option (\<lambda>a. now - of_int a) max_age,
      c_min_successes = min_successes\<rparr>"

definition select_random_proxies ::
  "('z, 'h, 'o, 's, 'p) svc \<Rightarrow> string \<Rightarrow> int \<Rightarrow> int \<Rightarrow> rat option \<Rightarrow> int option \<Rightarrow> int \<Rightarrow> time \<Rightarrow> bool
     \<Rightarrow> (nat \<Rightarrow> nat) \<Rightarrow> (proxy_record list \<Rightarrow> proxy_record list) \<Rightarrow> ('z, 'h, 'o, 's) repo
     \<Rightarrow> (('z, 'h, 'o, 's) repo \<times> proxy_selection) result" where
  "select_random_proxies E d min_score cnt max_latency max_age min_successes now cleanup draw shuffle R =
     (if cnt \<le> 0 then Inl (ValueError ''count must be positive'')
      else if \<not> (0 \<le> min_score \<and> min_score \<le> 100) then Inl (ValueError ''min_score must be within 0..100'')
      else if (case max_latency of None \<Rightarrow> False | Some l \<Rightarrow> l < 0)
      then Inl (ValueError ''max_latency_ms must be non-negative'')
      else if (case max_age of None \<Rightarrow> False | Some a \<Rightarrow> a \<le> 0)
      then Inl (ValueError ''max_checked_age_seconds must be positive'')
      else if min_successes \<le> 0 then Inl (ValueError ''min_consecutive_successes must be positive'')
      else
        (case latency_index_ready R d of
           Inl e \<Rightarrow> Inl e
         | Inr ready \<Rightarrow>
             if \<not> ready then Inl LatencyIndexNotReady
             else
               let (p', sel) = select_pool E (criteria_of min_score max_latency max_age min_successes now) (nat (min cnt 20)) cleanup draw shuffle (pools R d)
               in Inr (on_pool d (\<lambda>_. p') R, sel)))"

definition select_formal_export ::
  "('z, 'h, 'o, 's, 'p) svc \<Rightarrow> string \<Rightarrow> int \<Rightarrow> int \<Rightarrow> rat \<Rightarrow> int \<Rightarrow> int \<Rightarrow> time
     \<Rightarrow> (nat \<Rightarrow> nat) \<Rightarrow> (proxy_record list \<Rightarrow> proxy_record list) \<Rightarrow> ('z, 'h, 'o, 's) repo
     \<Rightarrow> (('z, 'h, 'o, 's) repo \<times> proxy_selection) result" where
  "select_formal_export E d min_score cnt max_latency max_age min_successes now draw shuffle R =
     select_random_proxies E d min_score cnt (Some max_latency) (Some max_age) min_successes now False
       draw shuffle R"

definition random_proxies ::
  "('z, 'h, 'o, 's, 'p) svc \<Rightarrow> string \<Rightarrow> int \<Rightarrow> int \<Rightarrow> rat option \<Rightarrow> int option \<Rightarrow> int \<Rightarrow> time
     \<Rightarrow> (nat \<Rightarrow> nat) \<Rightarrow> (proxy_record list \<Rightarrow> proxy_record list) \<Rightarrow> ('z, 'h, 'o, 's) repo
     \<Rightarrow> (('z, 'h, 'o, 's) repo \<times> proxy_record list) result" where
  "random_proxies E d min_score cnt max_latency max_age min_successes now draw shuffle R =
     (case select_random_proxies E d min_score cnt max_latency max_age min_successes now True draw shuffle R of
        Inl e \<Rightarrow> Inl e
      | Inr (R', sel) \<Rightarrow> Inr (R', sel_records sel))"

text \<open>\<open>selection_counts\<close>: all candidates in batches of 500, counting the selectable ones.\<close>

function count_batches ::
  "('z, 'h, 'o, 's, 'p) svc \<Rightarrow> ('z, 'h, 'o) pool \<Rightarrow> criteria \<Rightarrow> nat \<Rightarrow> nat \<Rightarrow> selecting \<Rightarrow> selecting" where
  "count_batches E p c candidates offset s =
     (if \<not> offset < candidates then s
      else
        let batch = z_rangelimit (zs E) (available_latency p) (Incl 0) (latency_bound (c_max_latency c))
                      offset (min 500 (candidates - offset))
        in if batch = [] then s
           else count_batches E p c candidates (offset + length batch) (fold (inspect E p c) batch s))"
  by pat_completeness auto
termination
  by (relation "measure (\<lambda>(E, p, c, candidates, offset, s). candidates - offset)")
     (auto intro!: diff_less_mono2)

declare count_batches.simps [simp del]

definition selection_counts ::
  "('z, 'h, 'o, 's, 'p) svc \<Rightarrow> string \<Rightarrow> int \<Rightarrow> rat \<Rightarrow> int \<Rightarrow> int \<Rightarrow> time \<Rightarrow> ('z, 'h, 'o, 's) repo
     \<Rightarrow> (('z, 'h, 'o, 's) repo \<times> nat \<times> nat \<times> nat) result" where
  "selection_counts E d min_score max_latency max_age min_successes now R =
     (case latency_index_ready R d of
        Inl e \<Rightarrow> Inl e
      | Inr ready \<Rightarrow>
          if \<not> ready then Inl LatencyIndexNotReady
          else
            let p = pools R d;
                c = \<lparr>c_min_score = min_score, c_max_latency = Some max_latency,
                     c_checked_after = Some (now - of_int max_age), c_min_successes = min_successes\<rparr>;
                indexed = z_card (zs E) (available_latency p);
                candidates = z_count (zs E) (available_latency p) (Incl 0) (Incl max_latency);
                s = count_batches E p c candidates 0 start_selecting;
                p' = (if stale_members s \<noteq> []
                      then p\<lparr>available_latency := fold (\<lambda>m z. z_rem (zs E) z m) (stale_members s) (available_latency p)\<rparr>
                      else p)
            in Inr (on_pool d (\<lambda>_. p') R, indexed, candidates, length (selected s)))"

section \<open>What one pass over index entries selects\<close>

lemma map_filter_mset_mono:
  "mset xs \<subseteq># mset ys \<Longrightarrow> mset (List.map_filter f xs) \<subseteq># mset (List.map_filter f ys)"
  by (simp add: List.map_filter_def multiset_filter_mono image_mset_subseteq_mono)

text \<open>The record an index entry contributes, when it meets every criterion.\<close>

definition eligible ::
  "('z, 'h, 'o, 's, 'p) svc \<Rightarrow> ('z, 'h, 'o) pool \<Rightarrow> criteria \<Rightarrow> member \<times> rat \<Rightarrow> proxy_record option" where
  "eligible E p c entry =
     Option.bind (record_at E p (fst entry))
       (\<lambda>r. if selection_skip_reason c r (snd entry) = None then Some r else None)"

definition is_stale ::
  "('z, 'h, 'o, 's, 'p) svc \<Rightarrow> ('z, 'h, 'o) pool \<Rightarrow> criteria \<Rightarrow> member \<times> rat \<Rightarrow> bool" where
  "is_stale E p c entry =
     (case record_at E p (fst entry) of
        None \<Rightarrow> True
      | Some r \<Rightarrow> selection_skip_reason c r (snd entry) = Some Inconsistent)"

lemma inspect_effect:
  "selected (inspect E p c x s) = selected s @ List.map_filter (eligible E p c) [x]"
  "stale_members (inspect E p c x s) = stale_members s @ map fst (filter (is_stale E p c) [x])"
  "inspected (inspect E p c x s) = inspected s + 1"
  "length (selected s) + skipped_score s + skipped_freshness s + skipped_successes s
     + skipped_inconsistent s = inspected s \<Longrightarrow>
   length (selected (inspect E p c x s)) + skipped_score (inspect E p c x s)
     + skipped_freshness (inspect E p c x s) + skipped_successes (inspect E p c x s)
     + skipped_inconsistent (inspect E p c x s) = inspected (inspect E p c x s)"
  by (auto simp: inspect_def Let_def mark_stale_def eligible_def is_stale_def List.map_filter_def
      split: option.splits skip_reason.splits)

lemma map_filter_append: "List.map_filter f (xs @ ys) = List.map_filter f xs @ List.map_filter f ys"
  by (simp add: List.map_filter_def)

lemma fold_inspect:
  "selected (fold (inspect E p c) xs s) = selected s @ List.map_filter (eligible E p c) xs \<and>
   stale_members (fold (inspect E p c) xs s) = stale_members s @ map fst (filter (is_stale E p c) xs) \<and>
   inspected (fold (inspect E p c) xs s) = inspected s + length xs"
proof (induction xs arbitrary: s)
  case Nil
  then show ?case by (simp add: List.map_filter_def)
next
  case (Cons x xs)
  have "List.map_filter (eligible E p c) (x # xs) = List.map_filter (eligible E p c) [x] @ List.map_filter (eligible E p c) xs"
    by (simp add: List.map_filter_def)
  with Cons show ?case by (simp add: inspect_effect)
qed

lemma fold_inspect_accounts:
  "length (selected s) + skipped_score s + skipped_freshness s + skipped_successes s
     + skipped_inconsistent s = inspected s \<Longrightarrow>
   (let s' = fold (inspect E p c) xs s in
     length (selected s') + skipped_score s' + skipped_freshness s' + skipped_successes s'
       + skipped_inconsistent s' = inspected s')"
proof (induction xs arbitrary: s)
  case (Cons x xs)
  from Cons.IH [OF inspect_effect(4) [OF Cons.prems]] show ?case by simp
qed (simp add: Let_def)

lemma skip_reason_none:
  "selection_skip_reason c r l = None \<longleftrightarrow>
     (\<exists>a. latency_index_score r = Some a \<and> \<bar>a - l\<bar> \<le> 1 / 1000 \<and>
       (\<forall>x. c_max_latency c = Some x \<longrightarrow> a \<le> x)) \<and>
     c_min_score c \<le> score r \<and> c_min_successes c \<le> consecutive_successes r \<and>
     (\<forall>t. c_checked_after c = Some t \<longrightarrow> (\<exists>t'. last_checked_at r = Some t' \<and> t \<le> t'))"
  by (cases "latency_index_score r"; cases "c_max_latency c"; cases "c_checked_after c";
      cases "last_checked_at r")
     (simp_all add: selection_skip_reason_def not_le not_less)

lemma eligible_some:
  "eligible E p c (m, l) = Some r \<longleftrightarrow> record_at E p m = Some r \<and> selection_skip_reason c r l = None"
  by (cases "record_at E p m") (auto simp: eligible_def)

context pool_svc
begin

abbreviation candidates_of :: "('z, 'h, 'o) pool \<Rightarrow> criteria \<Rightarrow> (member \<times> rat) list" where
  "candidates_of p c \<equiv>
     z_rangebyscore (zs E) (available_latency p) (Incl 0) (latency_bound (c_max_latency c))"

lemma select_batches_prefix:
  "\<exists>k. select_batches E p c req seg sz consumed s =
       fold (inspect E p c) (take k (take (sz - consumed) (drop (seg + consumed) (candidates_of p c)))) s \<and>
     (k < length (take (sz - consumed) (drop (seg + consumed) (candidates_of p c))) \<longrightarrow>
       req \<le> length (selected (select_batches E p c req seg sz consumed s)))"
proof (induction "sz - consumed" arbitrary: consumed s rule: less_induct)
  case less
  let ?C = "candidates_of p c" and ?n = "min 200 (sz - consumed)"
  let ?b = "z_rangelimit (zs E) (available_latency p) (Incl 0) (latency_bound (c_max_latency c)) (seg + consumed) ?n"
  have b: "?b = take ?n (drop (seg + consumed) ?C)" by (simp add: z.rangelimit_range)
  have pre: "take (length ?b) (take (sz - consumed) (drop (seg + consumed) ?C)) = ?b"
    unfolding b by (simp add: min_def)
  consider "\<not> consumed < sz \<or> ?b = []"
    | "consumed < sz" "?b \<noteq> []" "req \<le> length (selected (fold (inspect E p c) ?b s))"
    | "consumed < sz" "?b \<noteq> []" "\<not> req \<le> length (selected (fold (inspect E p c) ?b s))"
    by blast
  then show ?case
  proof cases
    case 1
    then have "take (sz - consumed) (drop (seg + consumed) ?C) = []"
      unfolding b by (auto simp: min_def split: if_splits)
    with 1 show ?thesis by (subst (1 2) select_batches.simps) (auto simp: Let_def)
  next
    case 2
    then have run: "select_batches E p c req seg sz consumed s = fold (inspect E p c) ?b s"
      by (subst select_batches.simps) (simp add: Let_def)
    show ?thesis unfolding run using 2 pre by (intro exI [of _ "length ?b"]) simp
  next
    case 3
    then have run: "select_batches E p c req seg sz consumed s =
        select_batches E p c req seg sz (consumed + length ?b) (fold (inspect E p c) ?b s)"
      by (subst select_batches.simps) (simp add: Let_def)
    let ?rest = "take (sz - (consumed + length ?b)) (drop (seg + (consumed + length ?b)) ?C)"
    have "sz - (consumed + length ?b) < sz - consumed" using 3 by (auto intro: diff_less_mono2)
    from less [OF this, of "fold (inspect E p c) ?b s"] obtain k where
      k: "select_batches E p c req seg sz consumed s = fold (inspect E p c) (take k ?rest) (fold (inspect E p c) ?b s)"
        "k < length ?rest \<longrightarrow> req \<le> length (selected (select_batches E p c req seg sz consumed s))"
      unfolding run by blast
    have slice: "take (sz - consumed) (drop (seg + consumed) ?C) = ?b @ ?rest"
    proof -
      have "length ?b \<le> sz - consumed" unfolding b by simp
      then have "take (sz - consumed) (drop (seg + consumed) ?C) =
          take (length ?b) (drop (seg + consumed) ?C) @ ?rest"
        using take_drop_split [of "length ?b" "sz - consumed" "seg + consumed" ?C]
        by (simp only: diff_diff_left add.assoc)
      moreover have "take (length ?b) (drop (seg + consumed) ?C) = ?b" unfolding b by (simp add: min_def)
      ultimately show ?thesis by simp
    qed
    show ?thesis unfolding slice using k by (intro exI [of _ "length ?b + k"]) simp
  qed
qed

text \<open>The two segments together go round the candidates once, from the drawn start.\<close>

lemma select_segments_round:
  fixes start p c
  defines "around \<equiv> drop start (candidates_of p c) @ take start (candidates_of p c)"
  assumes "start \<le> length (candidates_of p c)"
  shows "\<exists>k. select_segments E p c req [(start, length (candidates_of p c) - start), (0, start)] s =
       fold (inspect E p c) (take k around) s \<and>
     (k < length around \<longrightarrow> req \<le> length (selected (fold (inspect E p c) (take k around) s)))"
proof -
  let ?C = "candidates_of p c"
  let ?s1 = "select_batches E p c req start (length ?C - start) 0 s"
  from select_batches_prefix [of p c req start "length ?C - start" 0 s] obtain k1 where
    k1: "?s1 = fold (inspect E p c) (take k1 (drop start ?C)) s"
      "k1 < length (drop start ?C) \<longrightarrow> req \<le> length (selected ?s1)" by auto
  show ?thesis
  proof (cases "req \<le> length (selected ?s1)")
    case True
    then have run: "select_segments E p c req [(start, length ?C - start), (0, start)] s = ?s1"
      by (simp add: Let_def)
    have pre: "take (min k1 (length (drop start ?C))) around = take k1 (drop start ?C)"
      unfolding around_def by (simp add: min_def)
    show ?thesis unfolding run
      by (rule exI [of _ "min k1 (length (drop start ?C))"]) (use True k1 pre in simp)
  next
    case False
    then have all1: "take k1 (drop start ?C) = drop start ?C" using k1(2) by auto
    let ?s2 = "select_batches E p c req 0 start 0 ?s1"
    have run: "select_segments E p c req [(start, length ?C - start), (0, start)] s = ?s2"
      using False by (simp add: Let_def)
    from select_batches_prefix [of p c req 0 start 0 ?s1, unfolded diff_zero add_0 drop_0] obtain k2 where
      k2: "?s2 = fold (inspect E p c) (take k2 (take start ?C)) ?s1"
        "k2 < length (take start ?C) \<longrightarrow> req \<le> length (selected ?s2)" by blast
    have eq: "?s2 = fold (inspect E p c) (take (length (drop start ?C) + k2) around) s"
    proof -
      have "take (length (drop start ?C) + k2) around = drop start ?C @ take k2 (take start ?C)"
        unfolding around_def by simp
      moreover have "?s1 = fold (inspect E p c) (drop start ?C) s" using k1(1) unfolding all1 .
      ultimately show ?thesis using k2(1) by (simp only: fold_append comp_apply)
    qed
    show ?thesis unfolding run
      by (rule exI [of _ "length (drop start ?C) + k2"]) (use k2(2) eq assms(2) in \<open>simp add: around_def\<close>)
  qed
qed

lemma candidates_mem:
  "(m, l) \<in> set (candidates_of p c) \<longleftrightarrow>
     latency_at E p m = Some l \<and> 0 \<le> l \<and> (\<forall>x. c_max_latency c = Some x \<longrightarrow> l \<le> x)"
  by (auto simp: z.rangebyscore_mem latency_bound_def split: option.splits)

lemma candidates_distinct: "distinct (map fst (candidates_of p c))"
  by (rule z.rangebyscore_distinct)

lemma quality_range:
  "(m, s) \<in> set (z_rangebyscore (zs E) (quality p) (Incl lo) (Incl hi)) \<longleftrightarrow>
     z_score (zs E) (quality p) m = Some s \<and> lo \<le> s \<and> s \<le> hi"
  by (simp add: z.rangebyscore_mem)

lemma scan_length:
  assumes "distinct (map fst (concat (h_scan (rh E) h k)))"
  shows "length (concat (h_scan (rh E) h k)) = h_len (rh E) h"
proof -
  have "set (map fst (concat (h_scan (rh E) h k))) = {m. h_get (rh E) h m \<noteq> None}"
    using r.scan_get [of _ _ h k] by force
  with distinct_card [OF assms] show ?thesis by (simp only: r.len_get length_map)
qed

lemma queue_card: "z_card (zs E) zz = card {m. z_score (zs E) zz m \<noteq> None}"
  by (rule z.card_score)

text \<open>On a pool with an exact latency index no candidate is stale.\<close>

lemma exact_not_stale:
  assumes "latency_exact E p" and "x \<in> set (candidates_of p c)"
  shows "\<not> is_stale E p c x"
proof -
  obtain m l where x: "x = (m, l)" by (cases x)
  with assms(2) have c: "latency_at E p m = Some l" "\<forall>x. c_max_latency c = Some x \<longrightarrow> l \<le> x"
    using candidates_mem by auto
  with assms(1) obtain r where "record_at E p m = Some r" "latency_index_score r = Some l"
    by (metis latency_exact_def bind_eq_Some_conv)
  with c show ?thesis
    by (auto simp: x is_stale_def selection_skip_reason_def split: option.splits)
qed

definition select_result where
  "select_result p c requested draw =
     (let n = length (candidates_of p c)
      in select_segments E p c requested [(draw n, n - draw n), (0, draw n)] start_selecting)"

lemma select_pool_run:
  assumes "draw (length (candidates_of p c)) < length (candidates_of p c)"
  obtains seen where "mset seen \<subseteq># mset (candidates_of p c)"
    and "selected (select_result p c requested draw) = List.map_filter (eligible E p c) seen"
    and "stale_members (select_result p c requested draw) = map fst (filter (is_stale E p c) seen)"
    and "inspected (select_result p c requested draw) = length seen"
    and "length (selected (select_result p c requested draw)) < requested \<longrightarrow> mset seen = mset (candidates_of p c)"
    and "let s = select_result p c requested draw in
       length (selected s) + skipped_score s + skipped_freshness s + skipped_successes s
         + skipped_inconsistent s = inspected s"
proof -
  let ?C = "candidates_of p c"
  obtain around where ar: "around = drop (draw (length ?C)) ?C @ take (draw (length ?C)) ?C" by blast
  have m: "mset around = mset ?C" unfolding ar by (rule mset_rotate)
  from select_segments_round [of "draw (length ?C)" p c requested start_selecting, folded ar] assms obtain k where
    k: "select_result p c requested draw = fold (inspect E p c) (take k around) start_selecting"
      "k < length around \<longrightarrow> requested \<le> length (selected (select_result p c requested draw))"
    unfolding select_result_def Let_def by auto
  have sub: "mset (take k around) \<subseteq># mset ?C" unfolding m [symmetric] by (rule mset_take_subset)
  have acc: "let s = select_result p c requested draw in
       length (selected s) + skipped_score s + skipped_freshness s + skipped_successes s
         + skipped_inconsistent s = inspected s"
    unfolding k(1) by (rule fold_inspect_accounts) (simp add: start_selecting_def)
  have all: "mset (take k around) = mset ?C"
    if "length (selected (select_result p c requested draw)) < requested"
    using that k(2) m by auto
  show ?thesis
    by (rule that [of "take k around"])
       (use sub acc all fold_inspect [of E p c "take k around" start_selecting, folded k(1)] in
         \<open>simp_all add: start_selecting_def\<close>)
qed

end

section \<open>What a listing contains\<close>

text \<open>
  The whole listing from an offset: the records of the scored members, best score first,
  that pass the filter, up to the window of the first 10001 positions.
\<close>

definition matches ::
  "('z, 'h, 'o, 's, 'p) svc \<Rightarrow> ('z, 'h, 'o) pool \<Rightarrow> (proxy_record \<Rightarrow> bool) \<Rightarrow> member list \<Rightarrow> proxy_record list" where
  "matches E p ok ms = filter ok (List.map_filter (record_at E p) ms)"

definition scored_members ::
  "('z, 'h, 'o, 's, 'p) svc \<Rightarrow> ('z, 'h, 'o) pool \<Rightarrow> int \<Rightarrow> int \<Rightarrow> member list" where
  "scored_members E p lo hi =
     map fst (rev (z_rangebyscore (zs E) (quality p) (Incl (of_int lo)) (Incl (of_int hi))))"

definition listing ::
  "('z, 'h, 'o, 's, 'p) svc \<Rightarrow> ('z, 'h, 'o) pool \<Rightarrow> (proxy_record \<Rightarrow> bool) \<Rightarrow> int \<Rightarrow> int \<Rightarrow> nat \<Rightarrow> proxy_record list" where
  "listing E p ok lo hi offset =
     matches E p ok (take (10001 - offset) (drop offset (scored_members E p lo hi)))"

lemma matches_append: "matches E p ok (xs @ ys) = matches E p ok xs @ matches E p ok ys"
  by (simp add: matches_def map_filter_append)

lemma matches_Cons:
  "matches E p ok (m # ms) =
     (case record_at E p m of None \<Rightarrow> [] | Some r \<Rightarrow> if ok r then [r] else []) @ matches E p ok ms"
  by (auto simp: matches_def List.map_filter_def split: option.splits)

lemma matches_Nil [simp]: "matches E p ok [] = []"
  by (simp add: matches_def List.map_filter_def)

lemma take_members_spec:
  "take_members E p ok limit ms c items = Inr (c', items') \<Longrightarrow> length items < limit \<Longrightarrow>
     \<exists>n. c' = c + n \<and> n \<le> length ms \<and> items' = items @ matches E p ok (take n ms) \<and>
       length items' \<le> limit \<and> (n = length ms \<or> limit \<le> length items')"
proof (induction ms arbitrary: c items)
  case Nil
  then show ?case by simp
next
  case (Cons m ms)
  show ?case
  proof (cases "record_at E p m")
    case None
    have "take_members E p ok limit ms (Suc c) items = Inr (c', items')"
    proof (cases "h_get (rh E) (records p) m")
      case None
      with Cons.prems(1) show ?thesis by simp
    next
      case (Some raw)
      with \<open>record_at E p m = None\<close> have "decode_record E raw = None" by (simp add: record_at_def)
      with Some Cons.prems(1) show ?thesis by simp
    qed
    from Cons.IH [OF this(1) Cons.prems(2)] obtain n where
      "c' = Suc c + n \<and> n \<le> length ms \<and> items' = items @ matches E p ok (take n ms) \<and>
        length items' \<le> limit \<and> (n = length ms \<or> limit \<le> length items')" by (rule exE)
    with None show ?thesis by (intro exI [of _ "Suc n"]) (auto simp: matches_Cons)
  next
    case (Some r)
    then obtain raw where raw: "h_get (rh E) (records p) m = Some raw" and dec: "decode_record E raw = Some r"
      by (auto simp: record_at_def bind_eq_Some_conv)
    consider (skip) "\<not> ok r" | (full) "ok r" "length (items @ [r]) = limit"
      | (on) "ok r" "length (items @ [r]) \<noteq> limit" by blast
    then show ?thesis
    proof cases
      case skip
      with Cons.prems raw dec have "take_members E p ok limit ms (Suc c) items = Inr (c', items')" by simp
      from Cons.IH [OF this Cons.prems(2)] obtain n where
        "c' = Suc c + n \<and> n \<le> length ms \<and> items' = items @ matches E p ok (take n ms) \<and>
        length items' \<le> limit \<and> (n = length ms \<or> limit \<le> length items')" by (rule exE)
      with Some skip show ?thesis by (intro exI [of _ "Suc n"]) (auto simp: matches_Cons)
    next
      case full
      with Cons.prems raw dec have "c' = Suc c" "items' = items @ [r]" by auto
      with Some full show ?thesis by (intro exI [of _ 1]) (auto simp: matches_Cons)
    next
      case on
      with Cons.prems raw dec have "take_members E p ok limit ms (Suc c) (items @ [r]) = Inr (c', items')" by simp
      moreover have "length (items @ [r]) < limit" using on Cons.prems(2) by simp
      ultimately obtain n where
        "c' = Suc c + n \<and> n \<le> length ms \<and> items' = (items @ [r]) @ matches E p ok (take n ms) \<and>
        length items' \<le> limit \<and> (n = length ms \<or> limit \<le> length items')"
        using Cons.IH [of "Suc c" "items @ [r]"] by blast
      with Some on show ?thesis by (intro exI [of _ "Suc n"]) (auto simp: matches_Cons)
    qed
  qed
qed

lemma listing_split:
  assumes "n \<le> 10001 - current"
  shows "listing E p ok lo hi current =
     matches E p ok (take n (drop current (scored_members E p lo hi))) @ listing E p ok lo hi (current + n)"
  unfolding listing_def take_drop_split [OF assms] matches_append by (simp add: diff_diff_left)

context pool_svc
begin

lemma revrange_members:
  "map fst (z_revrangelimit (zs E) (quality p) (Incl (of_int hi)) (Incl (of_int lo)) current n) =
     take n (drop current (scored_members E p lo hi))"
  by (simp add: z.revrangelimit_range scored_members_def take_map drop_map)

lemma list_pages_spec:
  assumes "list_pages E p ok lo hi limit offset current items = Inr pg" and "length items < limit"
  shows "items @ listing E p ok lo hi current =
      page_items pg @ (case next_offset pg of None \<Rightarrow> [] | Some k \<Rightarrow> listing E p ok lo hi k) \<and>
    length (page_items pg) \<le> limit \<and>
    (\<forall>k. next_offset pg = Some k \<longrightarrow> length (page_items pg) = limit \<and> current < k \<and> k \<le> 10000)"
  using assms
proof (induction "10001 - current" arbitrary: current items rule: less_induct)
  case less
  let ?L = "scored_members E p lo hi" and ?f = "list_fetch_count limit current"
  let ?ms = "take ?f (drop current ?L)"
  have f: "?f \<le> 10001 - current" by (simp add: list_fetch_count_def)
  show ?case
  proof (cases "current \<le> 10000 \<and> ?ms \<noteq> []")
    case False
    then have "pg = \<lparr>page_items = items, page_offset = offset, next_offset = None\<rparr>"
      using less.prems(1) by (subst (asm) list_pages.simps) (auto simp: Let_def revrange_members split: if_splits)
    moreover have "listing E p ok lo hi current = []"
    proof -
      have "0 < ?f" if "current \<le> 10000" using that less.prems(2) by (simp add: list_fetch_count_def)
      with False have "\<not> current \<le> 10000 \<or> drop current ?L = []" by auto
      then show ?thesis by (auto simp: listing_def)
    qed
    ultimately show ?thesis using less.prems(2) by simp
  next
    case True
    then have cur: "current \<le> 10000" and ne: "?ms \<noteq> []" by auto
    from less.prems(1) cur ne obtain consumed items' where
      tm: "take_members E p ok limit ?ms 0 items = Inr (consumed, items')"
      by (subst (asm) list_pages.simps) (auto simp: Let_def revrange_members split: sum.splits)
    from take_members_spec [OF tm less.prems(2)] have
      n: "consumed \<le> length ?ms" "items' = items @ matches E p ok (take consumed ?ms)"
        "length items' \<le> limit" "consumed = length ?ms \<or> limit \<le> length items'"
      by (metis add_0)+
    have pos: "0 < consumed" using take_members_consumed [OF tm] ne by blast
    have c_le: "consumed \<le> ?f" using n(1) by simp
    then have tk: "take consumed ?ms = take consumed (drop current ?L)" by (simp add: min_def)
    have ls: "items @ listing E p ok lo hi current = items' @ listing E p ok lo hi (current + consumed)"
      unfolding n(2) tk using listing_split [of consumed current E p ok lo hi] c_le f by simp
    have ended: "listing E p ok lo hi (current + consumed) = []" if "consumed = length ?ms" "length ?ms < ?f"
      using that by (auto simp: listing_def min_def split: if_splits)
    have past: "listing E p ok lo hi k = []" if "\<not> k \<le> 10000" for k using that by (simp add: listing_def)
    note unf = less.prems(1) [unfolded list_pages.simps [of E p ok lo hi limit offset current items] Let_def revrange_members]
    obtain ms f where ms: "ms = ?ms" and fc: "f = ?f" by blast
    note unf' = unf [folded fc, folded ms [unfolded fc [symmetric]]] and tm' = tm [folded ms]
      and ended' = ended [folded ms fc] and n' = n [folded ms] and ne' = ne [folded ms]
    have c_le': "length ms \<le> f" unfolding ms fc by simp
    consider (full) "length items' = limit" | (short) "length items' \<noteq> limit" "length ms < f"
      | (on) "length items' \<noteq> limit" "\<not> length ms < f" by blast
    then show ?thesis
    proof cases
      case full
      let ?go = "(consumed < length ms \<or> length ms = f) \<and> current + consumed \<le> 10000"
      have pg: "pg = \<lparr>page_items = items', page_offset = offset,
          next_offset = (if ?go then Some (current + consumed) else None)\<rparr>"
        using unf' cur ne' tm' full by simp
      have "listing E p ok lo hi (current + consumed) = []" if "\<not> ?go"
        using that past ended' n'(1) c_le' by (metis le_neq_implies_less)
      then show ?thesis unfolding pg using ls pos full by auto
    next
      case short
      then have "pg = \<lparr>page_items = items', page_offset = offset, next_offset = None\<rparr>"
        using unf' cur ne' tm' by simp
      moreover have "consumed = length ms" using n'(3,4) short by simp
      ultimately show ?thesis using ls ended' short n'(3) by simp
    next
      case on
      then have "list_pages E p ok lo hi limit offset (current + consumed) items' = Inr pg"
        using unf' cur ne' tm' by simp
      moreover have "10001 - (current + consumed) < 10001 - current" using pos cur by simp
      moreover have "length items' < limit" using on n(3) by simp
      ultimately show ?thesis using less.hyps [of "current + consumed" items'] ls by auto
    qed
  qed
qed

lemma selection_cases:
  assumes "select_pool E c req cleanup draw shuffle p = (p', sel)"
    and "\<And>n. 0 < n \<Longrightarrow> draw n < n" and "\<And>xs. mset (shuffle xs) = mset xs"
  obtains seen where "mset seen \<subseteq># mset (candidates_of p c)"
    and "mset (sel_records sel) \<subseteq># mset (List.map_filter (eligible E p c) seen)"
    and "length (sel_records sel) \<le> req"
    and "length (sel_records sel) < req \<longrightarrow>
           mset (sel_records sel) = mset (List.map_filter (eligible E p c) (candidates_of p c))"
    and "inspected (sel_counts sel) = length seen"
    and "p' = (if cleanup then p\<lparr>available_latency := fold (\<lambda>m z. z_rem (zs E) z m)
                 (map fst (filter (is_stale E p c) seen)) (available_latency p)\<rparr> else p)"
    and "let s = sel_counts sel in
       length (selected s) + skipped_score s + skipped_freshness s + skipped_successes s
         + skipped_inconsistent s = inspected s"
proof (cases "candidates_of p c = []")
  case True
  with assms(1) have "p' = p" "sel_records sel = []" "sel_counts sel = start_selecting"
    by (auto simp: select_pool_def z.count_range Let_def)
  with True show ?thesis
    by (intro that [of "[]"]) (auto simp: start_selecting_def List.map_filter_def)
next
  case False
  let ?s = "select_result p c req draw"
  have d: "draw (length (candidates_of p c)) < length (candidates_of p c)"
    using False by (intro assms(2)) simp
  obtain seen where seen: "mset seen \<subseteq># mset (candidates_of p c)"
    "selected ?s = List.map_filter (eligible E p c) seen"
    "stale_members ?s = map fst (filter (is_stale E p c) seen)"
    "inspected ?s = length seen"
    "length (selected ?s) < req \<longrightarrow> mset seen = mset (candidates_of p c)"
    "let s = ?s in length (selected s) + skipped_score s + skipped_freshness s + skipped_successes s
         + skipped_inconsistent s = inspected s"
    by (rule select_pool_run [where draw = draw and p = p and c = c and requested = req, OF d])
  from False assms(1) have sel: "sel_records sel = take req (shuffle (selected ?s))" "sel_counts sel = ?s"
    and p': "p' = (if stale_members ?s \<noteq> [] \<and> cleanup
        then p\<lparr>available_latency := fold (\<lambda>m z. z_rem (zs E) z m) (stale_members ?s) (available_latency p)\<rparr> else p)"
    by (auto simp: select_pool_def z.count_range Let_def select_result_def)
  have sh: "length (shuffle (selected ?s)) = length (selected ?s)" by (metis assms(3) size_mset)
  have "mset (sel_records sel) \<subseteq># mset (selected ?s)"
    unfolding sel by (metis assms(3) mset_take_subset)
  moreover have "mset (sel_records sel) = mset (List.map_filter (eligible E p c) (candidates_of p c))"
    if "length (sel_records sel) < req"
  proof -
    have "length (selected ?s) < req" using that sh unfolding sel by (auto simp: min_def split: if_splits)
    moreover from this have "mset seen = mset (candidates_of p c)" using seen(5) by simp
    ultimately show ?thesis
      unfolding sel using sh assms(3) seen(2)
      by (simp add: List.map_filter_def mset_map mset_filter)
  qed
  ultimately show ?thesis
    using seen sel p' by (intro that [of seen]) auto
qed

lemma count_records_total:
  "count_records E xs s = Inr s' \<Longrightarrow>
     st_total s' = st_total s + length xs \<and>
     st_candidate s' + st_available s' + st_degraded s' + st_quarantined s' + st_total s =
       st_candidate s + st_available s + st_degraded s + st_quarantined s + st_total s' \<and>
     st_available s' = st_available s +
       length (filter (\<lambda>(m, raw). map_option state (decode_record E raw) = Some Available) xs)"
proof (induction xs arbitrary: s)
  case (Cons x xs)
  obtain m raw where x: "x = (m, raw)" by (cases x)
  from Cons.prems obtain r where dec: "decode_record E raw = Some r"
    and run: "count_records E xs (count_record r s) = Inr s'"
    by (auto simp: x split: option.splits)
  from Cons.IH [OF run] show ?case
    by (cases "state r") (simp_all add: x dec count_record_def)
qed simp

end

lemma on_pool_same: "on_pool d (\<lambda>_. pools R d) R = R"
  by (simp add: on_pool_def)

section \<open>Properties\<close>

text \<open>
  C8: paging loses and repeats nothing. On a pool that does not change, the page at an
  offset followed by the listing from its next offset is the listing from the offset, and
  the page is the whole rest when it names no next offset; a page has at most \<open>limit\<close> items,
  exactly \<open>limit\<close> when there is a next one, and each item is a stored record that passes the
  filters and whose quality score lies in the requested range.
\<close>

theorem paging_is_lossless:
  assumes "pool_svc E" and "list_proxies E R d lo limit offset st hi src = Inr pg"
  shows "let all = listing E (pools R d) (list_match st src) lo hi in
     all (nat offset) = page_items pg @ (case next_offset pg of None \<Rightarrow> [] | Some k \<Rightarrow> all k) \<and>
     int (length (page_items pg)) \<le> limit \<and>
     (\<forall>k. next_offset pg = Some k \<longrightarrow>
        int (length (page_items pg)) = limit \<and> offset < int k \<and> k \<le> 10000) \<and>
     (\<forall>r \<in> set (page_items pg). list_match st src r \<and>
        (\<exists>m s. record_at E (pools R d) m = Some r \<and> z_score (zs E) (quality (pools R d)) m = Some s \<and>
           of_int lo \<le> s \<and> s \<le> of_int hi))"
proof -
  let ?p = "pools R d" and ?ok = "list_match st src"
  from assms(2) have run: "list_pages E ?p ?ok lo hi (nat limit) (nat offset) (nat offset) [] = Inr pg"
    and lim: "1 \<le> limit" and off: "0 \<le> offset"
    by (auto simp: list_proxies_def pool_for_def split: if_splits)
  from lim have "length ([] :: proxy_record list) < nat limit" by simp
  note spec = pool_svc.list_pages_spec [OF assms(1) run this]
  have "set (page_items pg) \<subseteq> set (listing E ?p ?ok lo hi (nat offset))"
    using spec by (metis append_Nil set_append sup_ge1)
  moreover have "\<forall>r \<in> set (listing E ?p ?ok lo hi (nat offset)). ?ok r \<and>
      (\<exists>m s. record_at E ?p m = Some r \<and> z_score (zs E) (quality ?p) m = Some s \<and>
         of_int lo \<le> s \<and> s \<le> of_int hi)"
  proof
    fix r assume "r \<in> set (listing E ?p ?ok lo hi (nat offset))"
    then obtain m where ok: "?ok r" and rec: "record_at E ?p m = Some r"
      and m: "m \<in> set (take (10001 - nat offset) (drop (nat offset) (scored_members E ?p lo hi)))"
      by (auto simp: listing_def matches_def List.map_filter_def)
    from set_take_drop [OF m] obtain s where
      "(m, s) \<in> set (z_rangebyscore (zs E) (quality ?p) (Incl (of_int lo)) (Incl (of_int hi)))"
      by (auto simp: scored_members_def)
    then have "z_score (zs E) (quality ?p) m = Some s \<and> of_int lo \<le> s \<and> s \<le> of_int hi"
      by (simp only: pool_svc.quality_range [OF assms(1)])
    with ok rec show "?ok r \<and> (\<exists>m s. record_at E ?p m = Some r \<and>
        z_score (zs E) (quality ?p) m = Some s \<and> of_int lo \<le> s \<and> s \<le> of_int hi)" by blast
  qed
  ultimately show ?thesis using spec lim off unfolding Let_def by auto
qed

lemma two_due_page:
  "\<exists>pg. list_proxies ref_svc over_capacity ''d'' 0 1 0 None 100 None = Inr pg"
  by (simp add: list_proxies_def over_capacity_def pool_for_def list_pages.simps pool_eval
      list_fetch_count_def sample_valid list_match_def)

theorem paging_is_lossless_witness:
  "\<exists>pg. list_proxies ref_svc over_capacity ''d'' 0 1 0 None 100 None = Inr pg \<and>
     listing ref_svc two_due (list_match None None) 0 100 0 =
       page_items pg @ (case next_offset pg of None \<Rightarrow> [] | Some k \<Rightarrow> listing ref_svc two_due (list_match None None) 0 100 k)"
proof -
  obtain pg where run: "list_proxies ref_svc over_capacity ''d'' 0 1 0 None 100 None = Inr pg"
    using two_due_page by blast
  have "pools over_capacity ''d'' = two_due" by (simp add: over_capacity_def)
  with paging_is_lossless [OF ref_svc_pool run] run show ?thesis by (auto simp: Let_def)
qed

lemma distinct_map_filter_key:
  "distinct (map fst xs) \<Longrightarrow> (\<And>x r. x \<in> set xs \<Longrightarrow> f x = Some r \<Longrightarrow> key r = fst x) \<Longrightarrow>
     distinct (map key (List.map_filter f xs))"
proof (induction xs)
  case (Cons x xs)
  then have ih: "distinct (map key (List.map_filter f xs))" by simp
  have "key r \<noteq> fst x" if r: "r \<in> set (List.map_filter f xs)" for r
  proof -
    from r obtain y where y: "y \<in> set xs" "f y = Some r" by (auto simp: List.map_filter_def)
    with Cons.prems(2) have "key r = fst y" by simp
    with y Cons.prems(1) show ?thesis by (metis distinct.simps(2) image_eqI list.set_map list.simps(9))
  qed
  then have "fst x \<notin> key ` set (List.map_filter f xs)" by (metis imageE)
  with ih Cons.prems(2) [of x] show ?case
    by (cases "f x") (auto simp: List.map_filter_simps)
qed (simp add: List.map_filter_def)

text \<open>Where selected records come from, and that they have different endpoints.\<close>

lemma selection_source:
  assumes "pool_svc E"
    and "select_random_proxies E d min_score cnt max_latency max_age min_successes now cleanup draw shuffle R
           = Inr (R', sel)"
    and "\<And>n. 0 < n \<Longrightarrow> draw n < n" and "\<And>xs. mset (shuffle xs) = mset xs"
  shows "mset (sel_records sel) \<subseteq># mset (List.map_filter
      (eligible E (pools R d) (criteria_of min_score max_latency max_age min_successes now))
      (z_rangebyscore (zs E) (available_latency (pools R d)) (Incl 0) (latency_bound max_latency)))"
    and "\<not> cleanup \<Longrightarrow> R' = R" and "length (sel_records sel) \<le> nat (min cnt 20)"
proof -
  let ?c = "criteria_of min_score max_latency max_age min_successes now" and ?p = "pools R d"
  from assms(2) obtain p' where run: "select_pool E ?c (nat (min cnt 20)) cleanup draw shuffle ?p = (p', sel)"
    and R': "R' = on_pool d (\<lambda>_. p') R"
    by (auto simp: select_random_proxies_def Let_def split: if_splits sum.splits prod.splits)
  have mx: "c_max_latency ?c = max_latency" by (simp add: criteria_of_def)
  obtain seen where s1: "mset seen \<subseteq># mset (z_rangebyscore (zs E) (available_latency ?p) (Incl 0) (latency_bound max_latency))"
    and s2: "mset (sel_records sel) \<subseteq># mset (List.map_filter (eligible E ?p ?c) seen)"
    and s3: "length (sel_records sel) \<le> nat (min cnt 20)"
    and s6: "p' = (if cleanup then ?p\<lparr>available_latency := fold (\<lambda>m z. z_rem (zs E) z m)
                 (map fst (filter (is_stale E ?p ?c) seen)) (available_latency ?p)\<rparr> else ?p)"
    by (rule pool_svc.selection_cases [OF assms(1) run assms(3,4), unfolded mx])
  show "mset (sel_records sel) \<subseteq># mset (List.map_filter (eligible E ?p ?c)
      (z_rangebyscore (zs E) (available_latency ?p) (Incl 0) (latency_bound max_latency)))"
    using s2 map_filter_mset_mono [OF s1] by (rule subset_mset.order_trans)
  show "\<not> cleanup \<Longrightarrow> R' = R" using s6 unfolding R' by (simp add: on_pool_same)
  show "length (sel_records sel) \<le> nat (min cnt 20)" by (rule s3)
qed

lemma selection_each:
  assumes "pool_svc E"
    and "select_random_proxies E d min_score cnt max_latency max_age min_successes now cleanup draw shuffle R
           = Inr (R', sel)"
    and "\<And>n. 0 < n \<Longrightarrow> draw n < n" and "\<And>xs. mset (shuffle xs) = mset xs"
    and "r \<in> set (sel_records sel)"
  shows "state r = Available \<and> min_score \<le> score r \<and> min_successes \<le> consecutive_successes r \<and>
    (\<forall>x. max_latency = Some x \<longrightarrow> (\<exists>l \<le> x. latency_ewma_ms r = Some (Finite l))) \<and>
    (\<forall>a. max_age = Some a \<longrightarrow> (\<exists>t. last_checked_at r = Some t \<and> now - of_int a \<le> t))"
proof -
  let ?c = "criteria_of min_score max_latency max_age min_successes now" and ?p = "pools R d"
  have "r \<in> set (List.map_filter (eligible E ?p ?c)
      (z_rangebyscore (zs E) (available_latency ?p) (Incl 0) (latency_bound max_latency)))"
    using selection_source(1) [OF assms(1-4)] assms(5) mset_subset_eqD by fastforce
  then obtain m l where "eligible E ?p ?c (m, l) = Some r" by (auto simp: List.map_filter_def)
  then have "selection_skip_reason ?c r l = None" by (simp add: eligible_some)
  then show ?thesis
    unfolding skip_reason_none
    by (auto simp: criteria_of_def latency_index_score_def split: option.splits if_splits pyfloat.splits)
qed

lemma selection_distinct:
  assumes "pool_svc E" and "stored_ok E (pools R d)"
    and "select_random_proxies E d min_score cnt max_latency max_age min_successes now cleanup draw shuffle R
           = Inr (R', sel)"
    and "\<And>n. 0 < n \<Longrightarrow> draw n < n" and "\<And>xs. mset (shuffle xs) = mset xs"
  shows "distinct (map (\<lambda>r. canonical (endpoint r)) (sel_records sel))"
proof -
  let ?c = "criteria_of min_score max_latency max_age min_successes now" and ?p = "pools R d"
  let ?C = "z_rangebyscore (zs E) (available_latency ?p) (Incl 0) (latency_bound max_latency)"
  have "distinct (map fst ?C)"
    using pool_svc.candidates_distinct [OF assms(1), of ?p ?c] by (simp add: criteria_of_def)
  then have "distinct (map (\<lambda>r. canonical (endpoint r)) (List.map_filter (eligible E ?p ?c) ?C))"
  proof (rule distinct_map_filter_key)
    fix e r assume "eligible E ?p ?c e = Some r"
    then have "record_at E ?p (fst e) = Some r" by (cases e) (simp add: eligible_some)
    with assms(2) show "canonical (endpoint r) = fst e"
      by (fastforce simp: stored_ok_def record_at_def bind_eq_Some_conv)
  qed
  moreover have "mset (map (\<lambda>r. canonical (endpoint r)) (sel_records sel)) \<subseteq>#
      mset (map (\<lambda>r. canonical (endpoint r)) (List.map_filter (eligible E ?p ?c) ?C))"
    using selection_source(1) [OF assms(1,3,4,5)] by (simp add: image_mset_subseteq_mono)
  ultimately show ?thesis by (rule distinct_submultiset [rotated])
qed


definition ready_repo ::
  "(ref_zset, (member \<times> proxy_record) list, (member \<times> string) list, member list) repo" where
  "ready_repo = \<lparr>domains = [''d''], pools = (\<lambda>_. two_due\<lparr>available_latency_ready := Some ''1''\<rparr>)\<rparr>"

lemma ready_select:
  "\<exists>R' sel. select_random_proxies ref_svc ''d'' 80 1 (Some 500) (Some 60) 1 10 cleanup (\<lambda>_. 0) (\<lambda>xs. xs)
     ready_repo = Inr (R', sel)"
  by (simp add: select_random_proxies_def latency_index_ready_def pool_for_def ready_repo_def
      split: prod.split)


text \<open>
  On a pool that satisfies the invariant kept by every run, selection finds no stale
  index entry, so that even with cleanup on it changes nothing, and it returns records of
  pairwise different endpoints, each under a filter the record itself satisfies.
\<close>

lemma selection_on_consistent_pool:
  assumes "pool_svc E" and "pool_inv E x (pools R d)"
    and "select_random_proxies E d min_score cnt max_latency max_age min_successes now cleanup draw shuffle R
           = Inr (R', sel)"
    and "\<And>n. 0 < n \<Longrightarrow> draw n < n" and "\<And>xs. mset (shuffle xs) = mset xs"
  shows "R' = R \<and> distinct (map (\<lambda>r. canonical (endpoint r)) (sel_records sel))"
proof -
  let ?c = "criteria_of min_score max_latency max_age min_successes now" and ?p = "pools R d"
  let ?C = "z_rangebyscore (zs E) (available_latency ?p) (Incl 0) (latency_bound max_latency)"
  have mx: "c_max_latency ?c = max_latency" by (simp add: criteria_of_def)
  from assms(3) obtain p' where run: "select_pool E ?c (nat (min cnt 20)) cleanup draw shuffle ?p = (p', sel)"
    and R': "R' = on_pool d (\<lambda>_. p') R"
    by (auto simp: select_random_proxies_def Let_def split: if_splits sum.splits prod.splits)
  obtain seen where seen: "mset seen \<subseteq># mset ?C"
    and p': "p' = (if cleanup then ?p\<lparr>available_latency := fold (\<lambda>m z. z_rem (zs E) z m)
                 (map fst (filter (is_stale E ?p ?c) seen)) (available_latency ?p)\<rparr> else ?p)"
    by (rule pool_svc.selection_cases [OF assms(1) run assms(4,5), unfolded mx])
  from assms(2) have exact: "latency_exact E ?p" and stored: "stored_ok E ?p" by (simp_all add: pool_inv_def)
  have "set seen \<subseteq> set ?C" using seen by (meson mset_subset_eqD set_mset_mono set_mset_mset subsetI in_multiset_in_set)
  then have "filter (is_stale E ?p ?c) seen = []"
    using pool_svc.exact_not_stale [OF assms(1) exact, of _ ?c] unfolding mx by (auto simp: filter_empty_conv)
  then have "p' = ?p" using p' by simp
  then have "R' = R" using R' by (simp add: on_pool_same)
  with selection_distinct [OF assms(1) stored assms(3-5)] show ?thesis by blast
qed

lemma ready_inv: "pool_inv ref_svc 1000 (two_due\<lparr>available_latency_ready := Some ''1''\<rparr>)"
  using pool_svc.pool_inv_unraced_run [OF ref_svc_pool two_due_run]
  by (simp add: pool_inv_unraced_def pool_inv_def pool_invariants)

lemma selection_on_consistent_pool_witness:
  "\<exists>sel. select_random_proxies ref_svc ''d'' 80 1 (Some 500) (Some 60) 1 10 True (\<lambda>_. 0) (\<lambda>xs. xs)
       ready_repo = Inr (ready_repo, sel)"
proof -
  obtain R' sel where run: "select_random_proxies ref_svc ''d'' 80 1 (Some 500) (Some 60) 1 10 True (\<lambda>_. 0) (\<lambda>xs. xs)
       ready_repo = Inr (R', sel)" using ready_select by blast
  have "pool_inv ref_svc 1000 (pools ready_repo ''d'')" using ready_inv by (simp add: ready_repo_def)
  from selection_on_consistent_pool [OF ref_svc_pool this run] run show ?thesis by auto
qed

text \<open>
  The statistics of a domain add up: when the scan lists each record once, the total is
  the number of stored records, the four states partition it, the queue sizes are those of
  the queues, and the statistics over all domains are the sums over the domains.
\<close>

lemma stats_add_up:
  assumes "pool_svc E" and "stats E R (Some d) = Inr s"
    and "distinct (map fst (concat (h_scan (rh E) (records (pools R d)) 200)))"
  shows "record_count E R d = Inr (st_total s) \<and>
     st_total s = st_candidate s + st_available s + st_degraded s + st_quarantined s \<and>
     st_due s = card {m. due_at E (pools R d) m \<noteq> None} \<and>
     st_leased s = card {m. is_leased E (pools R d) m} \<and>
     (list_domains E R = [d] \<longrightarrow> stats E R None = Inr s)"
proof -
  let ?p = "pools R d" and ?xs = "concat (h_scan (rh E) (records (pools R d)) 200)"
  from assms(2) obtain s0 where run: "count_records E ?xs no_stats = Inr s0" and ne: "d \<noteq> []"
    and s: "s = s0\<lparr>st_due := z_card (zs E) (due ?p), st_leased := z_card (zs E) (leased ?p)\<rparr>"
    by (auto simp: stats_def domain_stats_def pool_for_def split: if_splits sum.splits)
  have len: "h_len (rh E) (records ?p) = length ?xs"
    using pool_svc.scan_length [OF assms(1,3)] by simp
  have "total_stats E R [d] no_stats = Inr s"
    using assms(2) by (simp add: stats_def add_stats_def no_stats_def)
  then show ?thesis
    using pool_svc.count_records_total [OF assms(1) run] len ne pool_svc.queue_card [OF assms(1)]
    by (auto simp: record_count_def pool_for_def s no_stats_def stats_def)
qed

lemma stats_add_up_witness:
  "\<exists>s. stats ref_svc over_capacity (Some ''d'') = Inr s \<and> record_count ref_svc over_capacity ''d'' = Inr (st_total s)"
proof -
  have "\<exists>s. stats ref_svc over_capacity (Some ''d'') = Inr s"
    by (simp add: stats_def domain_stats_def pool_for_def over_capacity_def pool_eval sample_valid)
  then obtain s where run: "stats ref_svc over_capacity (Some ''d'') = Inr s" by blast
  have "distinct (map fst (concat (h_scan (rh ref_svc) (records (pools over_capacity ''d'')) 200)))"
    using two_due_scan by (simp add: over_capacity_def)
  from stats_add_up [OF ref_svc_pool run this] run show ?thesis by blast
qed

end
