(* ===== verification/Breaker.thy ===== *)
theory Breaker
  imports Prelude
begin

text \<open>
  The circuit breaker of a validation target (checker/circuit_breaker.py): the hash one
  target's breaker keeps in Redis, its three Lua scripts and the methods that run them. The
  lemmas show the invariant of the states, that the breaker opens at the configured number
  of failures and not before, and that a half-open breaker belongs to one owner.
\<close>

section \<open>State and scripts\<close>

datatype circuit_state = Closed | Open | Half_Open

text \<open>The fields of the hash; a field that is not set is \<open>None\<close>.\<close>

record breaker =
  b_state :: "circuit_state option"
  b_failures :: "nat option"
  b_opened_at :: "time option"
  b_owner :: "string option"

definition no_breaker :: breaker where
  "no_breaker = \<lparr>b_state = None, b_failures = None, b_opened_at = None, b_owner = None\<rparr>"

definition current_state :: "breaker \<Rightarrow> circuit_state" where
  "current_state b = (case b_state b of None \<Rightarrow> Closed | Some s \<Rightarrow> s)"

definition failures_of :: "breaker \<Rightarrow> nat" where
  "failures_of b = (case b_failures b of None \<Rightarrow> 0 | Some n \<Rightarrow> n)"

definition opened_at_of :: "breaker \<Rightarrow> time" where
  "opened_at_of b = (case b_opened_at b of None \<Rightarrow> 0 | Some t \<Rightarrow> t)"

definition before_probe_script ::
  "time \<Rightarrow> time \<Rightarrow> string \<Rightarrow> breaker \<Rightarrow> breaker \<times> bool \<times> circuit_state" where
  "before_probe_script now cooldown owner b =
     (case current_state b of
        Closed \<Rightarrow> (b, True, Closed)
      | Open \<Rightarrow>
          if now - opened_at_of b \<ge> cooldown
          then (b\<lparr>b_state := Some Half_Open, b_owner := Some owner\<rparr>, True, Half_Open)
          else (b, False, Open)
      | Half_Open \<Rightarrow> (b, b_owner b = Some owner, Half_Open))"

definition record_failure_script :: "time \<Rightarrow> nat \<Rightarrow> breaker \<Rightarrow> breaker \<times> circuit_state" where
  "record_failure_script now limit b =
     (let n = failures_of b + 1
      in case current_state b of
           Half_Open \<Rightarrow>
             (b\<lparr>b_state := Some Open, b_failures := Some n, b_opened_at := Some now, b_owner := None\<rparr>, Open)
         | Open \<Rightarrow> (b\<lparr>b_failures := Some n\<rparr>, Open)
         | Closed \<Rightarrow>
             if n \<ge> limit
             then (b\<lparr>b_state := Some Open, b_failures := Some n, b_opened_at := Some now\<rparr>, Open)
             else (b\<lparr>b_state := Some Closed, b_failures := Some n\<rparr>, Closed))"

definition record_success_script :: "breaker \<Rightarrow> breaker \<times> circuit_state" where
  "record_success_script b =
     (b\<lparr>b_state := Some Closed, b_failures := Some 0, b_opened_at := None, b_owner := None\<rparr>, Closed)"

section \<open>Methods\<close>

record breaker_config =
  cfg_failures :: nat
  cfg_cooldown :: nat

definition new_breaker :: "string \<Rightarrow> int \<Rightarrow> int \<Rightarrow> breaker_config result" where
  "new_breaker prefix failures cooldown =
     (if prefix = [] then Inl (ValueError ''prefix must be non-empty'')
      else if failures < 1 \<or> cooldown < 1 then Inl (ValueError ''failures and cooldown must be positive'')
      else Inr \<lparr>cfg_failures = nat failures, cfg_cooldown = nat cooldown\<rparr>)"

text \<open>The breakers of all targets, by name.\<close>

type_synonym breakers = "string \<Rightarrow> breaker"

definition before_probe ::
  "breaker_config \<Rightarrow> string \<Rightarrow> string \<Rightarrow> time \<Rightarrow> breakers \<Rightarrow> (breakers \<times> bool \<times> circuit_state) result" where
  "before_probe cfg target owner now B =
     (if owner = [] then Inl (ValueError ''owner must be non-empty'')
      else if target = [] then Inl (ValueError ''target_name must be non-empty'')
      else
        (case before_probe_script now (of_nat (cfg_cooldown cfg)) owner (B target) of
           (b, allowed, s) \<Rightarrow> Inr (B(target := b), allowed, s)))"

definition record_success :: "string \<Rightarrow> breakers \<Rightarrow> breakers result" where
  "record_success target B =
     (if target = [] then Inl (ValueError ''target_name must be non-empty'')
      else Inr (B(target := fst (record_success_script (B target)))))"

definition record_failure :: "breaker_config \<Rightarrow> string \<Rightarrow> time \<Rightarrow> breakers \<Rightarrow> breakers result" where
  "record_failure cfg target now B =
     (if target = [] then Inl (ValueError ''target_name must be non-empty'')
      else Inr (B(target := fst (record_failure_script now (cfg_failures cfg) (B target)))))"

lemmas breaker_defs =
  before_probe_script_def record_failure_script_def record_success_script_def
  current_state_def failures_of_def opened_at_of_def Let_def

section \<open>Runs\<close>

datatype breaker_event = Ask string time | Fail time | Succeed

fun breaker_step :: "breaker_config \<Rightarrow> breaker_event \<Rightarrow> breaker \<Rightarrow> breaker" where
  "breaker_step cfg (Ask owner now) b = fst (before_probe_script now (of_nat (cfg_cooldown cfg)) owner b)"
| "breaker_step cfg (Fail now) b = fst (record_failure_script now (cfg_failures cfg) b)"
| "breaker_step cfg Succeed b = fst (record_success_script b)"

inductive breaker_reach :: "breaker_config \<Rightarrow> breaker \<Rightarrow> bool" for cfg where
  fresh: "breaker_reach cfg no_breaker"
| step: "breaker_reach cfg b \<Longrightarrow> breaker_reach cfg (breaker_step cfg e b)"

definition breaker_inv :: "breaker_config \<Rightarrow> breaker \<Rightarrow> bool" where
  "breaker_inv cfg b \<longleftrightarrow>
     (case current_state b of
        Closed \<Rightarrow> b_owner b = None \<and> b_opened_at b = None \<and> failures_of b < cfg_failures cfg
      | Open \<Rightarrow> b_owner b = None \<and> b_opened_at b \<noteq> None \<and> cfg_failures cfg \<le> failures_of b
      | Half_Open \<Rightarrow> b_owner b \<noteq> None \<and> b_opened_at b \<noteq> None \<and> cfg_failures cfg \<le> failures_of b)"

lemma breaker_inv_step:
  "0 < cfg_failures cfg \<Longrightarrow> breaker_inv cfg b \<Longrightarrow> breaker_inv cfg (breaker_step cfg e b)"
  by (cases e; cases "b_state b"; cases "the (b_state b)")
     (auto simp: breaker_inv_def breaker_defs split: if_splits option.splits)

lemma breaker_reach_inv:
  "breaker_reach cfg b \<Longrightarrow> 0 < cfg_failures cfg \<Longrightarrow> breaker_inv cfg b"
  by (induction rule: breaker_reach.induct)
     (auto simp: breaker_inv_step, simp add: breaker_inv_def no_breaker_def current_state_def failures_of_def)

lemma fails_from_closed:
  assumes "current_state b = Closed" and "failures_of b + length ts < cfg_failures cfg"
  shows "let b' = fold (\<lambda>t. breaker_step cfg (Fail t)) ts b
         in current_state b' = Closed \<and> failures_of b' = failures_of b + length ts"
  using assms
proof (induction ts arbitrary: b)
  case (Cons t ts)
  have "current_state (breaker_step cfg (Fail t) b) = Closed"
    and "failures_of (breaker_step cfg (Fail t) b) = failures_of b + 1"
    using Cons.prems by (auto simp: record_failure_script_def Let_def current_state_def failures_of_def
        split: circuit_state.splits option.splits)
  with Cons.IH [of "breaker_step cfg (Fail t) b"] Cons.prems show ?case by (simp add: Let_def)
qed (simp add: Let_def)

lemma half_open_asks:
  assumes "current_state b = Half_Open"
  shows "fold (\<lambda>(w, t). breaker_step cfg (Ask w t)) asks b = b"
proof (induction asks)
  case (Cons a asks)
  obtain w t where "a = (w, t)" by (cases a)
  moreover have "breaker_step cfg (Ask w t) b = b" for w t
    using assms by (simp add: before_probe_script_def)
  ultimately show ?case using Cons by simp
qed simp

section \<open>Properties\<close>

text \<open>
  In every reachable breaker a closed one has fewer failures on record than the limit
  and no owner, an open one has reached the limit and knows when it opened, and a half-open
  one has an owner.
\<close>

lemma breaker_states_consistent:
  assumes "new_breaker prefix failures cooldown = Inr cfg" and "breaker_reach cfg b"
  shows "breaker_inv cfg b"
  using assms breaker_reach_inv by (auto simp: new_breaker_def split: if_splits)

lemma breaker_states_consistent_witness:
  "breaker_inv \<lparr>cfg_failures = 2, cfg_cooldown = 60\<rparr>
     (breaker_step \<lparr>cfg_failures = 2, cfg_cooldown = 60\<rparr> (Fail 7) no_breaker)"
  by (rule breaker_states_consistent [of "''p''" 2 60, OF _ breaker_reach.step [OF breaker_reach.fresh]])
     (simp add: new_breaker_def)



text \<open>
  C12: a half-open breaker belongs to the owner whose request half-opened it: through any
  sequence of requests, whoever makes them and however late, exactly that owner is admitted,
  until an outcome is recorded; a failure opens it again with a new cooldown and a success
  closes it with the failures forgotten. No passing of time releases it.
\<close>

theorem half_open_single_owner:
  assumes "current_state b = Open" and "opened_at_of b + cooldown \<le> now"
    and "before_probe_script now cooldown w b = (b1, ok, s)"
  shows "ok \<and> s = Half_Open \<and>
     (let b2 = fold (\<lambda>(w, t). breaker_step cfg (Ask w t)) asks b1
      in (\<forall>w' t. fst (snd (before_probe_script t cooldown w' b2)) \<longleftrightarrow> w' = w) \<and>
         (\<forall>t. current_state (breaker_step cfg (Fail t) b2) = Open \<and>
              opened_at_of (breaker_step cfg (Fail t) b2) = t) \<and>
         current_state (breaker_step cfg Succeed b2) = Closed \<and> failures_of (breaker_step cfg Succeed b2) = 0)"
proof -
  from assms have b1: "b1 = b\<lparr>b_state := Some Half_Open, b_owner := Some w\<rparr>" "ok" "s = Half_Open"
    by (auto simp: before_probe_script_def)
  then have "current_state b1 = Half_Open" by (simp add: current_state_def)
  with half_open_asks [OF this] b1 show ?thesis
    by (auto simp: breaker_defs)
qed

definition tripped :: breaker where
  "tripped = \<lparr>b_state = Some Open, b_failures = Some 3, b_opened_at = Some 100, b_owner = None\<rparr>"

theorem half_open_single_owner_witness:
  "let b2 = fold (\<lambda>(w, t). breaker_step \<lparr>cfg_failures = 3, cfg_cooldown = 60\<rparr> (Ask w t)) [(''v'', 170), (''w'', 171)]
              (tripped\<lparr>b_state := Some Half_Open, b_owner := Some ''w''\<rparr>)
   in \<forall>w' t. fst (snd (before_probe_script t 60 w' b2)) \<longleftrightarrow> w' = ''w''"
  using half_open_single_owner [of tripped 60 165 "''w''" "tripped\<lparr>b_state := Some Half_Open, b_owner := Some ''w''\<rparr>"
      True Half_Open "\<lparr>cfg_failures = 3, cfg_cooldown = 60\<rparr>" "[(''v'', 170), (''w'', 171)]"]
  unfolding Let_def by (simp add: tripped_def before_probe_script_def current_state_def opened_at_of_def)

end
