(* ===== verification/Probe.thy ===== *)
theory Probe
  imports Models "HOL-Library.Sublist"
begin

text \<open>
  The probe of a proxy and the baseline probe of a target (checker/probe.py): redaction of
  credentials in messages, validation of the response, and the round over all targets. The
  HTTP client is outside the repository: \<open>client endpoint target\<close> is what a request ends
  with, and how long it took. Building a \<open>ProbeResult\<close> validates it, so the functions
  return an error where pydantic raises. The lemmas show when a round succeeds, that no
  credential survives redaction, and which responses make a probe raise.
\<close>

section \<open>Text helpers\<close>

fun join :: "string \<Rightarrow> string list \<Rightarrow> string" where
  "join sep [] = []"
| "join sep [x] = x"
| "join sep (x # y # ys) = x @ sep @ join sep (y # ys)"

definition repr_ints :: "int list \<Rightarrow> string" where
  "repr_ints ns = ''['' @ join '', '' (map str_int ns) @ '']''"

text \<open>\<open>re.sub(r'(https?://)[^/@\s]+@', r'\1***@', message)\<close>, ignoring case.\<close>

definition lower_char :: "char \<Rightarrow> char" where
  "lower_char c = (let n = (of_char c :: nat) in if 65 \<le> n \<and> n \<le> 90 then char_of (n + 32) else c)"

definition is_space :: "char \<Rightarrow> bool" where
  "is_space c = ((of_char c :: nat) \<in> {9, 10, 11, 12, 13, 28, 29, 30, 31, 32, 133, 160})"

definition secret_char :: "char \<Rightarrow> bool" where
  "secret_char c \<longleftrightarrow> c \<noteq> CHR ''/'' \<and> c \<noteq> CHR ''@'' \<and> \<not> is_space c"

definition scheme_length :: "string \<Rightarrow> nat option" where
  "scheme_length s =
     (if map lower_char (take 8 s) = ''https://'' then Some 8
      else if map lower_char (take 7 s) = ''http://'' then Some 7 else None)"

text \<open>A match at the start: the scheme, and what follows the \<open>@\<close>.\<close>

definition credential_match :: "string \<Rightarrow> (string \<times> string) option" where
  "credential_match s =
     (case scheme_length s of
        None \<Rightarrow> None
      | Some n \<Rightarrow>
          (let rest = drop n s; tail = dropWhile secret_char rest
           in if takeWhile secret_char rest \<noteq> [] \<and> tail \<noteq> [] \<and> hd tail = CHR ''@''
              then Some (take n s, tl tail) else None))"

lemma credential_match_shorter: "credential_match s = Some (p, rest) \<Longrightarrow> length rest < length s"
  by (auto simp: credential_match_def Let_def neq_Nil_conv split: option.splits if_splits
      dest!: arg_cong [of "dropWhile _ _" _ length])
     (metis Suc_le_lessD diff_le_self le_trans length_Cons length_drop length_dropWhile_le)

function redact :: "string \<Rightarrow> string" where
  "redact s =
     (case credential_match s of
        Some (scheme, rest) \<Rightarrow> scheme @ ''***@'' @ redact rest
      | None \<Rightarrow> (case s of [] \<Rightarrow> [] | c # cs \<Rightarrow> c # redact cs))"
  by pat_completeness auto
termination
  by (relation "measure length") (auto simp: credential_match_shorter)

declare redact.simps [simp del]

definition safe_message :: "string \<Rightarrow> string" where
  "safe_message message = take 256 (redact message)"

section \<open>One probe\<close>

record test_target =
  t_name :: string
  t_domain :: string
  expected_statuses :: "int set"
  expected_text :: "string option"
  json_keys :: "string list"

text \<open>\<open>r_json\<close>: not JSON, JSON but no object, or an object with these keys.\<close>

datatype json_body = Not_Json | Not_Object | Object_Keys "string set"

record response =
  r_status :: int
  r_text :: string
  r_json :: json_body

datatype fetch_outcome =
    Responded response
  | Transport_Failed string string
  | Fetch_Cancelled string
  | Fetch_Failed string string

type_synonym client = "proxy_endpoint option \<Rightarrow> test_target \<Rightarrow> fetch_outcome \<times> rat"

definition make_result :: "probe_result \<Rightarrow> probe_result result" where
  "make_result p = (if valid_result p then Inr p else Inl (ValueError ''ProbeResult''))"

definition failure ::
  "probe_category \<Rightarrow> string \<Rightarrow> string \<Rightarrow> int option \<Rightarrow> probe_result result" where
  "failure c etype message status =
     make_result \<lparr>category = c, latency_ms = None, status_code = status, error_type = Some etype,
                  error_message = Some (safe_message message)\<rparr>"

definition has_json_keys :: "test_target \<Rightarrow> response \<Rightarrow> bool" where
  "has_json_keys target r =
     (case r_json r of
        Not_Json \<Rightarrow> False
      | Not_Object \<Rightarrow> False
      | Object_Keys ks \<Rightarrow> (\<forall>k \<in> set (json_keys target). k \<in> ks))"

definition validate_response ::
  "response \<Rightarrow> test_target \<Rightarrow> probe_category \<Rightarrow> rat \<Rightarrow> bool \<Rightarrow> probe_result result" where
  "validate_response r target failure_category latency baseline =
     (if baseline \<and> r_status r \<ge> 500
      then failure System_Error ''unexpected_status'' (''target returned HTTP '' @ str_int (r_status r))
             (Some (r_status r))
      else if r_status r \<notin> expected_statuses target
      then failure failure_category ''unexpected_status''
             (''expected '' @ repr_ints (sorted_list_of_set (expected_statuses target)) @ '', got ''
               @ str_int (r_status r)) (Some (r_status r))
      else if (case expected_text target of None \<Rightarrow> False | Some t \<Rightarrow> \<not> sublist t (r_text r))
      then failure failure_category ''response_mismatch'' ''expected text was not present'' (Some (r_status r))
      else if json_keys target \<noteq> [] \<and> \<not> has_json_keys target r
      then failure failure_category ''response_mismatch'' ''expected JSON keys were not present''
             (Some (r_status r))
      else make_result \<lparr>category = Success, latency_ms = Some (Finite latency),
                        status_code = Some (r_status r), error_type = None, error_message = None\<rparr>)"

definition probe_once :: "client \<Rightarrow> proxy_endpoint option \<Rightarrow> test_target \<Rightarrow> probe_result result" where
  "probe_once client ep target =
     (case client ep target of
        (Fetch_Cancelled message, _) \<Rightarrow> failure Cancelled ''cancelled'' (safe_message message) None
      | (Transport_Failed etype message, _) \<Rightarrow>
          failure (if ep \<noteq> None then Proxy_Error else System_Error) etype (safe_message message) None
      | (Fetch_Failed etype message, _) \<Rightarrow> failure System_Error etype (safe_message message) None
      | (Responded r, seconds) \<Rightarrow>
          validate_response r target (if ep \<noteq> None then Proxy_Error else System_Error)
            (seconds * 1000) (ep = None))"

definition probe_target_baseline :: "client \<Rightarrow> test_target \<Rightarrow> probe_result result" where
  "probe_target_baseline client target = probe_once client None target"

definition pf_max :: "pyfloat \<Rightarrow> pyfloat \<Rightarrow> pyfloat" where
  "pf_max a b = (if \<not> pf_le b a \<and> pf_le a b then b else a)"

text \<open>The round: \<open>latency\<close> and \<open>status\<close> are the two variables of the loop.\<close>

fun probe_round ::
  "client \<Rightarrow> proxy_endpoint \<Rightarrow> test_target list \<Rightarrow> pyfloat \<Rightarrow> int option \<Rightarrow> probe_result result" where
  "probe_round client ep [] latency status =
     make_result \<lparr>category = Success, latency_ms = Some latency, status_code = status,
                  error_type = None, error_message = None\<rparr>"
| "probe_round client ep (target # targets) latency status =
     (case probe_once client (Some ep) target of
        Inl e \<Rightarrow> Inl e
      | Inr result \<Rightarrow>
          if category result \<noteq> Success then Inr result
          else probe_round client ep targets
                 (case latency_ms result of None \<Rightarrow> latency | Some l \<Rightarrow> pf_max latency l)
                 (status_code result))"

definition probe_proxy_targets ::
  "client \<Rightarrow> proxy_endpoint \<Rightarrow> test_target list \<Rightarrow> probe_result result" where
  "probe_proxy_targets client ep targets =
     (if targets = [] then Inl (ValueError ''at least one proxy validation target is required'')
      else probe_round client ep targets (Finite 0) None)"

section \<open>Lemmas\<close>

lemma make_result_Inr: "make_result p = Inr q \<longleftrightarrow> q = p \<and> valid_result p"
  by (auto simp: make_result_def)

lemma failure_category: "failure c e m st = Inr q \<Longrightarrow> category q = c"
  by (auto simp: failure_def make_result_Inr)

lemma probe_once_valid: "probe_once client ep t = Inr q \<Longrightarrow> valid_result q"
  by (auto simp: probe_once_def validate_response_def failure_def make_result_Inr
      split: prod.splits fetch_outcome.splits if_splits option.splits)

lemma probe_round_first_failure:
  assumes "probe_round client ep targets latency status = Inr r" and "category r \<noteq> Success"
  shows "\<exists>us t vs. targets = us @ t # vs \<and> probe_once client (Some ep) t = Inr r \<and>
     (\<forall>u \<in> set us. \<exists>p. probe_once client (Some ep) u = Inr p \<and> category p = Success)"
  using assms
proof (induction targets arbitrary: latency status)
  case Nil
  then show ?case by (auto simp: make_result_Inr)
next
  case (Cons t targets)
  from Cons.prems(1) obtain p where p: "probe_once client (Some ep) t = Inr p" by (auto split: sum.splits)
  show ?case
  proof (cases "category p = Success")
    case True
    with Cons.prems(1) p have "probe_round client ep targets
        (case latency_ms p of None \<Rightarrow> latency | Some l \<Rightarrow> pf_max latency l) (status_code p) = Inr r" by simp
    from Cons.IH [OF this Cons.prems(2)] obtain us t' vs where
      "targets = us @ t' # vs" "probe_once client (Some ep) t' = Inr r"
      "\<forall>u \<in> set us. \<exists>p. probe_once client (Some ep) u = Inr p \<and> category p = Success" by blast
    with p True show ?thesis by (intro exI [of _ "t # us"]) auto
  next
    case False
    with Cons.prems(1) p have "r = p" by simp
    with p show ?thesis by (intro exI [of _ "[]"]) auto
  qed
qed

lemma pf_max_ge:
  "pf_le (Finite 0) a \<Longrightarrow> pf_le (Finite 0) b \<Longrightarrow>
     pf_le (Finite 0) (pf_max a b) \<and> pf_le a (pf_max a b) \<and> pf_le b (pf_max a b)"
  by (cases a; cases b) (auto simp: pf_max_def)

lemma pf_le_trans: "pf_le a b \<Longrightarrow> pf_le b c \<Longrightarrow> pf_le a c"
  by (cases a; cases b; cases c) auto

lemma probe_round_success:
  assumes "probe_round client ep targets latency status = Inr r" and "category r = Success"
    and "pf_le (Finite 0) latency"
  shows "(\<forall>t \<in> set targets. \<exists>p. probe_once client (Some ep) t = Inr p \<and> category p = Success \<and>
      (\<forall>l. latency_ms p = Some l \<longrightarrow> (\<exists>m. latency_ms r = Some m \<and> pf_le l m))) \<and>
    (\<exists>m. latency_ms r = Some m \<and> pf_le latency m)"
  using assms
proof (induction targets arbitrary: latency status)
  case Nil
  then have "latency_ms r = Some latency" by (auto simp: make_result_Inr)
  moreover have "pf_le latency latency" using Nil(3) by (cases latency) auto
  ultimately show ?case by simp
next
  case (Cons t targets)
  from Cons.prems(1,2) obtain p where p: "probe_once client (Some ep) t = Inr p" "category p = Success"
    and rest: "probe_round client ep targets
        (case latency_ms p of None \<Rightarrow> latency | Some l \<Rightarrow> pf_max latency l) (status_code p) = Inr r"
    by (auto split: sum.splits if_splits)
  have nn: "pf_le (Finite 0) l" if "latency_ms p = Some l" for l
    using probe_once_valid [OF p(1)] that by (simp add: valid_result_def valid_latency_def)
  have refl: "pf_le latency latency" using Cons.prems(3) by (cases latency) auto
  let ?lat = "case latency_ms p of None \<Rightarrow> latency | Some l \<Rightarrow> pf_max latency l"
  have lat: "pf_le (Finite 0) ?lat" "pf_le latency ?lat" "\<forall>l. latency_ms p = Some l \<longrightarrow> pf_le l ?lat"
    using pf_max_ge [OF Cons.prems(3) nn] Cons.prems(3) refl by (auto split: option.splits)
  note ih = Cons.IH [OF rest Cons.prems(2) lat(1)]
  then obtain m where m: "latency_ms r = Some m" "pf_le ?lat m" by blast
  have "pf_le latency m" by (rule pf_le_trans [OF lat(2) m(2)])
  have "pf_le l m" if "latency_ms p = Some l" for l
    using lat(3) that m(2) pf_le_trans by blast
  with p m(1) have this_one: "\<exists>p. probe_once client (Some ep) t = Inr p \<and> category p = Success \<and>
      (\<forall>l. latency_ms p = Some l \<longrightarrow> (\<exists>m. latency_ms r = Some m \<and> pf_le l m))" by blast
  show ?case
  proof (intro conjI ballI)
    fix u assume "u \<in> set (t # targets)"
    then consider "u = t" | "u \<in> set targets" by auto
    then show "\<exists>p. probe_once client (Some ep) u = Inr p \<and> category p = Success \<and>
      (\<forall>l. latency_ms p = Some l \<longrightarrow> (\<exists>m. latency_ms r = Some m \<and> pf_le l m))"
    proof cases
      case 1
      then show ?thesis by (simp only: this_one)
    next
      case 2
      then show ?thesis by (rule bspec [OF conjunct1 [OF ih]])
    qed
  next
    show "\<exists>m. latency_ms r = Some m \<and> pf_le latency m" using m(1) \<open>pf_le latency m\<close> by (intro exI [of _ m] conjI)
  qed
qed

lemma hostile_response_raises:
  "r_status r < 100 \<or> 599 < r_status r \<Longrightarrow>
     validate_response r target c latency baseline = Inl (ValueError ''ProbeResult'')"
proof -
  assume "r_status r < 100 \<or> 599 < r_status r"
  then have bad: "\<not> valid_status (Some (r_status r))" by (auto simp: valid_status_def)
  have raises: "failure k e m (Some (r_status r)) = Inl (ValueError ''ProbeResult'')" for k e m
    using bad by (simp add: failure_def make_result_def valid_result_def)
  have "make_result \<lparr>category = Success, latency_ms = l, status_code = Some (r_status r),
      error_type = None, error_message = None\<rparr> = Inl (ValueError ''ProbeResult'')" for l
    using bad by (simp add: make_result_def valid_result_def)
  then show ?thesis unfolding validate_response_def raises by simp
qed

lemma scheme_length_h: "scheme_length (c # cs) \<noteq> None \<Longrightarrow> c = CHR ''h'' \<or> c = CHR ''H''"
proof -
  assume "scheme_length (c # cs) \<noteq> None"
  then have l: "lower_char c = CHR ''h''"
    by (auto simp: scheme_length_def numeral_eq_Suc split: if_splits)
  show ?thesis
  proof (cases "65 \<le> (of_char c :: nat) \<and> (of_char c :: nat) \<le> 90")
    case True
    with l have "(of_char (char_of ((of_char c :: nat) + 32)) :: nat) = of_char CHR ''h''"
      by (simp add: lower_char_def Let_def)
    with True have "(of_char c :: nat) = 72" by (simp add: of_char_of)
    then have "c = char_of (72 :: nat)" by (metis char_of_char)
    moreover have "char_of (72 :: nat) = CHR ''H''" by code_simp
    ultimately show ?thesis by simp
  next
    case False
    with l show ?thesis by (simp add: lower_char_def Let_def)
  qed
qed

lemma redact_skip:
  "set pre \<inter> {CHR ''h'', CHR ''H''} = {} \<Longrightarrow> redact (pre @ s) = pre @ redact s"
proof (induction pre)
  case (Cons c pre)
  then have "scheme_length (c # pre @ s) = None" using scheme_length_h by fastforce
  then have "credential_match (c # pre @ s) = None" by (simp add: credential_match_def)
  with Cons show ?case by (subst append_Cons, subst redact.simps) simp
qed simp

lemma at_not_secret [simp]: "\<not> secret_char CHR ''@''"
  by (simp add: secret_char_def)

lemma redact_credential:
  assumes "scheme_length (scheme @ rest') = Some (length scheme)" and "rest' = secret @ CHR ''@'' # rest"
    and "secret \<noteq> []" and "\<forall>c \<in> set secret. secret_char c"
  shows "redact (scheme @ rest') = scheme @ ''***@'' @ redact rest"
proof -
  have "takeWhile secret_char rest' = secret" "dropWhile secret_char rest' = CHR ''@'' # rest"
    using assms(2,4) by (simp_all add: takeWhile_append2 dropWhile_append2)
  with assms have "credential_match (scheme @ rest') = Some (scheme, rest)"
    by (simp add: credential_match_def Let_def)
  then show ?thesis by (subst redact.simps) simp
qed

section \<open>Properties\<close>

text \<open>
  A round over several targets counts as a success only when the proxy passed every one
  of them, and then reports a latency no smaller than any single one; otherwise it reports
  the result of the first target that did not succeed. Either way the result satisfies the
  field constraints.
\<close>

lemma round_needs_every_target:
  assumes "probe_proxy_targets client ep targets = Inr r"
  shows "targets \<noteq> [] \<and> valid_result r \<and>
    (category r = Success \<longrightarrow>
       (\<forall>t \<in> set targets. \<exists>p. probe_once client (Some ep) t = Inr p \<and> category p = Success \<and>
          (\<forall>l. latency_ms p = Some l \<longrightarrow> (\<exists>m. latency_ms r = Some m \<and> pf_le l m)))) \<and>
    (category r \<noteq> Success \<longrightarrow>
       (\<exists>us t vs. targets = us @ t # vs \<and> probe_once client (Some ep) t = Inr r \<and>
          (\<forall>u \<in> set us. \<exists>p. probe_once client (Some ep) u = Inr p \<and> category p = Success)))"
proof -
  from assms have ne: "targets \<noteq> []" and run: "probe_round client ep targets (Finite 0) None = Inr r"
    by (auto simp: probe_proxy_targets_def split: if_splits)
  have "valid_result r"
  proof (cases "category r = Success")
    case True
    have "probe_round client ep ts l st = Inr r \<Longrightarrow> category r = Success \<Longrightarrow> valid_result r" for ts l st
      by (induction ts arbitrary: l st) (auto simp: make_result_Inr split: sum.splits if_splits)
    with run True show ?thesis by blast
  next
    case False
    from probe_round_first_failure [OF run False] show ?thesis using probe_once_valid by blast
  qed
  with ne run show ?thesis
    using probe_round_success [OF run] probe_round_first_failure [OF run] by auto
qed

definition plain_target :: "string \<Rightarrow> test_target" where
  "plain_target n = \<lparr>t_name = n, t_domain = ''d'', expected_statuses = {200}, expected_text = None, json_keys = []\<rparr>"

definition answers :: "int \<Rightarrow> client" where
  "answers st = (\<lambda>_ _. (Responded \<lparr>r_status = st, r_text = [], r_json = Not_Json\<rparr>, 1 / 10))"

definition plain_endpoint :: proxy_endpoint where
  "plain_endpoint = \<lparr>host = ''h'', host_version = 4, port = 80\<rparr>"

lemma answers_ok:
  "probe_proxy_targets (answers 200) plain_endpoint [plain_target ''t''] =
     Inr \<lparr>category = Success, latency_ms = Some (Finite 100), status_code = Some 200,
           error_type = None, error_message = None\<rparr>"
  by (simp add: probe_proxy_targets_def probe_once_def answers_def validate_response_def plain_target_def
      make_result_def valid_result_def valid_latency_def valid_status_def valid_text_def pf_max_def)

lemma round_needs_every_target_witness:
  "\<exists>p. probe_once (answers 200) (Some plain_endpoint) (plain_target ''t'') = Inr p \<and> category p = Success"
  using round_needs_every_target [OF answers_ok] by auto

text \<open>
  A proxy that answers the first target with a status outside 100..599 makes the round
  raise instead of failing: every branch of the response check puts the status into a
  \<open>ProbeResult\<close>, whose constraint rejects it.
\<close>

lemma hostile_status_raises:
  assumes "client (Some ep) target = (Responded r, seconds)" and "r_status r < 100 \<or> 599 < r_status r"
  shows "probe_proxy_targets client ep (target # targets) = Inl (ValueError ''ProbeResult'')"
  using assms by (simp add: probe_proxy_targets_def probe_once_def hostile_response_raises)

lemma hostile_status_raises_witness:
  "probe_proxy_targets (answers 999) plain_endpoint [plain_target ''t''] = Inl (ValueError ''ProbeResult'')"
  by (rule hostile_status_raises [where seconds = "1/10"]) (auto simp: answers_def)

text \<open>
  The credentials of a proxy or target URL never reach a stored message: in a message
  whose text before the URL contains no letter h, the user information before the \<open>@\<close> is
  replaced, the rest is redacted in the same way, and the message is cut to 256 characters.
\<close>

lemma credentials_are_redacted:
  assumes "set pre \<inter> {CHR ''h'', CHR ''H''} = {}"
    and "scheme_length (scheme @ secret @ CHR ''@'' # rest) = Some (length scheme)"
    and "secret \<noteq> []" and "\<forall>c \<in> set secret. secret_char c"
  shows "safe_message (pre @ scheme @ secret @ CHR ''@'' # rest) =
      take 256 (pre @ scheme @ ''***@'' @ redact rest) \<and>
    length (safe_message (pre @ scheme @ secret @ CHR ''@'' # rest)) \<le> 256"
  using redact_skip [OF assms(1)] redact_credential [OF assms(2) refl assms(3,4)]
  by (simp add: safe_message_def)

lemma credentials_are_redacted_witness:
  "safe_message (''at '' @ ''https://'' @ ''u:p'' @ CHR ''@'' # ''x'') = take 256 (''at '' @ ''https://'' @ ''***@'' @ redact ''x'')"
proof -
  have "scheme_length (''https://'' @ ''u:p'' @ CHR ''@'' # ''x'') = Some (length ''https://'')" by code_simp
  moreover have "\<forall>c \<in> set ''u:p''. secret_char c" by code_simp
  ultimately show ?thesis
    using credentials_are_redacted [of "''at ''" "''https://''" "''u:p''" "''x''"] by auto
qed

end
