(* ===== verification/Checker.thy ===== *)
theory Checker
  imports PoolProperties Breaker Probe
begin

text \<open>
  The checker worker (checker/worker.py): one round reclaims expired leases, asks the
  breakers of all targets, claims due proxies and settles every lease it got. A worker owns its state except the repository and the
  breakers, which are in Redis. The order in which the concurrent tasks finish is the order
  of the lease list, and the random draws are arguments. When a task raises, the task group
  cancels the tasks that are not finished, which release their leases, and the round raises.
\<close>

section \<open>The target table of the constructor\<close>

text \<open>The two mappings, as their items: the primary targets, then the further ones per domain.\<close>

fun primary_targets :: "(string \<times> test_target) list \<Rightarrow> (string \<rightharpoonup> test_target) \<Rightarrow> (string \<rightharpoonup> test_target) result" where
  "primary_targets [] T = Inr T"
| "primary_targets ((d, target) # items) T =
     (if t_domain target \<noteq> d then Inl (ValueError ''target domain must match mapping key'')
      else primary_targets items (T(d \<mapsto> target)))"

fun extra_targets ::
  "(string \<rightharpoonup> test_target) \<Rightarrow> (string \<times> test_target list) list \<Rightarrow> (string \<rightharpoonup> test_target list)
     \<Rightarrow> (string \<rightharpoonup> test_target list) result" where
  "extra_targets T [] V = Inr V"
| "extra_targets T ((d, targets) # items) V =
     (if T d = None then Inl (ValueError ''validation target domain has no primary target'')
      else if \<exists>t \<in> set targets. t_domain t \<noteq> d
      then Inl (ValueError ''validation target domain must match primary target'')
      else extra_targets T items (V(d \<mapsto> targets)))"

text \<open>\<open>all_targets\<close> of a round by domain; empty where \<open>run_once\<close> finds no target.\<close>

definition checker_targets ::
  "string \<Rightarrow> (string \<times> test_target) list \<Rightarrow> (string \<times> test_target list) list \<Rightarrow> (string \<Rightarrow> test_target list) result" where
  "checker_targets worker_id primary extra =
     (if worker_id = [] then Inl (ValueError ''worker_id must be non-empty'')
      else
        (case primary_targets primary Map.empty of
           Inl e \<Rightarrow> Inl e
         | Inr T \<Rightarrow>
             (case extra_targets T extra Map.empty of
                Inl e \<Rightarrow> Inl e
              | Inr V \<Rightarrow>
                  Inr (\<lambda>d. case T d of
                             None \<Rightarrow> []
                           | Some t \<Rightarrow> t # (case V d of None \<Rightarrow> [] | Some ts \<Rightarrow> ts)))))"

section \<open>State of a round\<close>

record worker_run =
  w_claimed :: nat
  w_completed :: nat
  w_released :: nat
  w_lost :: nat
  w_deleted :: nat

definition new_run :: worker_run where
  "new_run = \<lparr>w_claimed = 0, w_completed = 0, w_released = 0, w_lost = 0, w_deleted = 0\<rparr>"

record ('z, 'h, 'o, 's) round_state =
  rs_repo :: "('z, 'h, 'o, 's) repo"
  rs_run :: worker_run

text \<open>
  The settings of the worker and the outside world of one round: \<open>jitter\<close> draws the next
  check of a lease, \<open>delay\<close> the seconds after which a released lease is due again (a draw
  from 5 to 15, or 5 for a task interrupted outside its request).
\<close>

record checker_config =
  k_worker_id :: string
  k_batch_size :: int
  k_lease_seconds :: int
  k_drop_after :: int
  k_max_latency :: rat
  k_breaker :: breaker_config
  k_is_global :: "string \<Rightarrow> bool"
  k_networks :: "ip_network list"
  k_targets :: "string \<Rightarrow> test_target list"
  k_client :: client
  k_jitter :: "lease \<Rightarrow> int \<Rightarrow> int \<Rightarrow> int"
  k_delay :: "lease \<Rightarrow> int"

definition count_lease :: "(nat \<Rightarrow> worker_run \<Rightarrow> worker_run) \<Rightarrow> bool \<Rightarrow> worker_run \<Rightarrow> worker_run" where
  "count_lease bump ok run = (if ok then bump 1 run else run\<lparr>w_lost := w_lost run + 1\<rparr>)"

definition release_counted ::
  "('z, 'h, 'o, 's, 'p) svc \<Rightarrow> checker_config \<Rightarrow> time \<Rightarrow> lease \<Rightarrow> ('z, 'h, 'o, 's) round_state
     \<Rightarrow> ('z, 'h, 'o, 's) round_state result" where
  "release_counted E k now l s =
     (case release E l (now + of_int (k_delay k l)) (rs_repo s) of
        Inl e \<Rightarrow> Inl e
      | Inr (R, ok) \<Rightarrow>
          Inr \<lparr>rs_repo = R,
               rs_run = count_lease (\<lambda>n r. r\<lparr>w_released := w_released r + n\<rparr>) ok (rs_run s)\<rparr>)"

definition delete_counted ::
  "('z, 'h, 'o, 's, 'p) svc \<Rightarrow> lease \<Rightarrow> ('z, 'h, 'o, 's) round_state \<Rightarrow> ('z, 'h, 'o, 's) round_state result" where
  "delete_counted E l s =
     (case delete_leased E l (rs_repo s) of
        Inl e \<Rightarrow> Inl e
      | Inr (R, ok) \<Rightarrow>
          Inr \<lparr>rs_repo = R,
               rs_run = count_lease (\<lambda>n r. r\<lparr>w_deleted := w_deleted r + n\<rparr>) ok (rs_run s)\<rparr>)"

definition complete_counted ::
  "('z, 'h, 'o, 's, 'p) svc \<Rightarrow> checker_config \<Rightarrow> lease \<Rightarrow> proxy_record \<Rightarrow> ('z, 'h, 'o, 's) round_state
     \<Rightarrow> ('z, 'h, 'o, 's) round_state result" where
  "complete_counted E k l r s =
     (case complete E (k_max_latency k) l r (rs_repo s) of
        Inl e \<Rightarrow> Inl e
      | Inr (R, ok) \<Rightarrow>
          Inr \<lparr>rs_repo = R,
               rs_run = count_lease (\<lambda>n r. r\<lparr>w_completed := w_completed r + n\<rparr>) ok (rs_run s)\<rparr>)"

section \<open>One lease\<close>

definition settle_result ::
  "('z, 'h, 'o, 's, 'p) svc \<Rightarrow> checker_config \<Rightarrow> time \<Rightarrow> lease \<Rightarrow> proxy_record \<Rightarrow> probe_result
     \<Rightarrow> ('z, 'h, 'o, 's) round_state \<Rightarrow> ('z, 'h, 'o, 's) round_state result" where
  "settle_result E k now l record result s =
     (if category result = System_Error \<or> category result = Cancelled then release_counted E k now l s
      else
        let updated = apply_probe_result record result now
        in if consecutive_failures updated \<ge> k_drop_after k then delete_counted E l s
           else complete_counted E k l
                  (updated\<lparr>next_check_at := schedule_check updated now (k_jitter k l)\<rparr>) s)"

definition process_lease ::
  "('z, 'h, 'o, 's, 'p) svc \<Rightarrow> checker_config \<Rightarrow> test_target list \<Rightarrow> time \<Rightarrow> lease
     \<Rightarrow> ('z, 'h, 'o, 's) round_state \<Rightarrow> ('z, 'h, 'o, 's) round_state result" where
  "process_lease E k targets now l s =
     (case get_record E (rs_repo s) (lease_domain l) (lease_endpoint l) of
        Inl e \<Rightarrow> Inl e
      | Inr None \<Rightarrow> release_counted E k now l s
      | Inr (Some record) \<Rightarrow>
          (case validate_proxy_endpoint (k_is_global k) False (k_networks k) (endpoint record) of
             Inl _ \<Rightarrow> delete_counted E l s
           | Inr _ \<Rightarrow>
               (case probe_proxy_targets (k_client k) (endpoint record) targets of
                  Inl e \<Rightarrow> Inl e
                | Inr result \<Rightarrow> settle_result E k now l record result s)))"

section \<open>All leases of a round\<close>

text \<open>The tasks the group cancels: each releases its lease.\<close>

fun cancel_leases ::
  "('z, 'h, 'o, 's, 'p) svc \<Rightarrow> checker_config \<Rightarrow> time \<Rightarrow> lease list \<Rightarrow> ('z, 'h, 'o, 's) round_state
     \<Rightarrow> ('z, 'h, 'o, 's) round_state" where
  "cancel_leases E k now [] s = s"
| "cancel_leases E k now (l # ls) s =
     cancel_leases E k now ls (case release_counted E k now l s of Inl _ \<Rightarrow> s | Inr s' \<Rightarrow> s')"

fun process_leases ::
  "('z, 'h, 'o, 's, 'p) svc \<Rightarrow> checker_config \<Rightarrow> test_target list \<Rightarrow> time \<Rightarrow> lease list
     \<Rightarrow> ('z, 'h, 'o, 's) round_state \<Rightarrow> ('z, 'h, 'o, 's) round_state \<times> exn option" where
  "process_leases E k targets now [] s = (s, None)"
| "process_leases E k targets now (l # ls) s =
     (case process_lease E k targets now l s of
        Inl e \<Rightarrow> (cancel_leases E k now ls s, Some e)
      | Inr s' \<Rightarrow> process_leases E k targets now ls s')"

section \<open>The baselines and the round\<close>

text \<open>\<open>Inr (B, go)\<close>: \<open>go\<close> is false when the round returns before it claims anything.\<close>

fun check_baselines ::
  "checker_config \<Rightarrow> time \<Rightarrow> test_target list \<Rightarrow> breakers \<Rightarrow> (breakers \<times> bool) result" where
  "check_baselines k now [] B = Inr (B, True)"
| "check_baselines k now (target # targets) B =
     (case before_probe (k_breaker k) (t_name target) (k_worker_id k) now B of
        Inl e \<Rightarrow> Inl e
      | Inr (B1, allowed, _) \<Rightarrow>
          if \<not> allowed then Inr (B1, False)
          else
            (case probe_target_baseline (k_client k) target of
               Inl e \<Rightarrow> Inl e
             | Inr baseline \<Rightarrow>
                 if category baseline = Success then
                   (case record_success (t_name target) B1 of
                      Inl e \<Rightarrow> Inl e
                    | Inr B2 \<Rightarrow> check_baselines k now targets B2)
                 else if category baseline \<noteq> Cancelled then
                   (case record_failure (k_breaker k) (t_name target) now B1 of
                      Inl e \<Rightarrow> Inl e
                    | Inr B2 \<Rightarrow> Inr (B2, False))
                 else Inr (B1, False)))"

text \<open>
  \<open>run_once\<close>: \<open>uuid\<close> is drawn by the claim and \<open>order\<close> is the order in which the tasks
  finish. The error of a lease is returned with the state the round leaves behind.
\<close>

definition run_once ::
  "('z, 'h, 'o, 's, 'p) svc \<Rightarrow> checker_config \<Rightarrow> string \<Rightarrow> time \<Rightarrow> string \<Rightarrow> (lease list \<Rightarrow> lease list)
     \<Rightarrow> ('z, 'h, 'o, 's) repo \<Rightarrow> breakers
     \<Rightarrow> (('z, 'h, 'o, 's) round_state \<times> breakers \<times> exn option) result" where
  "run_once E k d now uuid order R B =
     (if k_targets k d = [] then Inl (ValueError ''no checker target configured'')
      else
        (case reclaim_expired E d now 1000 R of
           Inl e \<Rightarrow> Inl e
         | Inr (R1, _) \<Rightarrow>
             (case check_baselines k now (k_targets k d) B of
                Inl e \<Rightarrow> Inl e
              | Inr (B1, go) \<Rightarrow>
                  if \<not> go then Inr (\<lparr>rs_repo = R1, rs_run = new_run\<rparr>, B1, None)
                  else
                    (case claim_due E d (k_worker_id k) uuid (k_batch_size k) (k_lease_seconds k) now R1 of
                       Inl e \<Rightarrow> Inl e
                     | Inr (R2, leases) \<Rightarrow>
                         (case process_leases E k (k_targets k d) now (order leases)
                                 \<lparr>rs_repo = R2, rs_run = new_run\<lparr>w_claimed := length leases\<rparr>\<rparr> of
                            (s, e) \<Rightarrow> Inr (s, B1, e))))))"

lemmas counted_defs = release_counted_def delete_counted_def complete_counted_def count_lease_def

section \<open>What settling one lease does\<close>

text \<open>The worker holds the lease in the repository.\<close>

definition holds :: "('z, 'h, 'o, 's, 'p) svc \<Rightarrow> ('z, 'h, 'o, 's) repo \<Rightarrow> lease \<Rightarrow> bool" where
  "holds E R l \<longleftrightarrow>
     owner_of E (pools R (lease_domain l)) (lease_endpoint l) = Some (lease_owner l)"

definition settled :: "worker_run \<Rightarrow> nat" where
  "settled r = w_completed r + w_released r + w_deleted r"

text \<open>The repository after a lease is settled: its owner is gone, the other endpoints are as before.\<close>

definition settles ::
  "('z, 'h, 'o, 's, 'p) svc \<Rightarrow> lease \<Rightarrow> ('z, 'h, 'o, 's) repo \<Rightarrow> ('z, 'h, 'o, 's) repo \<Rightarrow> bool" where
  "settles E l R R' \<longleftrightarrow>
     owner_of E (pools R' (lease_domain l)) (lease_endpoint l) = None \<and>
     (\<forall>d m. (d, m) \<noteq> (lease_domain l, lease_endpoint l) \<longrightarrow>
        owner_of E (pools R' d) m = owner_of E (pools R d) m \<and>
        get_record E R' d m = get_record E R d m)"

definition settles_run ::
  "('z, 'h, 'o, 's, 'p) svc \<Rightarrow> lease \<Rightarrow> ('z, 'h, 'o, 's) round_state \<Rightarrow> ('z, 'h, 'o, 's) round_state \<Rightarrow> bool" where
  "settles_run E l s s' \<longleftrightarrow>
     settles E l (rs_repo s) (rs_repo s') \<and> settled (rs_run s') = settled (rs_run s) + 1 \<and>
     w_lost (rs_run s') = w_lost (rs_run s) \<and> w_claimed (rs_run s') = w_claimed (rs_run s)"

lemma get_record_frame:
  "(records (pools R' d) = records (pools R d) \<or>
    h_get (rh E) (records (pools R' d)) m = h_get (rh E) (records (pools R d)) m) \<Longrightarrow>
     get_record E R' d m = get_record E R d m"
  by (auto simp: get_record_def get_record_pool_def pool_for_def)

context pool_svc
begin

lemma settles_on_pool:
  assumes "owner_of E p' (lease_endpoint l) = None"
    and "\<And>m. m \<noteq> lease_endpoint l \<Longrightarrow> owner_of E p' m = owner_of E (pools R (lease_domain l)) m"
    and "\<And>m. m \<noteq> lease_endpoint l \<Longrightarrow>
           h_get (rh E) (records p') m = h_get (rh E) (records (pools R (lease_domain l))) m"
  shows "settles E l R (on_pool (lease_domain l) (\<lambda>_. p') R)"
proof -
  have "get_record E (on_pool (lease_domain l) (\<lambda>_. p') R) d m = get_record E R d m"
    if "(d, m) \<noteq> (lease_domain l, lease_endpoint l)" for d m
    using that assms(3) by (intro get_record_frame) (auto simp: on_pool_def)
  with assms(1,2) show ?thesis by (auto simp: settles_def on_pool_def)
qed

lemma release_counted_settles:
  assumes "release_counted E k now l s = Inr s'" and "holds E (rs_repo s) l"
  shows "settles_run E l s s'"
proof -
  from assms obtain p' where p': "release_lease E (lease_endpoint l) (lease_owner l) (now + of_int (k_delay k l))
      (pools (rs_repo s) (lease_domain l)) = (p', True)"
    and s': "rs_repo s' = on_pool (lease_domain l) (\<lambda>_. p') (rs_repo s)"
      "rs_run s' = (rs_run s)\<lparr>w_released := w_released (rs_run s) + 1\<rparr>"
    by (auto simp: release_counted_def count_lease_def release_def pool_for_def release_lease_def holds_def
        split: if_splits)
  from p' have "settles E l (rs_repo s) (rs_repo s')"
    unfolding s' by (intro settles_on_pool) (auto simp: release_lease_def split: if_splits)
  with s'(2) show ?thesis by (simp add: settles_run_def settled_def)
qed

lemma delete_counted_settles:
  assumes "delete_counted E l s = Inr s'" and "holds E (rs_repo s) l"
  shows "settles_run E l s s'"
proof -
  from assms obtain p' where p': "delete_lease E (lease_endpoint l) (lease_owner l)
      (pools (rs_repo s) (lease_domain l)) = (p', True)"
    and s': "rs_repo s' = on_pool (lease_domain l) (\<lambda>_. p') (rs_repo s)"
      "rs_run s' = (rs_run s)\<lparr>w_deleted := w_deleted (rs_run s) + 1\<rparr>"
    by (auto simp: delete_counted_def count_lease_def delete_leased_def pool_for_def delete_lease_def holds_def
        split: if_splits)
  from p' have "settles E l (rs_repo s) (rs_repo s')"
    unfolding s' by (intro settles_on_pool) (auto simp: delete_lease_def split: if_splits)
  with s'(2) show ?thesis by (simp add: settles_run_def settled_def)
qed

lemma complete_counted_settles:
  assumes "complete_counted E k l r s = Inr s'" and "holds E (rs_repo s) l"
  shows "settles_run E l s s'"
proof -
  from assms obtain p' where p': "complete_lease E (lease_endpoint l) (lease_owner l) (encode_record E r)
      (of_int (score r)) (next_check_at r) (latency_index_score r) (priority_due_score r (k_max_latency k))
      (pools (rs_repo s) (lease_domain l)) = (p', True)"
    and s': "rs_repo s' = on_pool (lease_domain l) (\<lambda>_. p') (rs_repo s)"
      "rs_run s' = (rs_run s)\<lparr>w_completed := w_completed (rs_run s) + 1\<rparr>"
    by (auto simp: complete_counted_def count_lease_def complete_def pool_for_def complete_lease_def holds_def
        split: if_splits)
  from p' have "settles E l (rs_repo s) (rs_repo s')"
    unfolding s' by (intro settles_on_pool) (auto simp: complete_lease_def split: if_splits)
  with s'(2) show ?thesis by (simp add: settles_run_def settled_def)
qed

lemma process_lease_settles:
  assumes "process_lease E k ts now l s = Inr s'" and "holds E (rs_repo s) l"
  shows "settles_run E l s s'"
  using assms release_counted_settles delete_counted_settles complete_counted_settles
  by (auto simp: process_lease_def settle_result_def Let_def split: sum.splits option.splits if_splits)

lemma holds_other:
  assumes "settles E l R R'" and "holds E R l'" and "lease_domain l' = lease_domain l"
    and "lease_endpoint l' \<noteq> lease_endpoint l"
  shows "holds E R' l'"
  using assms by (simp add: settles_def holds_def)

lemma release_counted_total:
  "lease_domain l \<noteq> [] \<Longrightarrow> \<exists>s'. release_counted E k now l s = Inr s'"
  by (auto simp: release_counted_def release_def pool_for_def split: prod.splits)

lemma owner_after_settles:
  "settles_run E l s s' \<Longrightarrow> owner_of E (pools (rs_repo s') (lease_domain l)) m =
     (if m = lease_endpoint l then None else owner_of E (pools (rs_repo s) (lease_domain l)) m)"
  by (auto simp: settles_run_def settles_def)

lemma holds_rest:
  assumes "settles_run E l s s1" and "distinct (map lease_endpoint (l # ls))"
    and "\<forall>l' \<in> set (l # ls). lease_domain l' = d \<and> holds E (rs_repo s) l'"
  shows "\<forall>l' \<in> set ls. lease_domain l' = d \<and> holds E (rs_repo s1) l'"
proof
  fix l' assume l': "l' \<in> set ls"
  then have "lease_endpoint l' \<in> set (map lease_endpoint ls)" by simp
  with assms(2) have "lease_endpoint l' \<noteq> lease_endpoint l" by (metis distinct.simps(2) list.simps(9))
  with assms l' show "lease_domain l' = d \<and> holds E (rs_repo s1) l'"
    using holds_other [of l "rs_repo s" "rs_repo s1" l'] by (simp add: settles_run_def)
qed

lemma process_leases_settles:
  assumes "process_leases E k ts now ls s = (s', None)"
    and "distinct (map lease_endpoint ls)" and "\<forall>l \<in> set ls. lease_domain l = d \<and> holds E (rs_repo s) l"
  shows "settled (rs_run s') = settled (rs_run s) + length ls \<and> w_lost (rs_run s') = w_lost (rs_run s) \<and>
    w_claimed (rs_run s') = w_claimed (rs_run s) \<and>
    (\<forall>m. owner_of E (pools (rs_repo s') d) m =
       (if m \<in> set (map lease_endpoint ls) then None else owner_of E (pools (rs_repo s) d) m)) \<and>
    (\<forall>l \<in> set ls. \<exists>s0 s1. get_record E (rs_repo s0) d (lease_endpoint l) = get_record E (rs_repo s) d (lease_endpoint l) \<and>
       process_lease E k ts now l s0 = Inr s1)"
  using assms
proof (induction ls arbitrary: s)
  case (Cons l ls)
  from Cons.prems(1) obtain s1 where p: "process_lease E k ts now l s = Inr s1"
    and rest: "process_leases E k ts now ls s1 = (s', None)"
    by (auto split: sum.splits)
  from Cons.prems(3) have l: "lease_domain l = d" "holds E (rs_repo s) l" by auto
  have st: "settles_run E l s s1" by (rule process_lease_settles [OF p l(2)])
  note h = holds_rest [OF st Cons.prems(2,3)]
  from Cons.prems(2) have d: "distinct (map lease_endpoint ls)" "lease_endpoint l \<notin> set (map lease_endpoint ls)" by auto
  note ih = Cons.IH [OF rest d(1) h]
  note keep = owner_after_settles [OF st, unfolded l(1)]
  have rec: "get_record E (rs_repo s1) d m = get_record E (rs_repo s) d m" if "m \<noteq> lease_endpoint l" for m
    using st l(1) that by (auto simp: settles_run_def settles_def)
  have all: "\<exists>s0 s1. get_record E (rs_repo s0) d (lease_endpoint l') = get_record E (rs_repo s) d (lease_endpoint l') \<and>
       process_lease E k ts now l' s0 = Inr s1" if "l' \<in> set (l # ls)" for l'
  proof (cases "l' = l")
    case True
    with p show ?thesis by blast
  next
    case False
    with that have "l' \<in> set ls" by simp
    moreover from this have "lease_endpoint l' \<in> set (map lease_endpoint ls)" by simp
    with d(2) have "lease_endpoint l' \<noteq> lease_endpoint l" by metis
    ultimately show ?thesis using ih rec by metis
  qed
  from ih keep d(2) st all show ?case by (auto simp: settles_run_def)
qed simp

lemma cancel_leases_releases:
  assumes "d \<noteq> []" and "distinct (map lease_endpoint ls)"
    and "\<forall>l \<in> set ls. lease_domain l = d \<and> holds E (rs_repo s) l"
  shows "owner_of E (pools (rs_repo (cancel_leases E k now ls s)) d) m =
     (if m \<in> set (map lease_endpoint ls) then None else owner_of E (pools (rs_repo s) d) m)"
  using assms(2,3)
proof (induction ls arbitrary: s)
  case (Cons l ls)
  then have l: "lease_domain l = d" "holds E (rs_repo s) l" by auto
  with assms(1) obtain s1 where rel: "release_counted E k now l s = Inr s1"
    using release_counted_total [of l k now s] by blast
  have st: "settles_run E l s s1" by (rule release_counted_settles [OF rel l(2)])
  have "distinct (map lease_endpoint ls)" using Cons.prems(1) by simp
  from Cons.IH [OF this holds_rest [OF st Cons.prems]] owner_after_settles [OF st] l(1) rel
  show ?case by simp
qed simp

lemma process_leases_raises:
  assumes "d \<noteq> []" and "process_leases E k ts now ls s = (s', Some e)"
    and "distinct (map lease_endpoint ls)" and "\<forall>l \<in> set ls. lease_domain l = d \<and> holds E (rs_repo s) l"
  shows "\<exists>l \<in> set ls. holds E (rs_repo s') l \<and>
     (\<exists>s0. process_lease E k ts now l s0 = Inl e) \<and>
     (\<forall>m. owner_of E (pools (rs_repo s') d) m =
        (if m \<in> set (map lease_endpoint ls) \<and> m \<noteq> lease_endpoint l then None
         else owner_of E (pools (rs_repo s) d) m))"
  using assms(2-4)
proof (induction ls arbitrary: s)
  case (Cons l ls)
  from Cons.prems(3) have l: "lease_domain l = d" "holds E (rs_repo s) l" by auto
  from Cons.prems(2) have dl: "distinct (map lease_endpoint ls)" "lease_endpoint l \<notin> set (map lease_endpoint ls)" by auto
  show ?case
  proof (cases "process_lease E k ts now l s")
    case (Inl e')
    with Cons.prems(1) have s': "s' = cancel_leases E k now ls s" "e' = e" by auto
    have "owner_of E (pools (rs_repo s') d) m =
        (if m \<in> set (map lease_endpoint ls) then None else owner_of E (pools (rs_repo s) d) m)" for m
      unfolding s'(1) using Cons.prems(3) by (intro cancel_leases_releases [OF assms(1) dl(1)]) simp
    with Inl s'(2) l dl(2) show ?thesis
      by (intro bexI [of _ l] conjI exI [of _ s]) (auto simp: holds_def)
  next
    case (Inr s1)
    have st: "settles_run E l s s1" by (rule process_lease_settles [OF Inr l(2)])
    from Inr Cons.prems(1) have "process_leases E k ts now ls s1 = (s', Some e)" by simp
    from Cons.IH [OF this dl(1) holds_rest [OF st Cons.prems(2,3)]] obtain l' where
      l': "l' \<in> set ls" "holds E (rs_repo s') l'" "\<exists>s0. process_lease E k ts now l' s0 = Inl e"
      and own: "\<And>m. owner_of E (pools (rs_repo s') d) m =
        (if m \<in> set (map lease_endpoint ls) \<and> m \<noteq> lease_endpoint l' then None
         else owner_of E (pools (rs_repo s1) d) m)" by blast
    from l'(1) have "lease_endpoint l' \<in> set (map lease_endpoint ls)" by simp
    with dl(2) have "lease_endpoint l' \<noteq> lease_endpoint l" by metis
    with l' own owner_after_settles [OF st] l(1) show ?thesis
      by (intro bexI [of _ l'] conjI) auto
  qed
qed simp
end

section \<open>Properties\<close>

definition round_owner :: "checker_config \<Rightarrow> string \<Rightarrow> string" where
  "round_owner k uuid = k_worker_id k @ '':'' @ uuid"

lemma claim_due_owner:
  "claim_due E d worker uuid limit secs now R = Inr (R', ls) \<Longrightarrow> \<forall>l \<in> set ls. lease_owner l = worker @ '':'' @ uuid"
  by (auto simp: claim_due_def pool_for_def Let_def split: if_splits prod.splits)

text \<open>What a round has in hand when it starts on its leases, or that it stopped before.\<close>

lemma round_cases:
  assumes "pool_svc E" and "run_once E k d now uuid order R B = Inr (s, B', e)"
    and "\<And>ls. mset (order ls) = mset ls"
    and "\<And>m. owner_of E (pools R d) m \<noteq> Some (round_owner k uuid)"
  obtains (stop) R1 where "s = \<lparr>rs_repo = R1, rs_run = new_run\<rparr>" "e = None"
      "\<And>m. owner_of E (pools R1 d) m \<noteq> Some (round_owner k uuid)"
    | (go) R2 ls where "d \<noteq> []"
      "process_leases E k (k_targets k d) now ls \<lparr>rs_repo = R2, rs_run = new_run\<lparr>w_claimed := length ls\<rparr>\<rparr> = (s, e)"
      "distinct (map lease_endpoint ls)" "\<forall>l \<in> set ls. lease_domain l = d \<and> holds E R2 l"
      "\<And>m. m \<in> set (map lease_endpoint ls) \<longleftrightarrow> owner_of E (pools R2 d) m = Some (round_owner k uuid)"
proof -
  from assms(2) obtain R1 ms where rec: "reclaim_expired E d now 1000 R = Inr (R1, ms)"
    by (auto simp: run_once_def split: if_splits sum.splits)
  then have R1: "owner_of E (pools R1 d) m \<noteq> Some (round_owner k uuid)" for m
    using pool_svc.reclaim_run_effect(6) [OF assms(1)] assms(4) [of m]
    by (auto simp: reclaim_expired_def pool_for_def on_pool_def split: if_splits prod.splits)
  from assms(2) rec consider (A) "s = \<lparr>rs_repo = R1, rs_run = new_run\<rparr>" "e = None"
    | (B) R2 ls where "claim_due E d (k_worker_id k) uuid (k_batch_size k) (k_lease_seconds k) now R1 = Inr (R2, ls)"
      "process_leases E k (k_targets k d) now (order ls)
         \<lparr>rs_repo = R2, rs_run = new_run\<lparr>w_claimed := length ls\<rparr>\<rparr> = (s, e)"
    by (auto simp: run_once_def split: if_splits sum.splits prod.splits)
  then show ?thesis
  proof cases
    case A
    then show ?thesis using stop R1 by blast
  next
    case B
    have ok: "d \<noteq> []" "1 \<le> k_batch_size k" "k_batch_size k \<le> 1000" "k_worker_id k \<noteq> []" "0 < k_lease_seconds k"
      using B(1) by (auto simp: claim_due_def pool_for_def split: if_splits)
    from claim_due_facts [OF assms(1) ok, of uuid now R1] B(1) have
      ls: "\<forall>l \<in> set ls. lease_domain l = d \<and> holds E R2 l" "distinct (map lease_endpoint ls)"
        "\<forall>l \<in> set ls. lease_owner l = round_owner k uuid"
      and rest: "\<And>m. m \<notin> set (map lease_endpoint ls) \<Longrightarrow> owner_of E (pools R2 d) m = owner_of E (pools R1 d) m"
      using claim_due_owner [OF B(1)] by (auto simp: holds_def round_owner_def)
    have perm: "set (order ls) = set ls" "distinct (map lease_endpoint (order ls))" "length (order ls) = length ls"
      using assms(3) [of ls] ls(2) mset_eq_setD mset_eq_length
      by (blast, metis distinct_submultiset mset_map subset_mset.order_refl, blast)
    have "m \<in> set (map lease_endpoint (order ls)) \<longleftrightarrow> owner_of E (pools R2 d) m = Some (round_owner k uuid)" for m
    proof
      assume "m \<in> set (map lease_endpoint (order ls))"
      then show "owner_of E (pools R2 d) m = Some (round_owner k uuid)" using perm(1) ls by (auto simp: holds_def)
    next
      assume "owner_of E (pools R2 d) m = Some (round_owner k uuid)"
      then show "m \<in> set (map lease_endpoint (order ls))" using rest R1 perm(1) by (metis set_map)
    qed
    with ls(1) perm B(2) ok(1) show ?thesis by (intro go [of "order ls" R2]) auto
  qed
qed

text \<open>
  C10: a round that nothing interferes with settles everything it claimed. Whatever order the
  tasks finish in, when no task raises, each claimed lease is exactly once completed,
  released or deleted, none is lost, and afterwards no endpoint of the domain is owned under
  the round's owner text.
\<close>

theorem round_settles_every_lease:
  assumes "pool_svc E" and "run_once E k d now uuid order R B = Inr (s, B', None)"
    and "\<And>ls. mset (order ls) = mset ls"
    and "\<And>m. owner_of E (pools R d) m \<noteq> Some (round_owner k uuid)"
  shows "w_claimed (rs_run s) = settled (rs_run s) \<and> w_lost (rs_run s) = 0 \<and>
     (\<forall>m. owner_of E (pools (rs_repo s) d) m \<noteq> Some (round_owner k uuid))"
proof (cases rule: round_cases [OF assms])
  case (1 R1)
  then show ?thesis by (simp add: new_run_def settled_def)
next
  case (2 R2 ls)
  from pool_svc.process_leases_settles [OF assms(1) 2(2,3), of d] 2(4)
  have "settled (rs_run s) = settled (new_run\<lparr>w_claimed := length ls\<rparr>) + length ls"
    "w_lost (rs_run s) = 0" "w_claimed (rs_run s) = length ls"
    "\<forall>m. owner_of E (pools (rs_repo s) d) m =
       (if m \<in> set (map lease_endpoint ls) then None else owner_of E (pools R2 d) m)"
    by (auto simp: new_run_def)
  then show ?thesis using 2(5) by (auto simp: new_run_def settled_def)
qed

text \<open>
  A round in which one proxy makes a task raise ends with that error and exactly one
  stranded lease: the lease of the raising task stays owned in Redis (until it expires and is
  reclaimed), while every other claimed endpoint was settled or released by the cancellation.
\<close>

lemma raising_task_strands_its_lease:
  assumes "pool_svc E" and "run_once E k d now uuid order R B = Inr (s, B', Some e)"
    and "\<And>ls. mset (order ls) = mset ls"
    and "\<And>m. owner_of E (pools R d) m \<noteq> Some (round_owner k uuid)"
  shows "\<exists>m l s0. lease_endpoint l = m \<and> process_lease E k (k_targets k d) now l s0 = Inl e \<and>
     (\<forall>m'. owner_of E (pools (rs_repo s) d) m' = Some (round_owner k uuid) \<longleftrightarrow> m' = m)"
proof (cases rule: round_cases [OF assms])
  case (2 R2 ls)
  have "\<exists>l \<in> set ls. (\<exists>s0. process_lease E k (k_targets k d) now l s0 = Inl e) \<and>
    (\<forall>m. owner_of E (pools (rs_repo s) d) m =
      (if m \<in> set (map lease_endpoint ls) \<and> m \<noteq> lease_endpoint l then None else owner_of E (pools R2 d) m))"
    using pool_svc.process_leases_raises [OF assms(1) 2(1,2,3)] 2(4) by auto
  then obtain l where l: "l \<in> set ls" "\<exists>s0. process_lease E k (k_targets k d) now l s0 = Inl e"
    and own: "\<And>m. owner_of E (pools (rs_repo s) d) m =
      (if m \<in> set (map lease_endpoint ls) \<and> m \<noteq> lease_endpoint l then None else owner_of E (pools R2 d) m)"
    by blast
  from l(1) have "lease_endpoint l \<in> set (map lease_endpoint ls)" by simp
  then have "owner_of E (pools (rs_repo s) d) m' = Some (round_owner k uuid) \<longleftrightarrow> m' = lease_endpoint l" for m'
    using own [of m'] 2(5) [of m'] by (metis option.distinct(1))
  with l(2) show ?thesis by blast
qed simp

definition sample_checker :: "int \<Rightarrow> checker_config" where
  "sample_checker st =
     \<lparr>k_worker_id = ''w'', k_batch_size = 1, k_lease_seconds = 60, k_drop_after = 5, k_max_latency = 1000,
      k_breaker = \<lparr>cfg_failures = 3, cfg_cooldown = 60\<rparr>, k_is_global = (\<lambda>_. True), k_networks = [],
      k_targets = (\<lambda>_. [plain_target ''t'']),
      k_client = (\<lambda>ep t. if ep = None then answers 200 ep t else answers st ep t),
      k_jitter = (\<lambda>_ a b. a), k_delay = (\<lambda>_. 5)\<rparr>"

lemma sample_checker_simps:
  "k_worker_id (sample_checker st) = ''w''" "k_batch_size (sample_checker st) = 1"
  "k_lease_seconds (sample_checker st) = 60" "k_targets (sample_checker st) = (\<lambda>_. [plain_target ''t''])"
  "k_breaker (sample_checker st) = \<lparr>cfg_failures = 3, cfg_cooldown = 60\<rparr>"
  "k_client (sample_checker st) = (\<lambda>ep t. if ep = None then answers 200 ep t else answers st ep t)"
  "k_is_global (sample_checker st) h" "k_networks (sample_checker st) = []"
  "k_drop_after (sample_checker st) = 5" "k_max_latency (sample_checker st) = 1000"
  by (simp_all add: sample_checker_def)

lemma sample_reclaim: "reclaim_expired ref_svc ''d'' 10 1000 over_capacity = Inr (over_capacity, [])"
  by (simp add: reclaim_expired_def pool_for_def reclaim_expired_script_def over_capacity_def pool_eval on_pool_def fun_upd_idem)

lemma sample_baseline:
  "probe_target_baseline (k_client (sample_checker st)) (plain_target ''t'') =
     Inr \<lparr>category = Success, latency_ms = Some (Finite 100), status_code = Some 200, error_type = None, error_message = None\<rparr>"
  by (simp add: sample_checker_simps probe_target_baseline_def probe_once_def answers_def
    validate_response_def plain_target_def make_result_def valid_result_def valid_latency_def valid_status_def valid_text_def)

lemma plain_name: "t_name (plain_target n) = n" by (simp add: plain_target_def)

lemmas sample_config_simps = sample_checker_simps(1-5,7-10)
lemma sample_baselines:
  "\<exists>B. check_baselines (sample_checker st) 10 [plain_target ''t''] (\<lambda>_. no_breaker) = Inr (B, True)"
  by (simp add: before_probe_def sample_baseline sample_config_simps before_probe_script_def no_breaker_def plain_name
      current_state_def record_success_def)

definition round_lease :: lease where
  "round_lease = \<lparr>lease_domain = ''d'', lease_endpoint = ''a:80'', lease_owner = ''w:u'', expires_at = 70\<rparr>"


lemma sample_claim: "\<exists>R2. claim_due ref_svc ''d'' ''w'' ''u'' 1 60 10 over_capacity = Inr (R2, [round_lease]) \<and>
  get_record ref_svc R2 ''d'' ''a:80'' = Inr (Some (sample ''a'' Available 85 100 5)) "
  by (simp add: claim_due_def pool_for_def over_capacity_def pool_eval priority_limit_of_def round_lease_def get_record_def get_record_pool_def on_pool_def sample_valid)

lemma sample_probe:
  "probe_proxy_targets (k_client (sample_checker 200)) ep [plain_target ''t''] =
     Inr \<lparr>category = Success, latency_ms = Some (Finite 100), status_code = Some 200,
           error_type = None, error_message = None\<rparr>"
  by (simp add: sample_checker_simps probe_proxy_targets_def probe_once_def answers_def validate_response_def plain_target_def
      make_result_def valid_result_def valid_latency_def valid_status_def valid_text_def pf_max_def)

lemma complete_counted_total:
  "lease_domain l \<noteq> [] \<Longrightarrow> rec_domain r = lease_domain l \<Longrightarrow> canonical (endpoint r) = lease_endpoint l \<Longrightarrow> \<exists>s'. complete_counted E k l r s = Inr s'"
  by (auto simp: complete_counted_def complete_def pool_for_def split: prod.splits)

lemma apply_success_facts:
  "category p = Success \<Longrightarrow> consecutive_failures (apply_probe_result r p now) = 0 \<and>
     endpoint (apply_probe_result r p now) = endpoint r \<and> rec_domain (apply_probe_result r p now) = rec_domain r"
  by (simp add: apply_probe_result_def apply_success_def Let_def)

lemma sample_process:
  assumes "get_record ref_svc (rs_repo s) ''d'' ''a:80'' = Inr (Some (sample ''a'' Available 85 100 5))"
  shows "\<exists>s'. process_lease ref_svc (sample_checker 200) [plain_target ''t''] 10 round_lease s = Inr s'"
proof -
  have "canonical (endpoint (sample ''a'' Available 85 100 5)) = ''a:80''" "rec_domain (sample ''a'' Available 85 100 5) = ''d''"
    by (simp_all add: sample_simps)
  then show ?thesis using assms sample_probe
    by (simp add: process_lease_def settle_result_def sample_config_simps validate_proxy_endpoint_def Let_def
      round_lease_def complete_counted_total apply_success_facts)
qed

lemma sample_round: "\<exists>s B. run_once ref_svc (sample_checker 200) ''d'' 10 ''u'' rev over_capacity (\<lambda>_. no_breaker) = Inr (s, B, None)"
proof -
  obtain R2 where c: "claim_due ref_svc ''d'' ''w'' ''u'' 1 60 10 over_capacity = Inr (R2, [round_lease])"
    "get_record ref_svc R2 ''d'' ''a:80'' = Inr (Some (sample ''a'' Available 85 100 5))" using sample_claim by blast
  obtain B where b: "check_baselines (sample_checker 200) 10 [plain_target ''t''] (\<lambda>_. no_breaker) = Inr (B, True)"
    using sample_baselines by blast
  obtain s' where "process_lease ref_svc (sample_checker 200) [plain_target ''t''] 10 round_lease
     \<lparr>rs_repo = R2, rs_run = new_run\<lparr>w_claimed := 1\<rparr>\<rparr> = Inr s'"
    using sample_process [of "\<lparr>rs_repo = R2, rs_run = new_run\<lparr>w_claimed := 1\<rparr>\<rparr>"] c(2) by auto
  with c(1) b show ?thesis
    by (simp add: run_once_def sample_config_simps sample_reclaim)
qed

theorem round_settles_every_lease_witness:
  "\<exists>s B. run_once ref_svc (sample_checker 200) ''d'' 10 ''u'' rev over_capacity (\<lambda>_. no_breaker) = Inr (s, B, None) \<and>
     w_claimed (rs_run s) = settled (rs_run s) \<and> w_lost (rs_run s) = 0"
proof -
  obtain s B where run: "run_once ref_svc (sample_checker 200) ''d'' 10 ''u'' rev over_capacity (\<lambda>_. no_breaker) = Inr (s, B, None)"
    using sample_round by blast
  have "owner_of ref_svc (pools over_capacity ''d'') m \<noteq> Some (round_owner (sample_checker 200) ''u'')" for m
    by (simp add: over_capacity_def pool_eval)
  with round_settles_every_lease [OF ref_svc_pool run] run show ?thesis by auto
qed

lemma sample_round_raises:
  "\<exists>s B e. run_once ref_svc (sample_checker 999) ''d'' 10 ''u'' rev over_capacity (\<lambda>_. no_breaker) = Inr (s, B, Some e)"
proof -
  obtain R2 where c: "claim_due ref_svc ''d'' ''w'' ''u'' 1 60 10 over_capacity = Inr (R2, [round_lease])"
    "get_record ref_svc R2 ''d'' ''a:80'' = Inr (Some (sample ''a'' Available 85 100 5))" using sample_claim by blast
  obtain B where b: "check_baselines (sample_checker 999) 10 [plain_target ''t''] (\<lambda>_. no_breaker) = Inr (B, True)"
    using sample_baselines by blast
  have "probe_proxy_targets (k_client (sample_checker 999)) ep [plain_target ''t''] = Inl (ValueError ''ProbeResult'')" for ep
    by (simp add: sample_checker_simps probe_proxy_targets_def probe_once_def answers_def hostile_response_raises)
  with c(2) have "process_lease ref_svc (sample_checker 999) [plain_target ''t''] 10 round_lease
     \<lparr>rs_repo = R2, rs_run = new_run\<lparr>w_claimed := 1\<rparr>\<rparr> = Inl (ValueError ''ProbeResult'')"
    by (simp add: process_lease_def sample_config_simps validate_proxy_endpoint_def round_lease_def)
  with c(1) b show ?thesis
    by (simp add: run_once_def sample_config_simps sample_reclaim)
qed

lemma raising_task_strands_its_lease_witness:
  "\<exists>s B e m. run_once ref_svc (sample_checker 999) ''d'' 10 ''u'' rev over_capacity (\<lambda>_. no_breaker) = Inr (s, B, Some e) \<and>
     owner_of ref_svc (pools (rs_repo s) ''d'') m = Some ''w:u''"
proof -
  obtain s B e where run: "run_once ref_svc (sample_checker 999) ''d'' 10 ''u'' rev over_capacity (\<lambda>_. no_breaker) = Inr (s, B, Some e)"
    using sample_round_raises by blast
  have "owner_of ref_svc (pools over_capacity ''d'') m \<noteq> Some (round_owner (sample_checker 999) ''u'')" for m
    by (simp add: over_capacity_def pool_eval)
  from raising_task_strands_its_lease [OF ref_svc_pool run _ this] run show ?thesis
    by (auto simp: round_owner_def sample_config_simps)
qed

end
