(* ===== verification/Quota.thy ===== *)
theory Quota
  imports Redis
begin

text \<open>
  The global quota of reclaim attempts (reclaim_quota/lua.py, store.py, models.py and its
  route): at most five grants in a sliding window of 60 seconds per domain, with a memory of
  the attempts already granted. Times are milliseconds of the Redis clock. The window key
  and the attempt keys expire, and a restart of Redis may lose them, which is why the script
  refuses to decide before a minimum uptime. The lemmas show the window bound across
  restarts, and that the script implements a limiter on the set of recent grants.
\<close>

section \<open>The script\<close>

type_synonym ms = int

record 'z quota =
  q_window :: "('z \<times> ms) option"
  q_attempts :: "string \<Rightarrow> (string \<times> ms) option"

definition new_quota :: "'z quota" where
  "new_quota = \<lparr>q_window = None, q_attempts = (\<lambda>_. None)\<rparr>"

definition window_at :: "'z zset_api \<Rightarrow> ms \<Rightarrow> 'z quota \<Rightarrow> 'z" where
  "window_at Z now q =
     z_remrangebyscore Z (case alive now (q_window q) of None \<Rightarrow> z_empty Z | Some z \<Rightarrow> z)
       Below_All (Incl (of_int (now - 60000)))"

definition pruned :: "'z zset_api \<Rightarrow> ms \<Rightarrow> 'z quota \<Rightarrow> 'z quota" where
  "pruned Z now q = q\<lparr>q_window := map_option (\<lambda>(_, e). (window_at Z now q, e)) (q_window q)\<rparr>"

text \<open>
  The reply is (code, retry after, remaining). \<open>uptime\<close> is \<open>None\<close> where the INFO text
  has no such field. The reply to ZRANGE is not empty in the last branch, as the set has at
  least five members.
\<close>

definition acquire_script ::
  "'z zset_api \<Rightarrow> nat \<Rightarrow> nat option \<Rightarrow> ms \<Rightarrow> string \<Rightarrow> 'z quota \<Rightarrow> 'z quota \<times> (int \<times> int \<times> int)" where
  "acquire_script Z minimum uptime now attempt q =
     (case uptime of
        None \<Rightarrow> (q, (-1, 0, 0))
      | Some u \<Rightarrow>
          if u < minimum then (q, (-1, 0, 0))
          else
            let z = window_at Z now q; cnt = z_card Z z
            in if alive now (q_attempts q attempt) \<noteq> None then (pruned Z now q, (1, 0, 5 - int cnt))
               else if cnt < 5 then
                 (q\<lparr>q_window := Some (z_add Z z attempt (of_int now), now + 120000),
                    q_attempts := (q_attempts q)(attempt \<mapsto> (''1'', now + 600000))\<rparr>,
                  (1, 0, 4 - int cnt))
               else (pruned Z now q,
                     (0, max 1 (\<lfloor>snd (hd (z_range Z z))\<rfloor> + 60000 - now), 0)))"

section \<open>Store and route\<close>

record quota_decision =
  granted :: bool
  retry_after_ms :: int
  remaining :: int
  unavailable :: bool

text \<open>The quotas of all domains; \<open>minimum\<close> is the constructor's argument.\<close>

definition quota_acquire ::
  "'z zset_api \<Rightarrow> nat \<Rightarrow> nat option \<Rightarrow> ms \<Rightarrow> string \<Rightarrow> string \<Rightarrow> (string \<Rightarrow> 'z quota)
     \<Rightarrow> (string \<Rightarrow> 'z quota) \<times> quota_decision" where
  "quota_acquire Z minimum uptime now d attempt Q =
     (case acquire_script Z minimum uptime now attempt (Q d) of
        (q, code, retry, rest) \<Rightarrow>
          (Q(d := q),
           \<lparr>granted = (code = 1), retry_after_ms = retry, remaining = rest, unavailable = (code = -1)\<rparr>))"

text \<open>
  The handler behind the quota role: \<open>store\<close> is what the store call ends with (\<open>Inl\<close> where
  Redis fails), \<open>version\<close> the UUID version of the body's attempt id.
\<close>

definition acquire_quota ::
  "bool \<Rightarrow> nat \<Rightarrow> quota_decision result \<Rightarrow> (bool \<times> int \<times> int) result" where
  "acquire_quota enabled version store =
     (if version \<noteq> 4 then Inl (HTTPException 422 ''UUIDv4 required'')
      else if \<not> enabled then Inl (HTTPException 503 ''quota service unavailable'')
      else
        (case store of
           Inl e \<Rightarrow> Inl (HTTPException 503 ''quota service unavailable'')
         | Inr d \<Rightarrow>
             if unavailable d then Inl (HTTPException 503 ''quota service unavailable'')
             else Inr (granted d, retry_after_ms d, remaining d)))"

section \<open>Runs\<close>

text \<open>
  A run of the script with its granted attempts (a ghost list, newest first), the start of
  the current Redis process and the last clock reading. The clock does not go back;
  \<open>uptime_in_seconds\<close> is rounded, so an uptime of \<open>u\<close> says that more than \<open>u - 1\<close>
  seconds have passed. A restart keeps whatever survives: any state.
\<close>

inductive quota_run :: "'z zset_api \<Rightarrow> nat \<Rightarrow> 'z quota \<Rightarrow> (ms \<times> string) list \<Rightarrow> ms \<Rightarrow> ms \<Rightarrow> bool"
  for Z minimum where
  begin_run: "quota_run Z minimum q [] t t"
| ask: "quota_run Z minimum q H started clock \<Longrightarrow> clock \<le> now \<Longrightarrow>
    (case uptime of None \<Rightarrow> True | Some u \<Rightarrow> (int u - 1) * 1000 < now - started) \<Longrightarrow>
    acquire_script Z minimum uptime now a q = (q', code, retry, rest) \<Longrightarrow>
    quota_run Z minimum q'
      (if code = 1 \<and> alive now (q_attempts q a) = None then (now, a) # H else H) started now"
| restart: "quota_run Z minimum q H started clock \<Longrightarrow> clock \<le> t \<Longrightarrow> quota_run Z minimum q' H t t"

text \<open>The grants of a history inside the current process that are less than 60 seconds old.\<close>

definition fresh :: "ms \<Rightarrow> ms \<Rightarrow> (ms \<times> string) list \<Rightarrow> (ms \<times> string) list" where
  "fresh started now H = filter (\<lambda>(g, _). started < g \<and> now < g + 60000) H"

definition tracked :: "'z zset_api \<Rightarrow> 'z quota \<Rightarrow> ms \<times> string \<Rightarrow> bool" where
  "tracked Z q x \<longleftrightarrow>
     (\<exists>z e. q_window q = Some (z, e) \<and> z_score Z z (snd x) = Some (of_int (fst x)) \<and> fst x + 120000 \<le> e) \<and>
     (\<exists>e. q_attempts q (snd x) = Some (''1'', e) \<and> fst x + 600000 \<le> e)"

definition run_inv :: "'z zset_api \<Rightarrow> 'z quota \<Rightarrow> (ms \<times> string) list \<Rightarrow> ms \<Rightarrow> ms \<Rightarrow> bool" where
  "run_inv Z q H started clock \<longleftrightarrow>
     (\<forall>x \<in> set H. fst x \<le> clock) \<and> (\<forall>x \<in> set (fresh started clock H). tracked Z q x) \<and>
     distinct (map snd (fresh started clock H))"

lemma fresh_later: "clock \<le> now \<Longrightarrow> fresh started now H = filter (\<lambda>(g, _). now < g + 60000) (fresh started clock H)"
  by (auto simp: fresh_def intro!: filter_cong)

context zset
begin

lemma window_at_tracked:
  assumes "tracked Z q (g, b)" and "now < g + 60000"
  shows "z_score Z (window_at Z now q) b = Some (of_int g)"
  using assms by (auto simp: tracked_def window_at_def score_remrange)

lemma tracked_pruned:
  assumes "tracked Z q (g, b)" and "now < g + 60000"
  shows "tracked Z (pruned Z now q) (g, b)"
  using assms window_at_tracked [OF assms] by (auto simp: tracked_def pruned_def)

lemma tracked_granted:
  assumes "tracked Z q (g, b)" and "now < g + 60000" and "b \<noteq> a" and "g \<le> now"
  shows "tracked Z (q\<lparr>q_window := Some (z_add Z (window_at Z now q) a (of_int now), now + 120000),
     q_attempts := (q_attempts q)(a \<mapsto> (''1'', now + 600000))\<rparr>) (g, b)"
  using assms window_at_tracked [OF assms(1,2)] by (auto simp: tracked_def)

lemma fresh_tracked_later:
  assumes "run_inv Z q H started clock" and "clock \<le> now" and "x \<in> set (fresh started now H)"
  shows "tracked Z q x \<and> now < fst x + 60000 \<and> fst x \<le> now"
  using assms by (fastforce simp: run_inv_def fresh_later [OF assms(2)] fresh_def)

lemma fresh_distinct_later:
  assumes "run_inv Z q H started clock" and "clock \<le> now"
  shows "distinct (map snd (fresh started now H))"
proof -
  have "distinct (map snd (fresh started clock H))" using assms(1) by (simp add: run_inv_def)
  then show ?thesis unfolding fresh_later [OF assms(2)]
    by (rule distinct_map_filter)
qed

lemma fresh_count:
  assumes "run_inv Z q H started clock" and "clock \<le> now"
  shows "length (fresh started now H) \<le> z_card Z (window_at Z now q)"
proof -
  let ?m = "map snd (fresh started now H)"
  have "set ?m \<subseteq> {m. z_score Z (window_at Z now q) m \<noteq> None}"
    using fresh_tracked_later [OF assms] window_at_tracked by fastforce
  moreover have "finite {m. z_score Z (window_at Z now q) m \<noteq> None}"
    using range_score by (rule_tac finite_subset [of _ "fst ` set (z_range Z (window_at Z now q))"]) force+
  ultimately have "card (set ?m) \<le> z_card Z (window_at Z now q)" by (simp add: card_score card_mono)
  then show ?thesis using distinct_card [OF fresh_distinct_later [OF assms]] by simp
qed

lemma acquire_cases:
  assumes "acquire_script Z minimum uptime now a q = (q', code, retry, rest)"
  obtains (unknown) "q' = q" "code = -1"
    | (known) "q' = pruned Z now q" "code = 1" "alive now (q_attempts q a) \<noteq> None" "\<exists>u. uptime = Some u \<and> minimum \<le> u"
    | (fresh) "q' = q\<lparr>q_window := Some (z_add Z (window_at Z now q) a (of_int now), now + 120000),
                   q_attempts := (q_attempts q)(a \<mapsto> (''1'', now + 600000))\<rparr>" "code = 1"
        "alive now (q_attempts q a) = None" "z_card Z (window_at Z now q) < 5" "\<exists>u. uptime = Some u \<and> minimum \<le> u"
    | (full) "q' = pruned Z now q" "code = 0" "5 \<le> z_card Z (window_at Z now q)"
  using assms by (auto simp: acquire_script_def Let_def split: option.splits if_splits)

lemma quota_run_inv:
  "quota_run Z minimum q H started clock \<Longrightarrow> run_inv Z q H started clock"
proof (induction rule: quota_run.induct)
  case (ask q H started clock now uptime a q' code retry rest)
  note later = fresh_tracked_later [OF ask.IH ask.hyps(2)]
  note dist = fresh_distinct_later [OF ask.IH ask.hyps(2)]
  have times: "\<forall>x \<in> set H. fst x \<le> now" using ask.IH ask.hyps(2) by (auto simp: run_inv_def)
  show ?case
  proof (cases rule: acquire_cases [OF ask.hyps(4)])
    case 1
    then show ?thesis using later dist times by (auto simp: run_inv_def)
  next
    case 2
    then show ?thesis using later dist times tracked_pruned by (fastforce simp: run_inv_def)
  next
    case 3
    have old: "snd x \<noteq> a \<and> tracked Z q' x" if "x \<in> set (fresh started now H)" for x
    proof -
      from later [OF that] have x: "tracked Z q x" "now < fst x + 60000" "fst x \<le> now" by auto
      from x(1) obtain e where "q_attempts q (snd x) = Some (''1'', e)" "fst x + 600000 \<le> e" by (auto simp: tracked_def)
      with x(2) 3(3) have "snd x \<noteq> a" by auto
      with x tracked_granted [of q "fst x" "snd x" now a] 3(1) show ?thesis by simp
    qed
    have new: "tracked Z q' (now, a)" by (simp add: 3(1) tracked_def)
    have "fresh started now ((now, a) # H) = (if started < now then [(now, a)] else []) @ fresh started now H"
      by (simp add: fresh_def)
    with old new dist times 3(2,3) show ?thesis by (auto simp: run_inv_def)
  next
    case 4
    then show ?thesis using later dist times tracked_pruned by (fastforce simp: run_inv_def)
  qed
next
  case (restart q H started clock t q')
  then have "fresh t t H = []" by (fastforce simp: run_inv_def fresh_def filter_empty_conv)
  with restart show ?case by (fastforce simp: run_inv_def)
qed (simp add: run_inv_def fresh_def)

lemma window_bound:
  assumes "quota_run Z minimum q H started clock" and "61 \<le> minimum"
  shows "length (filter (\<lambda>(g, _). t < g \<and> g \<le> t + 60000) H) \<le> 5"
  using assms(1)
proof (induction rule: quota_run.induct)
  case (ask q H started clock now uptime a q' code retry rest)
  show ?case
  proof (cases rule: acquire_cases [OF ask.hyps(4)])
    case 3
    from 3(5) assms(2) ask.hyps(3) have up: "started + 60000 < now" by auto
    show ?thesis
    proof (cases "t < now \<and> now \<le> t + 60000")
      case True
      have "filter (\<lambda>(g, _). t < g \<and> g \<le> t + 60000) H =
          filter (\<lambda>(g, _). t < g \<and> g \<le> t + 60000) (fresh started now H)"
        using True up by (auto simp: fresh_def intro!: filter_cong)
      then have "length (filter (\<lambda>(g, _). t < g \<and> g \<le> t + 60000) H) \<le> length (fresh started now H)"
        by (simp only: length_filter_le)
      then have "length (filter (\<lambda>(g, _). t < g \<and> g \<le> t + 60000) H) < 5"
        using fresh_count [OF quota_run_inv [OF ask.hyps(1)] ask.hyps(2)] 3(4) by linarith
      with True 3(2,3) show ?thesis by simp
    next
      case False
      then have "\<not> (t < now \<and> now \<le> t + 60000)" .
      with ask.IH show ?thesis by (simp del: de_Morgan_conj)
    qed
  qed (use ask.IH in \<open>auto\<close>)
qed simp_all
end

section \<open>The limiter the script implements\<close>

text \<open>The grants that count at a moment: those of the window less than 60 seconds old.\<close>

definition recent :: "'z zset_api \<Rightarrow> ms \<Rightarrow> 'z quota \<Rightarrow> string \<rightharpoonup> rat" where
  "recent Z now q = z_score Z (window_at Z now q)"

text \<open>Five slots: an attempt seen before is granted again without taking one.\<close>

definition limiter :: "ms \<Rightarrow> string \<Rightarrow> bool \<Rightarrow> (string \<rightharpoonup> rat) \<Rightarrow> (string \<rightharpoonup> rat) \<times> (int \<times> int \<times> int)" where
  "limiter now a known G =
     (if known then (G, (1, 0, 5 - int (card (dom G))))
      else if card (dom G) < 5 then (G(a \<mapsto> of_int now), (1, 0, 4 - int (card (dom G))))
      else (G, (0, max 1 (\<lfloor>Min (ran G)\<rfloor> + 60000 - now), 0)))"

definition expire_grants :: "ms \<Rightarrow> (string \<rightharpoonup> rat) \<Rightarrow> string \<rightharpoonup> rat" where
  "expire_grants now G m = (case G m of None \<Rightarrow> None | Some s \<Rightarrow> if s \<le> of_int (now - 60000) then None else Some s)"

definition window_ok :: "'z zset_api \<Rightarrow> ms \<Rightarrow> 'z quota \<Rightarrow> bool" where
  "window_ok Z clock q \<longleftrightarrow>
     (case q_window q of
        None \<Rightarrow> True
      | Some (z, e) \<Rightarrow> (\<forall>m s. z_score Z z m = Some s \<longrightarrow> s \<le> of_int clock \<and> s + 60000 \<le> of_int e))"

context zset
begin

lemma recent_eq:
  "recent Z now q = (case q_window q of
      None \<Rightarrow> Map.empty
    | Some (z, e) \<Rightarrow> if now < e then expire_grants now (z_score Z z) else Map.empty)"
  by (rule ext) (auto simp: recent_def window_at_def score_remrange expire_grants_def split: option.splits)

lemma recent_ok:
  assumes "window_ok Z clock q" and "clock \<le> now"
  shows "recent Z now q = (case q_window q of None \<Rightarrow> Map.empty | Some (z, e) \<Rightarrow> expire_grants now (z_score Z z))"
proof -
  have "expire_grants now (z_score Z z) m = None" if "q_window q = Some (z, e)" "e \<le> now" for z e m
  proof (cases "z_score Z z m")
    case (Some s)
    with assms(1) that(1) have "s + 60000 \<le> of_int e" by (simp add: window_ok_def)
    also have "(of_int e :: rat) \<le> of_int now" using that(2) by simp
    finally show ?thesis using Some by (simp add: expire_grants_def)
  qed (simp add: expire_grants_def)
  then show ?thesis unfolding recent_eq by (auto split: option.splits simp: not_less)
qed

lemma expire_twice: "now \<le> now' \<Longrightarrow> expire_grants now' (expire_grants now G) = expire_grants now' G"
  by (rule ext) (auto simp: expire_grants_def split: option.splits)

lemma window_ok_pruned: "window_ok Z clock q \<Longrightarrow> clock \<le> now \<Longrightarrow> window_ok Z now (pruned Z now q)"
proof -
  assume ok: "window_ok Z clock q" and c: "clock \<le> now"
  have "s \<le> of_int now \<and> s + 60000 \<le> of_int e"
    if "q_window q = Some (z, e)" "z_score Z (window_at Z now q) m = Some s" for z e m s
  proof -
    from that have "z_score Z z m = Some s"
      by (auto simp: window_at_def score_remrange split: option.splits if_splits)
    with ok that(1) have "s \<le> of_int clock \<and> s + 60000 \<le> of_int e" by (simp add: window_ok_def)
    with c show ?thesis by (meson of_int_le_iff order_trans)
  qed
  then show ?thesis by (auto simp: window_ok_def pruned_def split: option.splits)
qed

lemma window_ok_granted:
  assumes "window_ok Z clock q" and "clock \<le> now"
  shows "window_ok Z now (q\<lparr>q_window := Some (z_add Z (window_at Z now q) a (of_int now), now + 120000), q_attempts := A\<rparr>)"
proof -
  have "s \<le> of_int now \<and> s + 60000 \<le> of_int (now + 120000)"
    if "z_score Z (window_at Z now q) m = Some s" for m s
  proof -
    from that obtain z e where "q_window q = Some (z, e)" "z_score Z z m = Some s"
      by (auto simp: window_at_def score_remrange alive_Some split: option.splits if_splits)
    with assms(1) have "s \<le> of_int clock" by (simp add: window_ok_def)
    also have "(of_int clock :: rat) \<le> of_int now" using assms(2) by simp
    finally show ?thesis by simp
  qed
  then show ?thesis by (auto simp: window_ok_def)
qed

lemma recent_pruned: "window_ok Z clock q \<Longrightarrow> clock \<le> now \<Longrightarrow> recent Z now (pruned Z now q) = recent Z now q"
proof -
  assume ok: "window_ok Z clock q" and c: "clock \<le> now"
  have "recent Z now (pruned Z now q) =
      (case q_window q of None \<Rightarrow> Map.empty | Some (z, e) \<Rightarrow> expire_grants now (recent Z now q))"
    using recent_ok [OF window_ok_pruned [OF ok c] order_refl]
    by (auto simp: pruned_def recent_def split: option.splits)
  also have "\<dots> = recent Z now q"
    unfolding recent_ok [OF ok c] by (auto simp: expire_twice split: option.splits)
  finally show ?thesis .
qed

lemma card_recent: "z_card Z (window_at Z now q) = card (dom (recent Z now q))"
  by (simp add: card_score recent_def dom_def)

lemma oldest_min:
  assumes "z_card Z z \<noteq> 0"
  shows "snd (hd (z_range Z z)) = Min (ran (z_score Z z))"
proof -
  from assms obtain p ps where r: "z_range Z z = p # ps" by (cases "z_range Z z") (auto simp: card_range)
  have ran: "ran (z_score Z z) = snd ` set (z_range Z z)"
    using range_score by (force simp: ran_def)
  have "zkey p \<le> zkey x" if "x \<in> set (z_range Z z)" for x
    using range_sorted [of z] that r by auto
  then have "snd p \<le> snd x" if "x \<in> set (z_range Z z)" for x
    using that by (fastforce simp: less_eq_prod_def)
  then have "Min (ran (z_score Z z)) = snd p"
    unfolding ran using r by (intro Min_eqI) auto
  with r show ?thesis by simp
qed

lemma acquire_refines:
  assumes "window_ok Z clock q" and "clock \<le> now" and "minimum \<le> u"
    and "acquire_script Z minimum (Some u) now a q = (q', reply)"
  shows "window_ok Z now q' \<and>
    (recent Z now q', reply) = limiter now a (alive now (q_attempts q a) \<noteq> None) (recent Z now q)"
proof -
  have add: "recent Z now (q\<lparr>q_window := Some (z_add Z (window_at Z now q) a (of_int now), now + 120000), q_attempts := A\<rparr>)
      = (recent Z now q)(a \<mapsto> of_int now)" for A
  proof -
    have young: "z_score Z (window_at Z now q) m = Some s \<Longrightarrow> \<not> s \<le> of_int (now - 60000)" for m s
      by (auto simp: window_at_def score_remrange split: option.splits if_splits)
    have "window_at Z now (q\<lparr>q_window := Some (z, now + 120000), q_attempts := A\<rparr>) =
        z_remrangebyscore Z z Below_All (Incl (of_int (now - 60000)))" for z
      by (simp add: window_at_def)
    with young show ?thesis
      by (intro ext) (auto simp: recent_def score_remrange split: option.splits)
  qed
  have old: "5 \<le> z_card Z (window_at Z now q) \<Longrightarrow>
      snd (hd (z_range Z (window_at Z now q))) = Min (ran (recent Z now q))"
    unfolding recent_def by (rule oldest_min) simp
  show ?thesis
    using assms(3,4) window_ok_pruned [OF assms(1,2)] window_ok_granted [OF assms(1,2)] recent_pruned [OF assms(1,2)] add old
    by (auto simp: acquire_script_def Let_def limiter_def card_recent split: if_splits)
qed

lemma recent_later:
  assumes "window_ok Z now q" and "now \<le> now'"
  shows "recent Z now' q = expire_grants now' (recent Z now q)"
  unfolding recent_ok [OF assms] recent_ok [OF assms(1) order_refl]
  using expire_twice [OF assms(2)] by (auto split: option.splits simp: expire_grants_def)

end

section \<open>Properties\<close>

text \<open>
  C13: over every run of the script, restarts of Redis included (whatever data they lose or
  bring back), no 60-second window holds more than five fresh grants, as long as the
  configured minimum uptime is at least 61 seconds (the default is 65).
\<close>

theorem at_most_five_grants_a_minute:
  assumes "zset Z" and "quota_run Z minimum q H started clock" and "61 \<le> minimum"
  shows "length (filter (\<lambda>(g, _). t < g \<and> g \<le> t + 60000) H) \<le> 5"
  by (rule zset.window_bound [OF assms])

lemma one_grant: "quota_run ref_zset_api 65 (fst (acquire_script ref_zset_api 65 (Some 70) 70000 ''a'' new_quota)) [(70000, ''a'')] 0 70000"
proof -
  have "acquire_script ref_zset_api 65 (Some 70) 70000 ''a'' new_quota =
      (fst (acquire_script ref_zset_api 65 (Some 70) 70000 ''a'' new_quota), 1, 0, 4)"
    by (simp add: acquire_script_def window_at_def new_quota_def Let_def ref_zset_eval)
  from quota_run.ask [OF quota_run.begin_run [of _ _ new_quota 0] _ _ this]
  show ?thesis by (simp add: new_quota_def)
qed

theorem at_most_five_grants_a_minute_witness:
  "length (filter (\<lambda>(g, _). 69999 < g \<and> g \<le> 69999 + 60000) [(70000 :: int, ''a'')]) \<le> 5"
  using at_most_five_grants_a_minute [OF ref_zset.zset_axioms one_grant, of 69999] by simp


text \<open>
  C14: the script, on its sorted set with expiring keys, implements a limiter with five slots
  on the map of the grants of the last 60 seconds: the map after the call and the reply are
  those of the limiter (the retry time is when the oldest grant leaves the window), and when
  time passes the map only loses the grants that are 60 seconds old, even if Redis drops the
  whole window key.
\<close>

theorem quota_refines_limiter:
  assumes "zset Z" and "window_ok Z clock q" and "clock \<le> now" and "minimum \<le> u"
    and "acquire_script Z minimum (Some u) now a q = (q', reply)"
  shows "(recent Z now q', reply) = limiter now a (alive now (q_attempts q a) \<noteq> None) (recent Z now q) \<and>
    window_ok Z now q' \<and> (\<forall>now' \<ge> now. recent Z now' q' = expire_grants now' (recent Z now q'))"
  using zset.acquire_refines [OF assms] zset.recent_later [OF assms(1)] by blast

theorem quota_refines_limiter_witness:
  "limiter 70000 ''a'' False Map.empty = ([''a'' \<mapsto> 70000], (1, 0, 4)) \<and>
   recent ref_zset_api 70000 (fst (acquire_script ref_zset_api 65 (Some 70) 70000 ''a'' new_quota)) = [''a'' \<mapsto> 70000]"
proof -
  have ok: "window_ok ref_zset_api 0 new_quota" by (simp add: window_ok_def new_quota_def)
  have none: "recent ref_zset_api 70000 new_quota = Map.empty" "alive 70000 (q_attempts new_quota ''a'') = None"
    by (rule ext) (simp_all add: recent_def window_at_def new_quota_def ref_zset_eval)
  obtain q' reply where
    run: "acquire_script ref_zset_api 65 (Some 70) 70000 ''a'' new_quota = (q', reply)" by (rule prod.exhaust)
  have "(recent ref_zset_api 70000 q', reply) = limiter 70000 ''a'' False Map.empty"
    using conjunct1 [OF quota_refines_limiter [OF ref_zset.zset_axioms ok _ _ run]] by (simp only: none) simp
  then show ?thesis by (simp add: run limiter_def)
qed

end
