(* ===== verification/Access.thy ===== *)
theory Access
  imports Redis Models
begin

text \<open>
  Who may call what: the API keys and their roles (security/auth.py), the fixed-window rate
  limiter (security/rate_limit.py) and the request dependencies that combine them
  (api/dependencies.py). SHA-256 is a parameter \<open>sha\<close>, a function from text to its hex
  digest. The lemmas show what a role says about the presented key, the bound of the rate
  limiter, and which requests each dependency lets through.
\<close>

section \<open>API keys\<close>

datatype key_role = Normal | Admin | Quota_Client | Peer_Export | Ownership_Client

record principal =
  role :: key_role
  fingerprint :: string
  member_id :: "string option"

text \<open>\<open>secrets.compare_digest\<close> on two \<open>str\<close>: it raises unless both are ASCII.\<close>

definition is_ascii :: "string \<Rightarrow> bool" where
  "is_ascii s \<longleftrightarrow> (\<forall>c \<in> set s. (of_char c :: nat) < 128)"

definition compare_digest :: "string \<Rightarrow> string \<Rightarrow> bool result" where
  "compare_digest a b =
     (if is_ascii a \<and> is_ascii b then Inr (a = b)
      else Inl (TypeError ''comparing strings with non-ASCII characters is not supported''))"

fun match_any :: "string \<Rightarrow> string list \<Rightarrow> bool \<Rightarrow> bool result" where
  "match_any raw [] found = Inr found"
| "match_any raw (k # ks) found =
     (case compare_digest raw k of Inl e \<Rightarrow> Inl e | Inr eq \<Rightarrow> match_any raw ks (found \<or> eq))"

fun match_member :: "string \<Rightarrow> (string \<times> string) list \<Rightarrow> string option \<Rightarrow> string option result" where
  "match_member raw [] found = Inr found"
| "match_member raw ((m, k) # ks) found =
     (case compare_digest raw k of
        Inl e \<Rightarrow> Inl e
      | Inr eq \<Rightarrow> match_member raw ks (if eq then Some m else found))"

record key_config =
  normal_keys :: "string list"
  admin_keys :: "string list"
  quota_keys :: "string list"
  peer_export_keys :: "string list"
  ownership_keys :: "(string \<times> string) list"

definition authenticate_key :: "(string \<Rightarrow> string) \<Rightarrow> string option \<Rightarrow> key_config \<Rightarrow> principal result" where
  "authenticate_key sha raw_key cfg =
     (case raw_key of
        None \<Rightarrow> Inl (ValueError ''missing API key'')
      | Some raw \<Rightarrow>
          if raw = [] then Inl (ValueError ''missing API key'')
          else
            (case match_any raw (normal_keys cfg) False of Inl e \<Rightarrow> Inl e | Inr normal \<Rightarrow>
            (case match_any raw (admin_keys cfg) False of Inl e \<Rightarrow> Inl e | Inr admin \<Rightarrow>
            (case match_any raw (quota_keys cfg) False of Inl e \<Rightarrow> Inl e | Inr quota \<Rightarrow>
            (case match_any raw (peer_export_keys cfg) False of Inl e \<Rightarrow> Inl e | Inr peer \<Rightarrow>
            (case match_member raw (ownership_keys cfg) None of Inl e \<Rightarrow> Inl e | Inr member \<Rightarrow>
               if \<not> normal \<and> \<not> admin \<and> \<not> quota \<and> \<not> peer \<and> member = None
               then Inl (ValueError ''invalid API key'')
               else
                 let r = (if admin then Admin else if normal then Normal else if quota then Quota_Client
                          else if peer then Peer_Export else Ownership_Client)
                 in Inr \<lparr>role = r, fingerprint = take 16 (sha raw),
                         member_id = (if r = Ownership_Client then member else None)\<rparr>))))))"

section \<open>The rate limiter\<close>

text \<open>The counters by key, each with its expiry on the Redis clock (seconds).\<close>

type_synonym counters = "string \<Rightarrow> (nat \<times> time) option"

definition increment_script :: "time \<Rightarrow> int \<Rightarrow> string \<Rightarrow> counters \<Rightarrow> counters \<times> nat" where
  "increment_script redis_now window key C =
     (case alive redis_now (C key) of
        None \<Rightarrow> (C(key \<mapsto> (1, redis_now + of_int window)), 1)
      | Some n \<Rightarrow> (C(key := map_option (\<lambda>(_, e). (n + 1, e)) (C key)), n + 1))"

record rate_decision =
  allowed :: bool
  rate_limit :: int
  rate_remaining :: int
  retry_after_seconds :: int

definition window_number :: "int \<Rightarrow> time \<Rightarrow> int" where
  "window_number window now = \<lfloor>now / of_int window\<rfloor>"

definition rate_key ::
  "(string \<Rightarrow> string) \<Rightarrow> string \<Rightarrow> string \<Rightarrow> string \<Rightarrow> int \<Rightarrow> string" where
  "rate_key sha prefix scope subject n =
     prefix @ '':rate-limit:'' @ sha (scope @ [CHR 0x00] @ subject @ [CHR 0x00] @ str_int n)"

definition rate_check ::
  "(string \<Rightarrow> string) \<Rightarrow> string \<Rightarrow> string \<Rightarrow> string \<Rightarrow> int \<Rightarrow> int \<Rightarrow> time \<Rightarrow> time
     \<Rightarrow> counters \<Rightarrow> (counters \<times> rate_decision) result" where
  "rate_check sha prefix scope subject limit window now redis_now C =
     (if scope = [] \<or> subject = [] then Inl (ValueError ''scope and subject must be non-empty'')
      else if limit < 1 \<or> window < 1 then Inl (ValueError ''rate limit and window must be positive'')
      else
        let n = window_number window now;
            (C', current) = increment_script redis_now window (rate_key sha prefix scope subject n) C;
            ok = (int current \<le> limit);
            window_end = (n + 1) * window
        in Inr (C', \<lparr>allowed = ok, rate_limit = limit, rate_remaining = max 0 (limit - int current),
                     retry_after_seconds = (if ok then 0 else max 1 \<lceil>of_int window_end - now\<rceil>)\<rparr>))"

section \<open>Request dependencies\<close>

text \<open>The settings the dependencies read.\<close>

record access_settings =
  auth_enabled :: bool
  key_cfg :: key_config
  ownership_enabled :: bool
  ownership_rate :: int
  peer_export_rate :: int
  query_rate :: int
  admin_rate :: int
  rate_window :: int

text \<open>
  An authentication error (the only \<open>ValueError\<close> of \<open>authenticate_key\<close>) becomes 401; any other exception of \<open>authenticate_key\<close> is not
  caught and ends in the server's 500.
\<close>

definition get_principal :: "(string \<Rightarrow> string) \<Rightarrow> access_settings \<Rightarrow> string option \<Rightarrow> principal result" where
  "get_principal sha cfg api_key =
     (if \<not> auth_enabled cfg then Inr \<lparr>role = Admin, fingerprint = ''auth-disabled'', member_id = None\<rparr>
      else
        (case authenticate_key sha api_key (key_cfg cfg) of
           Inr p \<Rightarrow> Inr p
         | Inl (ValueError _) \<Rightarrow> Inl (HTTPException 401 ''invalid API key'')
         | Inl e \<Rightarrow> Inl e))"

definition require_admin :: "principal \<Rightarrow> principal result" where
  "require_admin p = (if role p \<noteq> Admin then Inl (HTTPException 403 ''admin role required'') else Inr p)"

definition require_quota_client :: "principal \<Rightarrow> principal result" where
  "require_quota_client p =
     (if role p \<noteq> Quota_Client then Inl (HTTPException 403 ''quota client role required'') else Inr p)"

definition require_ownership_client :: "principal \<Rightarrow> principal result" where
  "require_ownership_client p =
     (if role p \<noteq> Ownership_Client \<or> member_id p = None
      then Inl (HTTPException 403 ''ownership client role required'') else Inr p)"

definition require_peer_export :: "principal \<Rightarrow> principal result" where
  "require_peer_export p =
     (if role p \<noteq> Peer_Export then Inl (HTTPException 403 ''peer export role required'') else Inr p)"

definition require_query_role :: "principal \<Rightarrow> principal result" where
  "require_query_role p =
     (if role p \<in> {Quota_Client, Peer_Export, Ownership_Client}
      then Inl (HTTPException 403 ''query role required'') else Inr p)"

text \<open>
  The common tail of the limiting dependencies: a limiter that raises gives 503, a request
  over the limit 429. \<open>check\<close> runs the limiter on the stored counters, or fails with Redis.
\<close>

type_synonym 'c limiter_call = "string \<Rightarrow> string \<Rightarrow> int \<Rightarrow> int \<Rightarrow> 'c \<Rightarrow> ('c \<times> rate_decision) result"

definition limited ::
  "'c limiter_call \<Rightarrow> string \<Rightarrow> string \<Rightarrow> int \<Rightarrow> int \<Rightarrow> principal \<Rightarrow> 'c \<Rightarrow> 'c \<times> principal result" where
  "limited check scope unavailable limit window p C =
     (case check scope (fingerprint p) limit window C of
        Inl e \<Rightarrow> (C, Inl (HTTPException 503 unavailable))
      | Inr (C', d) \<Rightarrow>
          (C', if allowed d then Inr p else Inl (HTTPException 429 ''rate limit exceeded'')))"

definition enforce_ownership_limit ::
  "'c limiter_call \<Rightarrow> access_settings \<Rightarrow> principal \<Rightarrow> 'c \<Rightarrow> 'c \<times> principal result" where
  "enforce_ownership_limit check cfg p C =
     (case require_ownership_client p of
        Inl e \<Rightarrow> (C, Inl e)
      | Inr p' \<Rightarrow>
          if \<not> ownership_enabled cfg then (C, Inl (HTTPException 503 ''ownership service unavailable''))
          else limited check ''ownership'' ''ownership service unavailable'' (ownership_rate cfg) (rate_window cfg) p' C)"

definition enforce_peer_export_limit ::
  "'c limiter_call \<Rightarrow> access_settings \<Rightarrow> principal \<Rightarrow> 'c \<Rightarrow> 'c \<times> principal result" where
  "enforce_peer_export_limit check cfg p C =
     (case require_peer_export p of
        Inl e \<Rightarrow> (C, Inl e)
      | Inr p' \<Rightarrow> limited check ''peer-export'' ''service unavailable'' (peer_export_rate cfg) (rate_window cfg) p' C)"

definition enforce_query_limit ::
  "'c limiter_call \<Rightarrow> access_settings \<Rightarrow> principal \<Rightarrow> 'c \<Rightarrow> 'c \<times> principal result" where
  "enforce_query_limit check cfg p C =
     (case require_query_role p of
        Inl e \<Rightarrow> (C, Inl e)
      | Inr p' \<Rightarrow> limited check ''query'' ''service unavailable'' (query_rate cfg) (rate_window cfg) p' C)"

definition enforce_admin_limit ::
  "'c limiter_call \<Rightarrow> access_settings \<Rightarrow> principal \<Rightarrow> 'c \<Rightarrow> 'c \<times> principal result" where
  "enforce_admin_limit check cfg p C =
     (case require_admin p of
        Inl e \<Rightarrow> (C, Inl e)
      | Inr p' \<Rightarrow> limited check ''admin'' ''service unavailable'' (admin_rate cfg) (rate_window cfg) p' C)"

section \<open>Lemmas\<close>

lemma match_any_Inr: "match_any raw ks found = Inr b \<Longrightarrow> b \<longleftrightarrow> found \<or> raw \<in> set ks"
  by (induction raw ks found rule: match_any.induct) (auto simp: compare_digest_def split: sum.splits if_splits)

lemma match_member_Inr:
  "match_member raw ks found = Inr (Some m) \<Longrightarrow> found = Some m \<or> (m, raw) \<in> set ks"
  by (induction raw ks found rule: match_member.induct) (auto simp: compare_digest_def split: sum.splits if_splits)

lemma authenticate_key_Inr:
  assumes "authenticate_key sha k cfg = Inr p"
  obtains raw where "k = Some raw" "raw \<noteq> []" "fingerprint p = take 16 (sha raw)"
    "role p = Admin \<Longrightarrow> raw \<in> set (admin_keys cfg)"
    "role p = Normal \<Longrightarrow> raw \<in> set (normal_keys cfg)"
    "role p = Quota_Client \<Longrightarrow> raw \<in> set (quota_keys cfg) - set (admin_keys cfg) - set (normal_keys cfg)"
    "role p = Peer_Export \<Longrightarrow> raw \<in> set (peer_export_keys cfg) - set (admin_keys cfg) - set (normal_keys cfg)"
    "role p = Ownership_Client \<Longrightarrow> (\<exists>m. member_id p = Some m \<and> (m, raw) \<in> set (ownership_keys cfg)) \<and>
       raw \<notin> set (admin_keys cfg) \<union> set (normal_keys cfg)"
proof -
  from assms obtain raw normal admin quota peer member where k: "k = Some raw" "raw \<noteq> []"
    and m: "match_any raw (normal_keys cfg) False = Inr normal" "match_any raw (admin_keys cfg) False = Inr admin"
      "match_any raw (quota_keys cfg) False = Inr quota" "match_any raw (peer_export_keys cfg) False = Inr peer"
      "match_member raw (ownership_keys cfg) None = Inr member"
    and found: "normal \<or> admin \<or> quota \<or> peer \<or> member \<noteq> None"
    and p: "p = \<lparr>role = (if admin then Admin else if normal then Normal else if quota then Quota_Client
        else if peer then Peer_Export else Ownership_Client), fingerprint = take 16 (sha raw),
        member_id = (if admin \<or> normal \<or> quota \<or> peer then None else member)\<rparr>"
    by (auto simp: authenticate_key_def Let_def split: option.splits sum.splits if_splits)
  note sets = match_any_Inr [OF m(1)] match_any_Inr [OF m(2)] match_any_Inr [OF m(3)] match_any_Inr [OF m(4)]
  have "\<exists>x. member = Some x \<and> (x, raw) \<in> set (ownership_keys cfg)" if "\<not> normal" "\<not> admin" "\<not> quota" "\<not> peer"
    using that found match_member_Inr m(5) by fastforce
  with k p sets show ?thesis by (intro that [of raw]) (auto split: if_splits)
qed

lemma limited_Inr: "limited check scope u l w p C = (C', Inr q) \<Longrightarrow> q = p"
  by (auto simp: limited_def split: sum.splits if_splits)

lemma increment_key:
  "increment_script rn w k C = (C', n) \<Longrightarrow> k' \<noteq> k \<Longrightarrow> C' k' = C k'"
  by (auto simp: increment_script_def split: option.splits)

fun run_checks ::
  "(string \<Rightarrow> string) \<Rightarrow> string \<Rightarrow> int \<Rightarrow> int \<Rightarrow> (string \<times> string \<times> time) list \<Rightarrow> counters \<Rightarrow> bool list" where
  "run_checks sha prefix limit window [] C = []"
| "run_checks sha prefix limit window ((scope, subject, now) # rs) C =
     (case rate_check sha prefix scope subject limit window now now C of
        Inl e \<Rightarrow> False # run_checks sha prefix limit window rs C
      | Inr (C', d) \<Rightarrow> allowed d # run_checks sha prefix limit window rs C')"

text \<open>The window a request falls into.\<close>

definition slot :: "int \<Rightarrow> string \<times> string \<times> time \<Rightarrow> string \<times> string \<times> int" where
  "slot window r = (case r of (scope, subject, now) \<Rightarrow> (scope, subject, window_number window now))"

definition slot_key :: "(string \<Rightarrow> string) \<Rightarrow> string \<Rightarrow> string \<times> string \<times> int \<Rightarrow> string" where
  "slot_key sha prefix x = (case x of (scope, subject, n) \<Rightarrow> rate_key sha prefix scope subject n)"

definition counts_ok ::
  "(string \<Rightarrow> string) \<Rightarrow> string \<Rightarrow> int \<Rightarrow> (string \<times> string \<times> int) set \<Rightarrow> (string \<times> string \<times> int \<Rightarrow> nat) \<Rightarrow> counters \<Rightarrow> bool" where
  "counts_ok sha prefix window U cnt C \<longleftrightarrow>
     (\<forall>x \<in> U. if cnt x = 0 then C (slot_key sha prefix x) = None
        else \<exists>e. C (slot_key sha prefix x) = Some (cnt x, e) \<and> of_int ((snd (snd x) + 1) * window) \<le> e)"

lemma window_number_bound:
  assumes "1 \<le> window"
  shows "now < of_int ((window_number window now + 1) * window)"
    and "of_int (window_number window now * window) \<le> (now :: rat)"
proof -
  have w: "(0 :: rat) < of_int window" using assms by simp
  have "now / of_int window < of_int (window_number window now + 1)"
    unfolding window_number_def using floor_correct [of "now / of_int window"] by simp
  with w show "now < of_int ((window_number window now + 1) * window)"
    by (simp add: pos_divide_less_eq)
  have "of_int (window_number window now) \<le> now / of_int window"
    unfolding window_number_def by (rule of_int_floor_le)
  with w show "of_int (window_number window now * window) \<le> (now :: rat)"
    by (simp add: pos_le_divide_eq)
qed

lemma increment_counts:
  assumes "counts_ok sha prefix window U cnt C" and "inj_on (slot_key sha prefix) U" and "1 \<le> window"
    and "x = slot window r" and "x \<in> U" and "snd (snd r) = now"
  obtains C' where "increment_script now window (slot_key sha prefix x) C = (C', cnt x + 1)"
    "counts_ok sha prefix window U (cnt(x := cnt x + 1)) C'"
proof -
  have n: "snd (snd x) = window_number window now" using assms(4,6) by (auto simp: slot_def split: prod.splits)
  note bound = window_number_bound [OF assms(3), of now]
  obtain C' k where inc: "increment_script now window (slot_key sha prefix x) C = (C', k)" by (rule prod.exhaust)
  have here: "k = cnt x + 1 \<and> (\<exists>e. C' (slot_key sha prefix x) = Some (k, e) \<and> of_int ((snd (snd x) + 1) * window) \<le> e)"
  proof (cases "cnt x = 0")
    case True
    with assms(1,5) have "C (slot_key sha prefix x) = None" by (auto simp: counts_ok_def)
    moreover have "of_int ((snd (snd x) + 1) * window) \<le> now + of_int window"
      using bound(2) unfolding n by (simp add: algebra_simps)
    ultimately show ?thesis using inc True by (auto simp: increment_script_def)
  next
    case False
    with assms(1,5) obtain e where "C (slot_key sha prefix x) = Some (cnt x, e)" "of_int ((snd (snd x) + 1) * window) \<le> e"
      unfolding counts_ok_def by fastforce
    moreover from this(2) have "now < e" using bound(1) n by simp
    ultimately show ?thesis using inc by (auto simp: increment_script_def)
  qed
  have "counts_ok sha prefix window U (cnt(x := cnt x + 1)) C'"
    unfolding counts_ok_def
  proof
    fix y assume y: "y \<in> U"
    show "if (cnt(x := cnt x + 1)) y = 0 then C' (slot_key sha prefix y) = None
        else \<exists>e. C' (slot_key sha prefix y) = Some ((cnt(x := cnt x + 1)) y, e) \<and> of_int ((snd (snd y) + 1) * window) \<le> e"
    proof (cases "y = x")
      case True
      with here show ?thesis by auto
    next
      case False
      with y assms(2,5) have "slot_key sha prefix y \<noteq> slot_key sha prefix x" by (meson inj_onD)
      with inc have "C' (slot_key sha prefix y) = C (slot_key sha prefix y)" by (rule increment_key)
      moreover have "(cnt(x := cnt x + 1)) y = cnt y" using False by simp
      moreover have "if cnt y = 0 then C (slot_key sha prefix y) = None
        else \<exists>e. C (slot_key sha prefix y) = Some (cnt y, e) \<and> of_int ((snd (snd y) + 1) * window) \<le> e"
        using y assms(1) unfolding counts_ok_def by (rule bspec [rotated])
      ultimately show ?thesis by (simp only:)
    qed
  qed
  with here inc show ?thesis by (intro that) auto
qed

lemma run_checks_count:
  assumes "1 \<le> limit" and "1 \<le> window" and "\<forall>(scope, subject, now) \<in> set rs. scope \<noteq> [] \<and> subject \<noteq> []"
    and "slot window ` set rs \<subseteq> U" and "inj_on (slot_key sha prefix) U" and "counts_ok sha prefix window U cnt C"
  shows "length (filter (\<lambda>(r, ok). ok \<and> slot window r = x) (zip rs (run_checks sha prefix limit window rs C)))
     + min (nat limit) (cnt x) = min (nat limit) (cnt x + length (filter (\<lambda>r. slot window r = x) rs))"
  using assms(3,4,6)
proof (induction rs arbitrary: C cnt)
  case (Cons r rs)
  obtain scope subject now where r: "r = (scope, subject, now)" by (cases r)
  let ?y = "slot window r"
  have in_U: "?y \<in> U" using Cons.prems(2) by simp
  obtain C' where inc: "increment_script now window (slot_key sha prefix ?y) C = (C', cnt ?y + 1)"
    and ok: "counts_ok sha prefix window U (cnt(?y := cnt ?y + 1)) C'"
    by (rule increment_counts [OF Cons.prems(3) assms(5,2) refl in_U, of now]) (auto simp: r)
  have "\<exists>d. rate_check sha prefix scope subject limit window now now C = Inr (C', d) \<and>
      allowed d = (int (cnt ?y + 1) \<le> limit)"
    using inc Cons.prems(1) assms(1,2) by (simp add: rate_check_def r slot_def slot_key_def Let_def)
  then obtain d where d: "rate_check sha prefix scope subject limit window now now C = Inr (C', d)"
    "allowed d = (int (cnt ?y + 1) \<le> limit)" by blast
  have "slot window ` set rs \<subseteq> U" "\<forall>(scope, subject, now) \<in> set rs. scope \<noteq> [] \<and> subject \<noteq> []"
    using Cons.prems by auto
  from Cons.IH [OF this(2,1) ok]
  have ih: "length (filter (\<lambda>(r, ok). ok \<and> slot window r = x) (zip rs (run_checks sha prefix limit window rs C')))
     + min (nat limit) ((cnt(?y := cnt ?y + 1)) x) =
     min (nat limit) ((cnt(?y := cnt ?y + 1)) x + length (filter (\<lambda>r. slot window r = x) rs))" .
  have run: "run_checks sha prefix limit window (r # rs) C = (int (cnt ?y + 1) \<le> limit) # run_checks sha prefix limit window rs C'"
    using d by (simp add: r)
  show ?case
  proof (cases "?y = x")
    case True
    then show ?thesis using ih unfolding run by (auto simp: min_def split: if_splits)
  next
    case False
    then show ?thesis using ih unfolding run by simp
  qed
qed simp

section \<open>Properties\<close>

text \<open>
  C15: in any sequence of requests the limiter admits, per scope, subject and window, exactly
  the first requests up to the limit: the counter of a window cannot expire before the window
  ends. The digests of the keys in use must not collide.
\<close>

theorem rate_limit_per_window:
  assumes "1 \<le> limit" and "1 \<le> window" and "\<forall>(scope, subject, now) \<in> set rs. scope \<noteq> [] \<and> subject \<noteq> []"
    and "inj_on (slot_key sha prefix) (slot window ` set rs)"
  shows "length (filter (\<lambda>(r, ok). ok \<and> slot window r = x)
      (zip rs (run_checks sha prefix limit window rs (\<lambda>_. None)))) =
    min (nat limit) (length (filter (\<lambda>r. slot window r = x) rs))"
proof -
  have "counts_ok sha prefix window (slot window ` set rs) (\<lambda>_. 0) (\<lambda>_. None)" by (simp add: counts_ok_def)
  from run_checks_count [OF assms(1-3) subset_refl assms(4) this] show ?thesis by simp
qed

theorem rate_limit_per_window_witness:
  "length (filter (\<lambda>(r, ok). ok \<and> slot 60 r = (''q'', ''f'', 0))
      (zip [(''q'', ''f'', 1), (''q'', ''f'', 2)] (run_checks id ''p'' 1 60 [(''q'', ''f'', 1), (''q'', ''f'', 2)] (\<lambda>_. None)))) = 1"
proof -
  have slots: "slot 60 (''q'', ''f'', 1) = (''q'', ''f'', 0)" "slot 60 (''q'', ''f'', 2) = (''q'', ''f'', 0)"
    by (simp_all add: slot_def window_number_def floor_eq_iff)
  show ?thesis
    by (subst rate_limit_per_window) (simp_all only: slots, simp_all add: inj_on_def slots)
qed

text \<open>
  C16: with authentication on, whatever a request dependency lets through was presented with
  a key of that role: the admin routes with an admin key, the query routes with a normal or
  admin key, the quota, export and ownership routes with a key of their own list that is
  neither a normal nor an admin key, and an ownership caller acts as the member its key is
  listed under.
\<close>

theorem roles_are_separated:
  assumes "auth_enabled cfg" and "get_principal sha cfg key = Inr p"
  shows "\<exists>raw. key = Some raw \<and> fingerprint p = take 16 (sha raw) \<and>
    (snd (enforce_admin_limit check cfg p C) = Inr q \<longrightarrow> raw \<in> set (admin_keys (key_cfg cfg))) \<and>
    (snd (enforce_query_limit check cfg p C) = Inr q \<longrightarrow>
       raw \<in> set (normal_keys (key_cfg cfg)) \<union> set (admin_keys (key_cfg cfg))) \<and>
    (require_quota_client p = Inr q \<longrightarrow>
       raw \<in> set (quota_keys (key_cfg cfg)) - set (normal_keys (key_cfg cfg)) - set (admin_keys (key_cfg cfg))) \<and>
    (snd (enforce_peer_export_limit check cfg p C) = Inr q \<longrightarrow>
       raw \<in> set (peer_export_keys (key_cfg cfg)) - set (normal_keys (key_cfg cfg)) - set (admin_keys (key_cfg cfg))) \<and>
    (snd (enforce_ownership_limit check cfg p C) = Inr q \<longrightarrow>
       (\<exists>m. member_id q = Some m \<and> (m, raw) \<in> set (ownership_keys (key_cfg cfg))) \<and>
       raw \<notin> set (normal_keys (key_cfg cfg)) \<union> set (admin_keys (key_cfg cfg)))"
proof -
  from assms have auth: "authenticate_key sha key (key_cfg cfg) = Inr p"
    by (auto simp: get_principal_def split: sum.splits exn.splits)
  show ?thesis
  proof (rule authenticate_key_Inr [OF auth])
    fix raw
    assume a: "key = Some raw" "fingerprint p = take 16 (sha raw)"
      "role p = Admin \<Longrightarrow> raw \<in> set (admin_keys (key_cfg cfg))"
      "role p = Normal \<Longrightarrow> raw \<in> set (normal_keys (key_cfg cfg))"
      "role p = Quota_Client \<Longrightarrow> raw \<in> set (quota_keys (key_cfg cfg)) - set (admin_keys (key_cfg cfg)) - set (normal_keys (key_cfg cfg))"
      "role p = Peer_Export \<Longrightarrow> raw \<in> set (peer_export_keys (key_cfg cfg)) - set (admin_keys (key_cfg cfg)) - set (normal_keys (key_cfg cfg))"
      "role p = Ownership_Client \<Longrightarrow> (\<exists>m. member_id p = Some m \<and> (m, raw) \<in> set (ownership_keys (key_cfg cfg))) \<and>
         raw \<notin> set (admin_keys (key_cfg cfg)) \<union> set (normal_keys (key_cfg cfg))"
    have same: "snd (limited check scope u l w p C) = Inr q \<Longrightarrow> q = p" for scope u l w
      using limited_Inr surj_pair by (metis snd_conv)
    show ?thesis
      using a same
      by (rule_tac exI [of _ raw], intro conjI impI; cases "role p")
         (auto simp: enforce_admin_limit_def enforce_query_limit_def require_quota_client_def enforce_peer_export_limit_def
           enforce_ownership_limit_def require_admin_def require_query_role_def require_peer_export_def
           require_ownership_client_def split: if_splits dest!: same)
  qed
qed

definition sample_access :: access_settings where
  "sample_access =
     \<lparr>auth_enabled = True,
      key_cfg = \<lparr>normal_keys = [''n''], admin_keys = [''a''], quota_keys = [''q''], peer_export_keys = [],
                 ownership_keys = [(''m'', ''o'')]\<rparr>,
      ownership_enabled = True, ownership_rate = 60, peer_export_rate = 60, query_rate = 60,
      admin_rate = 60, rate_window = 60\<rparr>"

lemma sample_principal:
  "get_principal id sample_access (Some ''o'') = Inr \<lparr>role = Ownership_Client, fingerprint = ''o'', member_id = Some ''m''\<rparr>"
  by (simp add: get_principal_def sample_access_def authenticate_key_def compare_digest_def is_ascii_def)

theorem roles_are_separated_witness:
  "\<exists>m. (m, ''o'') \<in> set (ownership_keys (key_cfg sample_access))"
proof -
  let ?check = "\<lambda>scope subject l w C. rate_check id ''p'' scope subject l w 0 0 C"
  let ?p = "\<lparr>role = Ownership_Client, fingerprint = ''o'', member_id = Some ''m''\<rparr>"
  have "snd (enforce_ownership_limit ?check sample_access ?p (\<lambda>_. None)) = Inr ?p"
    by (simp add: enforce_ownership_limit_def require_ownership_client_def sample_access_def limited_def
        rate_check_def increment_script_def Let_def)
  with roles_are_separated [OF _ sample_principal, where check = ?check and C = "\<lambda>_. None" and q = ?p] show ?thesis
    by (auto simp: sample_access_def)
qed

text \<open>
  A presented key with a non-ASCII character makes the comparison raise a TypeError that
  is no authentication error, so the request ends in a server error instead of a 401 as soon
  as one key is configured in the first list.
\<close>

lemma non_ascii_key_is_not_rejected:
  assumes "auth_enabled cfg" and "\<not> is_ascii raw" and "normal_keys (key_cfg cfg) \<noteq> []"
  shows "\<exists>m. get_principal sha cfg (Some raw) = Inl (TypeError m)"
proof -
  from assms(3) obtain k ks where "normal_keys (key_cfg cfg) = k # ks" by (cases "normal_keys (key_cfg cfg)") auto
  moreover from assms(2) have "raw \<noteq> []" by (auto simp: is_ascii_def)
  ultimately show ?thesis
    using assms(1,2) by (simp add: get_principal_def authenticate_key_def compare_digest_def)
qed

lemma non_ascii_key_is_not_rejected_witness:
  "\<exists>m. get_principal id sample_access (Some [CHR 0xE9]) = Inl (TypeError m)"
  by (rule non_ascii_key_is_not_rejected) (simp_all add: sample_access_def is_ascii_def)

end
