(* ===== verification/Ownership.thy ===== *)
theory Ownership
  imports Redis Models
begin

text \<open>
  The ownership cases of reclaimed leads (reclaim_ownership/models.py, lua.py, store.py and
  its routes): members are asked in two rounds whether they hold a lead, success receipts
  of a cycle decide for \<open>internal\<close>, two complete rounds of \<open>absent\<close> for \<open>external\<close>, and a
  case that stays open for a day becomes \<open>unconfirmed\<close>. Times are milliseconds of the Redis
  clock; every key with an expiry carries it. Dates of the standard library and SHA-256 are
  parameters. Keys are told apart by their components: a case id is a UUID, so no two of the
  key texts of the code coincide.
\<close>

section \<open>Lead cycles\<close>

type_synonym ms = int

record lead_cycle =
  lc_domain :: string
  lc_code :: string
  lc_record_id :: int
  lc_entered :: "string option"

text \<open>
  \<open>iso_text\<close> is \<open>datetime.fromisoformat\<close> (\<open>None\<close> where it raises) followed by the
  conversion to UTC of an aware value and \<open>isoformat(timespec='microseconds')\<close>; \<open>iso_ms\<close>
  the milliseconds of that text, read in Asia/Shanghai where it has no offset.
\<close>

record date_api =
  iso_text :: "string \<Rightarrow> string option"
  iso_ms :: "string \<Rightarrow> int"

text \<open>The regular expression \<open>_ENTRY_TIME\<close>, part by part.\<close>

definition is_digit :: "char \<Rightarrow> bool" where
  "is_digit c \<longleftrightarrow> 48 \<le> (of_char c :: nat) \<and> (of_char c :: nat) \<le> 57"

definition eat_digits :: "nat \<Rightarrow> string \<Rightarrow> string option" where
  "eat_digits n s = (if n \<le> length s \<and> (\<forall>c \<in> set (take n s). is_digit c) then Some (drop n s) else None)"

fun eat_char :: "char set \<Rightarrow> string \<Rightarrow> string option" where
  "eat_char C [] = None"
| "eat_char C (c # cs) = (if c \<in> C then Some cs else None)"

fun eat_all :: "(string \<Rightarrow> string option) list \<Rightarrow> string \<Rightarrow> string option" where
  "eat_all [] s = Some s"
| "eat_all (p # ps) s = (case p s of None \<Rightarrow> None | Some rest \<Rightarrow> eat_all ps rest)"

definition eat_fraction :: "string \<Rightarrow> string option" where
  "eat_fraction s =
     (case s of
        [] \<Rightarrow> Some s
      | c # cs \<Rightarrow>
          if c \<noteq> CHR ''.'' then Some s
          else
            (let n = length (takeWhile is_digit cs)
             in if 1 \<le> n \<and> n \<le> 6 then Some (drop n cs) else None))"

definition zone_shape :: "string \<Rightarrow> bool" where
  "zone_shape s \<longleftrightarrow> s = [] \<or> s = ''Z'' \<or>
     eat_all [eat_char {CHR ''+'', CHR ''-''}, eat_digits 2, eat_char {CHR '':''}, eat_digits 2] s = Some []"

definition entry_time_shape :: "string \<Rightarrow> bool" where
  "entry_time_shape s \<longleftrightarrow>
     (case eat_all [eat_digits 4, eat_char {CHR ''-''}, eat_digits 2, eat_char {CHR ''-''}, eat_digits 2,
                    eat_char {CHR '' '', CHR ''T''}, eat_digits 2, eat_char {CHR '':''}, eat_digits 2,
                    eat_char {CHR '':''}, eat_digits 2, eat_fraction] s of
        None \<Rightarrow> False
      | Some rest \<Rightarrow> zone_shape rest)"

definition replace_Z :: "string \<Rightarrow> string" where
  "replace_Z s = concat (map (\<lambda>c. if c = CHR ''Z'' then ''+00:00'' else [c]) s)"

definition reliable_entry_time :: "date_api \<Rightarrow> lead_cycle \<Rightarrow> string option" where
  "reliable_entry_time I c =
     (case lc_entered c of
        None \<Rightarrow> None
      | Some raw \<Rightarrow> if \<not> entry_time_shape raw then None else iso_text I (replace_Z raw))"

text \<open>The hashed fields, each with its length in four big-endian bytes.\<close>

definition length_bytes :: "nat \<Rightarrow> string" where
  "length_bytes n = map (\<lambda>k. char_of (n div 256 ^ k)) [3, 2, 1, 0]"

definition hash_payload :: "string list \<Rightarrow> string" where
  "hash_payload texts = concat (map (\<lambda>v. length_bytes (length v) @ v) texts)"

definition hash_fields :: "(string \<Rightarrow> string) \<Rightarrow> string list \<Rightarrow> string" where
  "hash_fields sha texts = sha (hash_payload texts)"

definition cycle_digest :: "date_api \<Rightarrow> (string \<Rightarrow> string) \<Rightarrow> lead_cycle \<Rightarrow> string option" where
  "cycle_digest I sha c =
     map_option (\<lambda>entry. hash_fields sha [lc_domain c, lc_code c, str_int (lc_record_id c), entry])
       (reliable_entry_time I c)"

definition cycle_entry_ms :: "date_api \<Rightarrow> lead_cycle \<Rightarrow> int option" where
  "cycle_entry_ms I c = map_option (iso_ms I) (reliable_entry_time I c)"

text \<open>\<open>cycle_entry_ms(cycle) or -1\<close>\<close>

definition entry_arg :: "int option \<Rightarrow> int" where
  "entry_arg e = (case e of None \<Rightarrow> -1 | Some n \<Rightarrow> if n = 0 then -1 else n)"

section \<open>State\<close>

datatype case_status = Pending | Internal | External | Unconfirmed

record own_case =
  oc_cycle :: lead_cycle
  oc_digest :: string
  oc_members :: "string list"
  oc_creator :: string
  oc_created :: ms
  oc_status :: case_status
  oc_revision :: nat
  oc_errors :: nat
  oc_first_done :: "ms option"

record receipt =
  rc_member :: string
  rc_event :: string
  rc_time :: ms
  rc_expires :: ms

text \<open>
  The key of a result or a lease is (case, round, member). Results are (result id, result),
  leases (token, \<open>expires_at\<close>), events (identity, receipt key), heartbeats (received,
  backlog). Jobs and deadlines have no expiry.
\<close>

type_synonym slot_id = "string \<times> string \<times> string"

record ('z, 's) ownership =
  o_cases :: "string \<Rightarrow> (own_case \<times> ms) option"
  o_results :: "slot_id \<Rightarrow> ((string \<times> string) \<times> ms) option"
  o_leases :: "slot_id \<Rightarrow> ((string \<times> ms) \<times> ms) option"
  o_markers :: "string \<Rightarrow> (string \<times> ms) option"
  o_jobs :: "string \<Rightarrow> 'z"
  o_deadlines :: 'z
  o_receipts :: "string \<Rightarrow> (receipt \<times> ms) option"
  o_events :: "string \<Rightarrow> ((string \<times> string) \<times> ms) option"
  o_cycles :: "string \<Rightarrow> ('s \<times> ms) option"
  o_heartbeats :: "string \<Rightarrow> ((ms \<times> nat) \<times> ms) option"
  o_check_errors :: nat
  o_conflicts :: nat

abbreviation (input) two_days :: ms where
  "two_days \<equiv> 172800000"

definition job_id :: "string \<Rightarrow> string \<Rightarrow> string" where
  "job_id cid r = cid @ '':'' @ r"

text \<open>\<open>string.match(value, '^(.+):([12])$')\<close>\<close>

definition parse_job :: "string \<Rightarrow> (string \<times> string) option" where
  "parse_job v =
     (let n = length v - 2; cid = take n v; r = drop (n + 1) v
      in if 3 \<le> length v \<and> v ! n = CHR '':'' \<and> (r = ''1'' \<or> r = ''2'') then Some (cid, r) else None)"

definition remove_jobs :: "'z zset_api \<Rightarrow> string \<Rightarrow> string list \<Rightarrow> (string \<Rightarrow> 'z) \<Rightarrow> string \<Rightarrow> 'z" where
  "remove_jobs Z cid members J = fold (\<lambda>m J. J(m := z_rem Z (z_rem Z (J m) (job_id cid ''1'')) (job_id cid ''2''))) members J"

definition add_jobs :: "'z zset_api \<Rightarrow> string \<Rightarrow> ms \<Rightarrow> string list \<Rightarrow> (string \<Rightarrow> 'z) \<Rightarrow> string \<Rightarrow> 'z" where
  "add_jobs Z job due_ms members J = fold (\<lambda>m J. J(m := z_add Z (J m) job (of_int due_ms))) members J"

text \<open>\<open>HSET\<close> on an existing case key: the expiry stays.\<close>

definition set_case :: "string \<Rightarrow> own_case \<Rightarrow> (string \<Rightarrow> (own_case \<times> ms) option) \<Rightarrow> string \<Rightarrow> (own_case \<times> ms) option" where
  "set_case cid c M = M(cid := map_option (\<lambda>(_, e). (c, e)) (M cid))"

text \<open>A case is settled: its status, its revision, its deadline and its members' jobs.\<close>

definition resolve ::
  "'z zset_api \<Rightarrow> case_status \<Rightarrow> string \<Rightarrow> own_case \<Rightarrow> ('z, 's) ownership \<Rightarrow> ('z, 's) ownership" where
  "resolve Z status cid c s =
     s\<lparr>o_cases := set_case cid (c\<lparr>oc_status := status, oc_revision := oc_revision c + 1\<rparr>) (o_cases s),
       o_deadlines := z_rem Z (o_deadlines s) cid,
       o_jobs := remove_jobs Z cid (oc_members c) (o_jobs s)\<rparr>"

section \<open>Scripts\<close>

definition open_script ::
  "'z zset_api \<Rightarrow> 's set_api \<Rightarrow> ms \<Rightarrow> string \<Rightarrow> lead_cycle \<Rightarrow> string \<Rightarrow> string list \<Rightarrow> string \<Rightarrow> int
     \<Rightarrow> ('z, 's) ownership \<Rightarrow> ('z, 's) ownership result" where
  "open_script Z S now cid cycle digest members creator entry s =
     (case alive now (o_cases s cid) of
        Some c \<Rightarrow>
          if oc_cycle c \<noteq> cycle \<or> oc_members c \<noteq> members then Inl (ResponseError ''conflicting case ID'')
          else Inr s
      | None \<Rightarrow>
          let known = (digest \<noteq> [] \<and>
                (case alive now (o_receipts s digest) of
                   None \<Rightarrow> False
                 | Some r \<Rightarrow> entry \<le> rc_time r \<and> rc_time r \<le> now));
              c = \<lparr>oc_cycle = cycle, oc_digest = digest, oc_members = members, oc_creator = creator,
                   oc_created = now, oc_status = (if known then Internal else Pending),
                   oc_revision = (if known then 1 else 0), oc_errors = 0, oc_first_done = None\<rparr>;
              s1 = s\<lparr>o_cases := (o_cases s)(cid \<mapsto> (c, now + two_days))\<rparr>;
              s2 = (if digest \<noteq> []
                    then s1\<lparr>o_cycles := (o_cycles s1)(digest \<mapsto>
                           (s_add S (case alive now (o_cycles s1 digest) of None \<Rightarrow> s_empty S | Some x \<Rightarrow> x) cid,
                            now + two_days))\<rparr>
                    else s1)
          in Inr (if known then s2
                  else s2\<lparr>o_deadlines := z_add Z (o_deadlines s2) cid (of_int (now + 86400000)),
                          o_jobs := add_jobs Z (job_id cid ''1'') now members (o_jobs s2)\<rparr>))"

text \<open>The loop over at most 100 due jobs of a member; what it removed stays removed.\<close>

fun claim_loop ::
  "'z zset_api \<Rightarrow> ms \<Rightarrow> string \<Rightarrow> string \<Rightarrow> string list \<Rightarrow> ('z, 's) ownership
     \<Rightarrow> ('z, 's) ownership \<times> (string \<times> string \<times> lead_cycle) option result" where
  "claim_loop Z now m token [] s = (s, Inr None)"
| "claim_loop Z now m token (v # vs) s =
     (case parse_job v of
        None \<Rightarrow> (s, Inl (ResponseError ''attempt to concatenate a nil value''))
      | Some (cid, r) \<Rightarrow>
          (case alive now (o_cases s cid) of
             None \<Rightarrow> claim_loop Z now m token vs (s\<lparr>o_jobs := (o_jobs s)(m := z_rem Z (o_jobs s m) v)\<rparr>)
           | Some c \<Rightarrow>
               if oc_status c \<noteq> Pending \<or> alive now (o_results s (cid, r, m)) \<noteq> None
               then claim_loop Z now m token vs (s\<lparr>o_jobs := (o_jobs s)(m := z_rem Z (o_jobs s m) v)\<rparr>)
               else if (case alive now (o_leases s (cid, r, m)) of None \<Rightarrow> 0 | Some (_, e) \<Rightarrow> e) \<le> now
               then (s\<lparr>o_leases := (o_leases s)((cid, r, m) \<mapsto> ((token, now + 30000), now + two_days))\<rparr>,
                     Inr (Some (cid, r, oc_cycle c)))
               else claim_loop Z now m token vs s))"

definition claim_script ::
  "'z zset_api \<Rightarrow> ms \<Rightarrow> string \<Rightarrow> string \<Rightarrow> ('z, 's) ownership
     \<Rightarrow> ('z, 's) ownership \<times> (string \<times> string \<times> lead_cycle) option result" where
  "claim_script Z now m token s =
     claim_loop Z now m token (map fst (z_rangelimit Z (o_jobs s m) Below_All (Incl (of_int now)) 0 100)) s"

definition round_complete :: "ms \<Rightarrow> string \<Rightarrow> string \<Rightarrow> string list \<Rightarrow> ('z, 's) ownership \<Rightarrow> bool" where
  "round_complete now cid r members s \<longleftrightarrow>
     (\<forall>m \<in> set members. map_option snd (alive now (o_results s (cid, r, m))) = Some ''absent'')"

definition signature :: "string \<Rightarrow> string \<Rightarrow> string \<Rightarrow> string \<Rightarrow> string" where
  "signature cid m r answer = cid @ '':'' @ m @ '':'' @ r @ '':'' @ answer"

text \<open>What a fresh, accepted result changes; the state already has no lease.\<close>

definition store_answer ::
  "'z zset_api \<Rightarrow> ms \<Rightarrow> string \<Rightarrow> string \<Rightarrow> string \<Rightarrow> string \<Rightarrow> string \<Rightarrow> own_case \<Rightarrow> ('z, 's) ownership \<Rightarrow> ('z, 's) ownership" where
  "store_answer Z now cid m r answer rid c s =
     (let job = job_id cid r
      in if answer = ''error'' then
           s\<lparr>o_cases := set_case cid (c\<lparr>oc_errors := oc_errors c + 1\<rparr>) (o_cases s),
             o_check_errors := o_check_errors s + 1,
             o_jobs := (o_jobs s)(m := z_add Z (o_jobs s m) job (of_int (now + 30000)))\<rparr>
         else
           let s1 = s\<lparr>o_results := (o_results s)((cid, r, m) \<mapsto> ((rid, answer), now + two_days)),
                      o_jobs := (o_jobs s)(m := z_rem Z (o_jobs s m) job)\<rparr>
           in if answer = ''found'' then resolve Z Internal cid c s1
              else if \<not> round_complete now cid r (oc_members c) s1 then s1
              else if r = ''1'' then
                s1\<lparr>o_cases := set_case cid (c\<lparr>oc_first_done := Some now\<rparr>) (o_cases s1),
                   o_jobs := add_jobs Z (job_id cid ''2'') (max (now + 15000) (oc_created c + 30000)) (oc_members c) (o_jobs s1)\<rparr>
              else
                s1\<lparr>o_cases := set_case cid (c\<lparr>oc_status := External, oc_revision := oc_revision c + 1\<rparr>) (o_cases s1),
                   o_deadlines := z_rem Z (o_deadlines s1) cid\<rparr>)"

definition submit_script ::
  "'z zset_api \<Rightarrow> ms \<Rightarrow> string \<Rightarrow> string \<Rightarrow> string \<Rightarrow> string \<Rightarrow> string \<Rightarrow> string \<Rightarrow> ('z, 's) ownership
     \<Rightarrow> ('z, 's) ownership result" where
  "submit_script Z now cid m r answer rid token s =
     (case alive now (o_cases s cid) of
        None \<Rightarrow> Inl (ResponseError ''unknown case'')
      | Some c \<Rightarrow>
          if m \<notin> set (oc_members c) then Inl (ResponseError ''member not in case snapshot'')
          else if r \<noteq> ''1'' \<and> r \<noteq> ''2'' then Inl (ResponseError ''invalid round'')
          else if answer \<noteq> ''found'' \<and> answer \<noteq> ''absent'' \<and> answer \<noteq> ''error''
          then Inl (ResponseError ''invalid check result'')
          else
            (case alive now (o_markers s rid) of
               Some prior \<Rightarrow>
                 if prior = signature cid m r answer then Inr s else Inl (ResponseError ''conflicting result ID'')
             | None \<Rightarrow>
                 if oc_status c \<noteq> Pending then Inl (ResponseError ''case already resolved'')
                 else if alive now (o_results s (cid, r, m)) \<noteq> None then Inl (ResponseError ''conflicting result'')
                 else if (case alive now (o_leases s (cid, r, m)) of
                            None \<Rightarrow> True
                          | Some (held, e) \<Rightarrow> held \<noteq> token \<or> e \<le> now)
                 then Inl (ResponseError ''stale job lease'')
                 else
                   Inr (store_answer Z now cid m r answer rid c
                          (s\<lparr>o_markers := (o_markers s)(rid \<mapsto> (signature cid m r answer, now + two_days)),
                             o_leases := (o_leases s)((cid, r, m) := None)\<rparr>))))"

definition reap_one :: "'z zset_api \<Rightarrow> ms \<Rightarrow> string \<Rightarrow> ('z, 's) ownership \<times> nat \<Rightarrow> ('z, 's) ownership \<times> nat" where
  "reap_one Z now cid sn =
     (case sn of (s, n) \<Rightarrow>
        (case alive now (o_cases s cid) of
           Some c \<Rightarrow>
             if oc_status c = Pending then (resolve Z Unconfirmed cid c s, n + 1)
             else (s\<lparr>o_deadlines := z_rem Z (o_deadlines s) cid\<rparr>, n)
         | None \<Rightarrow> (s\<lparr>o_deadlines := z_rem Z (o_deadlines s) cid\<rparr>, n)))"

definition reap_script :: "'z zset_api \<Rightarrow> ms \<Rightarrow> ('z, 's) ownership \<Rightarrow> ('z, 's) ownership \<times> nat" where
  "reap_script Z now s =
     fold (reap_one Z now) (map fst (z_rangelimit Z (o_deadlines s) Below_All (Incl (of_int now)) 0 100)) (s, 0)"

text \<open>The late correction: a receipt makes the cases of its cycle internal.\<close>

definition correct_case :: "'z zset_api \<Rightarrow> ms \<Rightarrow> int \<Rightarrow> string \<Rightarrow> ('z, 's) ownership \<Rightarrow> ('z, 's) ownership" where
  "correct_case Z now entry cid s =
     (case alive now (o_cases s cid) of
        None \<Rightarrow> s
      | Some c \<Rightarrow>
          if entry \<le> oc_created c \<and> oc_status c \<noteq> Internal then resolve Z Internal cid c s else s)"

definition correct_cases ::
  "'z zset_api \<Rightarrow> 's set_api \<Rightarrow> ms \<Rightarrow> int \<Rightarrow> string \<Rightarrow> receipt \<Rightarrow> ('z, 's) ownership \<Rightarrow> ('z, 's) ownership" where
  "correct_cases Z S now entry cycle_key r s =
     (if 0 < entry \<and> entry \<le> rc_time r
      then fold (correct_case Z now entry)
             (case alive now (o_cycles s cycle_key) of None \<Rightarrow> [] | Some x \<Rightarrow> s_members S x) s
      else s)"

text \<open>\<open>None\<close> is the reply \<open>{0}\<close>.\<close>

definition register_script ::
  "'z zset_api \<Rightarrow> 's set_api \<Rightarrow> ms \<Rightarrow> string \<Rightarrow> string \<Rightarrow> string \<Rightarrow> string \<Rightarrow> string \<Rightarrow> int
     \<Rightarrow> ('z, 's) ownership \<Rightarrow> (('z, 's) ownership \<times> receipt) option" where
  "register_script Z S now receipt_key cycle_key member event identity entry s =
     (case alive now (o_events s event) of
        Some (known, key) \<Rightarrow>
          if known \<noteq> identity then None
          else
            (case alive now (o_receipts s key) of
               None \<Rightarrow> None
             | Some r \<Rightarrow> Some (correct_cases Z S now entry cycle_key r s, r))
      | None \<Rightarrow>
          if alive now (o_receipts s receipt_key) \<noteq> None then None
          else
            let r = \<lparr>rc_member = member, rc_event = event, rc_time = now, rc_expires = now + two_days\<rparr>;
                s1 = s\<lparr>o_receipts := (o_receipts s)(receipt_key \<mapsto> (r, now + two_days)),
                       o_events := (o_events s)(event \<mapsto> ((identity, receipt_key), now + two_days))\<rparr>
            in Some (correct_cases Z S now entry cycle_key r s1, r))"

section \<open>Store\<close>

definition register_success ::
  "'z zset_api \<Rightarrow> 's set_api \<Rightarrow> date_api \<Rightarrow> (string \<Rightarrow> string) \<Rightarrow> ms \<Rightarrow> lead_cycle \<Rightarrow> string \<Rightarrow> string
     \<Rightarrow> ('z, 's) ownership \<Rightarrow> (('z, 's) ownership \<times> receipt) result" where
  "register_success Z S I sha now cycle event member s =
     (if event = [] \<or> member = [] then Inl (ValueError ''event ID and member ID are required'')
      else
        let digest = cycle_digest I sha cycle;
            identity_time = (case reliable_entry_time I cycle of
                Some t \<Rightarrow> t
              | None \<Rightarrow> (case lc_entered cycle of None \<Rightarrow> [] | Some raw \<Rightarrow> raw));
            identity = hash_fields sha [lc_domain cycle, lc_code cycle, str_int (lc_record_id cycle), identity_time];
            receipt_key = (case digest of Some d \<Rightarrow> d | None \<Rightarrow> ''unknown-'' @ event);
            cycle_key = (case digest of Some d \<Rightarrow> d | None \<Rightarrow> ''unreliable'')
        in (case register_script Z S now receipt_key cycle_key member event (identity @ '':'' @ member)
                   (entry_arg (cycle_entry_ms I cycle)) s of
              None \<Rightarrow> Inl (SuccessConflict ''conflicting success receipt'')
            | Some res \<Rightarrow> Inr res))"

definition find_success ::
  "date_api \<Rightarrow> (string \<Rightarrow> string) \<Rightarrow> ms \<Rightarrow> lead_cycle \<Rightarrow> ('z, 's) ownership \<Rightarrow> receipt option" where
  "find_success I sha now cycle s =
     (case cycle_digest I sha cycle of None \<Rightarrow> None | Some d \<Rightarrow> alive now (o_receipts s d))"

text \<open>The snapshot of a case is its record; \<open>creator_member\<close> reads back as \<open>None\<close> when empty.\<close>

definition read_case :: "ms \<Rightarrow> string \<Rightarrow> ('z, 's) ownership \<Rightarrow> own_case result" where
  "read_case now cid s =
     (case alive now (o_cases s cid) of None \<Rightarrow> Inl (LookupError ''unknown ownership case'') | Some c \<Rightarrow> Inr c)"

definition open_case ::
  "'z zset_api \<Rightarrow> 's set_api \<Rightarrow> date_api \<Rightarrow> (string \<Rightarrow> string) \<Rightarrow> ms \<Rightarrow> string \<Rightarrow> lead_cycle \<Rightarrow> string list \<Rightarrow> string option
     \<Rightarrow> ('z, 's) ownership \<Rightarrow> (('z, 's) ownership \<times> own_case) result" where
  "open_case Z S I sha now cid cycle members creator s =
     (if cid = [] \<or> members = [] \<or> \<not> distinct members then Inl (ValueError ''case ID and unique members are required'')
      else if (case creator of None \<Rightarrow> False | Some m \<Rightarrow> m \<notin> set members) then Inl (ValueError ''creator must be a case member'')
      else
        (case open_script Z S now cid cycle (case cycle_digest I sha cycle of None \<Rightarrow> [] | Some d \<Rightarrow> d) members
                (case creator of None \<Rightarrow> [] | Some m \<Rightarrow> m) (entry_arg (cycle_entry_ms I cycle)) s of
           Inl (ResponseError e) \<Rightarrow> Inl (ValueError e)
         | Inl e \<Rightarrow> Inl e
         | Inr s' \<Rightarrow> (case read_case now cid s' of Inl e \<Rightarrow> Inl e | Inr c \<Rightarrow> Inr (s', c))))"

definition submit_result ::
  "'z zset_api \<Rightarrow> ms \<Rightarrow> string \<Rightarrow> string \<Rightarrow> nat \<Rightarrow> string \<Rightarrow> string \<Rightarrow> string
     \<Rightarrow> ('z, 's) ownership \<Rightarrow> (('z, 's) ownership \<times> own_case) result" where
  "submit_result Z now cid m round_no answer rid token s =
     (case submit_script Z now cid m (str_nat round_no) answer rid token s of
        Inl (ResponseError e) \<Rightarrow> Inl (ValueError e)
      | Inl e \<Rightarrow> Inl e
      | Inr s' \<Rightarrow> (case read_case now cid s' of Inl e \<Rightarrow> Inl e | Inr c \<Rightarrow> Inr (s', c)))"

definition heartbeat :: "ms \<Rightarrow> string \<Rightarrow> int \<Rightarrow> ('z, 's) ownership \<Rightarrow> (('z, 's) ownership \<times> ms) result" where
  "heartbeat now member backlog s =
     (if member = [] \<or> backlog < 0 then Inl (ValueError ''invalid heartbeat'')
      else Inr (s\<lparr>o_heartbeats := (o_heartbeats s)(member \<mapsto> ((now, nat backlog), now + 90000))\<rparr>, now))"

definition record_conflict :: "('z, 's) ownership \<Rightarrow> ('z, 's) ownership" where
  "record_conflict s = s\<lparr>o_conflicts := o_conflicts s + 1\<rparr>"

section \<open>Routes\<close>

text \<open>
  The handlers behind the ownership role: the caller's member id and the validated body. An
  error other than the named ones (\<open>Inl\<close> of a store call, or Redis failing) is a 503, as is
  the error of \<open>record_conflict\<close>, which does not fail here.
\<close>

definition unavailable_error :: exn where
  "unavailable_error = HTTPException 503 ''ownership service unavailable''"

definition publish_success ::
  "'z zset_api \<Rightarrow> 's set_api \<Rightarrow> date_api \<Rightarrow> (string \<Rightarrow> string) \<Rightarrow> ms \<Rightarrow> string \<Rightarrow> string \<Rightarrow> lead_cycle
     \<Rightarrow> ('z, 's) ownership \<Rightarrow> ('z, 's) ownership \<times> receipt result" where
  "publish_success Z S I sha now caller event cycle s =
     (case register_success Z S I sha now cycle event caller s of
        Inl (SuccessConflict _) \<Rightarrow> (record_conflict s, Inl (HTTPException 409 ''conflicting success receipt''))
      | Inl _ \<Rightarrow> (s, Inl unavailable_error)
      | Inr (s', r) \<Rightarrow> (s', Inr r))"

definition create_case ::
  "'z zset_api \<Rightarrow> 's set_api \<Rightarrow> date_api \<Rightarrow> (string \<Rightarrow> string) \<Rightarrow> ms \<Rightarrow> string \<Rightarrow> string list \<Rightarrow> string \<Rightarrow> lead_cycle
     \<Rightarrow> ('z, 's) ownership \<Rightarrow> ('z, 's) ownership \<times> own_case result" where
  "create_case Z S I sha now caller members cid cycle s =
     (case open_case Z S I sha now cid cycle members (Some caller) s of
        Inl (ValueError _) \<Rightarrow> (record_conflict s, Inl (HTTPException 409 ''conflicting ownership case''))
      | Inl _ \<Rightarrow> (s, Inl unavailable_error)
      | Inr (s', c) \<Rightarrow> (s', Inr c))"

definition read_case_route :: "ms \<Rightarrow> string \<Rightarrow> string \<Rightarrow> ('z, 's) ownership \<Rightarrow> own_case result" where
  "read_case_route now caller cid s =
     (case read_case now cid s of
        Inl (LookupError _) \<Rightarrow> Inl (HTTPException 404 ''ownership case not found'')
      | Inl _ \<Rightarrow> Inl unavailable_error
      | Inr c \<Rightarrow> if caller \<notin> set (oc_members c) then Inl (HTTPException 403 ''case member required'') else Inr c)"

definition claim_job ::
  "'z zset_api \<Rightarrow> ms \<Rightarrow> string \<Rightarrow> string \<Rightarrow> ('z, 's) ownership
     \<Rightarrow> ('z, 's) ownership \<times> (string \<times> string \<times> lead_cycle) option result" where
  "claim_job Z now token caller s =
     (case claim_script Z now caller token s of
        (s', Inl _) \<Rightarrow> (s', Inl unavailable_error)
      | (s', Inr job) \<Rightarrow> (s', Inr job))"

definition submit_check ::
  "'z zset_api \<Rightarrow> ms \<Rightarrow> string \<Rightarrow> string \<Rightarrow> nat \<Rightarrow> string \<Rightarrow> string \<Rightarrow> string
     \<Rightarrow> ('z, 's) ownership \<Rightarrow> ('z, 's) ownership \<times> own_case result" where
  "submit_check Z now caller cid round_no answer rid token s =
     (case submit_result Z now cid caller round_no answer rid token s of
        Inl (ValueError _) \<Rightarrow> (record_conflict s, Inl (HTTPException 409 ''conflicting ownership check''))
      | Inl _ \<Rightarrow> (s, Inl unavailable_error)
      | Inr (s', c) \<Rightarrow> (s', Inr c))"

definition heartbeat_route :: "ms \<Rightarrow> string \<Rightarrow> int \<Rightarrow> ('z, 's) ownership \<Rightarrow> ('z, 's) ownership \<times> ms result" where
  "heartbeat_route now caller backlog s =
     (case heartbeat now caller backlog s of
        Inl _ \<Rightarrow> (s, Inl unavailable_error)
      | Inr (s', t) \<Rightarrow> (s', Inr t))"

section \<open>Runs\<close>

text \<open>
  The operations of all callers in any order. The clock does not go back, a case id is not
  used again after its case expired, and a settled member list has no repetitions.
\<close>

datatype own_event =
    Open_Case string lead_cycle string "string list" string int
  | Claim_Job string string
  | Submit_Check string string string string string string
  | Reap
  | Register_Success string string string string string int

definition own_step ::
  "'z zset_api \<Rightarrow> 's set_api \<Rightarrow> ms \<Rightarrow> own_event \<Rightarrow> ('z, 's) ownership \<Rightarrow> ('z, 's) ownership" where
  "own_step Z S now e s =
     (case e of
        Open_Case cid cycle digest members creator entry \<Rightarrow>
          (case open_script Z S now cid cycle digest members creator entry s of Inl _ \<Rightarrow> s | Inr s' \<Rightarrow> s')
      | Claim_Job m token \<Rightarrow> fst (claim_script Z now m token s)
      | Submit_Check cid m r answer rid token \<Rightarrow>
          (case submit_script Z now cid m r answer rid token s of Inl _ \<Rightarrow> s | Inr s' \<Rightarrow> s')
      | Reap \<Rightarrow> fst (reap_script Z now s)
      | Register_Success receipt_key cycle_key member event identity entry \<Rightarrow>
          (case register_script Z S now receipt_key cycle_key member event identity entry s of
             None \<Rightarrow> s | Some (s', _) \<Rightarrow> s'))"

definition may_happen :: "ms \<Rightarrow> own_event \<Rightarrow> ('z, 's) ownership \<Rightarrow> bool" where
  "may_happen now e s =
     (case e of
        Open_Case cid cycle digest members creator entry \<Rightarrow>
          o_cases s cid = None \<or> alive now (o_cases s cid) \<noteq> None
      | _ \<Rightarrow> True)"

definition new_ownership :: "'z zset_api \<Rightarrow> ('z, 's) ownership" where
  "new_ownership Z =
     \<lparr>o_cases = Map.empty, o_results = Map.empty, o_leases = Map.empty, o_markers = Map.empty,
      o_jobs = (\<lambda>_. z_empty Z), o_deadlines = z_empty Z, o_receipts = Map.empty, o_events = Map.empty,
      o_cycles = Map.empty, o_heartbeats = Map.empty, o_check_errors = 0, o_conflicts = 0\<rparr>"

inductive own_run :: "'z zset_api \<Rightarrow> 's set_api \<Rightarrow> ms \<Rightarrow> ('z, 's) ownership \<Rightarrow> bool" for Z S where
  begin_run: "0 \<le> now \<Longrightarrow> own_run Z S now (new_ownership Z)"
| step: "own_run Z S clock s \<Longrightarrow> clock \<le> now \<Longrightarrow> may_happen now e s \<Longrightarrow> own_run Z S now (own_step Z S now e s)"

inductive_cases own_runE: "own_run Z S now s"

section \<open>The invariant\<close>

definition absent_all :: "('z, 's) ownership \<Rightarrow> string \<Rightarrow> string \<Rightarrow> string list \<Rightarrow> bool" where
  "absent_all s cid r members \<longleftrightarrow>
     (\<forall>m \<in> set members. \<exists>rid x. o_results s (cid, r, m) = Some ((rid, ''absent''), x))"

definition case_ok :: "ms \<Rightarrow> ('z, 's) ownership \<Rightarrow> string \<Rightarrow> own_case \<Rightarrow> ms \<Rightarrow> bool" where
  "case_ok clock s cid c e \<longleftrightarrow>
     (oc_first_done c \<noteq> None \<longrightarrow> absent_all s cid ''1'' (oc_members c)) \<and>
     (oc_status c = External \<longrightarrow> oc_first_done c \<noteq> None \<and> absent_all s cid ''2'' (oc_members c)) \<and>
     e \<le> clock + two_days \<and> (\<forall>r m v x. o_results s (cid, r, m) = Some (v, x) \<longrightarrow> e \<le> x)"

definition in_second :: "('z, 's) ownership \<Rightarrow> string \<Rightarrow> bool" where
  "in_second s cid \<longleftrightarrow> (\<exists>c e. o_cases s cid = Some (c, e) \<and> oc_first_done c \<noteq> None)"

definition second_ok :: "'z zset_api \<Rightarrow> ('z, 's) ownership \<Rightarrow> string \<Rightarrow> bool" where
  "second_ok Z s cid \<longleftrightarrow>
     (\<forall>m. o_leases s (cid, ''2'', m) = None \<and> z_score Z (o_jobs s m) (job_id cid ''2'') = None) \<or> in_second s cid"

definition own_inv :: "'z zset_api \<Rightarrow> ms \<Rightarrow> ('z, 's) ownership \<Rightarrow> bool" where
  "own_inv Z clock s \<longleftrightarrow>
     (\<forall>cid. case o_cases s cid of
        Some (c, e) \<Rightarrow> case_ok clock s cid c e
      | None \<Rightarrow> \<forall>r m. o_results s (cid, r, m) = None) \<and>
     (\<forall>cid. second_ok Z s cid)"

lemma own_invD:
  assumes "own_inv Z clock s"
  shows "o_cases s cid = Some (c, e) \<Longrightarrow> case_ok clock s cid c e"
    and "o_cases s cid = None \<Longrightarrow> o_results s (cid, r, m) = None"
    and "second_ok Z s cid"
proof -
  from assms have one: "case o_cases s cid of Some (c, e) \<Rightarrow> case_ok clock s cid c e
      | None \<Rightarrow> \<forall>r m. o_results s (cid, r, m) = None" and two: "second_ok Z s cid"
    unfolding own_inv_def by blast+
  show "o_cases s cid = Some (c, e) \<Longrightarrow> case_ok clock s cid c e" using one by simp
  show "o_cases s cid = None \<Longrightarrow> o_results s (cid, r, m) = None" using one by simp
  show "second_ok Z s cid" by (rule two)
qed

lemma own_invI:
  assumes "\<And>cid c e. o_cases s cid = Some (c, e) \<Longrightarrow> case_ok clock s cid c e"
    and "\<And>cid r m. o_cases s cid = None \<Longrightarrow> o_results s (cid, r, m) = None"
    and "\<And>cid. second_ok Z s cid"
  shows "own_inv Z clock s"
  using assms by (auto simp: own_inv_def split: option.splits)

lemma own_inv_later: "own_inv Z clock s \<Longrightarrow> clock \<le> now \<Longrightarrow> own_inv Z now s"
  by (auto intro!: own_invI simp: case_ok_def dest: own_invD)

text \<open>Parts of the state the invariant does not look at.\<close>

lemma own_inv_cong:
  assumes "own_inv Z clock s" and "o_cases s' = o_cases s" and "o_results s' = o_results s"
    and "\<And>cid m. o_leases s' (cid, ''2'', m) \<noteq> None \<Longrightarrow> o_leases s (cid, ''2'', m) \<noteq> None \<or> in_second s cid"
    and "\<And>cid m. z_score Z (o_jobs s' m) (job_id cid ''2'') \<noteq> None \<Longrightarrow>
           z_score Z (o_jobs s m) (job_id cid ''2'') \<noteq> None \<or> in_second s cid"
  shows "own_inv Z clock s'"
proof (rule own_invI)
  fix cid c e assume "o_cases s' cid = Some (c, e)"
  with assms(1-3) show "case_ok clock s' cid c e"
    using own_invD(1) [OF assms(1)] by (simp add: case_ok_def absent_all_def)
next
  fix cid r m assume "o_cases s' cid = None"
  with assms(2,3) show "o_results s' (cid, r, m) = None" using own_invD(2) [OF assms(1)] by simp
next
  fix cid
  have "in_second s' cid = in_second s cid" using assms(2) by (simp add: in_second_def)
  then show "second_ok Z s' cid"
    using own_invD(3) [OF assms(1), of cid] assms(4) [of cid] assms(5) [where cid = cid] unfolding second_ok_def by blast
qed

text \<open>A case changes its status, revision and error count only.\<close>

lemma own_inv_set_case:
  assumes "own_inv Z clock s" and "o_cases s cid = Some (c, e)"
    and "oc_members c' = oc_members c" and "oc_first_done c' = oc_first_done c"
    and "oc_status c' = External \<Longrightarrow> oc_status c = External"
  shows "own_inv Z clock (s\<lparr>o_cases := set_case cid c' (o_cases s)\<rparr>)"
proof (rule own_invI)
  let ?s = "s\<lparr>o_cases := set_case cid c' (o_cases s)\<rparr>"
  fix k d x assume "o_cases ?s k = Some (d, x)"
  then show "case_ok clock ?s k d x"
    using own_invD(1) [OF assms(1)] assms(2-5)
    by (cases "k = cid") (fastforce simp: set_case_def case_ok_def absent_all_def)+
next
  fix k r m assume "o_cases (s\<lparr>o_cases := set_case cid c' (o_cases s)\<rparr>) k = None"
  then show "o_results (s\<lparr>o_cases := set_case cid c' (o_cases s)\<rparr>) (k, r, m) = None"
    using own_invD(2) [OF assms(1)] assms(2) by (auto simp: set_case_def split: if_splits)
next
  fix k
  have "in_second (s\<lparr>o_cases := set_case cid c' (o_cases s)\<rparr>) k = in_second s k"
    using assms(2,4) by (auto simp: in_second_def set_case_def)
  then show "second_ok Z (s\<lparr>o_cases := set_case cid c' (o_cases s)\<rparr>) k"
    using own_invD(3) [OF assms(1), of k] by (simp add: second_ok_def)
qed

lemma job_id_inject: "job_id a ''1'' = job_id b ''1'' \<longleftrightarrow> a = b" "job_id a ''2'' = job_id b ''2'' \<longleftrightarrow> a = b"
  "job_id a ''1'' \<noteq> job_id b ''2''"
  by (auto simp: job_id_def)

lemma parse_job_id:
  assumes "parse_job v = Some (cid, r)"
  shows "v = job_id cid r \<and> (r = ''1'' \<or> r = ''2'')"
proof -
  let ?n = "length v - 2"
  from assms have p: "3 \<le> length v" "v ! ?n = CHR '':''" "cid = take ?n v" "r = drop (Suc ?n) v" "r = ''1'' \<or> r = ''2''"
    by (auto simp: parse_job_def Let_def split: if_splits)
  from p(1) have "?n < length v" by simp
  from id_take_nth_drop [OF this] have "v = take ?n v @ v ! ?n # drop (Suc ?n) v" .
  with p show ?thesis by (simp add: job_id_def)
qed

context zset
begin

lemma remove_jobs_score:
  "z_score Z (remove_jobs Z cid ms J m) j = Some x \<Longrightarrow> z_score Z (J m) j = Some x"
  unfolding remove_jobs_def
proof (induction ms arbitrary: J)
  case (Cons a ms)
  from Cons.IH [of "J(a := z_rem Z (z_rem Z (J a) (job_id cid ''1'')) (job_id cid ''2''))"] Cons.prems
  show ?case by (auto split: if_splits)
qed simp

lemma add_jobs_score:
  "z_score Z (add_jobs Z job t ms J m) j = (if j = job \<and> m \<in> set ms then Some (of_int t) else z_score Z (J m) j)"
  unfolding add_jobs_def by (induction ms arbitrary: J) auto

lemma resolve_inv:
  assumes "own_inv Z clock s" and "o_cases s cid = Some (c, e)" and "status \<noteq> External"
  shows "own_inv Z clock (resolve Z status cid c s)"
proof -
  have "own_inv Z clock (s\<lparr>o_cases := set_case cid (c\<lparr>oc_status := status, oc_revision := oc_revision c + 1\<rparr>) (o_cases s)\<rparr>)"
    by (rule own_inv_set_case [OF assms(1,2)]) (use assms(3) in auto)
  then show ?thesis
    by (rule own_inv_cong) (auto simp: resolve_def dest: remove_jobs_score)
qed

end

context zset
begin

lemma in_second_cong: "o_cases s' = o_cases s \<Longrightarrow> in_second s' cid = in_second s cid"
  by (simp add: in_second_def)

lemma drop_job_inv:
  "own_inv Z clock s \<Longrightarrow> own_inv Z clock (s\<lparr>o_jobs := (o_jobs s)(m := z_rem Z (o_jobs s m) v)\<rparr>)"
  by (erule own_inv_cong) (auto split: if_splits)

lemma claim_loop_inv:
  assumes "own_inv Z now s" and "\<forall>v \<in> set vs. \<forall>cid. parse_job v = Some (cid, ''2'') \<longrightarrow> in_second s cid"
  shows "own_inv Z now (fst (claim_loop Z now m token vs s))"
  using assms
proof (induction vs arbitrary: s)
  case (Cons v vs)
  let ?drop = "s\<lparr>o_jobs := (o_jobs s)(m := z_rem Z (o_jobs s m) v)\<rparr>"
  have dropped: "own_inv Z now (fst (claim_loop Z now m token vs ?drop))"
    using Cons.prems in_second_cong [of ?drop s] by (intro Cons.IH drop_job_inv) auto
  have skipped: "own_inv Z now (fst (claim_loop Z now m token vs s))"
    using Cons.prems by (intro Cons.IH) auto
  have leased: "own_inv Z now (s\<lparr>o_leases := (o_leases s)((cid, r, m) \<mapsto> x)\<rparr>)"
    if "parse_job v = Some (cid, r)" for cid r x
    using Cons.prems that by (intro own_inv_cong [OF Cons.prems(1)]) (auto split: if_splits)
  show ?case
    using dropped skipped leased Cons.prems(1) by (auto split: option.splits)
qed simp

lemma claim_script_inv:
  assumes "own_inv Z now s"
  shows "own_inv Z now (fst (claim_script Z now m token s))"
  unfolding claim_script_def
proof (rule claim_loop_inv [OF assms], intro ballI allI impI)
  fix v cid
  assume v: "v \<in> set (map fst (z_rangelimit Z (o_jobs s m) Below_All (Incl (of_int now)) 0 100))"
    and p: "parse_job v = Some (cid, ''2'')"
  from v have "z_score Z (o_jobs s m) v \<noteq> None" using rangelimit_fst by blast
  with parse_job_id [OF p] own_invD(3) [OF assms, of cid] show "in_second s cid"
    by (auto simp: second_ok_def)
qed

lemma open_script_inv:
  assumes "own_inv Z now s" and "o_cases s cid = None \<or> alive now (o_cases s cid) \<noteq> None"
    and "open_script Z S now cid cycle digest members creator entry s = Inr s'"
  shows "own_inv Z now s'"
proof (cases "alive now (o_cases s cid)")
  case (Some c)
  with assms(1,3) show ?thesis by (auto simp: open_script_def split: if_splits)
next
  case None
  with assms(2) have fresh: "o_cases s cid = None" by simp
  from None assms(3) obtain c where c: "o_cases s' = (o_cases s)(cid \<mapsto> (c, now + two_days))"
    "oc_first_done c = None" "oc_status c \<noteq> External" "o_results s' = o_results s" "o_leases s' = o_leases s"
    "\<And>m j. j \<noteq> job_id cid ''1'' \<Longrightarrow> z_score Z (o_jobs s' m) j = z_score Z (o_jobs s m) j"
    by (auto simp: open_script_def Let_def add_jobs_score split: if_splits)
  show ?thesis
  proof (rule own_invI)
    fix k d x assume "o_cases s' k = Some (d, x)"
    then show "case_ok now s' k d x"
      using c own_invD(1) [OF assms(1), of k d x] own_invD(2) [OF assms(1) fresh]
      by (auto simp: case_ok_def absent_all_def split: if_splits)
  next
    fix k r m assume "o_cases s' k = None"
    then show "o_results s' (k, r, m) = None"
      using c own_invD(2) [OF assms(1), of k] by (auto split: if_splits)
  next
    fix k
    have "in_second s k \<Longrightarrow> in_second s' k" using c(1) fresh by (auto simp: in_second_def)
    moreover have "job_id k ''2'' \<noteq> job_id cid ''1''" by (metis job_id_inject(3))
    ultimately show "second_ok Z s' k"
      using own_invD(3) [OF assms(1), of k] c(5,6) unfolding second_ok_def by metis
  qed
qed

lemma add_result_inv:
  assumes "own_inv Z now s" and "o_cases s cid = Some (c, e)" and "now < e" and "alive now (o_results s (cid, r, m)) = None"
  shows "own_inv Z now (s\<lparr>o_results := (o_results s)((cid, r, m) \<mapsto> (v, now + two_days))\<rparr>)" (is "own_inv Z now ?s")
proof (rule own_invI)
  fix k d x assume "o_cases ?s k = Some (d, x)"
  then have k: "o_cases s k = Some (d, x)" by simp
  note ok = own_invD(1) [OF assms(1) k]
  show "case_ok now ?s k d x"
  proof (cases "k = cid")
    case True
    with k assms(2) have x: "x = e" by simp
    have none: "o_results s (cid, r, m) = None"
    proof (cases "o_results s (cid, r, m)")
      case (Some vy)
      obtain w y where vy: "vy = (w, y)" by (cases vy)
      with ok Some True x have "e \<le> y" unfolding case_ok_def by blast
      with assms(3,4) Some vy show ?thesis by simp
    qed simp
    then have "absent_all s cid q ms \<Longrightarrow> absent_all ?s cid q ms" for q ms
      by (fastforce simp: absent_all_def)
    with ok True x show ?thesis by (auto simp: case_ok_def)
  next
    case False
    with ok show ?thesis by (simp add: case_ok_def absent_all_def)
  qed
next
  fix k q n assume "o_cases ?s k = None"
  then show "o_results ?s (k, q, n) = None" using own_invD(2) [OF assms(1), of k] assms(2) by auto
next
  fix k show "second_ok Z ?s k" using own_invD(3) [OF assms(1), of k] by (simp add: second_ok_def in_second_def)
qed

lemma round_complete_absent:
  "round_complete now cid r ms s \<Longrightarrow> absent_all s cid r ms"
  by (fastforce simp: round_complete_def absent_all_def alive_Some)

lemma first_done_inv:
  assumes "own_inv Z now s" and "o_cases s cid = Some (c, e)" and "oc_status c = Pending"
    and "absent_all s cid ''1'' (oc_members c)"
  shows "own_inv Z now (s\<lparr>o_cases := set_case cid (c\<lparr>oc_first_done := Some t\<rparr>) (o_cases s),
     o_jobs := add_jobs Z (job_id cid ''2'') due_ms ms (o_jobs s)\<rparr>)" (is "own_inv Z now ?s")
proof (rule own_invI)
  fix k d x assume "o_cases ?s k = Some (d, x)"
  then show "case_ok now ?s k d x"
    using own_invD(1) [OF assms(1), of k] assms(2-4)
    by (auto simp: set_case_def case_ok_def absent_all_def split: if_splits)
next
  fix k r m assume "o_cases ?s k = None"
  then show "o_results ?s (k, r, m) = None"
    using own_invD(2) [OF assms(1), of k] assms(2) by (auto simp: set_case_def split: if_splits)
next
  fix k
  have "in_second ?s cid" using assms(2) by (simp add: in_second_def set_case_def)
  moreover have "in_second s k \<Longrightarrow> in_second ?s k" using assms(2) by (auto simp: in_second_def set_case_def)
  ultimately show "second_ok Z ?s k"
    using own_invD(3) [OF assms(1), of k]
    by (cases "k = cid") (auto simp: second_ok_def add_jobs_score job_id_inject)
qed

lemma external_inv:
  assumes "own_inv Z now s" and "o_cases s cid = Some (c, e)" and "oc_first_done c \<noteq> None"
    and "absent_all s cid ''2'' (oc_members c)"
  shows "own_inv Z now (s\<lparr>o_cases := set_case cid (c\<lparr>oc_status := External, oc_revision := n\<rparr>) (o_cases s),
     o_deadlines := D\<rparr>)" (is "own_inv Z now ?s")
proof (rule own_invI)
  fix k d x assume "o_cases ?s k = Some (d, x)"
  then show "case_ok now ?s k d x"
    using own_invD(1) [OF assms(1), of k] assms(2-4)
    by (auto simp: set_case_def case_ok_def absent_all_def split: if_splits)
next
  fix k r m assume "o_cases ?s k = None"
  then show "o_results ?s (k, r, m) = None"
    using own_invD(2) [OF assms(1), of k] assms(2) by (auto simp: set_case_def split: if_splits)
next
  fix k
  have "in_second s k \<Longrightarrow> in_second ?s k" using assms(2,3) by (auto simp: in_second_def set_case_def)
  then show "second_ok Z ?s k"
    using own_invD(3) [OF assms(1), of k] by (auto simp: second_ok_def)
qed

end

lemma submit_cases:
  assumes "submit_script Z now cid m r answer rid token s = Inr s'"
  obtains (replay) c where "alive now (o_cases s cid) = Some c" "alive now (o_markers s rid) = Some (signature cid m r answer)" "s' = s"
    | (stored) c where "alive now (o_cases s cid) = Some c" "m \<in> set (oc_members c)" "oc_status c = Pending"
        "alive now (o_results s (cid, r, m)) = None" "r = ''1'' \<or> r = ''2''"
        "\<exists>e. alive now (o_leases s (cid, r, m)) = Some (token, e) \<and> now < e" "alive now (o_markers s rid) = None"
        "s' = store_answer Z now cid m r answer rid c
           (s\<lparr>o_markers := (o_markers s)(rid \<mapsto> (signature cid m r answer, now + two_days)),
              o_leases := (o_leases s)((cid, r, m) := None)\<rparr>)"
        "answer = ''found'' \<or> answer = ''absent'' \<or> answer = ''error''"
proof -
  from assms obtain c where c: "alive now (o_cases s cid) = Some c" "m \<in> set (oc_members c)" "r = ''1'' \<or> r = ''2''"
      "answer = ''found'' \<or> answer = ''absent'' \<or> answer = ''error''"
    by (auto simp: submit_script_def split: option.splits if_splits)
  show ?thesis
  proof (cases "alive now (o_markers s rid)")
    case (Some prior)
    with assms c show ?thesis by (intro replay) (auto simp: submit_script_def split: if_splits)
  next
    case None
    with assms c show ?thesis
      by (intro stored [of c]) (auto simp: submit_script_def not_le split: if_splits option.splits)
  qed
qed

context zset
begin

lemma store_answer_inv:
  assumes "own_inv Z now s" and "o_cases s cid = Some (c, e)" and "now < e" and "oc_status c = Pending"
    and "alive now (o_results s (cid, r, m)) = None" and "r = ''1'' \<or> r = ''2''" and "r = ''2'' \<longrightarrow> in_second s cid"
  shows "own_inv Z now (store_answer Z now cid m r answer rid c s)"
proof -
  define s1 where "s1 = s\<lparr>o_results := (o_results s)((cid, r, m) \<mapsto> ((rid, answer), now + two_days)),
               o_jobs := (o_jobs s)(m := z_rem Z (o_jobs s m) (job_id cid r))\<rparr>"
  have err: "own_inv Z now (s\<lparr>o_cases := set_case cid (c\<lparr>oc_errors := oc_errors c + 1\<rparr>) (o_cases s),
      o_check_errors := o_check_errors s + 1, o_jobs := (o_jobs s)(m := z_add Z (o_jobs s m) (job_id cid r) t)\<rparr>)" for t
  proof (rule own_inv_cong)
    show "own_inv Z now (s\<lparr>o_cases := set_case cid (c\<lparr>oc_errors := oc_errors c + 1\<rparr>) (o_cases s)\<rparr>)"
      by (rule own_inv_set_case [OF assms(1,2)]) auto
    fix k n
    assume "z_score Z (o_jobs (s\<lparr>o_cases := set_case cid (c\<lparr>oc_errors := oc_errors c + 1\<rparr>) (o_cases s),
      o_check_errors := o_check_errors s + 1, o_jobs := (o_jobs s)(m := z_add Z (o_jobs s m) (job_id cid r) t)\<rparr>) n) (job_id k ''2'') \<noteq> None"
    then show "z_score Z (o_jobs (s\<lparr>o_cases := set_case cid (c\<lparr>oc_errors := oc_errors c + 1\<rparr>) (o_cases s)\<rparr>) n) (job_id k ''2'') \<noteq> None \<or>
      in_second (s\<lparr>o_cases := set_case cid (c\<lparr>oc_errors := oc_errors c + 1\<rparr>) (o_cases s)\<rparr>) k"
      using assms(2,6,7) job_id_inject(3) [of cid k] job_id_inject(3) [of cid k, symmetric]
      by (auto simp: in_second_def set_case_def job_id_inject split: if_splits)
  qed simp_all
  have s1: "own_inv Z now s1"
    using drop_job_inv [OF add_result_inv [OF assms(1-3,5), of "(rid, answer)"], of m "job_id cid r"] by (simp add: s1_def)
  have c1: "o_cases s1 cid = Some (c, e)" using assms(2) by (simp add: s1_def)
  have found: "own_inv Z now (resolve Z Internal cid c s1)"
    by (rule resolve_inv [OF s1 c1]) simp
  have first: "r = ''1'' \<Longrightarrow> round_complete now cid r (oc_members c) s1 \<Longrightarrow>
      own_inv Z now (s1\<lparr>o_cases := set_case cid (c\<lparr>oc_first_done := Some now\<rparr>) (o_cases s1),
        o_jobs := add_jobs Z (job_id cid ''2'') due_ms ms (o_jobs s1)\<rparr>)" for due_ms ms
    by (rule first_done_inv [OF s1 c1 assms(4)]) (auto dest: round_complete_absent)
  have last: "r = ''2'' \<Longrightarrow> round_complete now cid r (oc_members c) s1 \<Longrightarrow>
      own_inv Z now (s1\<lparr>o_cases := set_case cid (c\<lparr>oc_status := External, oc_revision := n\<rparr>) (o_cases s1),
        o_deadlines := D\<rparr>)" for n D
    using assms(2,7) by (intro external_inv [OF s1 c1]) (auto dest: round_complete_absent simp: in_second_def)
  have main: "store_answer Z now cid m r answer rid c s =
     (if answer = ''error'' then
        s\<lparr>o_cases := set_case cid (c\<lparr>oc_errors := oc_errors c + 1\<rparr>) (o_cases s), o_check_errors := o_check_errors s + 1,
          o_jobs := (o_jobs s)(m := z_add Z (o_jobs s m) (job_id cid r) (of_int (now + 30000)))\<rparr>
      else if answer = ''found'' then resolve Z Internal cid c s1
      else if \<not> round_complete now cid r (oc_members c) s1 then s1
      else if r = ''1'' then
        s1\<lparr>o_cases := set_case cid (c\<lparr>oc_first_done := Some now\<rparr>) (o_cases s1),
           o_jobs := add_jobs Z (job_id cid ''2'') (max (now + 15000) (oc_created c + 30000)) (oc_members c) (o_jobs s1)\<rparr>
      else s1\<lparr>o_cases := set_case cid (c\<lparr>oc_status := External, oc_revision := oc_revision c + 1\<rparr>) (o_cases s1),
              o_deadlines := z_rem Z (o_deadlines s1) cid\<rparr>)"
    unfolding store_answer_def Let_def s1_def by (rule refl)
  show ?thesis
    unfolding main using err s1 found first last assms(6) by auto
qed

lemma submit_script_inv:
  assumes "own_inv Z now s" and "submit_script Z now cid m r answer rid token s = Inr s'"
  shows "own_inv Z now s'"
proof (cases rule: submit_cases [OF assms(2)])
  case (2 c)
  from 2(1) obtain e where c: "o_cases s cid = Some (c, e)" "now < e" by (auto simp: alive_Some)
  let ?s0 = "s\<lparr>o_markers := (o_markers s)(rid \<mapsto> (signature cid m r answer, now + two_days)),
         o_leases := (o_leases s)((cid, r, m) := None)\<rparr>"
  have inv: "own_inv Z now ?s0" by (rule own_inv_cong [OF assms(1)]) (auto split: if_splits)
  have "o_leases s (cid, r, m) \<noteq> None" using 2(6) by (cases "o_leases s (cid, r, m)") auto
  then have "r = ''2'' \<longrightarrow> in_second ?s0 cid"
    using own_invD(3) [OF assms(1), of cid] by (auto simp: second_ok_def in_second_def)
  then show ?thesis unfolding 2(8) using c 2 by (intro store_answer_inv [OF inv]) auto
qed (use assms(1) in simp)

lemma reap_one_inv: "own_inv Z now (fst sn) \<Longrightarrow> own_inv Z now (fst (reap_one Z now cid sn))"
proof -
  assume inv: "own_inv Z now (fst sn)"
  have "own_inv Z now ((fst sn)\<lparr>o_deadlines := D\<rparr>)" for D
    by (rule own_inv_cong [OF inv]) auto
  moreover have "own_inv Z now (resolve Z Unconfirmed cid c (fst sn))" if "o_cases (fst sn) cid = Some (c, e)" for c e
    by (rule resolve_inv [OF inv that]) simp
  ultimately show ?thesis by (auto simp: reap_one_def alive_Some split: prod.splits option.splits)
qed

lemma reap_fold_inv:
  "own_inv Z now (fst sn) \<Longrightarrow> own_inv Z now (fst (fold (reap_one Z now) cids sn))"
  by (induction cids arbitrary: sn) (simp_all add: reap_one_inv)

lemma reap_script_inv: "own_inv Z now s \<Longrightarrow> own_inv Z now (fst (reap_script Z now s))"
  unfolding reap_script_def by (rule reap_fold_inv) simp

lemma correct_case_inv: "own_inv Z now s \<Longrightarrow> own_inv Z now (correct_case Z now entry cid s)"
  by (auto simp: correct_case_def alive_Some intro: resolve_inv split: option.splits)

lemma correct_fold_inv: "own_inv Z now s \<Longrightarrow> own_inv Z now (fold (correct_case Z now entry) cids s)"
  by (induction cids arbitrary: s) (simp_all add: correct_case_inv)

lemma correct_cases_inv: "own_inv Z now s \<Longrightarrow> own_inv Z now (correct_cases Z S now entry k r s)"
  by (simp add: correct_cases_def correct_fold_inv)

lemma register_script_inv:
  assumes "own_inv Z now s" and "register_script Z S now rk ck member event identity entry s = Some (s', r)"
  shows "own_inv Z now s'"
proof -
  have new: "own_inv Z now (s\<lparr>o_receipts := A, o_events := B\<rparr>)" for A B
    by (rule own_inv_cong [OF assms(1)]) auto
  show ?thesis
  proof (cases "alive now (o_events s event)")
    case (Some k)
    with assms show ?thesis
      by (auto simp: register_script_def intro: correct_cases_inv split: prod.splits option.splits if_splits)
  next
    case None
    with assms(2) correct_cases_inv [OF new] show ?thesis
      by (auto simp: register_script_def Let_def split: if_splits)
  qed
qed

lemma own_step_inv:
  assumes "own_inv Z now s" and "may_happen now e s"
  shows "own_inv Z now (own_step Z S now e s)"
proof (cases e)
  case (Open_Case cid cycle digest members creator entry)
  with assms(2) have "o_cases s cid = None \<or> alive now (o_cases s cid) \<noteq> None" by (simp add: may_happen_def)
  with Open_Case show ?thesis using open_script_inv [OF assms(1)] assms(1)
    by (simp add: own_step_def split: sum.split)
next
  case (Claim_Job m token)
  then show ?thesis using claim_script_inv [OF assms(1)] by (simp add: own_step_def)
next
  case (Submit_Check cid m r answer rid token)
  then show ?thesis using submit_script_inv [OF assms(1)] assms(1) by (simp add: own_step_def split: sum.split)
next
  case Reap
  then show ?thesis using reap_script_inv [OF assms(1)] by (simp add: own_step_def)
next
  case (Register_Success rk ck member event identity entry)
  show ?thesis
  proof (cases "register_script Z S now rk ck member event identity entry s")
    case (Some p)
    then have "own_inv Z now (fst p)" using register_script_inv [OF assms(1), of S rk ck member event identity entry "fst p" "snd p"] by simp
    then show ?thesis using Register_Success Some by (simp add: own_step_def case_prod_beta)
  qed (use Register_Success assms(1) in \<open>simp add: own_step_def\<close>)
qed

lemma own_run_inv: "own_run Z S clock s \<Longrightarrow> own_inv Z clock s"
proof (induction rule: own_run.induct)
  case (begin_run now)
  then show ?case by (intro own_invI) (simp_all add: new_ownership_def second_ok_def)
next
  case (step clock s now e)
  show ?case by (rule own_step_inv [OF own_inv_later [OF step.IH step.hyps(2)] step.hyps(3)])
qed

end

section \<open>How a case moves\<close>

definition advances :: "own_case \<Rightarrow> own_case \<Rightarrow> bool" where
  "advances c c' \<longleftrightarrow>
     oc_cycle c' = oc_cycle c \<and> oc_members c' = oc_members c \<and> oc_created c' = oc_created c \<and>
     (oc_status c' = oc_status c \<and> oc_revision c' = oc_revision c \<or>
      oc_revision c < oc_revision c' \<and> oc_status c' \<noteq> Pending \<and> oc_status c' \<noteq> oc_status c \<and>
      (oc_status c = Pending \<or> oc_status c' = Internal))"

definition progress :: "('z, 's) ownership \<Rightarrow> ('z, 's) ownership \<Rightarrow> bool" where
  "progress s s' \<longleftrightarrow>
     (\<forall>k c e. o_cases s k = Some (c, e) \<longrightarrow> (\<exists>c'. o_cases s' k = Some (c', e) \<and> advances c c'))"

lemma advances_trans: "advances a b \<Longrightarrow> advances b c \<Longrightarrow> advances a c"
  unfolding advances_def by (elim conjE disjE) auto

lemma progress_same: "o_cases s' = o_cases s \<Longrightarrow> progress s s'"
  by (simp add: progress_def advances_def)

lemma progress_trans: "progress s t \<Longrightarrow> progress t u \<Longrightarrow> progress s u"
  unfolding progress_def by (meson advances_trans)

lemma progress_set_case:
  assumes "o_cases s cid = Some (c, e)" and "advances c c'" and "o_cases s' = set_case cid c' (o_cases s)"
  shows "progress s s'"
  using assms by (auto simp: progress_def set_case_def advances_def)

lemma progress_resolve:
  assumes "o_cases s cid = Some (c, e)" and "oc_status c = Pending \<or> status = Internal"
    and "status \<noteq> Pending" and "status \<noteq> oc_status c"
  shows "progress s (resolve Z status cid c s)"
  by (rule progress_set_case [OF assms(1)]) (use assms(2-4) in \<open>auto simp: resolve_def advances_def\<close>)

lemma progress_open:
  assumes "o_cases s cid = None \<or> alive now (o_cases s cid) \<noteq> None"
    and "open_script Z S now cid cycle digest members creator entry s = Inr s'"
  shows "progress s s'"
proof (cases "alive now (o_cases s cid)")
  case (Some c)
  with assms(2) show ?thesis by (auto simp: open_script_def intro: progress_same split: if_splits)
next
  case None
  with assms(1) have fresh: "o_cases s cid = None" by simp
  from None assms(2) obtain c where "o_cases s' = (o_cases s)(cid \<mapsto> (c, now + two_days))"
    by (auto simp: open_script_def Let_def split: if_splits)
  with fresh show ?thesis by (auto simp: progress_def advances_def)
qed

lemma progress_claim: "progress s (fst (claim_script Z now m token s))"
proof -
  have "o_cases (fst (claim_loop Z now m token vs s)) = o_cases s" for vs
    by (induction vs arbitrary: s) (auto split: option.splits)
  then show ?thesis by (simp add: claim_script_def progress_same)
qed

lemma progress_submit:
  assumes "submit_script Z now cid m r answer rid token s = Inr s'"
  shows "progress s s'"
proof (cases rule: submit_cases [OF assms])
  case (1 c)
  then show ?thesis by (simp add: progress_same)
next
  case (2 c)
  define s0 where "s0 = s\<lparr>o_markers := (o_markers s)(rid \<mapsto> (signature cid m r answer, now + two_days)),
         o_leases := (o_leases s)((cid, r, m) := None)\<rparr>"
  from 2(1) obtain e where c: "o_cases s cid = Some (c, e)" by (auto simp: alive_Some)
  have "\<exists>c'. advances c c' \<and> o_cases s' = set_case cid c' (o_cases s)"
  proof -
    have same: "set_case cid c (o_cases s) = o_cases s" using c by (auto simp: set_case_def)
    let ?C = "{c\<lparr>oc_errors := oc_errors c + 1\<rparr>, c\<lparr>oc_status := Internal, oc_revision := oc_revision c + 1\<rparr>, c,
       c\<lparr>oc_first_done := Some now\<rparr>, c\<lparr>oc_status := External, oc_revision := oc_revision c + 1\<rparr>}"
    have "o_cases (store_answer Z now cid m r answer rid c s0) \<in> (\<lambda>c'. set_case cid c' (o_cases s)) ` ?C"
      unfolding store_answer_def Let_def resolve_def s0_def using same by simp
    moreover have "\<forall>c' \<in> ?C. advances c c'" using 2(3) by (simp add: advances_def)
    ultimately show ?thesis unfolding 2(8) s0_def [symmetric] by blast
  qed
  with progress_set_case [OF c] show ?thesis by blast
qed

lemma progress_reap_one: "progress (fst sn) (fst (reap_one Z now cid sn))"
  by (auto simp: reap_one_def alive_Some intro: progress_resolve progress_same split: prod.splits option.splits)

lemma progress_reap_fold: "progress (fst sn) (fst (fold (reap_one Z now) cids sn))"
proof (induction cids arbitrary: sn)
  case (Cons cid cids)
  show ?case using progress_trans [OF progress_reap_one Cons.IH] by simp
qed (simp add: progress_same)

lemma progress_correct: "progress s (correct_case Z now entry cid s)"
  by (auto simp: correct_case_def alive_Some intro: progress_resolve progress_same split: option.splits)

lemma progress_correct_fold: "progress s (fold (correct_case Z now entry) cids s)"
proof (induction cids arbitrary: s)
  case (Cons cid cids)
  show ?case using progress_trans [OF progress_correct Cons.IH] by simp
qed (simp add: progress_same)

lemma progress_register:
  assumes "register_script Z S now rk ck member event identity entry s = Some (s', r)"
  shows "progress s s'"
proof -
  have upd: "progress t (correct_cases Z S now entry ck x t)" for t x
    by (simp add: correct_cases_def progress_correct_fold progress_same)
  have start: "progress s (s\<lparr>o_receipts := A, o_events := B\<rparr>)" for A B by (simp add: progress_same)
  show ?thesis
  proof (cases "alive now (o_events s event)")
    case (Some k)
    with assms upd show ?thesis by (auto simp: register_script_def split: prod.splits option.splits if_splits)
  next
    case None
    with assms progress_trans [OF start upd] show ?thesis by (auto simp: register_script_def Let_def split: if_splits)
  qed
qed

lemma progress_step: "may_happen now e s \<Longrightarrow> progress s (own_step Z S now e s)"
proof (cases e)
  case (Open_Case cid cycle digest members creator entry)
  assume "may_happen now e s"
  with Open_Case have ok: "o_cases s cid = None \<or> alive now (o_cases s cid) \<noteq> None" by (simp add: may_happen_def)
  show ?thesis
    using progress_open [OF ok, of Z S cycle digest members creator entry] Open_Case
    by (cases "open_script Z S now cid cycle digest members creator entry s") (simp_all add: own_step_def progress_same)
next
  case (Claim_Job m token)
  then show ?thesis using progress_claim by (simp add: own_step_def)
next
  case (Submit_Check cid m r answer rid token)
  then show ?thesis using progress_submit [of Z now cid m r answer rid token s]
    by (cases "submit_script Z now cid m r answer rid token s") (simp_all add: own_step_def progress_same)
next
  case Reap
  then show ?thesis using progress_reap_fold [of "(s, 0)"] by (simp add: own_step_def reap_script_def)
next
  case (Register_Success rk ck member event identity entry)
  then show ?thesis
    by (cases "register_script Z S now rk ck member event identity entry s")
       (auto simp: own_step_def progress_same intro: progress_register)
qed

text \<open>A stretch of a run.\<close>

inductive own_steps :: "'z zset_api \<Rightarrow> 's set_api \<Rightarrow> ms \<Rightarrow> ('z, 's) ownership \<Rightarrow> ms \<Rightarrow> ('z, 's) ownership \<Rightarrow> bool" for Z S where
  stay: "own_steps Z S t s t s"
| further: "own_steps Z S t s clock s' \<Longrightarrow> clock \<le> now \<Longrightarrow> may_happen now e s' \<Longrightarrow>
    own_steps Z S t s now (own_step Z S now e s')"

lemma progress_steps: "own_steps Z S t s t' s' \<Longrightarrow> progress s s'"
  by (induction rule: own_steps.induct) (auto simp: progress_same intro: progress_trans progress_step)

lemma length_bytes_inject:
  assumes "a < 2 ^ 32" and "b < 2 ^ 32" and "length_bytes a = length_bytes b"
  shows "a = b"
proof -
  define f :: "nat \<Rightarrow> nat" where
    "f n = ((n div 256 ^ 3 mod 256 * 256 + n div 256 ^ 2 mod 256) * 256 + n div 256 mod 256) * 256 + n mod 256" for n
  have digits: "f n = n" if "n < 2 ^ 32" for n
  proof -
    have "n div 256 ^ 3 mod 256 = n div 256 div 256 div 256" using that by (simp add: div_mult2_eq [symmetric])
    moreover have "n div 256 ^ 2 mod 256 = n div 256 div 256 mod 256" by (simp add: div_mult2_eq [symmetric])
    ultimately show ?thesis unfolding f_def by simp
  qed
  have bytes: "map of_char (length_bytes n) =
      [n div 256 ^ 3 mod 256, n div 256 ^ 2 mod 256, n div 256 mod 256, n mod (256 :: nat)]" for n
    by (simp add: length_bytes_def)
  from assms(3) have "map (\<lambda>c. (of_char c :: nat)) (length_bytes a) = map of_char (length_bytes b)" by (rule arg_cong)
  then have "a div 256 ^ 3 mod 256 = b div 256 ^ 3 mod 256" "a div 256 ^ 2 mod 256 = b div 256 ^ 2 mod 256"
    "a div 256 mod 256 = b div 256 mod 256" "a mod 256 = b mod 256"
    unfolding bytes by (simp_all only: list.inject)
  then have "f a = f b" unfolding f_def by (simp only:)
  with digits assms(1,2) show ?thesis by simp
qed

lemma hash_payload_Cons: "hash_payload (v # vs) = length_bytes (length v) @ v @ hash_payload vs"
  by (simp add: hash_payload_def)

lemma length_length_bytes [simp]: "length (length_bytes n) = 4"
  by (simp add: length_bytes_def)

lemma store_answer_markers: "o_markers (store_answer Z now cid m r answer rid c s) = o_markers s"
  unfolding store_answer_def Let_def resolve_def by simp

lemma submit_error:
  "submit_script Z now cid m r answer rid token s = Inl x \<Longrightarrow> \<exists>e. x = ResponseError e"
  unfolding submit_script_def by (simp split: option.splits if_splits) blast+

section \<open>Properties\<close>

text \<open>
  C17: a case is reported as external only when every member of its snapshot has answered
  \<open>absent\<close> in the first and in the second round, and the answers are still stored: no order
  of claims, results, receipts, expiries and reaping leads to \<open>external\<close> otherwise.
\<close>

theorem external_needs_both_rounds:
  assumes "zset Z" and "own_run Z S clock s" and "alive clock (o_cases s cid) = Some c" and "oc_status c = External"
    and "m \<in> set (oc_members c)" and "r = ''1'' \<or> r = ''2''"
  shows "\<exists>rid. alive clock (o_results s (cid, r, m)) = Some (rid, ''absent'')"
proof -
  from assms(3) obtain e where c: "o_cases s cid = Some (c, e)" "clock < e" by (auto simp: alive_Some)
  note ok = own_invD(1) [OF zset.own_run_inv [OF assms(1,2)] c(1)]
  with assms(4-6) obtain rid x where "o_results s (cid, r, m) = Some ((rid, ''absent''), x)"
    by (auto simp: case_ok_def absent_all_def)
  moreover from this ok have "e \<le> x" by (auto simp: case_ok_def)
  ultimately show ?thesis using c(2) by auto
qed

definition sample_cycle :: lead_cycle where
  "sample_cycle = \<lparr>lc_domain = ''d'', lc_code = ''l'', lc_record_id = 1, lc_entered = None\<rparr>"

definition sample_run :: "nat \<Rightarrow> (ref_zset, member list) ownership" where
  "sample_run n =
     fold (\<lambda>(now, e). own_step ref_zset_api ref_set_api now e)
       (take n [(0, Open_Case ''c'' sample_cycle ''h'' [''m''] ''m'' 5), (0, Claim_Job ''m'' ''t''),
         (1, Submit_Check ''c'' ''m'' ''1'' ''absent'' ''x'' ''t''), (30000, Claim_Job ''m'' ''u''),
         (30001, Submit_Check ''c'' ''m'' ''2'' ''absent'' ''y'' ''u'')]) (new_ownership ref_zset_api)"

lemmas own_eval =
  own_step_def open_script_def claim_script_def submit_script_def store_answer_def Let_def new_ownership_def
  ref_zset_eval ref_set_api_def add_jobs_def remove_jobs_def job_id_def parse_job_def set_case_def signature_def round_complete_def


lemma sample_external: "map_option oc_status (alive 30001 (o_cases (sample_run 5) ''c'')) = Some External"
  by (simp add: sample_run_def own_eval)

lemma sample_own_run: "own_run ref_zset_api ref_set_api 30001 (sample_run 5)"
  unfolding sample_run_def
  by (simp, rule own_run.step [where clock = 30000], rule own_run.step [where clock = 1],
      rule own_run.step [where clock = 0], rule own_run.step [where clock = 0], rule own_run.step [where clock = 0],
      rule own_run.begin_run) (simp_all add: may_happen_def new_ownership_def)

theorem external_needs_both_rounds_witness:
  "\<exists>rid. alive 30001 (o_results (sample_run 5) (''c'', ''2'', ''m'')) = Some (rid, ''absent'')"
proof -
  obtain c where c: "alive 30001 (o_cases (sample_run 5) ''c'') = Some c" "oc_status c = External"
    using sample_external by auto
  moreover have "''m'' \<in> set (oc_members c)"
  proof -
    have "map_option oc_members (alive 30001 (o_cases (sample_run 5) ''c'')) = Some [''m'']"
      by (simp add: sample_run_def own_eval)
    with c show ?thesis by simp
  qed
  ultimately show ?thesis
    using external_needs_both_rounds [OF ref_zset.zset_axioms sample_own_run, of "''c''" c "''m''" "''2''"] by simp
qed

text \<open>
  The revision of a case identifies its status. Over any stretch of a run a case keeps its
  cycle and members, its revision does not go down, an equal revision means the same status,
  a settled case never becomes pending again, and a settled status is only ever corrected to
  \<open>internal\<close>.
\<close>

lemma revision_identifies_status:
  assumes "own_steps Z S t s t' s'" and "o_cases s cid = Some (c, e)"
  shows "\<exists>c'. o_cases s' cid = Some (c', e) \<and> oc_members c' = oc_members c \<and> oc_cycle c' = oc_cycle c \<and>
    oc_revision c \<le> oc_revision c' \<and> (oc_revision c' = oc_revision c \<longrightarrow> oc_status c' = oc_status c) \<and>
    (oc_status c' = Pending \<longrightarrow> oc_status c = Pending) \<and>
    (oc_status c \<noteq> Pending \<and> oc_status c' \<noteq> oc_status c \<longrightarrow> oc_status c' = Internal)"
proof -
  from progress_steps [OF assms(1)] assms(2) obtain c' where "o_cases s' cid = Some (c', e)" "advances c c'"
    unfolding progress_def by blast
  then show ?thesis by (intro exI [of _ c']) (auto simp: advances_def)
qed

lemma revision_identifies_status_witness:
  "\<exists>c'. o_cases (own_step ref_zset_api ref_set_api 86400000 Reap (sample_run 1)) ''c'' = Some (c', 172800000) \<and>
     oc_members c' = [''m'']"
proof -
  have steps: "own_steps ref_zset_api ref_set_api 0 (sample_run 1) 86400000
      (own_step ref_zset_api ref_set_api 86400000 Reap (sample_run 1))"
    by (rule own_steps.further [OF own_steps.stay]) (simp_all add: may_happen_def)
  obtain c where c: "o_cases (sample_run 1) ''c'' = Some (c, 172800000)" "oc_members c = [''m'']"
    by (simp add: sample_run_def own_eval)
  from revision_identifies_status [OF steps c(1)] c(2) show ?thesis by auto
qed

text \<open>
  An accepted result is recorded once. Sent again with its result id while the case lives
  (under any lease token), it is accepted and changes nothing; another answer, round, member
  or case under the same result id is refused with a conflict.
\<close>

lemma result_is_recorded_once:
  assumes "submit_script Z now cid m r answer rid token s = Inr s'" and "alive now (o_markers s rid) = None"
    and "now \<le> now'" and "now' < now + 172800000" and "alive now' (o_cases s' cid) \<noteq> None"
  shows "submit_script Z now' cid m r answer rid token' s' = Inr s' \<and>
    (signature cid' m' r' answer' \<noteq> signature cid m r answer \<longrightarrow>
       (\<exists>e. submit_script Z now' cid' m' r' answer' rid token' s' = Inl (ResponseError e)))"
proof (cases rule: submit_cases [OF assms(1)])
  case (1 c)
  with assms(2) show ?thesis by simp
next
  case (2 c)
  have marker: "alive now' (o_markers s' rid) = Some (signature cid m r answer)"
    using assms(4) unfolding 2(8) store_answer_markers by simp
  from 2(1) obtain e where "o_cases s cid = Some (c, e)" by (auto simp: alive_Some)
  with progress_submit [OF assms(1)] obtain c' where "o_cases s' cid = Some (c', e)" "advances c c'"
    unfolding progress_def by blast
  with assms(5) 2(2) have c': "alive now' (o_cases s' cid) = Some c'" "m \<in> set (oc_members c')"
    by (auto simp: advances_def split: if_splits)
  have "submit_script Z now' cid m r answer rid token' s' = Inr s'"
    unfolding submit_script_def c'(1) option.case using marker c'(2) 2(5,9) by (elim disjE) simp_all
  moreover have "\<exists>e. submit_script Z now' cid' m' r' answer' rid token' s' = Inl (ResponseError e)"
    if "signature cid' m' r' answer' \<noteq> signature cid m r answer"
  proof (cases "submit_script Z now' cid' m' r' answer' rid token' s'")
    case (Inl x)
    then show ?thesis using submit_error by fastforce
  next
    case (Inr t)
    then show ?thesis by (cases rule: submit_cases) (use marker that in simp_all)
  qed
  ultimately show ?thesis by (intro conjI impI)
qed

lemma result_is_recorded_once_witness:
  "submit_script ref_zset_api 2 ''c'' ''m'' ''1'' ''absent'' ''x'' ''other'' (sample_run 3) = Inr (sample_run 3)"
proof -
  have first: "submit_script ref_zset_api 1 ''c'' ''m'' ''1'' ''absent'' ''x'' ''t'' (sample_run 2) = Inr (sample_run 3)"
    by (simp add: sample_run_def own_eval)
  have "alive 1 (o_markers (sample_run 2) ''x'') = None" "alive 2 (o_cases (sample_run 3) ''c'') \<noteq> None"
    by (simp_all add: sample_run_def own_eval)
  from result_is_recorded_once [OF first this(1) _ _ this(2)] show ?thesis by simp
qed

text \<open>
  The text that is hashed for a cycle determines its fields: two field lists with the same
  payload are equal, so receipts and cases of different cycles share a digest only where
  SHA-256 itself collides.
\<close>

lemma hash_payload_injective:
  assumes "\<forall>v \<in> set xs \<union> set ys. length v < 2 ^ 32" and "hash_payload xs = hash_payload ys"
  shows "xs = ys"
  using assms
proof (induction xs arbitrary: ys)
  case Nil
  then show ?case by (cases ys) (auto simp: hash_payload_def length_bytes_def)
next
  case (Cons v xs)
  from Cons.prems(2) obtain w zs where ys: "ys = w # zs"
    by (cases ys) (auto simp: hash_payload_def length_bytes_def)
  from Cons.prems(2) have eq: "length_bytes (length v) @ v @ hash_payload xs = length_bytes (length w) @ w @ hash_payload zs"
    by (simp add: ys hash_payload_Cons)
  then have "length_bytes (length v) = length_bytes (length w)" by (simp add: append_eq_append_conv)
  with Cons.prems(1) ys have len: "length v = length w" by (intro length_bytes_inject) auto
  with eq have "v = w" "hash_payload xs = hash_payload zs" by (auto simp: append_eq_append_conv)
  with Cons ys show ?case by auto
qed

lemma hash_payload_injective_witness:
  "hash_payload [''ab'', ''c''] \<noteq> hash_payload [''a'', ''bc'']"
  using hash_payload_injective [of "[''ab'', ''c'']" "[''a'', ''bc'']"] by auto

end
