(* ===== verification/PeerCache.thy ===== *)
theory PeerCache
  imports Access
begin

text \<open>
  The peer cache: the selection policy (peer_cache/policy.py), the export and cache items
  (peer_cache/models.py), the cache of one peer with its scripts (peer_cache/lua.py and
  store.py) and the selection receipts (receipts.py).
  Times are seconds. The JSON values of the code are records here; the tokens that
  \<open>secrets.token_urlsafe\<close> draws and SHA-256 are arguments. The formal pool enters as the
  predicate \<open>formal\<close> on endpoints (a field of its records hash exists).
\<close>

section \<open>Policy\<close>

record policy =
  po_domain :: string
  po_min_score :: int
  po_max_latency :: rat
  po_max_age :: int
  po_min_successes :: int

definition new_policy :: "string \<Rightarrow> int \<Rightarrow> pyfloat \<Rightarrow> int \<Rightarrow> int \<Rightarrow> policy result" where
  "new_policy domain min_score max_latency max_age min_successes =
     (if domain = [] \<or> \<not> (0 \<le> min_score \<and> min_score \<le> 100) then Inl (ValueError ''invalid domain or score'')
      else
        (case max_latency of
           Finite l \<Rightarrow>
             if l < 0 then Inl (ValueError ''invalid latency bound'')
             else if max_age \<le> 0 \<or> min_successes \<le> 0 then Inl (ValueError ''invalid freshness or success bound'')
             else Inr \<lparr>po_domain = domain, po_min_score = min_score, po_max_latency = l, po_max_age = max_age,
                       po_min_successes = min_successes\<rparr>
         | _ \<Rightarrow> Inl (ValueError ''invalid latency bound'')))"

definition effective_peer_policy :: "policy \<Rightarrow> policy \<Rightarrow> policy \<Rightarrow> policy result" where
  "effective_peer_policy request service cache =
     (if po_domain request \<noteq> po_domain service \<or> po_domain request \<noteq> po_domain cache
      then Inl (ValueError ''peer policy domain mismatch'')
      else new_policy (po_domain request)
             (max (max (po_min_score request) (po_min_score service)) (max (po_min_score cache) 90))
             (Finite (min (min (po_max_latency request) (po_max_latency service)) (min (po_max_latency cache) 2000)))
             (min (min (po_max_age request) (po_max_age service)) (min (po_max_age cache) 600))
             (max (max (po_min_successes request) (po_min_successes service)) (max (po_min_successes cache) 2)))"

text \<open>What \<open>accepts\<close> reads of a record; every stored time is aware.\<close>

record evidence =
  ev_domain :: string
  ev_score :: int
  ev_latency :: "pyfloat option"
  ev_checked :: "time option"
  ev_successes :: int
  ev_expires :: "time option"

definition accepts :: "evidence \<Rightarrow> policy \<Rightarrow> time \<Rightarrow> bool" where
  "accepts e pol now =
     (if ev_domain e \<noteq> po_domain pol \<or> ev_score e < po_min_score pol then False
      else
        (case ev_latency e of
           Some (Finite l) \<Rightarrow>
             if l < 0 \<or> l > po_max_latency pol then False
             else
               (case ev_checked e of
                  None \<Rightarrow> False
                | Some checked \<Rightarrow>
                    let age = now - checked
                    in if age < -5 \<or> age \<ge> of_int (po_max_age pol) then False
                       else if ev_successes e < po_min_successes pol then False
                       else (case ev_expires e of None \<Rightarrow> True | Some x \<Rightarrow> now < x))
         | _ \<Rightarrow> False))"

section \<open>Items\<close>

record export_item =
  pe_endpoint :: string
  pe_domain :: string
  pe_score :: int
  pe_latency :: rat
  pe_checked :: time
  pe_successes :: int
  pe_sources :: "string list"

definition evidence_of_record :: "proxy_record \<Rightarrow> evidence" where
  "evidence_of_record r =
     \<lparr>ev_domain = rec_domain r, ev_score = score r, ev_latency = latency_ewma_ms r,
      ev_checked = last_checked_at r, ev_successes = consecutive_successes r, ev_expires = None\<rparr>"

text \<open>\<open>from_record\<close> with the validators of the model; parsing the canonical text gives the endpoint back.\<close>

definition from_record :: "(string \<Rightarrow> bool) \<Rightarrow> proxy_record \<Rightarrow> export_item result" where
  "from_record is_global r =
     (case (latency_ewma_ms r, last_checked_at r) of
        (Some l, Some checked) \<Rightarrow>
          (case validate_proxy_endpoint is_global False [] (endpoint r) of
             Inl e \<Rightarrow> Inl e
           | Inr _ \<Rightarrow>
               (case l of
                  Finite x \<Rightarrow>
                    if \<not> (1 \<le> length (rec_domain r) \<and> length (rec_domain r) \<le> 253 \<and> 0 \<le> score r \<and> score r \<le> 100 \<and>
                          0 \<le> x \<and> 0 \<le> consecutive_successes r)
                    then Inl (ValueError ''PeerExportItem'')
                    else Inr \<lparr>pe_endpoint = canonical (endpoint r), pe_domain = rec_domain r, pe_score = score r,
                              pe_latency = x, pe_checked = checked, pe_successes = consecutive_successes r,
                              pe_sources = sorted_list_of_set (source_names r)\<rparr>
                | _ \<Rightarrow> Inl (ValueError ''PeerExportItem'')))
      | _ \<Rightarrow> Inl (ValueError ''record lacks peer export evidence''))"

record export_response =
  xr_origin :: string
  xr_generated :: time
  xr_items :: "export_item list"

record cache_record =
  cr_item :: export_item
  cr_peer :: string
  cr_origin :: string
  cr_synced :: time
  cr_expires :: time

definition evidence_of_cache :: "cache_record \<Rightarrow> evidence" where
  "evidence_of_cache c =
     \<lparr>ev_domain = pe_domain (cr_item c), ev_score = pe_score (cr_item c),
      ev_latency = Some (Finite (pe_latency (cr_item c))), ev_checked = Some (pe_checked (cr_item c)),
      ev_successes = pe_successes (cr_item c), ev_expires = Some (cr_expires c)\<rparr>"

text \<open>A value of the cache: the record with its \<open>checked_epoch\<close> and \<open>expires_epoch\<close>.\<close>

record cached =
  cv_record :: cache_record
  cv_checked :: time
  cv_expires :: time

section \<open>State\<close>

record failure_mark =
  fm_failed_at :: time
  fm_source_checked :: time
  fm_blocked_until :: time

record sel_receipt =
  sr_digest :: string
  sr_principal :: string
  sr_domain :: string
  sr_endpoint :: string
  sr_source :: string
  sr_peer :: "string option"
  sr_source_checked :: time
  sr_snapshot :: export_item
  sr_issued :: time
  sr_expires :: time
  sr_applied :: bool

record sync_state =
  ss_last_attempt :: "time option"
  ss_last_success :: "time option"
  ss_heartbeat :: "time option"
  ss_accepted :: nat
  ss_failures :: nat
  ss_outcome :: string
  ss_api_failures :: nat

record 'z peer_cache =
  pc_generation :: nat
  pc_lock :: "((string \<times> nat) \<times> time) option"
  pc_records :: "string \<Rightarrow> cached option"
  pc_expiry :: 'z
  pc_suppression :: "string \<Rightarrow> failure_mark option"
  pc_supp_expiry :: 'z
  pc_evictions :: 'z
  pc_receipts :: "string \<Rightarrow> (sel_receipt \<times> time) option"
  pc_state :: sync_state

text \<open>The store's configuration after its constructor.\<close>

record peer_config =
  pf_peer :: string
  pf_domain :: string
  pf_policy :: policy
  pf_ttl :: int
  pf_cooldown :: int
  pf_origin :: "string option"

definition new_peer_store ::
  "string \<Rightarrow> string \<Rightarrow> policy option \<Rightarrow> int \<Rightarrow> int \<Rightarrow> string option \<Rightarrow> peer_config result" where
  "new_peer_store peer domain pol ttl cooldown origin =
     (case (case pol of Some p \<Rightarrow> Inr p | None \<Rightarrow> new_policy domain 90 (Finite 2000) 600 2) of
        Inl e \<Rightarrow> Inl e
      | Inr p \<Rightarrow>
          (case effective_peer_policy p p p of
             Inl e \<Rightarrow> Inl e
           | Inr effective \<Rightarrow>
               if ttl \<le> 0 \<or> cooldown \<le> 0 then Inl (ValueError ''cache TTL and cooldown must be positive'')
               else Inr \<lparr>pf_peer = peer, pf_domain = domain, pf_policy = effective, pf_ttl = min ttl 180,
                         pf_cooldown = max cooldown 600, pf_origin = origin\<rparr>))"

section \<open>Synchronisation\<close>

definition begin_sync :: "time \<Rightarrow> string \<Rightarrow> 'z peer_cache \<Rightarrow> ('z peer_cache \<times> nat option) result" where
  "begin_sync now owner s =
     (if owner = [] then Inl (ValueError ''sync owner required'')
      else if alive now (pc_lock s) \<noteq> None then Inr (s, None)
      else
        let g = pc_generation s + 1
        in Inr (s\<lparr>pc_generation := g, pc_lock := Some ((owner, g), now + 10)\<rparr>, Some g))"

definition abort_sync :: "time \<Rightarrow> nat \<Rightarrow> string \<Rightarrow> 'z peer_cache \<Rightarrow> 'z peer_cache" where
  "abort_sync now g owner s =
     (if alive now (pc_lock s) = Some (owner, g) then s\<lparr>pc_lock := None\<rparr> else s)"

definition note_failure :: "string \<Rightarrow> time \<Rightarrow> 'z peer_cache \<Rightarrow> 'z peer_cache" where
  "note_failure outcome now s =
     s\<lparr>pc_state := (pc_state s)\<lparr>ss_failures := ss_failures (pc_state s) + 1, ss_last_attempt := Some now,
                                ss_heartbeat := Some now, ss_outcome := outcome\<rparr>\<rparr>"

definition note_heartbeat :: "time \<Rightarrow> 'z peer_cache \<Rightarrow> 'z peer_cache" where
  "note_heartbeat now s = s\<lparr>pc_state := (pc_state s)\<lparr>ss_heartbeat := Some now\<rparr>\<rparr>"

definition note_api_result :: "bool \<Rightarrow> 'z peer_cache \<Rightarrow> 'z peer_cache" where
  "note_api_result success s =
     s\<lparr>pc_state := (pc_state s)\<lparr>ss_api_failures := (if success then 0 else ss_api_failures (pc_state s) + 1)\<rparr>\<rparr>"

text \<open>A failure mark blocks a value until it has cooled down and the value was checked again.\<close>

definition blocked :: "time \<Rightarrow> failure_mark option \<Rightarrow> time \<Rightarrow> bool" where
  "blocked now mark checked =
     (case mark of
        None \<Rightarrow> False
      | Some f \<Rightarrow> now < fm_blocked_until f \<or> checked \<le> max (fm_source_checked f) (fm_failed_at f + 5))"

record replace_result =
  rr_accepted :: nat
  rr_filtered :: nat
  rr_suppressed :: nat
  rr_stale :: bool

definition replace_one ::
  "'z zset_api \<Rightarrow> (string \<Rightarrow> bool) \<Rightarrow> time \<Rightarrow> cached \<Rightarrow> 'z peer_cache \<times> nat \<times> nat \<times> nat \<Rightarrow> 'z peer_cache \<times> nat \<times> nat \<times> nat" where
  "replace_one Z formal now v st =
     (case st of (s, accepted, filtered, suppressed) \<Rightarrow>
        let m = pe_endpoint (cr_item (cv_record v))
        in if cv_expires v \<le> now \<or> formal m then (s, accepted, filtered + 1, suppressed)
           else if blocked now (pc_suppression s m) (cv_checked v) then (s, accepted, filtered, suppressed + 1)
           else (s\<lparr>pc_records := (pc_records s)(m \<mapsto> v), pc_expiry := z_add Z (pc_expiry s) m (cv_expires v)\<rparr>,
                 accepted + 1, filtered, suppressed))"

definition drop_suppression :: "'z zset_api \<Rightarrow> time \<Rightarrow> 'z peer_cache \<Rightarrow> 'z peer_cache" where
  "drop_suppression Z now s =
     (let expired = map fst (z_rangebyscore Z (pc_supp_expiry s) Below_All (Incl now))
      in s\<lparr>pc_suppression := (\<lambda>m. if m \<in> set expired then None else pc_suppression s m),
           pc_supp_expiry := fold (\<lambda>m z. z_rem Z z m) expired (pc_supp_expiry s)\<rparr>)"

definition replace_script ::
  "'z zset_api \<Rightarrow> (string \<Rightarrow> bool) \<Rightarrow> nat \<Rightarrow> string \<Rightarrow> time \<Rightarrow> cached list \<Rightarrow> 'z peer_cache
     \<Rightarrow> 'z peer_cache \<times> replace_result" where
  "replace_script Z formal g owner now values s =
     (if pc_generation s \<noteq> g \<or> alive now (pc_lock s) \<noteq> Some (owner, g)
      then (s, \<lparr>rr_accepted = 0, rr_filtered = 0, rr_suppressed = 0, rr_stale = True\<rparr>)
      else
        let s1 = (drop_suppression Z now s)\<lparr>pc_records := Map.empty, pc_expiry := z_empty Z\<rparr>
        in (case fold (replace_one Z formal now) values (s1, 0, 0, 0) of
              (s2, accepted, filtered, suppressed) \<Rightarrow>
                (s2\<lparr>pc_state := (pc_state s2)\<lparr>ss_last_attempt := Some now, ss_last_success := Some now,
                       ss_heartbeat := Some now, ss_accepted := accepted, ss_failures := 0, ss_outcome := ''success''\<rparr>,
                    pc_lock := None\<rparr>,
                 \<lparr>rr_accepted = accepted, rr_filtered = filtered, rr_suppressed = suppressed, rr_stale = False\<rparr>)))"

text \<open>
  The Python side: the identity tests raise, items the policy refuses are only counted. The
  result is the list of values to send with the number filtered so far.
\<close>

fun encode_snapshot ::
  "peer_config \<Rightarrow> time \<Rightarrow> cache_record list \<Rightarrow> (cached list \<times> nat) result" where
  "encode_snapshot cfg now [] = Inr ([], 0)"
| "encode_snapshot cfg now (c # cs) =
     (let it = cr_item c
      in if pe_domain it \<noteq> pf_domain cfg \<or> cr_peer c \<noteq> pf_peer cfg \<or>
            (case pf_origin cfg of None \<Rightarrow> False | Some o' \<Rightarrow> cr_origin c \<noteq> o')
         then Inl (ValueError ''peer snapshot identity mismatch'')
         else if cr_synced c - now > 5 then Inl (ValueError ''peer snapshot sync time is in the future'')
         else
           let expires = min (cr_expires c) (min (cr_synced c + of_int (pf_ttl cfg))
                           (pe_checked it + of_int (po_max_age (pf_policy cfg)) - 5));
               dropped = (\<not> accepts (evidence_of_cache c) (pf_policy cfg) now \<or> expires \<le> now)
           in (case encode_snapshot cfg now cs of
                 Inl e \<Rightarrow> Inl e
               | Inr (vs, n) \<Rightarrow>
                   if dropped then Inr (vs, n + 1)
                   else Inr (\<lparr>cv_record = c, cv_checked = pe_checked it, cv_expires = expires\<rparr> # vs, n)))"

definition replace ::
  "'z zset_api \<Rightarrow> (string \<Rightarrow> bool) \<Rightarrow> peer_config \<Rightarrow> cache_record list \<Rightarrow> nat option \<Rightarrow> string \<Rightarrow> time
     \<Rightarrow> 'z peer_cache \<Rightarrow> ('z peer_cache \<times> replace_result) result" where
  "replace Z formal cfg snapshot generation owner now s =
     (case generation of
        None \<Rightarrow> Inl (ValueError ''valid sync generation and owner required'')
      | Some g \<Rightarrow>
          if g = 0 \<or> owner = [] then Inl (ValueError ''valid sync generation and owner required'')
          else if length snapshot > 20 then Inl (ValueError ''peer snapshot exceeds 20 items'')
          else if \<not> distinct (map (\<lambda>c. pe_endpoint (cr_item c)) snapshot) then Inl (ValueError ''duplicate peer endpoint'')
          else
            (case encode_snapshot cfg now snapshot of
               Inl e \<Rightarrow> Inl e
             | Inr (values, filtered) \<Rightarrow>
                 (case replace_script Z formal g owner now values s of
                    (s', r) \<Rightarrow> Inr (s', r\<lparr>rr_filtered := filtered + rr_filtered r\<rparr>))))"

section \<open>Selection\<close>

text \<open>The conditions on one cached value: until when it is usable, if it is.\<close>

definition usable_until ::
  "(string \<Rightarrow> bool) \<Rightarrow> policy \<Rightarrow> time \<Rightarrow> string list \<Rightarrow> 'z peer_cache \<Rightarrow> string \<Rightarrow> (cached \<times> time) option" where
  "usable_until formal pol now excluded s m =
     (if m \<in> set excluded \<or> formal m then None
      else
        (case pc_records s m of
           None \<Rightarrow> None
         | Some v \<Rightarrow>
             let it = cr_item (cv_record v); age = now - cv_checked v;
                 until' = min (now + 600) (min (cv_expires v) (cv_checked v + of_int (po_max_age pol) - 5))
             in if pe_domain it = po_domain pol \<and> po_min_score pol \<le> pe_score it \<and> pe_latency it \<le> po_max_latency pol \<and>
                   po_min_successes pol \<le> pe_successes it \<and> -5 \<le> age \<and> age < of_int (po_max_age pol) \<and> now < cv_expires v \<and>
                   \<not> blocked now (pc_suppression s m) (cv_checked v) \<and> now < until'
                then Some (v, until') else None))"

definition new_receipt :: "string \<Rightarrow> string \<Rightarrow> time \<Rightarrow> cached \<Rightarrow> sel_receipt" where
  "new_receipt digest caller now v =
     \<lparr>sr_digest = digest, sr_principal = caller, sr_domain = pe_domain (cr_item (cv_record v)),
      sr_endpoint = pe_endpoint (cr_item (cv_record v)), sr_source = ''peer'', sr_peer = Some (cr_peer (cv_record v)),
      sr_source_checked = cv_checked v, sr_snapshot = cr_item (cv_record v), sr_issued = now, sr_expires = now + 600, sr_applied = False\<rparr>"

text \<open>
  Mode \<open>select\<close>: \<open>pairs\<close> are the tokens with their digests, the next one is used for the next
  value; a digest that is taken is not issued again.
\<close>

type_synonym chosen = "cached \<times> string \<times> time"

fun select_loop ::
  "(string \<Rightarrow> (cached \<times> time) option) \<Rightarrow> time \<Rightarrow> string \<Rightarrow> nat \<Rightarrow> (string \<times> string) list \<Rightarrow> string list
     \<Rightarrow> chosen list \<Rightarrow> 'z peer_cache \<Rightarrow> 'z peer_cache \<times> chosen list" where
  "select_loop usable now caller cnt pairs [] sel s = (s, sel)"
| "select_loop usable now caller cnt pairs (m # ms) sel s =
     (case usable m of
        None \<Rightarrow> select_loop usable now caller cnt pairs ms sel s
      | Some (v, until') \<Rightarrow>
          (case pairs ! length sel of
             (token, digest) \<Rightarrow>
               if alive now (pc_receipts s digest) \<noteq> None then select_loop usable now caller cnt pairs ms sel s
               else
                 let s' = s\<lparr>pc_receipts := (pc_receipts s)(digest \<mapsto> (new_receipt digest caller now v, now + 600))\<rparr>;
                     sel' = sel @ [(v, token, until')]
                 in if cnt \<le> length sel' then (s', sel')
                    else select_loop usable now caller cnt pairs ms sel' s'))"

definition unexpired :: "'z zset_api \<Rightarrow> time \<Rightarrow> 'z peer_cache \<Rightarrow> string list" where
  "unexpired Z now s = map fst (z_rangebyscore Z (pc_expiry s) (Excl now) Above_All)"

definition token_digest :: "(string \<Rightarrow> string) \<Rightarrow> string \<Rightarrow> string" where
  "token_digest sha token = sha token"

record selected_proxy =
  sp_item :: export_item
  sp_peer :: string
  sp_checked :: time
  sp_token :: string
  sp_usable_until :: time

definition decode_selected :: "chosen \<Rightarrow> selected_proxy" where
  "decode_selected x =
     (case x of (v, token, until') \<Rightarrow>
        \<lparr>sp_item = cr_item (cv_record v), sp_peer = cr_peer (cv_record v), sp_checked = cv_checked v,
         sp_token = token, sp_usable_until = until'\<rparr>)"

definition peer_select ::
  "'z zset_api \<Rightarrow> (string \<Rightarrow> string) \<Rightarrow> (string \<Rightarrow> bool) \<Rightarrow> peer_config \<Rightarrow> policy \<Rightarrow> nat \<Rightarrow> string list \<Rightarrow> string
     \<Rightarrow> time \<Rightarrow> string list \<Rightarrow> 'z peer_cache \<Rightarrow> ('z peer_cache \<times> selected_proxy list) result" where
  "peer_select Z sha formal cfg pol cnt excluded caller now tokens s =
     (if po_domain pol \<noteq> pf_domain cfg \<or> \<not> (1 \<le> cnt \<and> cnt \<le> 20) then Inl (ValueError ''invalid peer selection'')
      else
        (case effective_peer_policy pol (pf_policy cfg) (pf_policy cfg) of
           Inl e \<Rightarrow> Inl e
         | Inr p \<Rightarrow>
             (case select_loop (usable_until formal p now excluded s) now caller cnt
                     (map (\<lambda>t. (t, token_digest sha t)) tokens) (unexpired Z now s) [] s of
                (s', sel) \<Rightarrow> Inr (s', map decode_selected sel))))"

text \<open>Mode \<open>count\<close> writes nothing and stops at twenty.\<close>

definition peer_count ::
  "'z zset_api \<Rightarrow> (string \<Rightarrow> bool) \<Rightarrow> peer_config \<Rightarrow> policy \<Rightarrow> time \<Rightarrow> 'z peer_cache \<Rightarrow> nat result" where
  "peer_count Z formal cfg pol now s =
     (if po_domain pol \<noteq> pf_domain cfg then Inl (ValueError ''peer policy domain mismatch'')
      else
        (case effective_peer_policy pol (pf_policy cfg) (pf_policy cfg) of
           Inl e \<Rightarrow> Inl e
         | Inr p \<Rightarrow>
             Inr (length (take 20 (filter (\<lambda>m. usable_until formal p now [] s m \<noteq> None) (unexpired Z now s))))))"

section \<open>Receipts and failures\<close>

text \<open>\<open>None\<close> is the reply -1.\<close>

definition invalidate_script ::
  "'z zset_api \<Rightarrow> string \<Rightarrow> time \<Rightarrow> time \<Rightarrow> time \<Rightarrow> 'z peer_cache \<Rightarrow> ('z peer_cache \<times> bool) option" where
  "invalidate_script Z digest now cooldown keep s =
     (case alive now (pc_receipts s digest) of
        None \<Rightarrow> None
      | Some r \<Rightarrow>
          if sr_applied r then Some (s, False)
          else
            let m = sr_endpoint r;
                mark = \<lparr>fm_failed_at = now, fm_source_checked = sr_source_checked r, fm_blocked_until = now + cooldown\<rparr>
            in Some (s\<lparr>pc_receipts := (pc_receipts s)(digest := map_option (\<lambda>(_, e). (r\<lparr>sr_applied := True\<rparr>, e)) (pc_receipts s digest)),
                       pc_suppression := (pc_suppression s)(m \<mapsto> mark),
                       pc_supp_expiry := z_add Z (pc_supp_expiry s) m (now + keep),
                       pc_evictions := z_remrangebyscore Z (z_add Z (pc_evictions s) (sr_digest r) now) Below_All (Excl (now - 600)),
                       pc_records := (pc_records s)(m := None),
                       pc_expiry := z_rem Z (pc_expiry s) m\<rparr>, True))"

definition invalidate ::
  "'z zset_api \<Rightarrow> peer_config \<Rightarrow> sel_receipt \<Rightarrow> time \<Rightarrow> 'z peer_cache \<Rightarrow> ('z peer_cache \<times> bool) result" where
  "invalidate Z cfg receipt now s =
     (if sr_source receipt \<noteq> ''peer'' \<or> sr_peer receipt \<noteq> Some (pf_peer cfg)
      then Inl (ValueError ''receipt is not for this peer cache'')
      else if sr_domain receipt \<noteq> pf_domain cfg then Inl (ValueError ''receipt domain mismatch'')
      else
        (case invalidate_script Z (sr_digest receipt) now (of_int (pf_cooldown cfg))
                (of_int (max (pf_cooldown cfg) (po_max_age (pf_policy cfg)) + 605)) s of
           None \<Rightarrow> Inl (ValueError ''selection receipt expired'')
         | Some res \<Rightarrow> Inr res))"

text \<open>Issuing a receipt for a formal proxy: at most three tokens are tried.\<close>

fun issue ::
  "(string \<Rightarrow> string) \<Rightarrow> export_item \<Rightarrow> string \<Rightarrow> time \<Rightarrow> string \<Rightarrow> string option \<Rightarrow> string list \<Rightarrow> 'z peer_cache
     \<Rightarrow> ('z peer_cache \<times> string) result" where
  "issue sha it caller now source peer [] s = Inl (RuntimeError ''unable to issue selection receipt'')"
| "issue sha it caller now source peer (token # tokens) s =
     (let digest = token_digest sha token
      in if alive now (pc_receipts s digest) \<noteq> None then issue sha it caller now source peer tokens s
         else Inr (s\<lparr>pc_receipts := (pc_receipts s)(digest \<mapsto>
                        (\<lparr>sr_digest = digest, sr_principal = caller, sr_domain = pe_domain it,
                          sr_endpoint = pe_endpoint it, sr_source = source, sr_peer = peer,
                          sr_source_checked = pe_checked it, sr_snapshot = it, sr_issued = now, sr_expires = now + 600,
                          sr_applied = False\<rparr>, now + 600))\<rparr>, token))"

definition resolve_receipt ::
  "(string \<Rightarrow> string) \<Rightarrow> string \<Rightarrow> string \<Rightarrow> string \<Rightarrow> string \<Rightarrow> time \<Rightarrow> 'z peer_cache \<Rightarrow> sel_receipt result" where
  "resolve_receipt sha token caller domain m now s =
     (if token = [] \<or> length token > 256 then Inl (InvalidReceipt ''invalid selection receipt'')
      else
        (case alive now (pc_receipts s (token_digest sha token)) of
           None \<Rightarrow> Inl (InvalidReceipt ''invalid selection receipt'')
         | Some r \<Rightarrow>
             if sr_expires r \<le> now then Inl (InvalidReceipt ''expired selection receipt'')
             else
               (case compare_digest (sr_principal r) caller of
                  Inl e \<Rightarrow> Inl e
                | Inr same \<Rightarrow>
                    if \<not> same \<or> sr_domain r \<noteq> domain \<or> sr_endpoint r \<noteq> m
                    then Inl (ReceiptBindingError ''selection receipt binding mismatch'')
                    else Inr r)))"

definition claim_formal_failure :: "sel_receipt \<Rightarrow> time \<Rightarrow> 'z peer_cache \<Rightarrow> ('z peer_cache \<times> bool) result" where
  "claim_formal_failure receipt now s =
     (if sr_source receipt \<noteq> ''formal'' then Inl (ValueError ''receipt is not formal'')
      else
        (case alive now (pc_receipts s (sr_digest receipt)) of
           None \<Rightarrow> Inl (InvalidReceipt ''invalid selection receipt'')
         | Some r \<Rightarrow>
             if sr_source r \<noteq> ''formal'' then Inl (InvalidReceipt ''invalid selection receipt'')
             else if sr_applied r then Inr (s, False)
             else Inr (s\<lparr>pc_receipts := (pc_receipts s)(sr_digest receipt :=
                          map_option (\<lambda>(_, e). (r\<lparr>sr_applied := True\<rparr>, e)) (pc_receipts s (sr_digest receipt)))\<rparr>, True)))"

section \<open>Selection respects the policies\<close>

lemma effective_Inr:
  assumes "effective_peer_policy a b c = Inr p"
  shows "po_domain p = po_domain a" "po_domain b = po_domain a" "po_domain c = po_domain a"
    "po_min_score a \<le> po_min_score p" "po_min_score b \<le> po_min_score p" "po_min_score c \<le> po_min_score p" "90 \<le> po_min_score p"
    "po_max_latency p \<le> po_max_latency a" "po_max_latency p \<le> po_max_latency b" "po_max_latency p \<le> po_max_latency c" "po_max_latency p \<le> 2000"
    "po_max_age p \<le> po_max_age a" "po_max_age p \<le> po_max_age b" "po_max_age p \<le> po_max_age c" "po_max_age p \<le> 600"
    "po_min_successes a \<le> po_min_successes p" "po_min_successes b \<le> po_min_successes p" "po_min_successes c \<le> po_min_successes p" "2 \<le> po_min_successes p"
proof -
  have built: "new_policy d a (Finite b) c k = Inr p \<Longrightarrow> p = \<lparr>po_domain = d, po_min_score = a, po_max_latency = b,
      po_max_age = c, po_min_successes = k\<rparr>" for d a b c k
    by (simp add: new_policy_def split: if_splits)
  from assms have dom: "po_domain b = po_domain a" "po_domain c = po_domain a"
    by (simp_all add: effective_peer_policy_def split: if_splits)
  from assms have "new_policy (po_domain a)
      (max (max (po_min_score a) (po_min_score b)) (max (po_min_score c) 90))
      (Finite (min (min (po_max_latency a) (po_max_latency b)) (min (po_max_latency c) 2000)))
      (min (min (po_max_age a) (po_max_age b)) (min (po_max_age c) 600))
      (max (max (po_min_successes a) (po_min_successes b)) (max (po_min_successes c) 2)) = Inr p"
    by (simp add: effective_peer_policy_def split: if_splits)
  note p = built [OF this]
  show "po_domain p = po_domain a" "po_domain b = po_domain a" "po_domain c = po_domain a"
    using dom by (simp_all add: p)
  show "po_min_score a \<le> po_min_score p" "po_min_score b \<le> po_min_score p" "po_min_score c \<le> po_min_score p" "90 \<le> po_min_score p"
    "po_max_latency p \<le> po_max_latency a" "po_max_latency p \<le> po_max_latency b" "po_max_latency p \<le> po_max_latency c" "po_max_latency p \<le> 2000"
    "po_max_age p \<le> po_max_age a" "po_max_age p \<le> po_max_age b" "po_max_age p \<le> po_max_age c" "po_max_age p \<le> 600"
    "po_min_successes a \<le> po_min_successes p" "po_min_successes b \<le> po_min_successes p" "po_min_successes c \<le> po_min_successes p" "2 \<le> po_min_successes p"
    by (simp_all add: p le_max_iff_disj min_le_iff_disj)
qed

text \<open>One turn of the loop: skip the member, stop with it, or go on with it.\<close>

lemma select_loop_step:
  assumes "select_loop usable now caller cnt pairs (m # ms) sel s = (s', sel')"
  obtains (skip) "select_loop usable now caller cnt pairs ms sel s = (s', sel')"
    | (stop) v token u R where "usable m = Some (v, u)" "s' = s\<lparr>pc_receipts := R\<rparr>" "sel' = sel @ [(v, token, u)]"
        "cnt \<le> length sel + 1"
    | (go) v token u R where "usable m = Some (v, u)" "length sel + 1 < cnt"
        "select_loop usable now caller cnt pairs ms (sel @ [(v, token, u)]) (s\<lparr>pc_receipts := R\<rparr>) = (s', sel')"
proof (cases "usable m")
  case None
  with assms have "select_loop usable now caller cnt pairs ms sel s = (s', sel')" by simp
  then show ?thesis by (rule skip)
next
  case (Some vu)
  obtain v u where vu: "vu = (v, u)" by (cases vu)
  obtain token digest where td: "pairs ! length sel = (token, digest)" by (cases "pairs ! length sel")
  define R where "R = (pc_receipts s)(digest \<mapsto> (new_receipt digest caller now v, now + 600))"
  from Some vu have u: "usable m = Some (v, u)" by simp
  show ?thesis
  proof (cases "alive now (pc_receipts s digest) = None")
    case False
    with assms u td have "select_loop usable now caller cnt pairs ms sel s = (s', sel')" by simp
    then show ?thesis by (rule skip)
  next
    case True
    with assms u td have run: "(if cnt \<le> length sel + 1 then (s\<lparr>pc_receipts := R\<rparr>, sel @ [(v, token, u)])
        else select_loop usable now caller cnt pairs ms (sel @ [(v, token, u)]) (s\<lparr>pc_receipts := R\<rparr>)) = (s', sel')"
      unfolding R_def by (simp add: Let_def split del: if_split)
    show ?thesis
    proof (cases "cnt \<le> length sel + 1")
      case True
      with run have "s' = s\<lparr>pc_receipts := R\<rparr>" "sel' = sel @ [(v, token, u)]" by simp_all
      from stop [OF u this True] show ?thesis .
    next
      case False
      with run have "select_loop usable now caller cnt pairs ms (sel @ [(v, token, u)]) (s\<lparr>pc_receipts := R\<rparr>) = (s', sel')"
        by simp
      from go [OF u _ this] False show ?thesis by simp
    qed
  qed
qed

lemma select_loop_sound:
  assumes "select_loop usable now caller cnt pairs ms sel s = (s', sel')" and "length sel < cnt"
  shows "(\<exists>new. sel' = sel @ new \<and> (\<forall>(v, token, u) \<in> set new. \<exists>m \<in> set ms. usable m = Some (v, u))) \<and>
    length sel' \<le> cnt \<and> (\<exists>R. s' = s\<lparr>pc_receipts := R\<rparr>)"
  using assms
proof (induction ms arbitrary: sel s)
  case Nil
  then have "s' = s\<lparr>pc_receipts := pc_receipts s\<rparr>" "sel' = sel" by simp_all
  with Nil(2) show ?case by (metis append_Nil2 empty_iff less_imp_le list.set(1))
next
  case (Cons m ms)
  show ?case
  proof (cases rule: select_loop_step [OF Cons.prems(1)])
    case 1
    from Cons.IH [OF 1 Cons.prems(2)] show ?thesis by fastforce
  next
    case (2 v token u R)
    then show ?thesis using Cons.prems(2) by auto
  next
    case (3 v token u R)
    from Cons.IH [OF 3(3)] 3(2) obtain new R' where "sel' = (sel @ [(v, token, u)]) @ new" "length sel' \<le> cnt"
      "\<forall>(v, token, u) \<in> set new. \<exists>m \<in> set ms. usable m = Some (v, u)" "s' = s\<lparr>pc_receipts := R'\<rparr>" by auto
    with 3(1) show ?thesis by (intro conjI exI [of _ "(v, token, u) # new"] exI [of _ R']) auto
  qed
qed

lemma peer_select_sound:
  assumes "peer_select Z sha formal cfg pol cnt excluded caller now tokens s = Inr (s', sel)"
  obtains p where "effective_peer_policy pol (pf_policy cfg) (pf_policy cfg) = Inr p" "length sel \<le> cnt"
    "pc_records s' = pc_records s" "pc_suppression s' = pc_suppression s" "pc_supp_expiry s' = pc_supp_expiry s"
    "\<And>x. x \<in> set sel \<Longrightarrow> \<exists>m v. m \<in> set (unexpired Z now s) \<and>
       usable_until formal p now excluded s m = Some (v, sp_usable_until x) \<and>
       sp_item x = cr_item (cv_record v) \<and> sp_checked x = cv_checked v"
proof -
  from assms obtain p sel0 where p: "effective_peer_policy pol (pf_policy cfg) (pf_policy cfg) = Inr p" "1 \<le> cnt"
    and loop: "select_loop (usable_until formal p now excluded s) now caller cnt
      (map (\<lambda>t. (t, token_digest sha t)) tokens) (unexpired Z now s) [] s = (s', sel0)" "sel = map decode_selected sel0"
    by (auto simp: peer_select_def split: if_splits sum.splits prod.splits)
  from select_loop_sound [OF loop(1)] p(2) obtain R where
    keep: "\<forall>(v, token, u) \<in> set sel0. \<exists>m \<in> set (unexpired Z now s). usable_until formal p now excluded s m = Some (v, u)"
      "length sel0 \<le> cnt" "s' = s\<lparr>pc_receipts := R\<rparr>" by auto
  show ?thesis
  proof (rule that [OF p(1)])
    show "length sel \<le> cnt" using keep(2) loop(2) by simp
    fix x assume "x \<in> set sel"
    then obtain v token u where "(v, token, u) \<in> set sel0" "x = decode_selected (v, token, u)" by (auto simp: loop(2))
    with keep(1) show "\<exists>m v. m \<in> set (unexpired Z now s) \<and> usable_until formal p now excluded s m = Some (v, sp_usable_until x) \<and>
       sp_item x = cr_item (cv_record v) \<and> sp_checked x = cv_checked v" by (fastforce simp: decode_selected_def)
  qed (simp_all add: keep(3))
qed

lemma usable_until_Some:
  assumes "usable_until formal pol now excluded s m = Some (v, u)"
  shows "m \<notin> set excluded" "\<not> formal m" "pc_records s m = Some v"
    "pe_domain (cr_item (cv_record v)) = po_domain pol" "po_min_score pol \<le> pe_score (cr_item (cv_record v))"
    "pe_latency (cr_item (cv_record v)) \<le> po_max_latency pol" "po_min_successes pol \<le> pe_successes (cr_item (cv_record v))"
    "-5 \<le> now - cv_checked v" "now - cv_checked v < of_int (po_max_age pol)" "now < cv_expires v"
    "\<not> blocked now (pc_suppression s m) (cv_checked v)" "now < u" "u \<le> now + 600" "u \<le> cv_expires v"
    "u \<le> cv_checked v + of_int (po_max_age pol) - 5"
  using assms by (auto simp: usable_until_def Let_def split: if_splits option.splits)

section \<open>Runs\<close>

text \<open>
  The operations on the cache of one peer in any order, with the invalidations that took
  effect (endpoint and time) as a ghost list. The clocks of the processes agree.
\<close>

inductive peer_run ::
  "'z zset_api \<Rightarrow> peer_config \<Rightarrow> 'z peer_cache \<Rightarrow> (string \<times> time) list \<Rightarrow> time \<Rightarrow> bool" for Z cfg where
  begin_run: "pc_records s = Map.empty \<Longrightarrow> peer_run Z cfg s [] now"
| sync: "peer_run Z cfg s F clock \<Longrightarrow> clock \<le> now \<Longrightarrow> begin_sync now owner s = Inr (s', g) \<Longrightarrow> peer_run Z cfg s' F now"
| abort: "peer_run Z cfg s F clock \<Longrightarrow> clock \<le> now \<Longrightarrow> peer_run Z cfg (abort_sync now g owner s) F now"
| noted: "peer_run Z cfg s F clock \<Longrightarrow> clock \<le> now \<Longrightarrow> peer_run Z cfg (s\<lparr>pc_state := x\<rparr>) F now"
| replaced: "peer_run Z cfg s F clock \<Longrightarrow> clock \<le> now \<Longrightarrow>
    replace Z formal cfg snapshot g owner now s = Inr (s', res) \<Longrightarrow> peer_run Z cfg s' F now"
| selected: "peer_run Z cfg s F clock \<Longrightarrow> clock \<le> now \<Longrightarrow>
    peer_select Z sha formal cfg pol cnt excluded caller now tokens s = Inr (s', sel) \<Longrightarrow> peer_run Z cfg s' F now"
| issued: "peer_run Z cfg s F clock \<Longrightarrow> clock \<le> now \<Longrightarrow>
    issue sha it caller now source peer tokens s = Inr (s', token) \<Longrightarrow> peer_run Z cfg s' F now"
| failed: "peer_run Z cfg s F clock \<Longrightarrow> clock \<le> now \<Longrightarrow>
    invalidate Z cfg receipt now s = Inr (s', done_now) \<Longrightarrow>
    alive now (pc_receipts s (sr_digest receipt)) = Some r \<Longrightarrow>
    peer_run Z cfg s' (if done_now then (sr_endpoint r, now) # F else F) now"
| formal_failed: "peer_run Z cfg s F clock \<Longrightarrow> clock \<le> now \<Longrightarrow>
    claim_formal_failure receipt now s = Inr (s', done_now) \<Longrightarrow> peer_run Z cfg s' F now"

text \<open>What is remembered of one failure, and the keys of the cached values.\<close>

definition remembered :: "'z zset_api \<Rightarrow> peer_config \<Rightarrow> time \<Rightarrow> 'z peer_cache \<Rightarrow> string \<times> time \<Rightarrow> bool" where
  "remembered Z cfg clock s x \<longleftrightarrow>
     (let keep = of_int (max (pf_cooldown cfg) (po_max_age (pf_policy cfg)) + 605)
      in case pc_suppression s (fst x) of
           Some f \<Rightarrow> snd x \<le> fm_failed_at f \<and> snd x + of_int (pf_cooldown cfg) \<le> fm_blocked_until f \<and>
             (\<exists>e. z_score Z (pc_supp_expiry s) (fst x) = Some e \<and> snd x + keep \<le> e)
         | None \<Rightarrow> snd x + keep \<le> clock \<and> (\<forall>v. pc_records s (fst x) = Some v \<longrightarrow> snd x + 5 < cv_checked v))"

definition peer_inv :: "'z zset_api \<Rightarrow> peer_config \<Rightarrow> time \<Rightarrow> 'z peer_cache \<Rightarrow> (string \<times> time) list \<Rightarrow> bool" where
  "peer_inv Z cfg clock s F \<longleftrightarrow>
     (\<forall>x \<in> set F. snd x \<le> clock \<and> remembered Z cfg clock s x) \<and>
     (\<forall>m v. pc_records s m = Some v \<longrightarrow> pe_endpoint (cr_item (cv_record v)) = m)"

lemma peer_inv_cong:
  assumes "peer_inv Z cfg clock s F" and "clock \<le> now" and "pc_records s' = pc_records s"
    and "pc_suppression s' = pc_suppression s" and "pc_supp_expiry s' = pc_supp_expiry s"
  shows "peer_inv Z cfg now s' F"
  using assms by (fastforce simp: peer_inv_def remembered_def Let_def split: option.splits)

section \<open>A failed endpoint is remembered\<close>

lemma encode_snapshot_checked:
  "encode_snapshot cfg now cs = Inr (vs, n) \<Longrightarrow> v \<in> set vs \<Longrightarrow>
     now - cv_checked v < of_int (po_max_age (pf_policy cfg)) \<and> now < cv_expires v"
proof (induction cs arbitrary: vs n)
  case (Cons c cs)
  let ?x = "min (cr_expires c) (min (cr_synced c + of_int (pf_ttl cfg)) (pe_checked (cr_item c) + of_int (po_max_age (pf_policy cfg)) - 5))"
  from Cons.prems(1) obtain ws k where rest: "encode_snapshot cfg now cs = Inr (ws, k)"
    by (auto simp: Let_def split: if_splits sum.splits)
  have "(accepts (evidence_of_cache c) (pf_policy cfg) now \<and> \<not> ?x \<le> now \<and>
      vs = \<lparr>cv_record = c, cv_checked = pe_checked (cr_item c), cv_expires = ?x\<rparr> # ws) \<or> vs = ws"
  proof (cases "accepts (evidence_of_cache c) (pf_policy cfg) now \<and> \<not> ?x \<le> now")
    case True
    then have drop: "(\<not> accepts (evidence_of_cache c) (pf_policy cfg) now \<or> ?x \<le> now) = False" by blast
    with True Cons.prems(1) rest show ?thesis
      by (simp only: encode_snapshot.simps Let_def drop split: if_splits) auto
  next
    case False
    then have drop: "(\<not> accepts (evidence_of_cache c) (pf_policy cfg) now \<or> ?x \<le> now) = True" by blast
    with Cons.prems(1) rest show ?thesis
      by (simp only: encode_snapshot.simps Let_def drop split: if_splits) auto
  qed
  moreover have "accepts (evidence_of_cache c) (pf_policy cfg) now \<Longrightarrow> now - pe_checked (cr_item c) < of_int (po_max_age (pf_policy cfg))"
    by (auto simp: accepts_def evidence_of_cache_def Let_def split: if_splits)
  moreover have "v \<in> set ws \<Longrightarrow> ?case" using Cons.IH [OF rest] by blast
  ultimately show ?case using Cons.prems(2) by (elim disjE conjE) (auto simp only: list.set insert_iff not_le cached.simps)
qed simp

lemma replace_fold_keeps:
  assumes "fold (replace_one Z formal now) vs (s, a, b, c) = (s', a', b', c')"
  shows "pc_suppression s' = pc_suppression s \<and> pc_supp_expiry s' = pc_supp_expiry s \<and>
    (\<forall>m v. pc_records s' m = Some v \<longrightarrow> pc_records s m = Some v \<or> v \<in> set vs \<and> pe_endpoint (cr_item (cv_record v)) = m)"
  using assms
proof (induction vs arbitrary: s a b c)
  case (Cons v vs)
  obtain s1 a1 b1 c1 where one: "replace_one Z formal now v (s, a, b, c) = (s1, a1, b1, c1)" by (metis prod_cases4)
  with Cons.prems have "fold (replace_one Z formal now) vs (s1, a1, b1, c1) = (s', a', b', c')" by simp
  from Cons.IH [OF this] have ih: "pc_suppression s' = pc_suppression s1" "pc_supp_expiry s' = pc_supp_expiry s1"
    "\<And>m v. pc_records s' m = Some v \<Longrightarrow> pc_records s1 m = Some v \<or> v \<in> set vs \<and> pe_endpoint (cr_item (cv_record v)) = m"
    by auto
  have "pc_suppression s1 = pc_suppression s \<and> pc_supp_expiry s1 = pc_supp_expiry s \<and>
      (\<forall>m w. pc_records s1 m = Some w \<longrightarrow> pc_records s m = Some w \<or> w = v \<and> pe_endpoint (cr_item (cv_record v)) = m)"
    using one by (auto simp: replace_one_def Let_def split: if_splits)
  with ih show ?case by (metis list.set_intros(1) list.set_intros(2))
qed simp

context zset
begin

lemma drop_suppression_cases:
  "pc_suppression (drop_suppression Z now s) m =
     (case z_score Z (pc_supp_expiry s) m of
        Some e \<Rightarrow> if e \<le> now then None else pc_suppression s m
      | None \<Rightarrow> pc_suppression s m)"
  "pc_suppression (drop_suppression Z now s) m \<noteq> None \<Longrightarrow>
     z_score Z (pc_supp_expiry (drop_suppression Z now s)) m = z_score Z (pc_supp_expiry s) m"
proof -
  have mem: "m \<in> set (map fst (z_rangebyscore Z (pc_supp_expiry s) Below_All (Incl now))) \<longleftrightarrow>
      (\<exists>e. z_score Z (pc_supp_expiry s) m = Some e \<and> e \<le> now)"
    using rangebyscore_mem by force
  show "pc_suppression (drop_suppression Z now s) m =
     (case z_score Z (pc_supp_expiry s) m of
        Some e \<Rightarrow> if e \<le> now then None else pc_suppression s m
      | None \<Rightarrow> pc_suppression s m)"
    unfolding drop_suppression_def Let_def using mem by (auto split: option.split simp del: set_map)
  show "pc_suppression (drop_suppression Z now s) m \<noteq> None \<Longrightarrow>
     z_score Z (pc_supp_expiry (drop_suppression Z now s)) m = z_score Z (pc_supp_expiry s) m"
    unfolding drop_suppression_def Let_def by (auto simp: fold_rem_score split: if_splits)
qed

lemma replace_inv:
  assumes inv: "peer_inv Z cfg clock s F" and "clock \<le> now" and "po_max_age (pf_policy cfg) \<le> 600" and "600 \<le> pf_cooldown cfg"
    and "replace Z formal cfg snapshot g owner now s = Inr (s', res)"
  shows "peer_inv Z cfg now s' F"
proof (cases "s' = s")
  case True
  with peer_inv_cong [OF assms(1,2), of s'] show ?thesis by simp
next
  case False
  from assms(5) obtain g' vs n r where enc: "encode_snapshot cfg now snapshot = Inr (vs, n)"
    and run: "replace_script Z formal g' owner now vs s = (s', r)"
    by (auto simp: replace_def split: option.splits if_splits sum.splits prod.splits)
  let ?s1 = "(drop_suppression Z now s)\<lparr>pc_records := Map.empty, pc_expiry := z_empty Z\<rparr>"
  from run False obtain s2 a b c where loop: "fold (replace_one Z formal now) vs (?s1, 0, 0, 0) = (s2, a, b, c)"
    and s': "pc_records s' = pc_records s2" "pc_suppression s' = pc_suppression s2" "pc_supp_expiry s' = pc_supp_expiry s2"
    by (auto simp: replace_script_def Let_def split: if_splits prod.splits)
  note keep = replace_fold_keeps [OF loop]
  have fresh: "pe_endpoint (cr_item (cv_record v)) = m \<and> now - cv_checked v < 600" if "pc_records s' m = Some v" for m v
  proof -
    from that keep s'(1) have v: "v \<in> set vs" "pe_endpoint (cr_item (cv_record v)) = m" by auto
    have "(of_int (po_max_age (pf_policy cfg)) :: rat) \<le> 600" using assms(3) by simp
    with encode_snapshot_checked [OF enc v(1)] v(2) show ?thesis by simp
  qed
  have supp: "pc_suppression s' = pc_suppression (drop_suppression Z now s)"
    "pc_supp_expiry s' = pc_supp_expiry (drop_suppression Z now s)" using keep s' by auto
  have "snd x \<le> now \<and> remembered Z cfg now s' x" if x: "x \<in> set F" for x
  proof -
    from inv x have old: "snd x \<le> clock" "remembered Z cfg clock s x" by (auto simp: peer_inv_def)
    define keep where "keep = (of_int (max (pf_cooldown cfg) (po_max_age (pf_policy cfg)) + 605) :: rat)"
    have k: "1205 \<le> keep" using assms(4) unfolding keep_def by (simp add: le_max_iff_disj)
    have gone: "remembered Z cfg now s' x" if "pc_suppression s' (fst x) = None" "snd x + keep \<le> now"
      using that fresh [of "fst x"] k by (fastforce simp: remembered_def Let_def keep_def)
    show ?thesis
    proof (cases "pc_suppression s (fst x)")
      case None
      then have "snd x + keep \<le> now" using old(2) assms(2) by (simp add: remembered_def Let_def keep_def)
      moreover have "pc_suppression s' (fst x) = None"
        using None unfolding supp by (simp add: drop_suppression_cases split: option.split)
      ultimately show ?thesis using gone old(1) assms(2) by simp
    next
      case (Some f)
      with old(2) obtain e where e: "snd x \<le> fm_failed_at f" "snd x + of_int (pf_cooldown cfg) \<le> fm_blocked_until f"
        "z_score Z (pc_supp_expiry s) (fst x) = Some e" "snd x + keep \<le> e"
        by (auto simp: remembered_def Let_def keep_def)
      show ?thesis
      proof (cases "e \<le> now")
        case True
        then have "pc_suppression s' (fst x) = None" unfolding supp by (simp add: drop_suppression_cases e(3))
        with gone e(4) True old(1) assms(2) show ?thesis by simp
      next
        case False
        then have same: "pc_suppression s' (fst x) = Some f" unfolding supp by (simp add: drop_suppression_cases e(3) Some)
        moreover from this have "z_score Z (pc_supp_expiry s') (fst x) = Some e"
          using drop_suppression_cases(2) [of now s "fst x"] e(3) unfolding supp by simp
        ultimately show ?thesis using e old(1) assms(2) by (simp add: remembered_def Let_def keep_def)
      qed
    qed
  qed
  with fresh show ?thesis by (auto simp: peer_inv_def)
qed

lemma invalidate_inv:
  assumes inv: "peer_inv Z cfg clock s F" and "clock \<le> now"
    and "invalidate Z cfg receipt now s = Inr (s', ok)" and "alive now (pc_receipts s (sr_digest receipt)) = Some r"
  shows "peer_inv Z cfg now s' (if ok then (sr_endpoint r, now) # F else F)"
proof (cases ok)
  case False
  with assms(3,4) have "s' = s" by (auto simp: invalidate_def invalidate_script_def Let_def split: if_splits)
  with False peer_inv_cong [OF assms(1,2), of s'] show ?thesis by simp
next
  case True
  define keep where "keep = (of_int (max (pf_cooldown cfg) (po_max_age (pf_policy cfg)) + 605) :: rat)"
  define m where "m = sr_endpoint r"
  from assms(3,4) True obtain f where s': "pc_suppression s' = (pc_suppression s)(m \<mapsto> f)"
    "pc_supp_expiry s' = z_add Z (pc_supp_expiry s) m (now + keep)" "pc_records s' = (pc_records s)(m := None)"
    "fm_failed_at f = now" "fm_blocked_until f = now + of_int (pf_cooldown cfg)"
    by (auto simp: invalidate_def invalidate_script_def Let_def keep_def m_def split: if_splits)
  have "snd x \<le> now \<and> remembered Z cfg now s' x" if x: "x \<in> set ((m, now) # F)" for x
  proof (cases "fst x = m")
    case True
    have "snd x \<le> now" using x inv assms(2) by (auto simp: peer_inv_def)
    with True s' show ?thesis by (simp add: remembered_def Let_def keep_def)
  next
    case False
    with x have "x \<in> set F" by auto
    with inv have old: "snd x \<le> clock" "remembered Z cfg clock s x" by (auto simp: peer_inv_def)
    have "remembered Z cfg now s x"
      using peer_inv_cong [OF inv assms(2) refl refl refl] \<open>x \<in> set F\<close> by (simp add: peer_inv_def)
    moreover have "pc_suppression s' (fst x) = pc_suppression s (fst x)" "pc_records s' (fst x) = pc_records s (fst x)"
      "z_score Z (pc_supp_expiry s') (fst x) = z_score Z (pc_supp_expiry s) (fst x)" using False s'(1-3) by simp_all
    ultimately have "remembered Z cfg now s' x" unfolding remembered_def Let_def by (simp cong: option.case_cong)
    with old(1) assms(2) show ?thesis by simp
  qed
  moreover have "\<forall>k v. pc_records s' k = Some v \<longrightarrow> pe_endpoint (cr_item (cv_record v)) = k"
    using inv s'(3) by (auto simp: peer_inv_def)
  ultimately show ?thesis using True by (simp only: peer_inv_def m_def [symmetric] if_True) simp
qed

lemma issue_keeps:
  "issue sha it caller now source peer tokens s = Inr (s', token) \<Longrightarrow>
     pc_records s' = pc_records s \<and> pc_suppression s' = pc_suppression s \<and> pc_supp_expiry s' = pc_supp_expiry s"
  by (induction tokens) (auto simp: Let_def split: if_splits)

lemma peer_run_inv:
  assumes "peer_run Z cfg s F clock" and "po_max_age (pf_policy cfg) \<le> 600" and "600 \<le> pf_cooldown cfg"
  shows "peer_inv Z cfg clock s F"
  using assms(1)
proof (induction rule: peer_run.induct)
  case (begin_run s now)
  then show ?case by (simp add: peer_inv_def)
next
  case (sync s F clock now owner s' g)
  then show ?case by (intro peer_inv_cong [OF sync.IH sync.hyps(2)]) (auto simp: begin_sync_def Let_def split: if_splits)
next
  case (abort s F clock now g owner)
  then show ?case by (intro peer_inv_cong [OF abort.IH abort.hyps(2)]) (auto simp: abort_sync_def)
next
  case (noted s F clock now x)
  then show ?case by (intro peer_inv_cong [OF noted.IH noted.hyps(2)]) auto
next
  case (replaced s F clock now formal snapshot g owner s' res)
  show ?case by (rule replace_inv [OF replaced.IH replaced.hyps(2) assms(2,3) replaced.hyps(3)])
next
  case (selected s F clock now sha formal pol cnt excluded caller tokens s' sel)
  show ?case
    by (rule peer_select_sound [OF selected.hyps(3)], rule peer_inv_cong [OF selected.IH selected.hyps(2)])
next
  case (issued s F clock now sha it caller source peer tokens s' token)
  show ?case using issue_keeps [OF issued.hyps(3)] by (intro peer_inv_cong [OF issued.IH issued.hyps(2)]) auto
next
  case (failed s F clock now receipt s' ok r)
  show ?case by (rule invalidate_inv [OF failed.IH failed.hyps(2,3,4)])
next
  case (formal_failed s F clock now receipt s' ok)
  from formal_failed.hyps(3) show ?case
    by (intro peer_inv_cong [OF formal_failed.IH formal_failed.hyps(2)])
       (auto simp: claim_formal_failure_def split: if_splits option.splits)
qed

lemma failed_not_usable:
  assumes "peer_inv Z cfg clock s F" and "clock \<le> now" and "600 \<le> pf_cooldown cfg" and "(m, t) \<in> set F"
    and "usable_until formal p now excluded s m = Some (v, u)"
  shows "t + of_int (pf_cooldown cfg) \<le> now \<and> t + 5 < cv_checked v"
proof -
  note us = usable_until_Some [OF assms(5)]
  from assms(1,4) have rem: "remembered Z cfg clock s (m, t)" by (auto simp: peer_inv_def)
  show ?thesis
  proof (cases "pc_suppression s m")
    case None
    have "(of_int (pf_cooldown cfg) :: rat) \<le> of_int (max (pf_cooldown cfg) (po_max_age (pf_policy cfg)) + 605)"
      by (simp only: of_int_le_iff)
    with None rem us(3) assms(2) show ?thesis by (auto simp: remembered_def Let_def simp del: of_int_add)
  next
    case (Some f)
    with rem us(11) show ?thesis by (auto simp: remembered_def blocked_def Let_def not_less not_le)
  qed
qed

end

section \<open>Properties\<close>

lemma new_peer_store_bounds:
  assumes "new_peer_store peer domain pol ttl cooldown origin = Inr cfg"
  shows "po_max_age (pf_policy cfg) \<le> 600" "600 \<le> pf_cooldown cfg" "90 \<le> po_min_score (pf_policy cfg)"
    "po_max_latency (pf_policy cfg) \<le> 2000" "2 \<le> po_min_successes (pf_policy cfg)"
  using assms
  by (auto simp: new_peer_store_def dest: effective_Inr(7,11,15,19) split: sum.splits if_splits)

lemma peer_selected:
  assumes "zset Z" and "new_peer_store peer domain policy ttl cooldown origin = Inr cfg" and "peer_run Z cfg s F clock"
    and "peer_select Z sha formal cfg pol cnt excluded caller now tokens s = Inr (s', sel)" and "x \<in> set sel"
  obtains p v where "effective_peer_policy pol (pf_policy cfg) (pf_policy cfg) = Inr p"
    "usable_until formal p now excluded s (pe_endpoint (sp_item x)) = Some (v, sp_usable_until x)"
    "sp_item x = cr_item (cv_record v)" "sp_checked x = cv_checked v"
proof -
  from assms(5) obtain p m v where p: "effective_peer_policy pol (pf_policy cfg) (pf_policy cfg) = Inr p"
    and v: "usable_until formal p now excluded s m = Some (v, sp_usable_until x)"
      "sp_item x = cr_item (cv_record v)" "sp_checked x = cv_checked v"
    using peer_select_sound [OF assms(4)] by metis
  have "peer_inv Z cfg clock s F"
    by (rule zset.peer_run_inv [OF assms(1,3) new_peer_store_bounds(1,2) [OF assms(2)]])
  with usable_until_Some(3) [OF v(1)] v(2) have m: "pe_endpoint (sp_item x) = m" by (simp add: peer_inv_def)
  show ?thesis by (rule that [OF p v(1) [folded m] v(2,3)])
qed

text \<open>
  C18: After an invalidation of an endpoint took effect, no selection returns the endpoint for
  ten minutes, and after that only on the evidence of a check made more than five seconds
  after the failure - whatever the other processes did in between (snapshots replaced,
  receipts issued, marks dropped).
\<close>
theorem failed_peer_stays_out:
  assumes "zset Z" and "new_peer_store peer domain policy ttl cooldown origin = Inr cfg"
    and "peer_run Z cfg s F clock" and "clock \<le> now" and "(pe_endpoint (sp_item x), t) \<in> set F"
    and "peer_select Z sha formal cfg pol cnt excluded caller now tokens s = Inr (s', sel)" and "x \<in> set sel"
  shows "t + 600 \<le> now \<and> t + 5 < sp_checked x"
proof -
  note b = new_peer_store_bounds [OF assms(2)]
  have inv: "peer_inv Z cfg clock s F" by (rule zset.peer_run_inv [OF assms(1,3) b(1,2)])
  obtain p v where v: "usable_until formal p now excluded s (pe_endpoint (sp_item x)) = Some (v, sp_usable_until x)"
    "sp_checked x = cv_checked v" by (rule peer_selected [OF assms(1-3,6,7)])
  have "(600 :: rat) \<le> of_int (pf_cooldown cfg)" using b(2) by simp
  with zset.failed_not_usable [OF assms(1) inv assms(4) b(2) assms(5) v(1)] v(2) show ?thesis by simp
qed

text \<open>
  Every proxy a peer selection returns is inside the request's policy and inside the hard
  limits (score at least 90, latency at most 2000 ms, two successes, checked less than ten
  minutes ago), is neither excluded nor a proxy of the formal pool, and its \<open>usable_until\<close> is
  in the future but at most ten minutes away and before its evidence is 595 seconds old; at
  most the requested number is returned.
\<close>
lemma peer_selection_within_bounds:
  assumes "zset Z" and "new_peer_store peer domain policy ttl cooldown origin = Inr cfg" and "peer_run Z cfg s F clock"
    and "peer_select Z sha formal cfg pol cnt excluded caller now tokens s = Inr (s', sel)"
  shows "length sel \<le> cnt \<and>
    (\<forall>x \<in> set sel. pe_domain (sp_item x) = po_domain pol \<and> pe_endpoint (sp_item x) \<notin> set excluded \<and>
       \<not> formal (pe_endpoint (sp_item x)) \<and> max 90 (po_min_score pol) \<le> pe_score (sp_item x) \<and>
       pe_latency (sp_item x) \<le> min 2000 (po_max_latency pol) \<and> max 2 (po_min_successes pol) \<le> pe_successes (sp_item x) \<and>
       now - sp_checked x < 600 \<and> now < sp_usable_until x \<and> sp_usable_until x \<le> now + 600 \<and>
       sp_usable_until x \<le> sp_checked x + 595)"
proof (intro conjI ballI)
  show "length sel \<le> cnt" by (rule peer_select_sound [OF assms(4)])
  fix x assume "x \<in> set sel"
  from peer_selected [OF assms this] obtain p v where p: "effective_peer_policy pol (pf_policy cfg) (pf_policy cfg) = Inr p"
    and v: "usable_until formal p now excluded s (pe_endpoint (sp_item x)) = Some (v, sp_usable_until x)"
      "sp_item x = cr_item (cv_record v)" "sp_checked x = cv_checked v" by metis
  note us = usable_until_Some [OF v(1)] and e = effective_Inr [OF p]
  have age: "(of_int (po_max_age p) :: rat) \<le> 600" using e(15) by simp
  show "pe_domain (sp_item x) = po_domain pol" using us(4) e(1) v(2) by simp
  show "pe_endpoint (sp_item x) \<notin> set excluded" "\<not> formal (pe_endpoint (sp_item x))" using us(1,2) by simp_all
  show "max 90 (po_min_score pol) \<le> pe_score (sp_item x)" using us(5) e(4,7) v(2) by simp
  show "pe_latency (sp_item x) \<le> min 2000 (po_max_latency pol)" using us(6) e(8,11) v(2) by simp
  show "max 2 (po_min_successes pol) \<le> pe_successes (sp_item x)" using us(7) e(16,19) v(2) by simp
  show "now - sp_checked x < 600" using us(9) age v(3) by simp
  show "now < sp_usable_until x" "sp_usable_until x \<le> now + 600" using us(12,13) by simp_all
  show "sp_usable_until x \<le> sp_checked x + 595" using us(15) age v(3) by simp
qed


text \<open>A run for the witnesses: an endpoint fails at 1000, is synchronised again at 1700 and selected at 1701.\<close>

definition w_policy :: policy where
  "w_policy = \<lparr>po_domain = ''d'', po_min_score = 90, po_max_latency = 2000, po_max_age = 600, po_min_successes = 2\<rparr>"

definition w_cfg :: peer_config where
  "w_cfg = \<lparr>pf_peer = ''p'', pf_domain = ''d'', pf_policy = w_policy, pf_ttl = 180, pf_cooldown = 600, pf_origin = None\<rparr>"

definition w_item :: export_item where
  "w_item = \<lparr>pe_endpoint = ''e'', pe_domain = ''d'', pe_score = 95, pe_latency = 100, pe_checked = 1690,
     pe_successes = 3, pe_sources = []\<rparr>"

definition w_record :: cache_record where
  "w_record = \<lparr>cr_item = w_item, cr_peer = ''p'', cr_origin = ''o'', cr_synced = 1700, cr_expires = 1880\<rparr>"

definition w_receipt :: sel_receipt where
  "w_receipt = \<lparr>sr_digest = ''r'', sr_principal = ''c'', sr_domain = ''d'', sr_endpoint = ''e'', sr_source = ''peer'',
     sr_peer = Some ''p'', sr_source_checked = 900, sr_snapshot = w_item, sr_issued = 950, sr_expires = 1550, sr_applied = False\<rparr>"

definition w_state :: "ref_zset peer_cache" where
  "w_state = \<lparr>pc_generation = 0, pc_lock = None, pc_records = Map.empty, pc_expiry = rz_empty,
     pc_suppression = Map.empty, pc_supp_expiry = rz_empty, pc_evictions = rz_empty,
     pc_receipts = [''r'' \<mapsto> (w_receipt, 1550)],
     pc_state = \<lparr>ss_last_attempt = None, ss_last_success = None, ss_heartbeat = None, ss_accepted = 0, ss_failures = 0,
       ss_outcome = [], ss_api_failures = 0\<rparr>\<rparr>"

lemmas w_defs = w_policy_def w_cfg_def w_item_def w_record_def w_receipt_def w_state_def

definition w_failed :: "ref_zset peer_cache" where
  "w_failed = (case invalidate ref_zset_api w_cfg w_receipt 1000 w_state of Inr (s, _) \<Rightarrow> s | Inl _ \<Rightarrow> w_state)"

definition w_synced :: "ref_zset peer_cache" where
  "w_synced = (case begin_sync 1700 ''w'' w_failed of Inr (s, _) \<Rightarrow> s | Inl _ \<Rightarrow> w_state)"

definition w_replaced :: "ref_zset peer_cache" where
  "w_replaced = (case replace ref_zset_api (\<lambda>_. False) w_cfg [w_record] (Some 1) ''w'' 1700 w_synced of
     Inr (s, _) \<Rightarrow> s | Inl _ \<Rightarrow> w_state)"

lemmas w_eval = invalidate_def invalidate_script_def begin_sync_def replace_def replace_script_def replace_one_def
  drop_suppression_def blocked_def accepts_def evidence_of_cache_def Let_def w_defs ref_zset_eval

lemma w_store: "new_peer_store ''p'' ''d'' None 180 600 None = Inr w_cfg"
  by (simp add: new_peer_store_def new_policy_def effective_peer_policy_def w_defs)

lemma w_invalidate: "invalidate ref_zset_api w_cfg w_receipt 1000 w_state = Inr (w_failed, True)"
  by (simp add: w_failed_def w_eval)

lemma w_begin: "begin_sync 1700 ''w'' w_failed = Inr (w_synced, Some 1)"
  unfolding w_synced_def w_failed_def by (simp add: w_eval)

lemma w_replace: "\<exists>res. replace ref_zset_api (\<lambda>_. False) w_cfg [w_record] (Some 1) ''w'' 1700 w_synced = Inr (w_replaced, res)"
  unfolding w_replaced_def w_synced_def w_failed_def
  by (simp add: w_eval)

definition w_chosen :: selected_proxy where
  "w_chosen = \<lparr>sp_item = w_item, sp_peer = ''p'', sp_checked = 1690, sp_token = ''t'', sp_usable_until = 1880\<rparr>"

lemma w_select:
  "\<exists>s. peer_select ref_zset_api (\<lambda>x. x) (\<lambda>_. False) w_cfg w_policy 1 [] ''c'' 1701 [''t''] w_replaced = Inr (s, [w_chosen])"
  unfolding w_replaced_def w_synced_def w_failed_def w_chosen_def
  by (simp add: peer_select_def unexpired_def usable_until_def token_digest_def decode_selected_def
      effective_peer_policy_def new_policy_def w_eval)

lemma w_run: "peer_run ref_zset_api w_cfg w_replaced [(''e'', 1000)] 1700"
proof -
  have "peer_run ref_zset_api w_cfg w_state [] 1000" by (rule begin_run) (simp add: w_state_def)
  from failed [OF this order_refl w_invalidate, of w_receipt]
  have "peer_run ref_zset_api w_cfg w_failed [(''e'', 1000)] 1000" by (simp add: w_defs)
  from sync [OF this _ w_begin] have synced: "peer_run ref_zset_api w_cfg w_synced [(''e'', 1000)] 1700" by simp
  from w_replace obtain res where "replace ref_zset_api (\<lambda>_. False) w_cfg [w_record] (Some 1) ''w'' 1700 w_synced = Inr (w_replaced, res)"
    by blast
  from replaced [OF synced order_refl this] show ?thesis .
qed

theorem failed_peer_stays_out_witness:
  "(1000 :: time) + 600 \<le> 1701 \<and> 1000 + 5 < sp_checked w_chosen"
proof -
  obtain s where sel: "peer_select ref_zset_api (\<lambda>x. x) (\<lambda>_. False) w_cfg w_policy 1 [] ''c'' 1701 [''t''] w_replaced =
    Inr (s, [w_chosen])" using w_select by blast
  show ?thesis
    by (rule failed_peer_stays_out [OF ref_zset.zset_axioms w_store w_run _ _ sel])
       (simp_all add: w_chosen_def w_item_def)
qed

lemma peer_selection_within_bounds_witness:
  "pe_endpoint (sp_item w_chosen) \<notin> set [] \<and> max 90 (po_min_score w_policy) \<le> pe_score (sp_item w_chosen) \<and>
   1701 - sp_checked w_chosen < 600 \<and> sp_usable_until w_chosen \<le> 1701 + 600"
proof -
  obtain s where sel: "peer_select ref_zset_api (\<lambda>x. x) (\<lambda>_. False) w_cfg w_policy 1 [] ''c'' 1701 [''t''] w_replaced =
    Inr (s, [w_chosen])" using w_select by blast
  show ?thesis using peer_selection_within_bounds [OF ref_zset.zset_axioms w_store w_run sel] by simp
qed

end
