(* ===== verification/PeerSync.thy ===== *)
theory PeerSync
  imports PeerCache PoolQuery
begin

text \<open>
  The two ends of the peer exchange: the export route of the node that owns the pool
  (api/routes/peer.py) and the synchronisation worker of the node that caches it
  (peer_cache/sync.py).
  Parsing the response body (\<open>model_validate_json\<close>) and splitting a URL are library code:
  \<open>decode\<close> and \<open>url_parts\<close> stand for them. What the HTTP client does is an argument.
\<close>

section \<open>The export route\<close>

record export_settings =
  xs_enabled :: bool
  xs_node :: string
  xs_domain :: string
  xs_selection :: policy
  xs_cache :: policy

record export_query =
  xq_domain :: string
  xq_count :: int
  xq_min_score :: int
  xq_max_latency :: pyfloat
  xq_max_age :: int
  xq_min_successes :: int

text \<open>The constraints FastAPI puts on the query parameters.\<close>

definition query_ok :: "export_query \<Rightarrow> bool" where
  "query_ok q \<longleftrightarrow>
     1 \<le> length (xq_domain q) \<and> length (xq_domain q) \<le> 253 \<and> 1 \<le> xq_count q \<and> xq_count q \<le> 20 \<and>
     0 \<le> xq_min_score q \<and> xq_min_score q \<le> 100 \<and>
     (case xq_max_latency q of Finite l \<Rightarrow> 0 \<le> l | _ \<Rightarrow> False) \<and> 0 < xq_max_age q \<and>
     1 \<le> xq_min_successes q \<and> xq_min_successes q \<le> 20"

definition service_policy :: "string \<Rightarrow> policy \<Rightarrow> policy result" where
  "service_policy domain p =
     new_policy domain (po_min_score p) (Finite (po_max_latency p)) (po_max_age p) (po_min_successes p)"

definition export_policy :: "export_settings \<Rightarrow> export_query \<Rightarrow> policy result" where
  "export_policy cfg q =
     (case new_policy (xq_domain q) (xq_min_score q) (xq_max_latency q) (xq_max_age q) (xq_min_successes q) of
        Inl e \<Rightarrow> Inl e
      | Inr request \<Rightarrow>
          (case service_policy (xq_domain q) (xs_selection cfg) of
             Inl e \<Rightarrow> Inl e
           | Inr service \<Rightarrow>
               (case service_policy (xq_domain q) (xs_cache cfg) of
                  Inl e \<Rightarrow> Inl e
                | Inr cache \<Rightarrow> effective_peer_policy request service cache)))"

definition export_one :: "(string \<Rightarrow> bool) \<Rightarrow> policy \<Rightarrow> time \<Rightarrow> proxy_record \<Rightarrow> export_item option" where
  "export_one is_global pol now r =
     (if state r \<noteq> Available \<or> \<not> accepts (evidence_of_record r) pol now then None
      else (case from_record is_global r of Inl _ \<Rightarrow> None | Inr it \<Rightarrow> Some it))"

definition export_proxies ::
  "('z, 'h, 'o, 's, 'p) svc \<Rightarrow> (string \<Rightarrow> bool) \<Rightarrow> export_settings \<Rightarrow> export_query \<Rightarrow> time \<Rightarrow> (nat \<Rightarrow> nat)
     \<Rightarrow> (proxy_record list \<Rightarrow> proxy_record list) \<Rightarrow> ('z, 'h, 'o, 's) repo
     \<Rightarrow> (('z, 'h, 'o, 's) repo \<times> export_response) result" where
  "export_proxies E is_global cfg q now draw shuffle R =
     (if \<not> query_ok q then Inl (HTTPException 422 ''validation'')
      else if \<not> xs_enabled cfg then Inl (HTTPException 503 ''peer export unavailable'')
      else if xq_domain q \<noteq> xs_domain cfg then Inl (HTTPException 422 ''unsupported domain'')
      else
        (case export_policy cfg q of
           Inl e \<Rightarrow> Inl e
         | Inr pol \<Rightarrow>
             (case select_formal_export E (xq_domain q) (po_min_score pol) (xq_count q) (po_max_latency pol) (po_max_age pol)
                     (po_min_successes pol) now draw shuffle R of
                Inl LatencyIndexNotReady \<Rightarrow> Inl (HTTPException 503 ''latency index not ready'')
              | Inl _ \<Rightarrow> Inl (HTTPException 503 ''service unavailable'')
              | Inr (R', sel) \<Rightarrow>
                  if \<not> (1 \<le> length (xs_node cfg) \<and> length (xs_node cfg) \<le> 64) then Inl (ValueError ''PeerExportResponse'')
                  else Inr (R', \<lparr>xr_origin = xs_node cfg, xr_generated = now,
                                 xr_items = take (nat (xq_count q))
                                   (List.map_filter (export_one is_global pol now) (sel_records sel))\<rparr>))))"

section \<open>The synchronisation worker\<close>

record url_parts =
  up_scheme :: string
  up_hostname :: "string option"
  up_port :: "int option"
  up_path :: string
  up_username :: "string option"
  up_password :: "string option"
  up_query :: string
  up_fragment :: string

record sync_config =
  sy_peer :: string
  sy_origin :: string
  sy_domain :: string
  sy_enabled :: bool
  sy_interval :: int

definition given :: "string option \<Rightarrow> bool" where
  "given x = (case x of None \<Rightarrow> False | Some s \<Rightarrow> s \<noteq> [])"

definition new_sync_worker ::
  "url_parts \<Rightarrow> string \<Rightarrow> string \<Rightarrow> string \<Rightarrow> string \<Rightarrow> bool \<Rightarrow> int \<Rightarrow> sync_config result" where
  "new_sync_worker url api_key peer origin domain enabled interval =
     (if up_scheme url \<noteq> ''http'' \<or> up_hostname url \<noteq> Some ''peer-tunnel'' \<or> up_port url \<noteq> Some 8000 \<or>
         up_path url \<notin> {[], ''/''} \<or> given (up_username url) \<or> given (up_password url) \<or> up_query url \<noteq> [] \<or> up_fragment url \<noteq> []
      then Inl (ValueError ''peer sync URL must be the internal tunnel'')
      else if peer = [] \<or> origin = [] \<or> domain = [] \<or> api_key = []
      then Inl (ValueError ''peer sync identity and key required'')
      else if interval < 10 then Inl (ValueError ''peer sync interval must be at least 10 seconds'')
      else Inr \<lparr>sy_peer = peer, sy_origin = origin, sy_domain = domain, sy_enabled = enabled, sy_interval = interval\<rparr>)"

text \<open>
  What the client can do: fail, or give a status and the chunks of the body, possibly failing
  after some of them. The time limit of three seconds is one of the failures.
\<close>

datatype transport = Timeout_Error | Request_Failure | Other_Failure
datatype fetched = Failed transport | Response int "string list" "transport option"

fun transport_outcome :: "transport \<Rightarrow> string" where
  "transport_outcome Timeout_Error = ''timeout''"
| "transport_outcome Request_Failure = ''network_error''"
| "transport_outcome Other_Failure = ''store_error''"

text \<open>\<open>MAX_RESPONSE_BYTES\<close>; the body is given up as soon as it is longer.\<close>

definition max_response_bytes :: nat where
  "max_response_bytes = 64 * 1024"

fun read_body :: "string \<Rightarrow> string list \<Rightarrow> string option" where
  "read_body acc [] = Some acc"
| "read_body acc (c # cs) =
     (let acc' = acc @ c in if max_response_bytes < length acc' then None else read_body acc' cs)"

definition cache_item :: "sync_config \<Rightarrow> time \<Rightarrow> export_item \<Rightarrow> cache_record" where
  "cache_item w now it =
     \<lparr>cr_item = it, cr_peer = sy_peer w, cr_origin = sy_origin w, cr_synced = now,
      cr_expires = min (now + 180) (pe_checked it + 595)\<rparr>"

text \<open>The loop over the items: \<open>None\<close> is the \<open>ValueError\<close>. The names' length is the model's constraint.\<close>

fun cache_items :: "sync_config \<Rightarrow> time \<Rightarrow> string list \<Rightarrow> export_item list \<Rightarrow> cache_record list option" where
  "cache_items w now seen [] = Some []"
| "cache_items w now seen (it # its) =
     (if pe_domain it \<noteq> sy_domain w \<or> pe_endpoint it \<in> set seen \<or> length (sy_peer w) > 64 \<or> length (sy_origin w) > 64 then None
      else map_option (\<lambda>cs. cache_item w now it # cs) (cache_items w now (pe_endpoint it # seen) its))"

text \<open>
  The body of the inner \<open>try\<close> with its handlers: the store, the outcome, the number accepted
  and whether the snapshot was committed. \<open>fault\<close> is what \<open>store.replace\<close> raises when its
  command does not reach the store.
\<close>

definition sync_attempt ::
  "'z zset_api \<Rightarrow> (string \<Rightarrow> bool) \<Rightarrow> (string \<Rightarrow> export_response option) \<Rightarrow> peer_config \<Rightarrow> sync_config \<Rightarrow> fetched
     \<Rightarrow> transport option \<Rightarrow> nat \<Rightarrow> string \<Rightarrow> time \<Rightarrow> 'z peer_cache \<Rightarrow> 'z peer_cache \<times> string \<times> nat \<times> bool" where
  "sync_attempt Z formal decode cfg w got fault g owner now s =
     (case got of
        Failed t \<Rightarrow> (s, transport_outcome t, 0, False)
      | Response status parts broken \<Rightarrow>
          if status \<in> {401, 403} then (s, ''auth_error'', 0, False)
          else if 300 \<le> status \<and> status < 400 then (s, ''redirect_error'', 0, False)
          else if status \<noteq> 200 then (s, ''http_error'', 0, False)
          else
            (case read_body [] parts of
               None \<Rightarrow> (s, ''oversize'', 0, False)
             | Some raw \<Rightarrow>
                 (case broken of
                    Some t \<Rightarrow> (s, transport_outcome t, 0, False)
                  | None \<Rightarrow>
                      (case decode raw of
                         None \<Rightarrow> (s, ''protocol_error'', 0, False)
                       | Some snapshot \<Rightarrow>
                           if xr_origin snapshot \<noteq> sy_origin w \<or> \<bar>now - xr_generated snapshot\<bar> > 5
                           then (s, ''protocol_error'', 0, False)
                           else
                             (case cache_items w now [] (xr_items snapshot) of
                                None \<Rightarrow> (s, ''protocol_error'', 0, False)
                              | Some recs \<Rightarrow>
                                  (case fault of
                                     Some t \<Rightarrow> (s, transport_outcome t, 0, False)
                                   | None \<Rightarrow>
                                       (case replace Z formal cfg recs (Some g) owner now s of
                                          Inl _ \<Rightarrow> (s, ''protocol_error'', 0, False)
                                        | Inr (s', r) \<Rightarrow>
                                            if rr_stale r then (s', ''stale_generation'', 0, False)
                                            else (s', ''success'', rr_accepted r, True))))))))"

record sync_outcome =
  so_outcome :: string
  so_accepted :: nat
  so_generation :: "nat option"

text \<open>Which of the store's commands do not reach it in one run.\<close>

record faults =
  fl_begin :: bool
  fl_replace :: "transport option"
  fl_note :: bool
  fl_abort :: bool

definition sync_once ::
  "'z zset_api \<Rightarrow> (string \<Rightarrow> bool) \<Rightarrow> (string \<Rightarrow> export_response option) \<Rightarrow> peer_config \<Rightarrow> sync_config \<Rightarrow> fetched
     \<Rightarrow> faults \<Rightarrow> string \<Rightarrow> time \<Rightarrow> 'z peer_cache \<Rightarrow> 'z peer_cache \<times> sync_outcome" where
  "sync_once Z formal decode cfg w got fl owner now s =
     (if \<not> sy_enabled w then (s, \<lparr>so_outcome = ''disabled'', so_accepted = 0, so_generation = None\<rparr>)
      else if fl_begin fl then (s, \<lparr>so_outcome = ''store_error'', so_accepted = 0, so_generation = None\<rparr>)
      else
        (case begin_sync now owner s of
           Inl _ \<Rightarrow> (s, \<lparr>so_outcome = ''store_error'', so_accepted = 0, so_generation = None\<rparr>)
         | Inr (s1, None) \<Rightarrow> (s1, \<lparr>so_outcome = ''lock_busy'', so_accepted = 0, so_generation = None\<rparr>)
         | Inr (s1, Some g) \<Rightarrow>
             (case sync_attempt Z formal decode cfg w got (fl_replace fl) g owner now s1 of
                (s2, outcome, accepted, committed) \<Rightarrow>
                  let (s3, outcome') =
                        (if outcome = ''success'' then (s2, outcome)
                         else if fl_note fl then (s2, ''store_error'')
                         else (note_failure outcome now s2, outcome));
                      s4 = (if committed \<or> fl_abort fl then s3 else abort_sync now g owner s3)
                  in (s4, \<lparr>so_outcome = outcome', so_accepted = accepted, so_generation = Some g\<rparr>))))"

section \<open>Reading and caching a snapshot\<close>

lemma read_body_short: "length (acc @ concat cs) \<le> max_response_bytes \<Longrightarrow> read_body acc cs = Some (acc @ concat cs)"
  by (induction cs arbitrary: acc) auto

lemma read_body_Some: "read_body acc cs = Some raw \<Longrightarrow> raw = acc @ concat cs"
proof (induction cs arbitrary: acc)
  case (Cons c cs)
  then have "read_body (acc @ c) cs = Some raw" by (simp add: Let_def split: if_splits)
  from Cons.IH [OF this] show ?case by simp
qed simp

lemma read_body_bounded: "read_body acc cs = Some raw \<Longrightarrow> length acc \<le> max_response_bytes \<Longrightarrow> length raw \<le> max_response_bytes"
  by (induction cs arbitrary: acc) (auto simp: Let_def not_less split: if_splits)

lemma cache_items_Some: "cache_items w now seen its = Some cs \<Longrightarrow> cs = map (cache_item w now) its"
  by (induction its arbitrary: seen cs) (auto split: if_splits)

lemma cache_items_distinct:
  "\<forall>it \<in> set its. pe_domain it = sy_domain w \<Longrightarrow> distinct (map pe_endpoint its) \<Longrightarrow> set seen \<inter> pe_endpoint ` set its = {} \<Longrightarrow>
     length (sy_peer w) \<le> 64 \<Longrightarrow> length (sy_origin w) \<le> 64 \<Longrightarrow>
     cache_items w now seen its = Some (map (cache_item w now) its)"
  by (induction its arbitrary: seen) auto

lemma encode_snapshot_total:
  "\<forall>c \<in> set cs. pe_domain (cr_item c) = pf_domain cfg \<and> cr_peer c = pf_peer cfg \<and> pf_origin cfg \<in> {None, Some (cr_origin c)} \<and>
     cr_synced c = now \<Longrightarrow> \<exists>vs n. encode_snapshot cfg now cs = Inr (vs, n)"
proof (induction cs)
  case (Cons c cs)
  from Cons obtain vs n where "encode_snapshot cfg now cs = Inr (vs, n)" by auto
  with Cons.prems show ?case by (auto simp: Let_def)
qed simp

lemma encode_snapshot_source:
  "encode_snapshot cfg now cs = Inr (vs, n) \<Longrightarrow> cv_record ` set vs \<subseteq> set cs"
proof (induction cs arbitrary: vs n)
  case (Cons c cs)
  then obtain ws k where "encode_snapshot cfg now cs = Inr (ws, k)"
    by (auto simp: Let_def split: if_splits sum.splits)
  with Cons show ?case by (fastforce simp: Let_def split: if_splits)
qed simp

text \<open>What a replacement that was sent to the store leaves.\<close>

lemma replace_effect:
  assumes "replace Z formal cfg cs (Some g) owner now s = Inr (s', r)"
  obtains (stale) "s' = s" "rr_stale r"
  | (committed) "\<not> rr_stale r" "pc_lock s' = None" "ss_failures (pc_state s') = 0" "ss_last_success (pc_state s') = Some now"
      "\<forall>m v. pc_records s' m = Some v \<longrightarrow> cv_record v \<in> set cs \<and> pe_endpoint (cr_item (cv_record v)) = m"
proof -
  from assms obtain vs n r0 where enc: "encode_snapshot cfg now cs = Inr (vs, n)"
    and run: "replace_script Z formal g owner now vs s = (s', r0)" and r: "rr_stale r = rr_stale r0"
    by (auto simp: replace_def split: if_splits sum.splits prod.splits)
  show thesis
  proof (cases "pc_generation s \<noteq> g \<or> alive now (pc_lock s) \<noteq> Some (owner, g)")
    case True
    with run have "s' = s" "rr_stale r0" by (auto simp: replace_script_def)
    with r show thesis by (simp add: stale)
  next
    case False
    let ?s1 = "(drop_suppression Z now s)\<lparr>pc_records := Map.empty, pc_expiry := z_empty Z\<rparr>"
    obtain s2 a b c where loop: "fold (replace_one Z formal now) vs (?s1, 0, 0, 0) = (s2, a, b, c)" by (metis prod_cases4)
    with False run have s': "s' = s2\<lparr>pc_state := (pc_state s2)\<lparr>ss_last_attempt := Some now, ss_last_success := Some now,
          ss_heartbeat := Some now, ss_accepted := a, ss_failures := 0, ss_outcome := ''success''\<rparr>, pc_lock := None\<rparr>"
      and r0: "\<not> rr_stale r0" by (auto simp: replace_script_def Let_def)
    from replace_fold_keeps [OF loop] encode_snapshot_source [OF enc]
    have "\<forall>m v. pc_records s2 m = Some v \<longrightarrow> cv_record v \<in> set cs \<and> pe_endpoint (cr_item (cv_record v)) = m" by auto
    then show thesis by (intro committed) (simp_all add: s' r0 r)
  qed
qed

text \<open>The attempt either leaves the store as it was or commits the response.\<close>

lemma attempt_cases:
  assumes "sync_attempt Z formal decode cfg w got fault g owner now s = (s', outcome, accepted, committed)"
  obtains (failed) "s' = s" "outcome \<noteq> ''success''" "accepted = 0" "\<not> committed"
  | (success) parts snap where "outcome = ''success''" "committed" "got = Response 200 parts None"
      "length (concat parts) \<le> 65536" "decode (concat parts) = Some snap" "xr_origin snap = sy_origin w" "\<bar>now - xr_generated snap\<bar> \<le> 5"
      "pc_lock s' = None" "ss_failures (pc_state s') = 0" "ss_last_success (pc_state s') = Some now"
      "\<forall>m v. pc_records s' m = Some v \<longrightarrow> cr_item (cv_record v) \<in> set (xr_items snap) \<and> pe_endpoint (cr_item (cv_record v)) = m"
proof (cases "committed")
  case False
  have t: "transport_outcome x \<noteq> ''success''" for x by (cases x) simp_all
  from assms False have "s' = s \<and> outcome \<noteq> ''success'' \<and> accepted = 0"
    unfolding sync_attempt_def
    by (auto split: fetched.splits if_splits option.splits sum.splits prod.splits simp: t
        elim: replace_effect)
  with False show ?thesis by (simp add: failed)
next
  case True
  from assms True obtain parts raw snap recs r where *: "got = Response 200 parts None" "read_body [] parts = Some raw"
    "decode raw = Some snap" "xr_origin snap = sy_origin w" "\<bar>now - xr_generated snap\<bar> \<le> 5"
    "cache_items w now [] (xr_items snap) = Some recs" "replace Z formal cfg recs (Some g) owner now s = Inr (s', r)"
    "\<not> rr_stale r" "outcome = ''success''"
    unfolding sync_attempt_def
    by (auto split: fetched.splits if_splits option.splits sum.splits prod.splits)
  show ?thesis
  proof (rule replace_effect [OF *(7)], goal_cases)
    case 1
    with *(8) show ?case by simp
  next
    case 2
    have rec: "\<forall>m v. pc_records s' m = Some v \<longrightarrow> cr_item (cv_record v) \<in> set (xr_items snap) \<and> pe_endpoint (cr_item (cv_record v)) = m"
      using 2(5) cache_items_Some [OF *(6)] by (fastforce simp: cache_item_def)
    from *(3) read_body_Some [OF *(2)] have dec: "decode (concat parts) = Some snap" by simp
    from read_body_bounded [OF *(2)] read_body_Some [OF *(2)] have "length (concat parts) \<le> 65536"
      by (simp add: max_response_bytes_def)
    from success [OF *(9) True *(1) this dec *(4,5) 2(2-4) rec] show ?case .
  qed
qed

section \<open>Properties\<close>


lemma sync_attempt_commits:
  assumes "got = Response 200 parts None" and "length (concat parts) \<le> 65536" and "decode (concat parts) = Some snap"
    and "xr_origin snap = sy_origin w" and "\<bar>now - xr_generated snap\<bar> \<le> 5" and "length (xr_items snap) \<le> 20"
    and "\<forall>it \<in> set (xr_items snap). pe_domain it = sy_domain w" and "distinct (map pe_endpoint (xr_items snap))"
    and "length (sy_peer w) \<le> 64" and "length (sy_origin w) \<le> 64"
    and "pf_domain cfg = sy_domain w" and "pf_peer cfg = sy_peer w" and "pf_origin cfg \<in> {None, Some (sy_origin w)}"
    and "g \<noteq> 0" and "owner \<noteq> []" and "pc_generation s = g" and "alive now (pc_lock s) = Some (owner, g)"
  shows "\<exists>s' n. sync_attempt Z formal decode cfg w got None g owner now s = (s', ''success'', n, True)"
proof -
  let ?cs = "map (cache_item w now) (xr_items snap)"
  have raw: "read_body [] parts = Some (concat parts)"
    using read_body_short [of "[]" parts] assms(2) by (simp add: max_response_bytes_def)
  have items: "cache_items w now [] (xr_items snap) = Some ?cs"
    using assms(7-10) by (intro cache_items_distinct) auto
  have "\<exists>vs n. encode_snapshot cfg now ?cs = Inr (vs, n)"
    using assms(7,11-13) by (intro encode_snapshot_total) (auto simp: cache_item_def)
  then obtain vs n where enc: "encode_snapshot cfg now ?cs = Inr (vs, n)" by blast
  obtain s1 r1 where run: "replace_script Z formal g owner now vs s = (s1, r1)" by fastforce
  with assms(16,17) have "\<not> rr_stale r1" by (auto simp: replace_script_def Let_def split: prod.splits)
  moreover have "distinct (map (\<lambda>c. pe_endpoint (cr_item c)) ?cs)" using assms(8) by (simp add: cache_item_def comp_def)
  ultimately have "\<exists>r. replace Z formal cfg ?cs (Some g) owner now s = Inr (s1, r) \<and> \<not> rr_stale r"
    using assms(6,14,15) enc run by (simp add: replace_def)
  then obtain r where "replace Z formal cfg ?cs (Some g) owner now s = Inr (s1, r)" "\<not> rr_stale r" by blast
  with raw items assms(1,3-5) have "sync_attempt Z formal decode cfg w got None g owner now s = (s1, ''success'', rr_accepted r, True)"
    by (simp add: sync_attempt_def)
  then show ?thesis by blast
qed

text \<open>What the export route puts into its reply.\<close>

lemma export_policy_domain: "export_policy cfg q = Inr pol \<Longrightarrow> po_domain pol = xq_domain q"
  by (auto simp: export_policy_def new_policy_def dest!: effective_Inr(1) split: sum.splits if_splits pyfloat.splits)

lemma export_one_Some:
  assumes "export_one is_global pol now r = Some it"
  shows "pe_domain it = po_domain pol" "pe_endpoint it = canonical (endpoint r)"
  using assms
  by (auto simp: export_one_def from_record_def accepts_def evidence_of_record_def
      split: if_splits sum.splits option.splits pyfloat.splits)

lemma distinct_map_filter_via:
  "distinct (map key xs) \<Longrightarrow> (\<And>x y. f x = Some y \<Longrightarrow> key' y = key x) \<Longrightarrow> distinct (map key' (List.map_filter f xs))"
proof (induction xs)
  case (Cons x xs)
  have "key' y \<in> key ` set xs" if "y \<in> set (List.map_filter f xs)" for y
    using that Cons.prems(2) by (force simp: List.map_filter_def)
  then have "key x \<notin> key' ` set (List.map_filter f xs)" using Cons.prems(1) by auto
  with Cons show ?case by (cases "f x") (auto simp: List.map_filter_simps)
qed (simp add: List.map_filter_def)

lemma export_reply:
  assumes "pool_svc E" and "stored_ok E (pools R (xq_domain q))"
    and "\<And>n. 0 < n \<Longrightarrow> draw n < n" and "\<And>xs. mset (shuffle xs) = mset xs"
    and "export_proxies E is_global xcfg q now draw shuffle R = Inr (R', snap)"
  shows "R' = R" "xr_origin snap = xs_node xcfg" "xr_generated snap = now" "length (xr_items snap) \<le> 20"
    "\<forall>it \<in> set (xr_items snap). pe_domain it = xq_domain q" "distinct (map pe_endpoint (xr_items snap))"
    "length (xs_node xcfg) \<le> 64"
proof -
  from assms(5) obtain pol sel where pol: "export_policy xcfg q = Inr pol" and q: "query_ok q"
    and run: "select_formal_export E (xq_domain q) (po_min_score pol) (xq_count q) (po_max_latency pol) (po_max_age pol)
       (po_min_successes pol) now draw shuffle R = Inr (R', sel)"
    and snap: "snap = \<lparr>xr_origin = xs_node xcfg, xr_generated = now,
       xr_items = take (nat (xq_count q)) (List.map_filter (export_one is_global pol now) (sel_records sel))\<rparr>"
    and node: "length (xs_node xcfg) \<le> 64"
    by (auto simp: export_proxies_def split: if_splits sum.splits prod.splits exn.splits)
  note run' = run [unfolded select_formal_export_def]
  show "R' = R" using selection_source(2) [OF assms(1) run' assms(3,4)] by simp
  show "xr_origin snap = xs_node xcfg" "xr_generated snap = now" "length (xs_node xcfg) \<le> 64" using node by (simp_all add: snap)
  show "length (xr_items snap) \<le> 20" using q by (auto simp: snap query_ok_def)
  show "\<forall>it \<in> set (xr_items snap). pe_domain it = xq_domain q"
    using export_policy_domain [OF pol]
    by (auto simp: snap List.map_filter_def dest!: in_set_takeD) (metis export_one_Some(1) option.sel)
  have "distinct (map (\<lambda>r. canonical (endpoint r)) (sel_records sel))"
    by (rule selection_distinct [OF assms(1,2) run' assms(3,4)])
  then have "distinct (map pe_endpoint (List.map_filter (export_one is_global pol now) (sel_records sel)))"
    by (rule distinct_map_filter_via) (rule export_one_Some(2))
  then show "distinct (map pe_endpoint (xr_items snap))" by (simp add: snap take_map [symmetric])
qed

text \<open>
  C20: What one node exports the other accepts: when the pool's records are stored under their
  endpoints, a reply of the export route that arrives whole within the size limit and the
  five seconds is committed by the worker, provided the two are configured for each other and
  the worker gets the lock; and exporting changed nothing in the pool.
\<close>
theorem exported_snapshot_is_accepted:
  assumes "pool_svc E" and "stored_ok E (pools R (sy_domain w))"
    and "\<And>n. 0 < n \<Longrightarrow> draw n < n" and "\<And>xs. mset (shuffle xs) = mset xs"
    and "export_proxies E is_global xcfg q sent draw shuffle R = Inr (R', snap)" and "xq_domain q = sy_domain w"
    and "decode (concat parts) = Some snap" and "length (concat parts) \<le> 65536" and "\<bar>now - sent\<bar> \<le> 5"
    and "sy_enabled w" and "sy_origin w = xs_node xcfg" and "length (sy_peer w) \<le> 64"
    and "pf_domain cfg = sy_domain w" and "pf_peer cfg = sy_peer w" and "pf_origin cfg \<in> {None, Some (sy_origin w)}"
    and "\<not> fl_begin fl" and "fl_replace fl = None" and "owner \<noteq> []" and "alive now (pc_lock s) = None"
  shows "R' = R \<and>
    so_outcome (snd (sync_once Z formal decode cfg w (Response 200 parts None) fl owner now s)) = ''success''"
proof -
  note reply = export_reply [OF assms(1) assms(2) [folded assms(6)] assms(3-5)]
  define g where "g = pc_generation s + 1"
  define s1 where "s1 = s\<lparr>pc_generation := g, pc_lock := Some ((owner, g), now + 10)\<rparr>"
  have locked: "begin_sync now owner s = Inr (s1, Some g)"
    using assms(18,19) by (simp add: begin_sync_def Let_def s1_def g_def)
  have "\<exists>s' n. sync_attempt Z formal decode cfg w (Response 200 parts None) None g owner now s1 = (s', ''success'', n, True)"
  proof (rule sync_attempt_commits [where parts = parts and decode = decode and snap = snap])
    show "\<bar>now - xr_generated snap\<bar> \<le> 5" using assms(9) reply(3) by simp
    show "\<forall>it \<in> set (xr_items snap). pe_domain it = sy_domain w" using reply(5) assms(6) by simp
    show "alive now (pc_lock s1) = Some (owner, g)" by (simp add: s1_def)
    show "length (sy_origin w) \<le> 64" using assms(11) reply(7) by simp
  qed (use assms(7,8,11-15,18) reply(2,4,6) in \<open>simp_all add: s1_def g_def\<close>)
  then obtain s' n where "sync_attempt Z formal decode cfg w (Response 200 parts None) None g owner now s1 = (s', ''success'', n, True)"
    by blast
  with locked reply(1) assms(10,16,17) show ?thesis by (simp add: sync_once_def Let_def)
qed

definition w_worker :: sync_config where
  "w_worker = \<lparr>sy_peer = ''p'', sy_origin = ''o'', sy_domain = ''d'', sy_enabled = True, sy_interval = 60\<rparr>"

definition no_faults :: faults where
  "no_faults = \<lparr>fl_begin = False, fl_replace = None, fl_note = False, fl_abort = False\<rparr>"


definition w_export :: export_settings where
  "w_export = \<lparr>xs_enabled = True, xs_node = ''o'', xs_domain = ''d'', xs_selection = w_policy, xs_cache = w_policy\<rparr>"

definition w_query :: export_query where
  "w_query = \<lparr>xq_domain = ''d'', xq_count = 20, xq_min_score = 90, xq_max_latency = Finite 2000, xq_max_age = 600, xq_min_successes = 2\<rparr>"

lemma w_sample:
  "consecutive_successes (sample h st sc l t) = 2" "latency_ewma_ms (sample h st sc l t) = Some (Finite l)"
  "last_checked_at (sample h st sc l t) = Some 0"
  by (simp_all add: sample_def)

lemma w_exported:
  "\<exists>R' snap. export_proxies ref_svc (\<lambda>_. True) w_export w_query 10 (\<lambda>_. 0) (\<lambda>xs. xs) ready_repo = Inr (R', snap) \<and>
     map pe_endpoint (xr_items snap) = [''b:80'']"
  by (simp add: export_proxies_def query_ok_def export_policy_def service_policy_def new_policy_def effective_peer_policy_def
      select_formal_export_def select_random_proxies_def latency_index_ready_def pool_for_def ready_repo_def
      w_export_def w_query_def w_policy_def select_pool_def select_batches.simps inspect_def pool_eval sample_valid
      criteria_of_def latency_bound_def start_selecting_def mark_stale_def selection_skip_reason_def record_at_def
      List.map_filter_simps export_one_def accepts_def evidence_of_record_def w_sample from_record_def validate_proxy_endpoint_def on_pool_def
      split: prod.split)

theorem exported_snapshot_is_accepted_witness:
  "\<exists>snap. map pe_endpoint (xr_items snap) = [''b:80''] \<and>
     so_outcome (snd (sync_once ref_zset_api (\<lambda>_. False) (\<lambda>_. Some snap) w_cfg w_worker (Response 200 [''x''] None) no_faults ''w'' 12 w_state)) =
       ''success''"
proof -
  obtain R' snap where run: "export_proxies ref_svc (\<lambda>_. True) w_export w_query 10 (\<lambda>_. 0) (\<lambda>xs. xs) ready_repo = Inr (R', snap)"
    and items: "map pe_endpoint (xr_items snap) = [''b:80'']" by (metis w_exported)
  have "pool_inv ref_svc 1000 (pools ready_repo ''d'')" using ready_inv by (simp add: ready_repo_def)
  then have stored: "stored_ok ref_svc (pools ready_repo (sy_domain w_worker))" by (simp add: pool_inv_def w_worker_def)
  have "so_outcome (snd (sync_once ref_zset_api (\<lambda>_. False) (\<lambda>_. Some snap) w_cfg w_worker (Response 200 [''x''] None) no_faults ''w'' 12 w_state)) =
       ''success''"
    using exported_snapshot_is_accepted [OF ref_svc_pool stored _ _ run, where decode = "\<lambda>_. Some snap" and parts = "[''x'']"
        and now = 12 and cfg = w_cfg and fl = no_faults and owner = "''w''" and s = w_state]
    by (simp add: w_worker_def w_export_def w_query_def no_faults_def w_cfg_def w_state_def)
  with items show ?thesis by (intro exI [of _ snap] conjI)
qed

end
