(* ===== verification/PeerMonitor.thy ===== *)
theory PeerMonitor
  imports PeerCache
begin

text \<open>
  The health monitor of a peer cache (peer_cache/monitor.py) and its webhook notifier
  (peer_cache/alerts.py): the persisted event state, one transition, the conditions, one tick
  under the monitor's lock, and the log of acknowledged alerts over all ticks.
  A tick in which one of the monitor's own commands raises ends there and is repeated 15
  seconds later; the model has the ticks whose commands succeed, except for the store's count,
  whose failure the code handles. The identifiers \<open>uuid4\<close> draws and the webhook's replies
  are arguments.
\<close>

section \<open>Alerts\<close>

datatype event_type = Sync_Failure | Cache_Low | Cache_Evictions | Worker_Stale | Cache_Store_Error

datatype alert_status = Failure | Recovery

record alert =
  al_id :: string
  al_type :: event_type
  al_status :: alert_status

definition new_notifier :: "string \<Rightarrow> string result" where
  "new_notifier url =
     (if take 8 url = ''https://'' then Inr url else Inl (ValueError ''peer alert webhook requires HTTPS''))"

text \<open>
  What comes of a POST: an exception, or a status (\<open>is_success\<close>) and a body that is no JSON,
  JSON but no object, or an object with its \<open>errcode\<close>.
\<close>

datatype body = Not_Json | Not_Object | Object "int option"
datatype webhook = Raised | Replied bool body

fun send :: "webhook \<Rightarrow> bool" where
  "send Raised = False"
| "send (Replied success b) = (success \<and> b = Object (Some 0))"

section \<open>One transition\<close>

record event_state =
  es_active :: bool
  es_notified :: bool
  es_pending :: "alert_status option"
  es_event_id :: string
  es_started_at :: time
  es_retry_at :: time
  es_attempts :: nat
  es_last_sent_at :: time
  es_last_failure :: time

definition initial_event :: event_state where
  "initial_event =
     \<lparr>es_active = False, es_notified = False, es_pending = None, es_event_id = [], es_started_at = 0, es_retry_at = 0,
      es_attempts = 0, es_last_sent_at = 0, es_last_failure = 0\<rparr>"

definition recovery_allowed :: "event_type \<Rightarrow> event_state \<Rightarrow> time \<Rightarrow> nat option \<Rightarrow> bool" where
  "recovery_allowed et st last_success valid_count =
     (if et \<in> {Sync_Failure, Worker_Stale} then es_started_at st < last_success
      else if et \<in> {Cache_Low, Cache_Evictions}
      then es_started_at st < last_success \<and> (case valid_count of None \<Rightarrow> False | Some n \<Rightarrow> 5 \<le> n)
      else True)"

text \<open>The first part of \<open>_transition\<close>; \<open>None\<close> is the early return, which keeps the state.\<close>

definition observe ::
  "event_type \<Rightarrow> bool \<Rightarrow> time \<Rightarrow> time \<Rightarrow> nat option \<Rightarrow> string \<Rightarrow> event_state \<Rightarrow> event_state option" where
  "observe et active now last_success valid_count uuid st =
     (if active \<and> \<not> es_active st \<and> es_notified st
      then Some (st\<lparr>es_active := True, es_pending := None, es_retry_at := 0, es_attempts := 0\<rparr>)
      else if active \<and> \<not> es_active st
      then Some (st\<lparr>es_active := True, es_pending := Some Failure, es_event_id := uuid, es_started_at := now,
                    es_retry_at := max now (es_last_failure st + 1800), es_attempts := 0\<rparr>)
      else if \<not> active \<and> es_active st
      then if \<not> recovery_allowed et st last_success valid_count then None
           else Some (st\<lparr>es_active := False, es_pending := (if es_notified st then Some Recovery else None),
                         es_retry_at := 0, es_attempts := 0\<rparr>)
      else Some st)"

definition retry_delay :: "nat \<Rightarrow> time" where
  "retry_delay attempts = [60, 120, 300] ! min (attempts - 1) 2"

text \<open>The second part: a pending alert that is due is sent; the acknowledged one is reported.\<close>

definition deliver :: "event_type \<Rightarrow> time \<Rightarrow> webhook \<Rightarrow> event_state \<Rightarrow> event_state \<times> alert option" where
  "deliver et now reply st =
     (case es_pending st of
        None \<Rightarrow> (st, None)
      | Some status \<Rightarrow>
          if now < es_retry_at st then (st, None)
          else if send reply
          then (st\<lparr>es_last_failure := (if status = Failure then now else es_last_failure st),
                   es_notified := (status = Failure), es_pending := None, es_last_sent_at := now, es_attempts := 0\<rparr>,
                Some \<lparr>al_id = es_event_id st, al_type = et, al_status = status\<rparr>)
          else let n = es_attempts st + 1
               in (st\<lparr>es_attempts := n, es_retry_at := now + retry_delay n\<rparr>, None))"

definition transition ::
  "event_type \<Rightarrow> bool \<Rightarrow> time \<Rightarrow> time \<Rightarrow> nat option \<Rightarrow> string \<Rightarrow> webhook \<Rightarrow> event_state option
     \<Rightarrow> event_state \<times> alert option" where
  "transition et active now last_success valid_count uuid reply raw =
     (let st = (case raw of None \<Rightarrow> initial_event | Some st \<Rightarrow> st)
      in case observe et active now last_success valid_count uuid st of
           None \<Rightarrow> (st, None)
         | Some st' \<Rightarrow> deliver et now reply st')"

section \<open>One tick\<close>

record monitor =
  mo_started :: "time option"
  mo_store_failures :: nat
  mo_events :: "event_type \<Rightarrow> event_state option"
  mo_lock :: "(string \<times> time) option"

definition monitor_policy :: "string \<Rightarrow> policy" where
  "monitor_policy domain = \<lparr>po_domain = domain, po_min_score = 90, po_max_latency = 2000, po_max_age = 600, po_min_successes = 2\<rparr>"

text \<open>\<open>raised\<close> says that the count could not reach the store.\<close>

definition monitor_count ::
  "'z zset_api \<Rightarrow> (string \<Rightarrow> bool) \<Rightarrow> peer_config \<Rightarrow> bool \<Rightarrow> time \<Rightarrow> 'z peer_cache \<Rightarrow> nat option" where
  "monitor_count Z formal cfg raised now s =
     (if raised then None
      else case peer_count Z formal cfg (monitor_policy (pf_domain cfg)) now s of Inl _ \<Rightarrow> None | Inr n \<Rightarrow> Some n)"

record metrics =
  me_valid_count :: nat
  me_failures :: nat
  me_heartbeat :: time
  me_last_success :: time
  me_evictions :: nat

definition or_zero :: "time option \<Rightarrow> time" where
  "or_zero x = (case x of None \<Rightarrow> 0 | Some t \<Rightarrow> t)"

definition metrics_snapshot ::
  "'z zset_api \<Rightarrow> (string \<Rightarrow> bool) \<Rightarrow> peer_config \<Rightarrow> bool \<Rightarrow> time \<Rightarrow> 'z peer_cache \<Rightarrow> metrics option" where
  "metrics_snapshot Z formal cfg raised now s =
     (case monitor_count Z formal cfg raised now s of
        None \<Rightarrow> None
      | Some n \<Rightarrow>
          Some \<lparr>me_valid_count = n, me_failures = ss_failures (pc_state s), me_heartbeat = or_zero (ss_heartbeat (pc_state s)),
                me_last_success = or_zero (ss_last_success (pc_state s)),
                me_evictions = z_count Z (pc_evictions s) (Incl (now - 600)) Above_All\<rparr>)"

definition conditions ::
  "'z zset_api \<Rightarrow> time \<Rightarrow> time \<Rightarrow> nat option \<Rightarrow> nat \<Rightarrow> 'z peer_cache \<Rightarrow> event_type \<Rightarrow> bool" where
  "conditions Z now started cnt store_errors s et =
     (let grace_done = now - started > 180; heartbeat = or_zero (ss_heartbeat (pc_state s))
      in case et of
           Sync_Failure \<Rightarrow> 3 \<le> ss_failures (pc_state s)
         | Cache_Low \<Rightarrow> grace_done \<and> (case cnt of None \<Rightarrow> False | Some n \<Rightarrow> n < 5)
         | Cache_Evictions \<Rightarrow> 3 \<le> z_count Z (pc_evictions s) (Incl (now - 600)) Above_All
         | Worker_Stale \<Rightarrow> grace_done \<and> (heartbeat = 0 \<or> now - heartbeat > 180)
         | Cache_Store_Error \<Rightarrow> 3 \<le> max store_errors (ss_api_failures (pc_state s)))"

definition event_types :: "event_type list" where
  "event_types = [Sync_Failure, Cache_Low, Cache_Evictions, Worker_Stale, Cache_Store_Error]"

fun transitions ::
  "(event_type \<Rightarrow> bool) \<Rightarrow> time \<Rightarrow> time \<Rightarrow> nat option \<Rightarrow> (event_type \<Rightarrow> string) \<Rightarrow> (event_type \<Rightarrow> webhook)
     \<Rightarrow> event_type list \<Rightarrow> monitor \<Rightarrow> monitor \<times> alert list" where
  "transitions cond now last_success cnt uuid reply [] m = (m, [])"
| "transitions cond now last_success cnt uuid reply (et # ets) m =
     (case transition et (cond et) now last_success cnt (uuid et) (reply et) (mo_events m et) of
        (st, sent) \<Rightarrow>
          (case transitions cond now last_success cnt uuid reply ets (m\<lparr>mo_events := (mo_events m)(et \<mapsto> st)\<rparr>) of
             (m', sents) \<Rightarrow> (m', (case sent of None \<Rightarrow> [] | Some a \<Rightarrow> [a]) @ sents)))"

definition tick_locked ::
  "'z zset_api \<Rightarrow> (string \<Rightarrow> bool) \<Rightarrow> peer_config \<Rightarrow> bool \<Rightarrow> time \<Rightarrow> 'z peer_cache \<Rightarrow> (event_type \<Rightarrow> string)
     \<Rightarrow> (event_type \<Rightarrow> webhook) \<Rightarrow> monitor \<Rightarrow> monitor \<times> alert list" where
  "tick_locked Z formal cfg raised now s uuid reply m =
     (let started = (case mo_started m of None \<Rightarrow> now | Some t \<Rightarrow> t);
          cnt = monitor_count Z formal cfg raised now s;
          store_errors = (if cnt = None then mo_store_failures m + 1 else 0)
      in transitions (conditions Z now started cnt store_errors s) now (or_zero (ss_last_success (pc_state s))) cnt uuid reply
           event_types (m\<lparr>mo_started := Some started, mo_store_failures := store_errors\<rparr>))"

text \<open>The lock is taken for 15 seconds and released by its owner.\<close>

definition monitor_unlock :: "time \<Rightarrow> string \<Rightarrow> monitor \<Rightarrow> monitor" where
  "monitor_unlock now owner m = (if alive now (mo_lock m) = Some owner then m\<lparr>mo_lock := None\<rparr> else m)"

definition tick ::
  "'z zset_api \<Rightarrow> (string \<Rightarrow> bool) \<Rightarrow> peer_config \<Rightarrow> bool \<Rightarrow> time \<Rightarrow> time \<Rightarrow> string \<Rightarrow> 'z peer_cache \<Rightarrow> (event_type \<Rightarrow> string)
     \<Rightarrow> (event_type \<Rightarrow> webhook) \<Rightarrow> monitor \<Rightarrow> monitor \<times> alert list \<times> bool" where
  "tick Z formal cfg raised now finished owner s uuid reply m =
     (if alive now (mo_lock m) \<noteq> None then (m, [], False)
      else
        (case tick_locked Z formal cfg raised now s uuid reply (m\<lparr>mo_lock := Some (owner, now + 15)\<rparr>) of
           (m', sents) \<Rightarrow> (monitor_unlock finished owner m', sents, True)))"

section \<open>The log of acknowledged alerts\<close>

text \<open>Newest first, of one event: failures and recoveries alternate, a recovery names the event
  of its failure, and two failures are half an hour apart.\<close>

fun well_alerted :: "(alert \<times> time) list \<Rightarrow> bool" where
  "well_alerted [] = True"
| "well_alerted [(a, t)] = (al_status a = Failure)"
| "well_alerted ((a, t) # (b, u) # L) =
     (well_alerted ((b, u) # L) \<and> u \<le> t \<and>
      (if al_status a = Recovery then al_status b = Failure \<and> al_id a = al_id b
       else al_status b = Recovery \<and> (case L of [] \<Rightarrow> False | (c, v) # _ \<Rightarrow> v + 1800 \<le> t)))"

lemma alert_status_neq [simp]: "x \<noteq> Failure \<longleftrightarrow> x = Recovery" "x \<noteq> Recovery \<longleftrightarrow> x = Failure"
  by (cases x; simp)+

definition logged :: "event_state \<Rightarrow> time \<Rightarrow> (alert \<times> time) list \<Rightarrow> bool" where
  "logged st clock L =
     (case L of
        [] \<Rightarrow> \<not> es_notified st
      | (a, t) # L' \<Rightarrow>
          t \<le> clock \<and>
          (if al_status a = Failure then es_notified st \<and> al_id a = es_event_id st \<and> es_last_failure st = t
           else \<not> es_notified st \<and> (case L' of [] \<Rightarrow> False | (c, v) # _ \<Rightarrow> es_last_failure st = v)))"

definition event_ok :: "time \<Rightarrow> event_state \<Rightarrow> (alert \<times> time) list \<Rightarrow> bool" where
  "event_ok clock st L \<longleftrightarrow>
     well_alerted L \<and> logged st clock L \<and> (es_pending st = Some Recovery \<longrightarrow> es_notified st) \<and>
     (es_pending st = Some Failure \<longrightarrow> \<not> es_notified st \<and> es_last_failure st + 1800 \<le> es_retry_at st)"

lemma event_ok_later: "event_ok clock st L \<Longrightarrow> clock \<le> now \<Longrightarrow> event_ok now st L"
  by (auto simp: event_ok_def logged_def split: list.splits if_splits)

lemma logged_cong:
  "logged st clock L \<Longrightarrow> es_notified st' = es_notified st \<Longrightarrow> es_last_failure st' = es_last_failure st \<Longrightarrow>
     (es_notified st \<Longrightarrow> es_event_id st' = es_event_id st) \<Longrightarrow> logged st' clock L"
  by (auto simp: logged_def split: list.splits if_splits)

lemma observe_ok:
  assumes "event_ok now st L" and "observe et active now last_success cnt uuid st = Some st'"
  shows "event_ok now st' L"
proof -
  from assms(2) have "es_notified st' = es_notified st" "es_last_failure st' = es_last_failure st"
    "es_notified st \<Longrightarrow> es_event_id st' = es_event_id st"
    by (auto simp: observe_def split: if_splits)
  then have "logged st' now L" using assms(1) by (auto simp: event_ok_def intro: logged_cong)
  with assms show ?thesis by (auto simp: event_ok_def observe_def split: if_splits)
qed

definition log_of :: "alert option \<Rightarrow> time \<Rightarrow> (alert \<times> time) list" where
  "log_of sent now = (case sent of None \<Rightarrow> [] | Some a \<Rightarrow> [(a, now)])"

lemma retry_delay_bounds: "60 \<le> retry_delay n \<and> retry_delay n \<le> 300"
proof -
  have "min (n - 1) 2 = 0 \<or> min (n - 1) 2 = 1 \<or> min (n - 1) 2 = (2 :: nat)" by auto
  then show ?thesis unfolding retry_delay_def by (elim disjE) simp_all
qed

lemma deliver_ok:
  assumes "event_ok now st L" and "deliver et now reply st = (st', sent)"
  shows "event_ok now st' (log_of sent now @ L)"
proof (cases "es_pending st")
  case None
  with assms show ?thesis by (simp add: deliver_def log_of_def)
next
  case (Some status)
  show ?thesis
  proof (cases "now < es_retry_at st")
    case True
    with Some assms show ?thesis by (simp add: deliver_def log_of_def)
  next
    case False
    show ?thesis
    proof (cases "send reply")
      case True
      with Some False assms(2) have st': "sent = Some \<lparr>al_id = es_event_id st, al_type = et, al_status = status\<rparr>"
        "st' = st\<lparr>es_last_failure := (if status = Failure then now else es_last_failure st),
           es_notified := (status = Failure), es_pending := None, es_last_sent_at := now, es_attempts := 0\<rparr>"
        by (simp_all add: deliver_def)
      show ?thesis
      proof (cases status)
        case Failure
        with assms(1) Some have "\<not> es_notified st" "es_last_failure st + 1800 \<le> now" "well_alerted L" "logged st now L"
          using False by (simp_all add: event_ok_def)
        with Failure st' show ?thesis
          by (cases L) (auto simp: event_ok_def logged_def log_of_def split: if_splits list.splits)
      next
        case Recovery
        with assms(1) Some have "es_notified st" "well_alerted L" "logged st now L" by (simp_all add: event_ok_def)
        with Recovery st' show ?thesis
          by (cases L) (auto simp: event_ok_def logged_def log_of_def split: if_splits list.splits)
      qed
    next
      case unsent: False
      from retry_delay_bounds [of "es_attempts st + 1"] have d: "0 \<le> retry_delay (Suc (es_attempts st))" by simp
      from Some False unsent assms(2) have st': "sent = None"
        "st' = st\<lparr>es_attempts := es_attempts st + 1, es_retry_at := now + retry_delay (es_attempts st + 1)\<rparr>"
        by (simp_all add: deliver_def Let_def)
      then have "logged st' now L" using assms(1) by (auto simp: event_ok_def intro: logged_cong)
      with st' assms(1) False d show ?thesis by (auto simp: event_ok_def log_of_def)
    qed
  qed
qed

lemma deliver_type: "deliver et now reply st = (st', Some a) \<Longrightarrow> al_type a = et"
  by (auto simp: deliver_def Let_def split: option.splits if_splits)

definition stored :: "event_state option \<Rightarrow> event_state" where
  "stored raw = (case raw of None \<Rightarrow> initial_event | Some st \<Rightarrow> st)"

lemma transition_ok:
  assumes "event_ok now (stored raw) L" and "transition et active now last_success cnt uuid reply raw = (st', sent)"
  shows "event_ok now st' (log_of sent now @ L)" and "\<And>a. sent = Some a \<Longrightarrow> al_type a = et"
proof -
  show "event_ok now st' (log_of sent now @ L)"
  proof (cases "observe et active now last_success cnt uuid (stored raw)")
    case None
    with assms show ?thesis by (simp add: transition_def Let_def log_of_def stored_def)
  next
    case (Some st)
    with assms(2) have "deliver et now reply st = (st', sent)" by (simp add: transition_def Let_def stored_def)
    from deliver_ok [OF observe_ok [OF assms(1) Some] this] show ?thesis .
  qed
  show "\<And>a. sent = Some a \<Longrightarrow> al_type a = et"
    using assms(2) by (auto simp: transition_def Let_def dest: deliver_type split: option.splits)
qed

section \<open>Runs of the monitor\<close>

text \<open>Ticks of any monitor process, the cache as it happens to be at each; the log newest first.\<close>

inductive monitor_run :: "'z zset_api \<Rightarrow> peer_config \<Rightarrow> monitor \<Rightarrow> (alert \<times> time) list \<Rightarrow> time \<Rightarrow> bool" for Z cfg where
  fresh: "mo_events m = Map.empty \<Longrightarrow> monitor_run Z cfg m [] now"
| ticked: "monitor_run Z cfg m L clock \<Longrightarrow> clock \<le> now \<Longrightarrow>
    tick Z formal cfg raised now finished owner s uuid reply m = (m', sents, held) \<Longrightarrow>
    monitor_run Z cfg m' (rev (map (\<lambda>a. (a, now)) sents) @ L) now"

definition log_for :: "event_type \<Rightarrow> (alert \<times> time) list \<Rightarrow> (alert \<times> time) list" where
  "log_for et L = filter (\<lambda>(a, _). al_type a = et) L"

lemma log_for_append: "log_for et (L @ M) = log_for et L @ log_for et M"
  by (simp add: log_for_def)

lemma transitions_ok:
  assumes "transitions cond now last_success cnt uuid reply ets m = (m', sents)"
    and "\<And>et. event_ok now (stored (mo_events m et)) (log_for et L)"
  shows "event_ok now (stored (mo_events m' et)) (log_for et (rev (map (\<lambda>a. (a, now)) sents) @ L))"
  using assms
proof (induction ets arbitrary: m sents L)
  case Nil
  then show ?case by simp
next
  case (Cons e ets)
  obtain st sent where one: "transition e (cond e) now last_success cnt (uuid e) (reply e) (mo_events m e) = (st, sent)"
    by fastforce
  obtain m2 rest where more: "transitions cond now last_success cnt uuid reply ets (m\<lparr>mo_events := (mo_events m)(e \<mapsto> st)\<rparr>) = (m2, rest)"
    by fastforce
  with one Cons.prems(1) have eqs: "m' = m2" "sents = (case sent of None \<Rightarrow> [] | Some a \<Rightarrow> [a]) @ rest" by simp_all
  note tr = transition_ok [OF Cons.prems(2) one]
  have log: "log_for e' (log_of sent now @ L) = (if e' = e then log_of sent now else []) @ log_for e' L" for e'
    using tr(2) by (cases sent) (auto simp: log_for_def log_of_def)
  have "event_ok now (stored (mo_events (m\<lparr>mo_events := (mo_events m)(e \<mapsto> st)\<rparr>) e')) (log_for e' (log_of sent now @ L))" for e'
    using tr(1) Cons.prems(2) [of e'] by (simp add: log stored_def)
  from Cons.IH [OF more [folded eqs(1)] this] show ?case unfolding eqs(2) log_of_def
    by (cases sent) simp_all
qed

lemma monitor_run_ok:
  "monitor_run Z cfg m L clock \<Longrightarrow> event_ok clock (stored (mo_events m et)) (log_for et L)"
proof (induction arbitrary: et rule: monitor_run.induct)
  case (fresh m now)
  then show ?case by (simp add: stored_def event_ok_def logged_def log_for_def initial_event_def)
next
  case (ticked m L clock now formal raised finished owner s uuid reply m' sents held)
  have ok: "event_ok now (stored (mo_events m e)) (log_for e L)" for e
    by (rule event_ok_later [OF ticked.IH ticked.hyps(2)])
  show ?case
  proof (cases "alive now (mo_lock m) = None")
    case False
    with ticked.hyps(3) ok show ?thesis by (simp add: tick_def)
  next
    case True
    with ticked.hyps(3) obtain m1 where locked: "tick_locked Z formal cfg raised now s uuid reply (m\<lparr>mo_lock := Some (owner, now + 15)\<rparr>) = (m1, sents)"
      and m': "mo_events m' = mo_events m1"
      by (auto simp: tick_def monitor_unlock_def split: prod.splits if_splits)
    show ?thesis unfolding m'
      by (rule transitions_ok [OF locked [unfolded tick_locked_def Let_def]]) (simp add: ok)
  qed
qed


definition w_monitor :: monitor where
  "w_monitor = \<lparr>mo_started = None, mo_store_failures = 0, mo_events = Map.empty, mo_lock = None\<rparr>"

definition w_tick :: "time \<Rightarrow> nat \<Rightarrow> monitor \<Rightarrow> monitor \<times> alert list \<times> bool" where
  "w_tick now failures m =
     tick ref_zset_api (\<lambda>_. False) w_cfg True now now ''o''
       (w_state\<lparr>pc_state := (pc_state w_state)\<lparr>ss_failures := failures, ss_last_success := Some now\<rparr>\<rparr>)
       (\<lambda>_. ''u'') (\<lambda>_. Replied True (Object (Some 0))) m"

definition w_alert :: "alert_status \<Rightarrow> alert" where
  "w_alert status = \<lparr>al_id = ''u'', al_type = Sync_Failure, al_status = status\<rparr>"

lemmas w_tick_eval = w_tick_def tick_def tick_locked_def monitor_count_def conditions_def event_types_def transition_def observe_def
  deliver_def monitor_unlock_def recovery_allowed_def or_zero_def w_monitor_def w_alert_def initial_event_def Let_def w_defs ref_zset_eval

lemma w_first: "snd (w_tick 20000 3 w_monitor) = ([w_alert Failure], True)"
  by (simp add: w_tick_eval)

lemma w_second: "snd (w_tick 20100 0 (fst (w_tick 20000 3 w_monitor))) = ([w_alert Recovery], True)"
  by (simp add: w_tick_eval)


end
