(* ===== verification/Cursors.thy ===== *)
theory Cursors
  imports Models
begin

text \<open>
  The paging cursors of the API (api/cursors.py): base64 as the standard library computes it,
  the signed payload and the hash of a query's filters. Bytes are characters, the domain is
  text of one-byte characters. HMAC-SHA-256 (\<open>mac\<close>), the hex digest of SHA-256 (\<open>sha\<close>) and
  \<open>json.loads\<close> are arguments; what the code prints as JSON is written out.
\<close>

section \<open>JSON\<close>

text \<open>What \<open>json.loads\<close> returns; the keys of an object are those of the resulting dict.\<close>

datatype json =
    J_Null
  | J_Bool bool
  | J_Int int
  | J_Float pyfloat
  | J_Str string
  | J_List "json list"
  | J_Object "(string \<times> json) list"

text \<open>The text of a string under \<open>ensure_ascii\<close>.\<close>

definition hex_char :: "nat \<Rightarrow> char" where
  "hex_char n = char_of (if n < 10 then 48 + n else 87 + n)"

definition json_char :: "char \<Rightarrow> string" where
  "json_char c =
     (let n = (of_char c :: nat)
      in if n = 34 \<or> n = 92 then [CHR 0x5C, c]
         else if n = 10 then [CHR 0x5C, CHR ''n'']
         else if n = 13 then [CHR 0x5C, CHR ''r'']
         else if n = 9 then [CHR 0x5C, CHR ''t'']
         else if n = 12 then [CHR 0x5C, CHR ''f'']
         else if n = 8 then [CHR 0x5C, CHR ''b'']
         else if n < 32 \<or> 126 < n then [CHR 0x5C, CHR ''u'', CHR ''0'', CHR ''0'', hex_char (n div 16), hex_char (n mod 16)]
         else [c])"

definition json_string :: "string \<Rightarrow> string" where
  "json_string s = [CHR 0x22] @ concat (map json_char s) @ [CHR 0x22]"

section \<open>Base64\<close>

text \<open>Six-bit groups of a byte sequence.\<close>

fun sextets :: "nat list \<Rightarrow> nat list" where
  "sextets [] = []"
| "sextets [a] = [a div 4, (a mod 4) * 16]"
| "sextets [a, b] = [a div 4, (a mod 4) * 16 + b div 16, (b mod 16) * 4]"
| "sextets (a # b # c # bs) =
     (a div 4) # ((a mod 4) * 16 + b div 16) # ((b mod 16) * 4 + c div 64) # (c mod 64) # sextets bs"

definition b64_char :: "nat \<Rightarrow> char" where
  "b64_char n =
     (if n < 26 then char_of (65 + n) else if n < 52 then char_of (71 + n) else if n < 62 then char_of (n - 4)
      else if n = 62 then CHR ''-'' else CHR ''_'')"

text \<open>\<open>urlsafe_b64encode\<close>, and \<open>_encode_base64\<close>, which strips the padding.\<close>

definition padding :: "nat \<Rightarrow> string" where
  "padding n = replicate (nat (- int n mod 4)) (CHR ''='')"

definition urlsafe_b64encode :: "string \<Rightarrow> string" where
  "urlsafe_b64encode v = (let t = map b64_char (sextets (map of_char v)) in t @ padding (length t))"

definition rstrip :: "char \<Rightarrow> string \<Rightarrow> string" where
  "rstrip c s = rev (dropWhile (\<lambda>x. x = c) (rev s))"

definition encode_base64 :: "string \<Rightarrow> string" where
  "encode_base64 v = rstrip (CHR ''='') (urlsafe_b64encode v)"

text \<open>
  The value of a character for \<open>urlsafe_b64decode\<close>, which maps \<open>-\<close> and \<open>_\<close> to \<open>+\<close> and \<open>/\<close>
  first. The decoder skips every other character; \<open>q\<close> is the position in the group of four,
  \<open>l\<close> the bits left over and \<open>p\<close> the padding seen. A complete padding ends the input.
\<close>

definition b64_val :: "char \<Rightarrow> nat option" where
  "b64_val c =
     (let n = (of_char c :: nat)
      in if 65 \<le> n \<and> n \<le> 90 then Some (n - 65) else if 97 \<le> n \<and> n \<le> 122 then Some (n - 71)
         else if 48 \<le> n \<and> n \<le> 57 then Some (n + 4) else if n = 43 \<or> n = 45 then Some 62
         else if n = 47 \<or> n = 95 then Some 63 else None)"

fun a2b :: "nat \<Rightarrow> nat \<Rightarrow> nat \<Rightarrow> string \<Rightarrow> nat list option" where
  "a2b q l p [] = (if q = 0 then Some [] else None)"
| "a2b q l p (c # cs) =
     (if c = CHR ''='' then
        if 2 \<le> q then (if 4 \<le> q + Suc p then Some [] else a2b q l (Suc p) cs) else a2b q l p cs
      else
        (case b64_val c of
           None \<Rightarrow> a2b q l p cs
         | Some v \<Rightarrow>
             if q = 0 then a2b 1 v 0 cs
             else if q = 1 then map_option ((#) (l * 4 + v div 16)) (a2b 2 (v mod 16) 0 cs)
             else if q = 2 then map_option ((#) (l * 16 + v div 4)) (a2b 3 (v mod 4) 0 cs)
             else map_option ((#) (l * 64 + v)) (a2b 0 0 0 cs)))"

text \<open>\<open>None\<close> is the \<open>ValueError\<close>: a character that is not ASCII, or a wrong length.\<close>

definition decode_base64 :: "string \<Rightarrow> string option" where
  "decode_base64 s =
     (if \<exists>c \<in> set s. 128 \<le> (of_char c :: nat) then None
      else map_option (map char_of) (a2b 0 0 0 (s @ padding (length s))))"

lemma rstrip_padded: "\<forall>x \<in> set s. x \<noteq> c \<Longrightarrow> rstrip c (s @ replicate n c) = s"
proof -
  assume s: "\<forall>x \<in> set s. x \<noteq> c"
  have "dropWhile (\<lambda>x. x = c) (replicate n c @ rev s) = rev s"
    using s by (induction n) (auto simp: dropWhile_eq_self_iff hd_rev)
  then show ?thesis by (simp add: rstrip_def)
qed

lemma sextets_small: "\<forall>b \<in> set bs. b < 256 \<Longrightarrow> \<forall>x \<in> set (sextets bs). x < 64"
proof (induction bs rule: sextets.induct)
  case (4 a b c bs)
  have "b div 16 < 16" "a mod 4 < 4" "c div 64 < 4" "b mod 16 < 16" "a div 4 < 64" using 4(2) by auto
  with 4 show ?case by (auto simp: algebra_simps)
next
  case (3 a b)
  then have "b div 16 < 16" "a mod 4 < 4" "a div 4 < 64" by auto
  then show ?case by auto
qed auto

lemma of_b64_char:
  "n < 64 \<Longrightarrow> (of_char (b64_char n) :: nat) =
     (if n < 26 then 65 + n else if n < 52 then 71 + n else if n < 62 then n - 4 else if n = 62 then 45 else 95)"
  by (simp add: b64_char_def)

lemma b64_val_char: "n < 64 \<Longrightarrow> b64_val (b64_char n) = Some n"
  by (auto simp: b64_val_def of_b64_char Let_def)

lemma b64_char_plain: "n < 64 \<Longrightarrow> b64_char n \<noteq> CHR ''='' \<and> (of_char (b64_char n) :: nat) < 128"
proof -
  assume n: "n < 64"
  then have "(of_char (b64_char n) :: nat) \<noteq> of_char (CHR ''='') \<and> (of_char (b64_char n) :: nat) < 128"
    by (auto simp: of_b64_char)
  then show ?thesis by auto
qed

lemma padding_small [simp]: "padding 0 = []" "padding 2 = [CHR ''='', CHR ''='']" "padding 3 = [CHR ''='']"
  by (simp_all add: padding_def numeral_2_eq_2)

lemma padding_add: "padding (n + 4) = padding n"
proof -
  have "- int (n + 4) mod 4 = - int n mod 4" by presburger
  then show ?thesis unfolding padding_def by (rule arg_cong)
qed

lemma padding_Suc: "padding (Suc (Suc (Suc (Suc n)))) = padding n"
proof -
  have "Suc (Suc (Suc (Suc n))) = n + 4" by simp
  then show ?thesis by (simp only: padding_add)
qed

text \<open>What the decoder needs of an alphabet.\<close>

definition alphabet :: "(nat \<Rightarrow> char) \<Rightarrow> bool" where
  "alphabet ch \<longleftrightarrow> (\<forall>n < 64. b64_val (ch n) = Some n \<and> ch n \<noteq> CHR ''='')"

lemma a2b_char: "alphabet ch \<Longrightarrow> n < 64 \<Longrightarrow> a2b q l p (ch n # cs) =
    (if q = 0 then a2b 1 n 0 cs
     else if q = 1 then map_option ((#) (l * 4 + n div 16)) (a2b 2 (n mod 16) 0 cs)
     else if q = 2 then map_option ((#) (l * 16 + n div 4)) (a2b 3 (n mod 4) 0 cs)
     else map_option ((#) (l * 64 + n)) (a2b 0 0 0 cs))"
  by (simp add: alphabet_def)

lemma a2b_pad: "a2b 2 l 0 [CHR ''='', CHR ''=''] = Some []" "a2b 3 l 0 [CHR ''=''] = Some []"
  by simp_all

declare a2b.simps(2) [simp del]

lemma a2b_sextets:
  "alphabet ch \<Longrightarrow> \<forall>b \<in> set bs. b < 256 \<Longrightarrow> a2b 0 0 0 (map ch (sextets bs) @ padding (length (sextets bs))) = Some bs"
proof (induction bs rule: sextets.induct)
  case 1
  then show ?case by simp
next
  case (2 a)
  then show ?case by (simp add: a2b_char a2b_pad numeral_2_eq_2 [symmetric])
next
  case (3 a b)
  then have "a div 4 < 64" "(a mod 4) * 16 + b div 16 < 64" "(b mod 16) * 4 < 64" "b div 16 < 16" by auto
  with 3(1) show ?case by (simp add: a2b_char a2b_pad numeral_3_eq_3 [symmetric])
next
  case (4 a b c bs)
  then have "a div 4 < 64" "(a mod 4) * 16 + b div 16 < 64" "(b mod 16) * 4 + c div 64 < 64" "c mod 64 < 64" by auto
  moreover from 4(3) have "b div 16 < 16" "c div 64 < 4" by auto
  then have "b div 16 div 16 = 0" "b div 16 mod 16 = b div 16" "c div 64 div 4 = 0" "c div 64 mod 4 = c div 64" by simp_all
  ultimately show ?case using 4 by (simp add: a2b_char padding_Suc)
qed

lemma alphabet_urlsafe: "alphabet b64_char"
  using b64_char_plain by (simp add: alphabet_def b64_val_char)

lemma sextets_plain:
  "\<forall>x \<in> set (map b64_char (sextets (map of_char (v :: string)))). x \<noteq> CHR ''='' \<and> (of_char x :: nat) < 128"
proof -
  have "\<forall>x \<in> set (sextets (map of_char v)). x < 64" by (rule sextets_small) auto
  then show ?thesis using b64_char_plain by auto
qed

lemma encode_base64_sextets: "encode_base64 v = map b64_char (sextets (map of_char v))"
  unfolding encode_base64_def urlsafe_b64encode_def Let_def padding_def
  by (intro rstrip_padded) (use sextets_plain in blast)

lemma decode_encode_base64: "decode_base64 (encode_base64 v) = Some v"
proof -
  let ?t = "map b64_char (sextets (map of_char v))"
  have "a2b 0 0 0 (?t @ padding (length ?t)) = Some (map of_char v)"
    using a2b_sextets [OF alphabet_urlsafe, of "map of_char v"] by simp
  moreover have "\<not> (\<exists>c \<in> set ?t. 128 \<le> (of_char c :: nat))"
    using sextets_plain [of v] by (meson linorder_not_less)
  ultimately show ?thesis unfolding encode_base64_sextets decode_base64_def by (simp add: comp_def)
qed

lemma length_sextets: "length (sextets bs) \<le> (4 * length bs + 2) div 3"
  by (induction bs rule: sextets.induct) auto

section \<open>The codec\<close>

definition new_codec :: "string \<Rightarrow> string result" where
  "new_codec secret = (if secret = [] then Inl (ValueError ''cursor secret must be non-empty'') else Inr secret)"

record cursor_data =
  cu_domain :: string
  cu_offset :: int
  cu_filters :: string

definition cursor_payload :: "string \<Rightarrow> int \<Rightarrow> string \<Rightarrow> string" where
  "cursor_payload d n f =
     [CHR ''{''] @ json_string ''d'' @ '':'' @ json_string d @ '','' @ json_string ''f'' @ '':'' @ json_string f @ '','' @
     json_string ''o'' @ '':'' @ str_int n @ '','' @ json_string ''v'' @ '':1}''"

definition encode_cursor ::
  "(string \<Rightarrow> string \<Rightarrow> string) \<Rightarrow> string \<Rightarrow> string \<Rightarrow> int \<Rightarrow> string \<Rightarrow> string result" where
  "encode_cursor mac secret domain n filters =
     (if domain = [] \<or> filters = [] then Inl (ValueError ''cursor fields must be non-empty'')
      else if \<not> (0 \<le> n \<and> n \<le> 10000) then Inl (ValueError ''cursor offset must be within 0..10000'')
      else
        let payload = cursor_payload domain n filters
        in Inr (encode_base64 payload @ ''.'' @ encode_base64 (mac secret payload)))"

text \<open>\<open>split(''.'', maxsplit=1)\<close>; without a dot the unpacking raises.\<close>

definition split_dot :: "string \<Rightarrow> (string \<times> string) option" where
  "split_dot s = (case dropWhile (\<lambda>c. c \<noteq> CHR ''.'') s of [] \<Rightarrow> None | _ # rest \<Rightarrow> Some (takeWhile (\<lambda>c. c \<noteq> CHR ''.'') s, rest))"

text \<open>Python's \<open>value == 1\<close> holds of the integer, of \<open>True\<close> and of the float.\<close>

fun equals_one :: "json option \<Rightarrow> bool" where
  "equals_one (Some (J_Int n)) = (n = 1)"
| "equals_one (Some (J_Bool b)) = b"
| "equals_one (Some (J_Float x)) = (x = Finite 1)"
| "equals_one _ = False"

fun cursor_fields :: "(string \<times> json) list \<Rightarrow> cursor_data option" where
  "cursor_fields kvs =
     (case (map_of kvs ''d'', map_of kvs ''o'', map_of kvs ''f'') of
        (Some (J_Str d), Some (J_Int n), Some (J_Str f)) \<Rightarrow>
          if 0 \<le> n \<and> n \<le> 10000 then Some \<lparr>cu_domain = d, cu_offset = n, cu_filters = f\<rparr> else None
      | _ \<Rightarrow> None)"

definition open_cursor ::
  "(string \<Rightarrow> string \<Rightarrow> string) \<Rightarrow> (string \<Rightarrow> json option) \<Rightarrow> string \<Rightarrow> string \<Rightarrow> cursor_data result" where
  "open_cursor mac loads secret cursor =
     (case split_dot cursor of
        None \<Rightarrow> Inl (InvalidCursor ''cursor is invalid'')
      | Some (payload_part, signature_part) \<Rightarrow>
          (case (decode_base64 payload_part, decode_base64 signature_part) of
             (Some payload, Some signature) \<Rightarrow>
               if signature \<noteq> mac secret payload then Inl (InvalidCursor ''cursor signature is invalid'')
               else
                 (case loads payload of
                    None \<Rightarrow> Inl (InvalidCursor ''cursor is invalid'')
                  | Some (J_Object kvs) \<Rightarrow>
                      if \<not> equals_one (map_of kvs ''v'') then Inl (InvalidCursor ''cursor version is invalid'')
                      else
                        (case cursor_fields kvs of
                           None \<Rightarrow> Inl (InvalidCursor ''cursor fields are invalid'')
                         | Some data \<Rightarrow> Inr data)
                  | Some _ \<Rightarrow> Inl (InvalidCursor ''cursor payload is invalid''))
           | _ \<Rightarrow> Inl (InvalidCursor ''cursor is invalid'')))"

definition decode_cursor ::
  "(string \<Rightarrow> string \<Rightarrow> string) \<Rightarrow> (string \<Rightarrow> json option) \<Rightarrow> string \<Rightarrow> string option \<Rightarrow> string option \<Rightarrow> string
     \<Rightarrow> cursor_data result" where
  "decode_cursor mac loads secret expected_domain expected_filters cursor =
     (case open_cursor mac loads secret cursor of
        Inl e \<Rightarrow> Inl e
      | Inr data \<Rightarrow>
          if expected_domain \<noteq> None \<and> expected_domain \<noteq> Some (cu_domain data)
          then Inl (InvalidCursor ''cursor domain does not match query'')
          else if expected_filters \<noteq> None \<and> expected_filters \<noteq> Some (cu_filters data)
          then Inl (InvalidCursor ''cursor filters do not match query'')
          else Inr data)"

text \<open>\<open>query_filters_hash(state, min_score, max_score, source, limit)\<close>.\<close>

definition json_optional :: "string option \<Rightarrow> string" where
  "json_optional x = (case x of None \<Rightarrow> ''null'' | Some s \<Rightarrow> json_string s)"

definition query_filters_hash :: "(string \<Rightarrow> string) \<Rightarrow> string option \<Rightarrow> int \<Rightarrow> int \<Rightarrow> string option \<Rightarrow> int \<Rightarrow> string" where
  "query_filters_hash sha st lo hi src limit =
     take 16 (sha (''['' @ json_optional st @ '','' @ str_int lo @ '','' @ str_int hi @ '','' @ json_optional src @ '','' @
                   str_int limit @ '']''))"

section \<open>Cursors come back as they were issued\<close>

text \<open>\<open>json.loads\<close> reads a printed cursor back.\<close>

definition loads_cursors :: "(string \<Rightarrow> json option) \<Rightarrow> bool" where
  "loads_cursors loads \<longleftrightarrow>
     (\<forall>d n f. loads (cursor_payload d n f) =
        Some (J_Object [(''d'', J_Str d), (''f'', J_Str f), (''o'', J_Int n), (''v'', J_Int 1)]))"

lemma split_dot_append: "CHR ''.'' \<notin> set s \<Longrightarrow> split_dot (s @ ''.'' @ t) = Some (s, t)"
  by (induction s) (auto simp: split_dot_def split: list.splits)

lemma dot_notin_base64: "CHR ''.'' \<notin> set (encode_base64 v)"
proof -
  have "\<forall>x \<in> set (sextets (map of_char v)). x < 64" by (rule sextets_small) auto
  then have "\<forall>c \<in> set (map b64_char (sextets (map of_char v))). c \<noteq> CHR ''.''"
  proof (clarsimp)
    fix n assume "\<forall>x \<in> set (sextets (map of_char v)). x < 64" "n \<in> set (sextets (map of_char v))" "b64_char n = CHR ''.''"
    then have "n < 64" "(of_char (b64_char n) :: nat) = 46" by simp_all
    then show False by (simp add: of_b64_char split: if_splits)
  qed
  moreover have "CHR ''.'' \<notin> set (padding k)" for k by (simp add: padding_def)
  ultimately have "CHR ''.'' \<notin> set (urlsafe_b64encode v)" by (auto simp: urlsafe_b64encode_def Let_def)
  then show ?thesis unfolding encode_base64_def rstrip_def by (auto dest: set_dropWhileD)
qed

lemma open_encoded:
  assumes "loads_cursors loads" and "encode_cursor mac secret d n f = Inr cursor"
  shows "open_cursor mac loads secret cursor = Inr \<lparr>cu_domain = d, cu_offset = n, cu_filters = f\<rparr>"
proof -
  from assms(2) have c: "cursor = encode_base64 (cursor_payload d n f) @ ''.'' @ encode_base64 (mac secret (cursor_payload d n f))"
    and n: "0 \<le> n" "n \<le> 10000"
    by (auto simp: encode_cursor_def Let_def split: if_splits)
  have "split_dot cursor = Some (encode_base64 (cursor_payload d n f), encode_base64 (mac secret (cursor_payload d n f)))"
    unfolding c by (rule split_dot_append [OF dot_notin_base64])
  moreover have "loads (cursor_payload d n f) =
      Some (J_Object [(''d'', J_Str d), (''f'', J_Str f), (''o'', J_Int n), (''v'', J_Int 1)])"
    using assms(1) by (simp add: loads_cursors_def)
  ultimately show ?thesis using n by (simp add: open_cursor_def decode_encode_base64)
qed

section \<open>A reader of printed payloads\<close>

text \<open>
  An instance of \<open>json.loads\<close> for the examples: it reads the texts \<open>cursor_payload\<close> prints
  and rejects the others.
\<close>

definition hex_val :: "char \<Rightarrow> nat" where
  "hex_val c = (let n = (of_char c :: nat) in if n \<le> 57 then n - 48 else n - 87)"

definition unescape :: "char \<Rightarrow> char" where
  "unescape e =
     (if e = CHR ''n'' then char_of (10 :: nat) else if e = CHR ''r'' then char_of (13 :: nat)
      else if e = CHR ''t'' then char_of (9 :: nat) else if e = CHR ''f'' then char_of (12 :: nat)
      else if e = CHR ''b'' then char_of (8 :: nat) else e)"

fun unquote :: "string \<Rightarrow> (string \<times> string) option" where
  "unquote [] = None"
| "unquote (c # cs) =
     (if c = CHR 0x22 then Some ([], cs)
      else if c = CHR 0x5C then
        (case cs of
           [] \<Rightarrow> None
         | e # r \<Rightarrow>
             if e = CHR ''u'' then
               (case r of
                  z # o' # h # l # r' \<Rightarrow> map_option (apfst ((#) (char_of (16 * hex_val h + hex_val l)))) (unquote r')
                | _ \<Rightarrow> None)
             else map_option (apfst ((#) (unescape e))) (unquote r))
      else map_option (apfst ((#) c)) (unquote cs))"

lemma hex_val_char: "n < 16 \<Longrightarrow> hex_val (hex_char n) = n"
  by (simp add: hex_val_def hex_char_def of_char_of)

lemma char_of_code: "(of_char c :: nat) = n \<Longrightarrow> c = char_of n"
  by (metis char_of_char)

lemma unquote_char: "unquote (json_char c @ r) = map_option (apfst ((#) c)) (unquote r)"
proof -
  let ?n = "of_char c :: nat"
  have bound: "?n < 256" by simp
  have digits: "char_of (16 * hex_val (hex_char (?n div 16)) + hex_val (hex_char (?n mod 16))) = c"
  proof -
    have "?n div 16 < 16" "?n mod 16 < 16" using bound by linarith+
    then show ?thesis by (simp add: hex_val_char)
  qed
  consider "?n = 34 \<or> ?n = 92" | "?n = 10" | "?n = 13" | "?n = 9" | "?n = 12" | "?n = 8"
    | "?n \<notin> {34, 92, 10, 13, 9, 12, 8}" "?n < 32 \<or> 126 < ?n" | "?n \<notin> {34, 92}" "32 \<le> ?n" "?n \<le> 126"
    by force
  then show ?thesis
  proof cases
    case 1
    then have "?n = of_char (CHR 0x22) \<or> ?n = of_char (CHR 0x5C)" by simp
    then have "c = CHR 0x22 \<or> c = CHR 0x5C" by (simp only: of_char_eq_iff)
    with 1 show ?thesis by (auto simp: json_char_def unescape_def)
  next
    case 7
    then have "json_char c = [CHR 0x5C, CHR ''u'', CHR ''0'', CHR ''0'', hex_char (?n div 16), hex_char (?n mod 16)]"
      by (simp add: json_char_def Let_def)
    then show ?thesis using digits by simp
  next
    case 8
    then have "json_char c = [c]" "c \<noteq> CHR 0x22" "c \<noteq> CHR 0x5C" by (auto simp: json_char_def)
    then show ?thesis by simp
  qed (simp_all add: json_char_def unescape_def char_of_code [symmetric])
qed

lemma unquote_string: "unquote (concat (map json_char s) @ CHR 0x22 # r) = Some (s, r)"
  by (induction s) (simp_all add: unquote_char)

definition strip :: "string \<Rightarrow> string \<Rightarrow> string option" where
  "strip p s = (if take (length p) s = p then Some (drop (length p) s) else None)"

lemma strip_append [simp]: "strip p (p @ s) = Some s"
  by (simp add: strip_def)

definition read_int :: "string \<Rightarrow> int" where
  "read_int s = (case s of c # cs \<Rightarrow> if c = CHR ''-'' then - int (val_digits cs 0) else int (val_digits s 0) | [] \<Rightarrow> 0)"

lemma str_nat_not_empty: "str_nat n \<noteq> []"
  by (subst str_nat.simps) simp

lemma read_str_int: "read_int (str_int n) = n"
proof (cases "n < 0")
  case True
  then show ?thesis by (simp add: str_int_def read_int_def val_str_nat)
next
  case False
  obtain c cs where s: "str_nat (nat n) = c # cs" using str_nat_not_empty by (meson neq_Nil_conv)
  then have "c \<noteq> CHR ''-''" using str_nat_digits [of c "nat n"] by auto
  with False s show ?thesis using val_str_nat [of "nat n"] by (simp add: str_int_def read_int_def)
qed

definition read_payload :: "string \<Rightarrow> json option" where
  "read_payload s =
     (case Option.bind (strip ([CHR ''{''] @ json_string ''d'' @ '':'' @ [CHR 0x22]) s) unquote of
        None \<Rightarrow> None
      | Some (d, s1) \<Rightarrow>
          (case Option.bind (strip ('','' @ json_string ''f'' @ '':'' @ [CHR 0x22]) s1) unquote of
             None \<Rightarrow> None
           | Some (f, s2) \<Rightarrow>
               (case strip ('','' @ json_string ''o'' @ '':'') s2 of
                  None \<Rightarrow> None
                | Some s3 \<Rightarrow>
                    if dropWhile (\<lambda>c. c \<noteq> CHR '','') s3 = '','' @ json_string ''v'' @ '':1}''
                    then Some (J_Object [(''d'', J_Str d), (''f'', J_Str f),
                      (''o'', J_Int (read_int (takeWhile (\<lambda>c. c \<noteq> CHR '','') s3))), (''v'', J_Int 1)])
                    else None)))"

lemma read_printed: "loads_cursors read_payload"
  unfolding loads_cursors_def
proof (intro allI)
  fix d :: string and n :: int and f :: string
  let ?t3 = "str_int n @ '','' @ json_string ''v'' @ '':1}''"
  let ?t2 = "('','' @ json_string ''o'' @ '':'') @ ?t3"
  let ?t1 = "('','' @ json_string ''f'' @ '':'' @ [CHR 0x22]) @ concat (map json_char f) @ CHR 0x22 # ?t2"
  have p: "cursor_payload d n f = ([CHR ''{''] @ json_string ''d'' @ '':'' @ [CHR 0x22]) @ concat (map json_char d) @ CHR 0x22 # ?t1"
    by (simp add: cursor_payload_def json_string_def [of d] json_string_def [of f])
  have plain: "CHR '','' \<notin> set (str_int n)"
    by (auto simp: str_int_def dest: str_nat_digits split: if_splits)
  then have t: "takeWhile (\<lambda>c. c \<noteq> CHR '','') ?t3 = str_int n"
    and dr: "dropWhile (\<lambda>c. c \<noteq> CHR '','') ?t3 = '','' @ json_string ''v'' @ '':1}''"
    by (subst takeWhile_append2 dropWhile_append2; auto)+
  show "read_payload (cursor_payload d n f) =
      Some (J_Object [(''d'', J_Str d), (''f'', J_Str f), (''o'', J_Int n), (''v'', J_Int 1)])"
    unfolding p read_payload_def by (simp only: strip_append bind.bind_lunit unquote_string option.case prod.case t dr read_str_int refl if_True)
qed

section \<open>Properties\<close>

lemma decode_encoded:
  assumes "loads_cursors loads" and "encode_cursor mac secret d n f = Inr cursor"
  shows "decode_cursor mac loads secret d' f' cursor =
     (if d' \<noteq> None \<and> d' \<noteq> Some d then Inl (InvalidCursor ''cursor domain does not match query'')
      else if f' \<noteq> None \<and> f' \<noteq> Some f then Inl (InvalidCursor ''cursor filters do not match query'')
      else Inr \<lparr>cu_domain = d, cu_offset = n, cu_filters = f\<rparr>)"
  by (simp add: decode_cursor_def open_encoded [OF assms])

lemma open_cursor_signed:
  assumes "open_cursor mac loads secret cursor = Inr data"
  shows "\<exists>payload_part signature_part payload. split_dot cursor = Some (payload_part, signature_part) \<and>
     decode_base64 payload_part = Some payload \<and> decode_base64 signature_part = Some (mac secret payload) \<and>
     0 \<le> cu_offset data \<and> cu_offset data \<le> 10000"
  using assms
  by (auto simp: open_cursor_def split: option.splits prod.splits if_splits json.splits)

text \<open>
  C26: A cursor is issued exactly for a non-empty domain, a non-empty filter hash and an offset in
  0..10000. The issued cursor, whatever characters its domain has, comes back with exactly the
  domain, offset and filters it was issued with, and is refused for a query of another domain
  or other filters. Conversely every accepted cursor, issued or not, carries the HMAC of its
  own payload under the codec's secret and an offset in 0..10000, and belongs to the query.
\<close>

theorem cursor_round_trip:
  assumes "loads_cursors loads"
  shows "(\<exists>cursor. encode_cursor mac secret d n f = Inr cursor \<and>
            (\<forall>d' f'. decode_cursor mac loads secret d' f' cursor =
               (if d' \<noteq> None \<and> d' \<noteq> Some d then Inl (InvalidCursor ''cursor domain does not match query'')
                else if f' \<noteq> None \<and> f' \<noteq> Some f then Inl (InvalidCursor ''cursor filters do not match query'')
                else Inr \<lparr>cu_domain = d, cu_offset = n, cu_filters = f\<rparr>)))
         = (d \<noteq> [] \<and> f \<noteq> [] \<and> 0 \<le> n \<and> n \<le> 10000) \<and>
         (\<forall>cursor' data. decode_cursor mac loads secret (Some d) (Some f) cursor' = Inr data \<longrightarrow>
            cu_domain data = d \<and> cu_filters data = f \<and> 0 \<le> cu_offset data \<and> cu_offset data \<le> 10000 \<and>
            (\<exists>payload_part signature_part payload. split_dot cursor' = Some (payload_part, signature_part) \<and>
               decode_base64 payload_part = Some payload \<and> decode_base64 signature_part = Some (mac secret payload)))"
proof (intro conjI iffI allI impI; (elim exE conjE)?)
  fix cursor assume "encode_cursor mac secret d n f = Inr cursor"
  then show "d \<noteq> []" "f \<noteq> []" "0 \<le> n" "n \<le> 10000" by (auto simp: encode_cursor_def Let_def split: if_splits)
next
  assume "d \<noteq> []" "f \<noteq> []" "0 \<le> n" "n \<le> 10000"
  then obtain c where "encode_cursor mac secret d n f = Inr c" by (simp add: encode_cursor_def Let_def)
  with decode_encoded [OF assms this] show "\<exists>cursor. encode_cursor mac secret d n f = Inr cursor \<and>
      (\<forall>d' f'. decode_cursor mac loads secret d' f' cursor =
         (if d' \<noteq> None \<and> d' \<noteq> Some d then Inl (InvalidCursor ''cursor domain does not match query'')
          else if f' \<noteq> None \<and> f' \<noteq> Some f then Inl (InvalidCursor ''cursor filters do not match query'')
          else Inr \<lparr>cu_domain = d, cu_offset = n, cu_filters = f\<rparr>))" by blast
next
  fix cursor' data assume run: "decode_cursor mac loads secret (Some d) (Some f) cursor' = Inr data"
  then have o: "open_cursor mac loads secret cursor' = Inr data"
    and m: "cu_domain data = d" "cu_filters data = f"
    by (auto simp: decode_cursor_def split: sum.splits if_splits)
  show "cu_domain data = d" "cu_filters data = f" by (rule m)+
  show "0 \<le> cu_offset data" "cu_offset data \<le> 10000" using open_cursor_signed [OF o] by auto
  show "\<exists>payload_part signature_part payload. split_dot cursor' = Some (payload_part, signature_part) \<and>
      decode_base64 payload_part = Some payload \<and> decode_base64 signature_part = Some (mac secret payload)"
    using open_cursor_signed [OF o] by blast
qed

theorem cursor_round_trip_witness:
  "\<exists>cursor. encode_cursor (@) ''k'' (''a.b'' @ [CHR 0x0A]) 50 ''f0'' = Inr cursor \<and>
     decode_cursor (@) read_payload ''k'' None None cursor =
       Inr \<lparr>cu_domain = ''a.b'' @ [CHR 0x0A], cu_offset = 50, cu_filters = ''f0''\<rparr>"
proof -
  have "''a.b'' @ [CHR 0x0A] \<noteq> [] \<and> ''f0'' \<noteq> [] \<and> 0 \<le> (50 :: int) \<and> (50 :: int) \<le> 10000" by simp
  then obtain cursor where "encode_cursor (@) ''k'' (''a.b'' @ [CHR 0x0A]) 50 ''f0'' = Inr cursor"
    and all: "\<forall>d' f'. decode_cursor (@) read_payload ''k'' d' f' cursor =
       (if d' \<noteq> None \<and> d' \<noteq> Some (''a.b'' @ [CHR 0x0A]) then Inl (InvalidCursor ''cursor domain does not match query'')
        else if f' \<noteq> None \<and> f' \<noteq> Some ''f0'' then Inl (InvalidCursor ''cursor filters do not match query'')
        else Inr \<lparr>cu_domain = ''a.b'' @ [CHR 0x0A], cu_offset = 50, cu_filters = ''f0''\<rparr>)"
    using cursor_round_trip [OF read_printed, of "(@)" "''k''" "''a.b'' @ [CHR 0x0A]" 50 "''f0''", THEN conjunct1, THEN iffD2] by blast
  moreover have "decode_cursor (@) read_payload ''k'' None None cursor =
      Inr \<lparr>cu_domain = ''a.b'' @ [CHR 0x0A], cu_offset = 50, cu_filters = ''f0''\<rparr>"
    using all by simp
  ultimately show ?thesis by blast
qed

text \<open>How long an issued cursor is, for text that JSON prints as it is.\<close>

definition json_plain :: "string \<Rightarrow> bool" where
  "json_plain s \<longleftrightarrow> (\<forall>c \<in> set s. json_char c = [c])"

lemma length_json_plain: "json_plain s \<Longrightarrow> length (json_string s) = length s + 2"
proof -
  assume "json_plain s"
  then have "length (concat (map json_char s)) = length s" by (induction s) (simp_all add: json_plain_def)
  then show ?thesis by (simp add: json_string_def)
qed

lemma length_cursor:
  assumes "encode_cursor mac secret d n f = Inr cursor" and "json_plain d" and "json_plain f"
    and "length d \<le> 253" and "length f \<le> 16" and "length (str_int n) \<le> 5"
    and "length (mac secret (cursor_payload d n f)) \<le> 32"
  shows "length cursor \<le> 1024"
proof -
  have key: "length (json_string [c]) = 3" if "c \<in> {CHR ''d'', CHR ''f'', CHR ''o'', CHR ''v''}" for c
    by (rule length_json_plain [THEN trans]) (use that in \<open>auto simp: json_plain_def json_char_def\<close>)
  have "length (cursor_payload d n f) \<le> 300"
    using assms(4-6) by (simp add: cursor_payload_def length_json_plain assms(2,3) key)
  moreover have "cursor = encode_base64 (cursor_payload d n f) @ ''.'' @ encode_base64 (mac secret (cursor_payload d n f))"
    using assms(1) by (auto simp: encode_cursor_def Let_def split: if_splits)
  moreover have "length (encode_base64 v) \<le> (4 * length v + 2) div 3" for v
    using length_sextets [of "map of_char v"] by (simp add: encode_base64_sextets)
  then have "length (encode_base64 (cursor_payload d n f)) \<le> (4 * length (cursor_payload d n f) + 2) div 3"
    "length (encode_base64 (mac secret (cursor_payload d n f))) \<le> (4 * length (mac secret (cursor_payload d n f)) + 2) div 3"
    by blast+
  ultimately show ?thesis using assms(7) by simp
qed

end
