(* ===== verification/Endpoints.thy ===== *)
theory Endpoints
  imports Models
begin

text \<open>
  Reading an endpoint from text (\<open>ProxyEndpoint.parse\<close> of models.py): the conversions \<open>str.strip\<close>,
  \<open>str.rpartition\<close> and \<open>int\<close> on text of one-byte characters. \<open>address\<close> is the constructor of an IP
  address, with the text and family of the address it builds; \<open>split_url raw\<close> is what \<open>urlsplit\<close>
  reports of the host and port of \<open>//raw\<close>, \<open>None\<close> when it raises or one is missing.
\<close>

section \<open>Python's text conversions\<close>

definition is_space :: "char \<Rightarrow> bool" where
  "is_space c =
     (let n = (of_char c :: nat) in (9 \<le> n \<and> n \<le> 13) \<or> (28 \<le> n \<and> n \<le> 32) \<or> n = 133 \<or> n = 160)"

definition str_strip :: "string \<Rightarrow> string" where
  "str_strip s = rev (dropWhile is_space (rev (dropWhile is_space s)))"

definition is_digit :: "char \<Rightarrow> bool" where
  "is_digit c = (let n = (of_char c :: nat) in 48 \<le> n \<and> n \<le> 57)"

text \<open>Digits with single underscores between them.\<close>

fun digits_ok :: "bool \<Rightarrow> string \<Rightarrow> bool" where
  "digits_ok after_digit [] = after_digit"
| "digits_ok after_digit (c # cs) =
     (if is_digit c then digits_ok True cs else c = CHR ''_'' \<and> after_digit \<and> digits_ok False cs)"

text \<open>\<open>int(text)\<close>; \<open>None\<close> is its \<open>ValueError\<close>, also for more than 4300 digits.\<close>

definition py_int :: "string \<Rightarrow> int option" where
  "py_int s =
     (let t = str_strip s;
          (minus, u) = (case t of [] \<Rightarrow> (False, t)
                        | c # cs \<Rightarrow> if c = CHR ''-'' then (True, cs) else if c = CHR ''+'' then (False, cs) else (False, t));
          ds = filter (\<lambda>c. c \<noteq> CHR ''_'') u
      in if digits_ok False u \<and> length ds \<le> 4300
         then Some (if minus then - int (val_digits ds 0) else int (val_digits ds 0))
         else None)"

text \<open>\<open>rpartition(c)\<close>: the text before the last \<open>c\<close> and after it, if there is one.\<close>

definition rpartition :: "char \<Rightarrow> string \<Rightarrow> (string \<times> string) option" where
  "rpartition c s =
     (case dropWhile (\<lambda>x. x \<noteq> c) (rev s) of
        [] \<Rightarrow> None
      | _ # before \<Rightarrow> Some (rev before, rev (takeWhile (\<lambda>x. x \<noteq> c) (rev s))))"

section \<open>Parsing an endpoint\<close>

type_synonym addresses = "string \<Rightarrow> (string \<times> nat) option"

definition model_endpoint :: "addresses \<Rightarrow> string \<Rightarrow> int \<Rightarrow> proxy_endpoint option" where
  "model_endpoint address h p =
     (case address h of
        None \<Rightarrow> None
      | Some (text, version) \<Rightarrow>
          if 1 \<le> p \<and> p \<le> 65535 then Some \<lparr>host = text, host_version = version, port = nat p\<rparr> else None)"

definition parse_endpoint ::
  "addresses \<Rightarrow> (string \<Rightarrow> (string \<times> int) option) \<Rightarrow> string \<Rightarrow> proxy_endpoint option" where
  "parse_endpoint address split_url value =
     (let raw = str_strip value
      in case raw of
           [] \<Rightarrow> None
         | c # _ \<Rightarrow>
             if c = CHR ''['' then
               (case split_url raw of None \<Rightarrow> None | Some (h, p) \<Rightarrow> model_endpoint address h p)
             else
               (case rpartition (CHR '':'') raw of
                  None \<Rightarrow> None
                | Some (h, p) \<Rightarrow>
                    if h = [] \<or> CHR '':'' \<in> set h then None
                    else (case py_int p of None \<Rightarrow> None | Some n \<Rightarrow> model_endpoint address h n)))"

section \<open>Lemmas\<close>

lemma digit_not_space: "is_digit c \<Longrightarrow> \<not> is_space c"
  by (auto simp: is_digit_def is_space_def Let_def)

lemma str_strip_plain: "s \<noteq> [] \<Longrightarrow> \<not> is_space (hd s) \<Longrightarrow> \<not> is_space (last s) \<Longrightarrow>
    \<forall>c \<in> set b. is_space c \<Longrightarrow> \<forall>c \<in> set a. is_space c \<Longrightarrow> str_strip (b @ s @ a) = s"
proof -
  assume s: "s \<noteq> []" "\<not> is_space (hd s)" "\<not> is_space (last s)"
    and b: "\<forall>c \<in> set b. is_space c" and a: "\<forall>c \<in> set a. is_space c"
  have "dropWhile is_space (b @ s @ a) = s @ a"
    using b s by (simp add: dropWhile_append2 dropWhile_eq_self_iff)
  moreover have "dropWhile is_space (rev a @ rev s) = rev s"
    using a s by (subst dropWhile_append2) (auto simp: dropWhile_eq_self_iff hd_rev)
  ultimately show ?thesis by (simp add: str_strip_def)
qed

lemma str_nat_is_digit: "c \<in> set (str_nat n) \<Longrightarrow> is_digit c"
  using str_nat_digits [of c n] by (simp add: is_digit_def Let_def)

lemma str_nat_nonempty: "str_nat n \<noteq> []"
  by (subst str_nat.simps) simp

lemma digits_ok_digits: "\<forall>c \<in> set s. is_digit c \<Longrightarrow> digits_ok b s = (s = [] \<longrightarrow> b)"
  by (induction s arbitrary: b) auto

lemma length_str_nat: "n < 10 ^ Suc k \<Longrightarrow> length (str_nat n) \<le> Suc k"
proof (induction k arbitrary: n)
  case 0
  then show ?case by (subst str_nat.simps) simp
next
  case (Suc k)
  have "length (str_nat (n div 10)) \<le> Suc k"
    by (rule Suc.IH) (use Suc.prems in \<open>simp add: less_mult_imp_div_less mult.commute\<close>)
  then show ?case by (subst str_nat.simps) simp
qed

lemma py_int_str_nat: "n \<le> 65535 \<Longrightarrow> py_int (str_nat n) = Some (int n)"
proof -
  assume n: "n \<le> 65535"
  obtain c cs where s: "str_nat n = c # cs" using str_nat_nonempty by (meson neq_Nil_conv)
  have d: "\<forall>c \<in> set (str_nat n). is_digit c" by (simp add: str_nat_is_digit)
  then have "is_digit c" "is_digit (last (str_nat n))" using s by auto
  then have t: "str_strip (str_nat n) = str_nat n"
    using str_strip_plain [of "str_nat n" "[]" "[]"] s by (simp add: digit_not_space)
  have sign: "c \<noteq> CHR ''-''" "c \<noteq> CHR ''+''" using \<open>is_digit c\<close> by (auto simp: is_digit_def)
  have "\<forall>x \<in> set (str_nat n). x \<noteq> CHR ''_''" using d by (auto simp: is_digit_def)
  then have f: "filter (\<lambda>c. c \<noteq> CHR ''_'') (str_nat n) = str_nat n" by simp
  have "length (str_nat n) \<le> Suc 4" by (rule length_str_nat) (use n in simp)
  then have l: "length (str_nat n) \<le> 4300" by simp
  have "val_digits (c # cs) 0 = n" using val_str_nat [of n] s by simp
  then show ?thesis
    unfolding py_int_def t Let_def using sign d f l by (simp add: s digits_ok_digits del: val_digits.simps)
qed

lemma rpartition_last: "c \<notin> set p \<Longrightarrow> rpartition c (h @ c # p) = Some (h, p)"
proof -
  assume p: "c \<notin> set p"
  have "dropWhile (\<lambda>x. x \<noteq> c) (rev p @ c # rev h) = c # rev h"
    using p by (subst dropWhile_append2) auto
  moreover have "takeWhile (\<lambda>x. x \<noteq> c) (rev p @ c # rev h) = rev p"
    using p by (subst takeWhile_append2) auto
  ultimately show ?thesis by (simp add: rpartition_def)
qed

lemma model_endpoint_valid:
  "model_endpoint address h p = Some e \<Longrightarrow> 1 \<le> port e \<and> port e \<le> 65535 \<and> address h = Some (host e, host_version e)"
  by (auto simp: model_endpoint_def split: option.splits if_splits)

lemma strip_canonical:
  assumes "host e \<noteq> []" and "\<forall>c \<in> set (host e). \<not> is_space c" and "\<forall>c \<in> set before \<union> set after. is_space c"
  shows "str_strip (before @ canonical e @ after) = canonical e"
proof -
  have "last (canonical e) = last (str_nat (port e))"
    using str_nat_nonempty [of "port e"] by (simp add: canonical_def)
  moreover have "last (str_nat (port e)) \<in> set (str_nat (port e))" using str_nat_nonempty by simp
  ultimately have "\<not> is_space (last (canonical e))" using str_nat_is_digit digit_not_space by metis
  moreover have "\<not> is_space (CHR ''['')" by (simp add: is_space_def)
  then have "\<not> is_space (hd (canonical e))" using assms(1,2) by (auto simp: canonical_def hd_append)
  ultimately show ?thesis
    using str_strip_plain [of "canonical e" before after] assms(1,3) by (auto simp: canonical_def)
qed

section \<open>Properties\<close>

text \<open>
  The canonical text of an endpoint, with any white space around it, parses back to exactly
  that endpoint, for both address families; and whatever text is accepted gives a port in
  1..65535 and an address the address constructor built.
\<close>

lemma canonical_parses_back:
  assumes "valid_endpoint e" and "\<forall>c \<in> set (host e). \<not> is_space c"
    and "address (host e) = Some (host e, host_version e)"
    and "host_version e = 6 \<Longrightarrow> split_url (canonical e) = Some (host e, int (port e))"
    and "\<forall>c \<in> set before \<union> set after. is_space c"
  shows "parse_endpoint address split_url (before @ canonical e @ after) = Some e \<and>
     (\<forall>v f. parse_endpoint address split_url v = Some f \<longrightarrow>
        1 \<le> port f \<and> port f \<le> 65535 \<and> (\<exists>h. address h = Some (host f, host_version f)))"
proof (intro conjI allI impI)
  from assms(1) have port: "1 \<le> port e" "port e \<le> 65535" and ne: "host e \<noteq> []"
    and v: "host_version e = 4 \<or> host_version e = 6" by (auto simp: valid_endpoint_def)
  have built: "model_endpoint address (host e) (int (port e)) = Some e"
    using assms(3) port by (simp add: model_endpoint_def)
  note strip = strip_canonical [OF ne assms(2,5)]
  show "parse_endpoint address split_url (before @ canonical e @ after) = Some e"
  proof (cases "host_version e = 6")
    case True
    then have "canonical e = CHR ''['' # host e @ '']:'' @ str_nat (port e)" by (simp add: canonical_def)
    with assms(4) True built strip show ?thesis by (simp add: parse_endpoint_def)
  next
    case False
    with v assms(1) have colon: "CHR '':'' \<notin> set (host e)" and br: "CHR ''['' \<notin> set (host e)"
      by (auto simp: valid_endpoint_def)
    obtain c cs where h: "host e = c # cs" using ne by (meson neq_Nil_conv)
    have c: "canonical e = host e @ CHR '':'' # str_nat (port e)" using False by (simp add: canonical_def)
    have "rpartition (CHR '':'') (canonical e) = Some (host e, str_nat (port e))"
      unfolding c by (rule rpartition_last) simp
    moreover have "canonical e = c # (cs @ CHR '':'' # str_nat (port e))" unfolding c h by simp
    moreover have "c \<noteq> CHR ''[''" using br h by auto
    ultimately show ?thesis using strip colon ne built port
      by (simp add: parse_endpoint_def py_int_str_nat)
  qed
next
  fix v f assume "parse_endpoint address split_url v = Some f"
  then obtain h p where "model_endpoint address h p = Some f"
    by (auto simp: parse_endpoint_def Let_def split: list.splits option.splits if_splits)
  from model_endpoint_valid [OF this]
  show "1 \<le> port f" "port f \<le> 65535" "\<exists>h. address h = Some (host f, host_version f)" by auto
qed

lemma canonical_parses_back_witness:
  "parse_endpoint (\<lambda>h. Some (h, if CHR '':'' \<in> set h then 6 else 4)) (\<lambda>_. Some (''::1'', 8080))
       ('' '' @ canonical \<lparr>host = ''::1'', host_version = 6, port = 8080\<rparr> @ [CHR 0x0A]) =
     Some \<lparr>host = ''::1'', host_version = 6, port = 8080\<rparr>"
  using canonical_parses_back [of "\<lparr>host = ''::1'', host_version = 6, port = 8080\<rparr>"
      "\<lambda>h. Some (h, if CHR '':'' \<in> set h then 6 else 4)" "\<lambda>_. Some (''::1'', 8080)" "'' ''" "[CHR 0x0A]"]
  by (simp add: valid_endpoint_def is_space_def)

end
