(* ===== verification/Routes.thy ===== *)
theory Routes
  imports PoolQuery PeerCache Cursors Endpoints
begin

text \<open>
  The proxy routes of the API (api/routes/proxies.py, legacy.py, stats.py and the readiness
  route of health.py, with the response models of api/models.py). A route is a sequence of
  calls to the repository, the receipt store and the peer cache. The calls are a record that
  each route takes as an argument: a call gets the stored state and returns the new state
  with a value or an exception, so that Redis may fail at any of them. \<open>model_calls\<close> puts the
  operations of the other theories in; metrics are not modelled.
\<close>

section \<open>Calls\<close>

type_synonym ('s, 'a) call = "'s \<Rightarrow> 's \<times> 'a result"

definition unavailable :: exn where
  "unavailable = HTTPException 503 ''service unavailable''"

definition not_found :: exn where
  "not_found = HTTPException 404 ''proxy not found''"

text \<open>\<open>try: x = await m() except Exception: raise e\<close>, followed by the rest of the route.\<close>

definition attempt :: "exn \<Rightarrow> ('s, 'a) call \<Rightarrow> ('a \<Rightarrow> ('s, 'b) call) \<Rightarrow> ('s, 'b) call" where
  "attempt e m k s = (case m s of (s', Inl _) \<Rightarrow> (s', Inl e) | (s', Inr a) \<Rightarrow> k a s')"

record 's proxy_calls =
  do_domains :: "('s, string list) call"
  do_select :: "string \<Rightarrow> int \<Rightarrow> int \<Rightarrow> rat \<Rightarrow> int \<Rightarrow> int \<Rightarrow> ('s, proxy_record list) call"
  do_list :: "string \<Rightarrow> int \<Rightarrow> int \<Rightarrow> int \<Rightarrow> proxy_state option \<Rightarrow> int \<Rightarrow> string option \<Rightarrow> ('s, page) call"
  do_get :: "string \<Rightarrow> string \<Rightarrow> ('s, proxy_record option) call"
  do_save :: "proxy_record \<Rightarrow> ('s, unit) call"
  do_issue :: "export_item \<Rightarrow> string \<Rightarrow> time \<Rightarrow> ('s, string) call"
  do_peer_select :: "policy \<Rightarrow> int \<Rightarrow> string list \<Rightarrow> string \<Rightarrow> time \<Rightarrow> ('s, selected_proxy list) call"
  do_note :: "bool \<Rightarrow> ('s, unit) call"
  do_resolve :: "string \<Rightarrow> string \<Rightarrow> string \<Rightarrow> string \<Rightarrow> time \<Rightarrow> ('s, sel_receipt) call"
  do_claim :: "sel_receipt \<Rightarrow> ('s, bool) call"
  do_invalidate :: "peer_config \<Rightarrow> sel_receipt \<Rightarrow> time \<Rightarrow> ('s, bool) call"

definition require_domain :: "'s proxy_calls \<Rightarrow> string \<Rightarrow> ('s, 'b) call \<Rightarrow> ('s, 'b) call" where
  "require_domain C d k =
     attempt unavailable (do_domains C)
       (\<lambda>ds s. if d \<notin> set ds then (s, Inl (HTTPException 404 ''domain not found'')) else k s)"

definition domains_route :: "'s proxy_calls \<Rightarrow> ('s, string list) call" where
  "domains_route C = attempt unavailable (do_domains C) (\<lambda>ds s. (s, Inr ds))"

section \<open>Responses\<close>

record proxy_response =
  rs_endpoint :: string
  rs_domain :: string
  rs_score :: int
  rs_state :: proxy_state
  rs_sources :: "string list"
  rs_latency :: "pyfloat option"
  rs_checked :: "time option"
  rs_next_check :: time

definition response_of :: "proxy_record \<Rightarrow> proxy_response" where
  "response_of r =
     \<lparr>rs_endpoint = canonical (endpoint r), rs_domain = rec_domain r, rs_score = score r, rs_state = state r,
      rs_sources = sorted_list_of_set (source_names r), rs_latency = latency_ewma_ms r,
      rs_checked = last_checked_at r, rs_next_check = next_check_at r\<rparr>"

record selected_response =
  sd_endpoint :: string
  sd_domain :: string
  sd_score :: int
  sd_state :: "proxy_state option"
  sd_sources :: "string list"
  sd_latency :: "pyfloat option"
  sd_checked :: "time option"
  sd_next_check :: "time option"
  sd_source :: string
  sd_peer :: "string option"
  sd_token :: string
  sd_usable_until :: time

definition formal_selected :: "proxy_record \<Rightarrow> string \<Rightarrow> time \<Rightarrow> selected_response" where
  "formal_selected r token usable =
     \<lparr>sd_endpoint = canonical (endpoint r), sd_domain = rec_domain r, sd_score = score r, sd_state = Some (state r),
      sd_sources = sorted_list_of_set (source_names r), sd_latency = latency_ewma_ms r,
      sd_checked = last_checked_at r, sd_next_check = Some (next_check_at r), sd_source = ''formal'',
      sd_peer = None, sd_token = token, sd_usable_until = usable\<rparr>"

definition peer_selected_response :: "selected_proxy \<Rightarrow> selected_response" where
  "peer_selected_response p =
     \<lparr>sd_endpoint = pe_endpoint (sp_item p), sd_domain = pe_domain (sp_item p), sd_score = pe_score (sp_item p),
      sd_state = None, sd_sources = pe_sources (sp_item p), sd_latency = Some (Finite (pe_latency (sp_item p))),
      sd_checked = Some (sp_checked p), sd_next_check = None, sd_source = ''peer'', sd_peer = Some (sp_peer p),
      sd_token = sp_token p, sd_usable_until = sp_usable_until p\<rparr>"

datatype random_response =
    Formal_Response "proxy_response list"
  | Peer_Response "selected_response list"

section \<open>Random selection\<close>

record selection_settings =
  se_min_score :: int
  se_max_latency :: rat
  se_max_age :: int
  se_min_successes :: int

record route_settings =
  st_selection :: selection_settings
  st_peer :: selection_settings
  st_peer_enabled :: bool
  st_target_domain :: string

text \<open>The query parameters, within the bounds FastAPI checks.\<close>

record random_query =
  rq_domain :: string
  rq_count :: int
  rq_min_score :: int
  rq_max_latency :: "rat option"
  rq_max_age :: "int option"
  rq_min_successes :: "int option"
  rq_include_peers :: bool

definition valid_query :: "random_query \<Rightarrow> bool" where
  "valid_query q \<longleftrightarrow>
     rq_domain q \<noteq> [] \<and> length (rq_domain q) \<le> 253 \<and> 1 \<le> rq_count q \<and> rq_count q \<le> 20 \<and>
     0 \<le> rq_min_score q \<and> rq_min_score q \<le> 100 \<and>
     (case rq_max_latency q of None \<Rightarrow> True | Some l \<Rightarrow> 0 \<le> l) \<and>
     (case rq_max_age q of None \<Rightarrow> True | Some a \<Rightarrow> 0 < a) \<and>
     (case rq_min_successes q of None \<Rightarrow> True | Some n \<Rightarrow> 1 \<le> n \<and> n \<le> 20)"

definition or_default :: "'a \<Rightarrow> 'a option \<Rightarrow> 'a" where
  "or_default d x = (case x of None \<Rightarrow> d | Some a \<Rightarrow> a)"

definition formal_select :: "'s proxy_calls \<Rightarrow> route_settings \<Rightarrow> random_query \<Rightarrow> ('s, proxy_record list) call" where
  "formal_select C cfg q =
     (let sel = st_selection cfg
      in do_select C (rq_domain q) (max (rq_min_score q) (se_min_score sel)) (rq_count q)
           (min (or_default (se_max_latency sel) (rq_max_latency q)) (se_max_latency sel))
           (min (or_default (se_max_age sel) (rq_max_age q)) (se_max_age sel))
           (max (or_default (se_min_successes sel) (rq_min_successes q)) (se_min_successes sel)))"

text \<open>
  The loop over the formal records. \<open>Inr None\<close> is the early return when a record is no longer
  usable, \<open>Inl\<close> an exception that reaches the \<open>except\<close> clause.
\<close>

fun issue_formal ::
  "'s proxy_calls \<Rightarrow> (string \<Rightarrow> bool) \<Rightarrow> string \<Rightarrow> time \<Rightarrow> int \<Rightarrow> proxy_record list \<Rightarrow> selected_response list
     \<Rightarrow> ('s, selected_response list option) call" where
  "issue_formal C is_global caller now max_age [] sel s = (s, Inr (Some sel))"
| "issue_formal C is_global caller now max_age (r # rs) sel s =
     (case from_record is_global r of
        Inl e \<Rightarrow> (s, Inl e)
      | Inr snapshot \<Rightarrow>
          (case do_issue C snapshot caller now s of
             (s', Inl e) \<Rightarrow> (s', Inl e)
           | (s', Inr token) \<Rightarrow>
               let usable = min (now + 600) (pe_checked snapshot + of_int max_age - 5)
               in if usable \<le> now then (s', Inr None)
                  else issue_formal C is_global caller now max_age rs (sel @ [formal_selected r token usable]) s'))"

definition policy_of :: "string \<Rightarrow> selection_settings \<Rightarrow> policy result" where
  "policy_of d sel = new_policy d (se_min_score sel) (Finite (se_max_latency sel)) (se_max_age sel) (se_min_successes sel)"

definition request_settings :: "route_settings \<Rightarrow> random_query \<Rightarrow> selection_settings" where
  "request_settings cfg q =
     (let sel = st_selection cfg
      in \<lparr>se_min_score = rq_min_score q, se_max_latency = or_default (se_max_latency sel) (rq_max_latency q),
          se_max_age = or_default (se_max_age sel) (rq_max_age q),
          se_min_successes = or_default (se_min_successes sel) (rq_min_successes q)\<rparr>)"

definition peer_policy :: "route_settings \<Rightarrow> random_query \<Rightarrow> policy result" where
  "peer_policy cfg q =
     (case policy_of (rq_domain q) (request_settings cfg q) of Inl e \<Rightarrow> Inl e | Inr request \<Rightarrow>
     (case policy_of (rq_domain q) (st_selection cfg) of Inl e \<Rightarrow> Inl e | Inr service \<Rightarrow>
     (case policy_of (rq_domain q) (st_peer cfg) of Inl e \<Rightarrow> Inl e | Inr cache \<Rightarrow>
        effective_peer_policy request service cache)))"

text \<open>The part after the receipts: \<open>formal\<close> is the answer when anything fails.\<close>

definition add_peers ::
  "'s proxy_calls \<Rightarrow> route_settings \<Rightarrow> random_query \<Rightarrow> string \<Rightarrow> time \<Rightarrow> string list \<Rightarrow> random_response
     \<Rightarrow> selected_response list \<Rightarrow> ('s, random_response) call" where
  "add_peers C cfg q caller now exclusions formal sel s =
     (if \<not> int (length sel) < rq_count q then (s, Inr (Peer_Response (take (nat (rq_count q)) sel)))
      else
        (case peer_policy cfg q of
           Inl _ \<Rightarrow> (s, Inr formal)
         | Inr pol \<Rightarrow>
             (case do_peer_select C pol (rq_count q - int (length sel)) exclusions caller now s of
                (s1, Inl _) \<Rightarrow> (fst (do_note C False s1), Inr formal)
              | (s1, Inr peers) \<Rightarrow>
                  (case do_note C True s1 of
                     (s2, Inl _) \<Rightarrow> (fst (do_note C False s2), Inr formal)
                   | (s2, Inr _) \<Rightarrow>
                       (s2, Inr (Peer_Response (take (nat (rq_count q))
                              (sel @ map peer_selected_response
                                       (filter (\<lambda>p. pe_endpoint (sp_item p) \<notin> set exclusions) peers)))))))))"

definition with_peers ::
  "'s proxy_calls \<Rightarrow> (string \<Rightarrow> bool) \<Rightarrow> route_settings \<Rightarrow> random_query \<Rightarrow> string \<Rightarrow> time \<Rightarrow> proxy_record list
     \<Rightarrow> ('s, random_response) call" where
  "with_peers C is_global cfg q caller now recs s =
     (let formal = Formal_Response (map response_of recs);
          max_age = min (or_default (se_max_age (st_selection cfg)) (rq_max_age q)) (se_max_age (st_selection cfg))
      in case issue_formal C is_global caller now max_age recs [] s of
           (s', Inl _) \<Rightarrow> (s', Inr formal)
         | (s', Inr None) \<Rightarrow> (s', Inr formal)
         | (s', Inr (Some sel)) \<Rightarrow>
             add_peers C cfg q caller now (map (\<lambda>r. canonical (endpoint r)) recs) formal sel s')"

text \<open>\<open>stores\<close>: the application holds a receipt store and a peer cache.\<close>

definition random_route ::
  "'s proxy_calls \<Rightarrow> (string \<Rightarrow> bool) \<Rightarrow> route_settings \<Rightarrow> bool \<Rightarrow> string \<Rightarrow> time \<Rightarrow> random_query
     \<Rightarrow> ('s, random_response) call" where
  "random_route C is_global cfg stores caller now q =
     require_domain C (rq_domain q)
       (\<lambda>s. case formal_select C cfg q s of
              (s', Inl LatencyIndexNotReady) \<Rightarrow> (s', Inl (HTTPException 503 ''latency index not ready''))
            | (s', Inl _) \<Rightarrow> (s', Inl unavailable)
            | (s', Inr recs) \<Rightarrow>
                if \<not> (rq_include_peers q \<and> st_peer_enabled cfg \<and> rq_domain q = st_target_domain cfg) \<or> \<not> stores
                then (s', Inr (Formal_Response (map response_of recs)))
                else with_peers C is_global cfg q caller now recs s')"

section \<open>Feedback\<close>

datatype feedback_outcome = Feedback_Success | Feedback_Proxy_Error

record feedback =
  fb_domain :: string
  fb_endpoint :: string
  fb_outcome :: feedback_outcome
  fb_latency :: "rat option"
  fb_status :: "int option"
  fb_error :: "string option"
  fb_token :: "string option"

record peer_feedback =
  pb_endpoint :: string
  pb_domain :: string
  pb_score :: int
  pb_sources :: "string list"
  pb_latency :: rat
  pb_checked :: time
  pb_peer :: string

datatype feedback_response = Record_Feedback proxy_response | Peer_Feedback peer_feedback

definition peer_feedback_of :: "sel_receipt \<Rightarrow> peer_feedback" where
  "peer_feedback_of r =
     (let it = sr_snapshot r
      in \<lparr>pb_endpoint = pe_endpoint it, pb_domain = pe_domain it, pb_score = pe_score it, pb_sources = pe_sources it,
          pb_latency = pe_latency it, pb_checked = pe_checked it, pb_peer = or_default [] (sr_peer r)\<rparr>)"

definition feedback_result :: "feedback \<Rightarrow> probe_result" where
  "feedback_result b =
     \<lparr>category = (if fb_outcome b = Feedback_Success then Success else Proxy_Error),
      latency_ms = map_option Finite (fb_latency b), status_code = fb_status b, error_type = fb_error b,
      error_message = None\<rparr>"

text \<open>\<open>jitter\<close> is the draw of \<open>next_check_at\<close>.\<close>

definition apply_feedback :: "feedback \<Rightarrow> time \<Rightarrow> (int \<Rightarrow> int \<Rightarrow> int) \<Rightarrow> proxy_record \<Rightarrow> proxy_record" where
  "apply_feedback b later jitter r =
     (let updated = apply_probe_result r (feedback_result b) later
      in updated\<lparr>next_check_at := schedule_check updated later jitter\<rparr>)"

definition record_feedback ::
  "'s proxy_calls \<Rightarrow> string \<Rightarrow> time \<Rightarrow> (int \<Rightarrow> int \<Rightarrow> int) \<Rightarrow> feedback \<Rightarrow> ('s, feedback_response) call" where
  "record_feedback C ep later jitter b =
     attempt unavailable (do_get C (fb_domain b) ep)
       (\<lambda>found s.
          case found of
            None \<Rightarrow> (s, Inl not_found)
          | Some r \<Rightarrow>
              let updated = apply_feedback b later jitter r
              in attempt unavailable (do_save C updated) (\<lambda>_ s'. (s', Inr (Record_Feedback (response_of updated)))) s)"

definition repeated_feedback :: "'s proxy_calls \<Rightarrow> string \<Rightarrow> feedback \<Rightarrow> ('s, feedback_response) call" where
  "repeated_feedback C ep b =
     attempt unavailable (do_get C (fb_domain b) ep)
       (\<lambda>found s.
          case found of
            None \<Rightarrow> (s, Inl not_found)
          | Some r \<Rightarrow> (s, Inr (Record_Feedback (response_of r))))"

text \<open>
  What the application holds: \<open>has_receipts\<close>, its peer cache if there is one, and whether there
  is a Redis client to build a cache on.
\<close>

record route_stores =
  has_receipts :: bool
  has_cache :: "peer_config option"
  has_redis :: bool

definition cache_for :: "route_stores \<Rightarrow> feedback \<Rightarrow> sel_receipt \<Rightarrow> peer_config result" where
  "cache_for stores b r =
     (case has_cache stores of
        Some cfg \<Rightarrow> Inr cfg
      | None \<Rightarrow>
          if \<not> has_redis stores then Inl unavailable
          else (case sr_peer r of
                  None \<Rightarrow> Inl unavailable
                | Some peer \<Rightarrow> new_peer_store peer (fb_domain b) None 180 600 None))"

definition token_feedback ::
  "'s proxy_calls \<Rightarrow> route_stores \<Rightarrow> string \<Rightarrow> string \<Rightarrow> time \<Rightarrow> time \<Rightarrow> (int \<Rightarrow> int \<Rightarrow> int) \<Rightarrow> feedback \<Rightarrow> string
     \<Rightarrow> ('s, feedback_response) call" where
  "token_feedback C stores caller ep now later jitter b token s =
     (if \<not> has_receipts stores then (s, Inl unavailable)
      else
        (case do_resolve C token caller (fb_domain b) ep now s of
           (s1, Inl (InvalidReceipt _)) \<Rightarrow> (s1, Inl (HTTPException 409 ''invalid selection receipt''))
         | (s1, Inl (ReceiptBindingError _)) \<Rightarrow> (s1, Inl (HTTPException 403 ''selection receipt binding mismatch''))
         | (s1, Inl _) \<Rightarrow> (s1, Inl unavailable)
         | (s1, Inr r) \<Rightarrow>
             if sr_source r = ''peer'' then
               (case cache_for stores b r of
                  Inl e \<Rightarrow> (s1, Inl e)
                | Inr cfg \<Rightarrow>
                    if fb_outcome b = Feedback_Proxy_Error
                    then attempt unavailable (do_invalidate C cfg r now)
                           (\<lambda>_ s2. (s2, Inr (Peer_Feedback (peer_feedback_of r)))) s1
                    else (s1, Inr (Peer_Feedback (peer_feedback_of r))))
             else if fb_outcome b = Feedback_Proxy_Error then
               attempt unavailable (do_claim C r)
                 (\<lambda>first s2. if \<not> first then repeated_feedback C ep b s2 else record_feedback C ep later jitter b s2) s1
             else record_feedback C ep later jitter b s1))"

definition feedback_route ::
  "'s proxy_calls \<Rightarrow> (string \<Rightarrow> proxy_endpoint option) \<Rightarrow> route_stores \<Rightarrow> string \<Rightarrow> time \<Rightarrow> time
     \<Rightarrow> (int \<Rightarrow> int \<Rightarrow> int) \<Rightarrow> feedback \<Rightarrow> ('s, feedback_response) call" where
  "feedback_route C parse stores caller now later jitter b =
     (let rest = (\<lambda>s. case parse (fb_endpoint b) of
            None \<Rightarrow> (s, Inl (HTTPException 422 ''invalid proxy endpoint''))
          | Some e \<Rightarrow>
              (case fb_token b of
                 None \<Rightarrow> record_feedback C (canonical e) later jitter b s
               | Some token \<Rightarrow> token_feedback C stores caller (canonical e) now later jitter b token s))
      in if fb_token b = None then require_domain C (fb_domain b) rest else rest)"

section \<open>Listing\<close>

record list_query =
  lq_domain :: string
  lq_state :: "proxy_state option"
  lq_min_score :: int
  lq_max_score :: int
  lq_source :: "string option"
  lq_limit :: int
  lq_cursor :: "string option"

definition state_text :: "proxy_state \<Rightarrow> string" where
  "state_text x = (case x of Candidate \<Rightarrow> ''candidate'' | Available \<Rightarrow> ''available'' | Degraded \<Rightarrow> ''degraded''
     | Quarantined \<Rightarrow> ''quarantined'')"

text \<open>HMAC, SHA-256 and \<open>json.loads\<close> as the codec uses them, with the codec's secret.\<close>

record codec =
  cd_mac :: "string \<Rightarrow> string \<Rightarrow> string"
  cd_sha :: "string \<Rightarrow> string"
  cd_loads :: "string \<Rightarrow> json option"
  cd_secret :: string

definition filters_of :: "codec \<Rightarrow> list_query \<Rightarrow> string" where
  "filters_of K q = query_filters_hash (cd_sha K) (map_option state_text (lq_state q)) (lq_min_score q) (lq_max_score q)
     (lq_source q) (lq_limit q)"

definition start_offset :: "codec \<Rightarrow> list_query \<Rightarrow> int result" where
  "start_offset K q =
     (case lq_cursor q of
        None \<Rightarrow> Inr 0
      | Some c \<Rightarrow>
          (case decode_cursor (cd_mac K) (cd_loads K) (cd_secret K) (Some (lq_domain q)) (Some (filters_of K q)) c of
             Inl (InvalidCursor _) \<Rightarrow> Inl (HTTPException 422 ''invalid cursor'')
           | Inl e \<Rightarrow> Inl e
           | Inr data \<Rightarrow> Inr (cu_offset data)))"

definition next_cursor :: "codec \<Rightarrow> list_query \<Rightarrow> page \<Rightarrow> string option result" where
  "next_cursor K q pg =
     (case next_offset pg of
        None \<Rightarrow> Inr None
      | Some n \<Rightarrow>
          (case encode_cursor (cd_mac K) (cd_secret K) (lq_domain q) (int n) (filters_of K q) of
             Inl e \<Rightarrow> Inl e
           | Inr c \<Rightarrow> Inr (Some c)))"

text \<open>FastAPI refuses a cursor parameter of more than 1024 characters before the handler runs.\<close>

definition cursor_fits :: "string option \<Rightarrow> bool" where
  "cursor_fits c = (case c of None \<Rightarrow> True | Some s \<Rightarrow> length s \<le> 1024)"

definition list_route :: "'s proxy_calls \<Rightarrow> codec \<Rightarrow> list_query \<Rightarrow> ('s, proxy_response list \<times> string option) call" where
  "list_route C K q s0 =
     (if \<not> cursor_fits (lq_cursor q) then (s0, Inl (HTTPException 422 ''validation error''))
      else if lq_min_score q > lq_max_score q then (s0, Inl (HTTPException 422 ''min_score must not exceed max_score''))
      else
        require_domain C (lq_domain q)
          (\<lambda>s. case start_offset K q of
                 Inl e \<Rightarrow> (s, Inl e)
               | Inr offset \<Rightarrow>
                   attempt unavailable
                     (do_list C (lq_domain q) (lq_min_score q) (lq_limit q) offset (lq_state q) (lq_max_score q) (lq_source q))
                     (\<lambda>pg s'. case next_cursor K q pg of
                        Inl e \<Rightarrow> (s', Inl e)
                      | Inr c \<Rightarrow> (s', Inr (map response_of (page_items pg), c))) s) s0)"

text \<open>The deprecated routes: one, \<open>num\<close> or 200 endpoints.\<close>

definition legacy_read :: "'s proxy_calls \<Rightarrow> string \<Rightarrow> int \<Rightarrow> ('s, string list) call" where
  "legacy_read C d limit =
     attempt unavailable (do_domains C)
       (\<lambda>ds s. if d \<notin> set ds then (s, Inl (HTTPException 404 ''domain not found''))
              else attempt unavailable (do_list C d 0 limit 0 None 100 None)
                     (\<lambda>pg s'. (s', Inr (map (\<lambda>r. canonical (endpoint r)) (page_items pg)))) s)"

definition legacy_one :: "'s proxy_calls \<Rightarrow> string \<Rightarrow> ('s, string list) call" where
  "legacy_one C d = legacy_read C d 1"

definition legacy_numbered :: "'s proxy_calls \<Rightarrow> string \<Rightarrow> int \<Rightarrow> ('s, string list) call" where
  "legacy_numbered C d num = legacy_read C d num"

definition legacy_all :: "'s proxy_calls \<Rightarrow> string \<Rightarrow> ('s, string list) call" where
  "legacy_all C d = legacy_read C d 200"

section \<open>Statistics, readiness and the request middleware\<close>

text \<open>\<open>get\<close> and \<open>set_for\<close> are the Redis commands GET and SETEX, \<open>read\<close> and \<open>print\<close> the JSON of a reply.\<close>

definition stats_key :: "(string \<Rightarrow> string) \<Rightarrow> string option \<Rightarrow> string" where
  "stats_key sha d =
     ''api:stats:'' @ take 16 (sha (case d of None \<Rightarrow> ''all'' | Some x \<Rightarrow> if x = [] then ''all'' else x))"

definition stats_route ::
  "(string \<Rightarrow> string) \<Rightarrow> (string \<Rightarrow> pool_stats option) \<Rightarrow> (pool_stats \<Rightarrow> string) \<Rightarrow> (string \<Rightarrow> ('s, string option) call)
     \<Rightarrow> (string \<Rightarrow> int \<Rightarrow> string \<Rightarrow> ('s, unit) call) \<Rightarrow> (string option \<Rightarrow> ('s, pool_stats) call) \<Rightarrow> string option
     \<Rightarrow> ('s, pool_stats) call" where
  "stats_route sha read print get set_for compute d =
     attempt unavailable (get (stats_key sha d))
       (\<lambda>cached s.
          case Option.bind cached read of
            Some v \<Rightarrow> (s, Inr v)
          | None \<Rightarrow>
              attempt unavailable (compute d)
                (\<lambda>v. attempt unavailable (set_for (stats_key sha d) 10 (print v)) (\<lambda>_ s'. (s', Inr v))) s)"

definition ready_route :: "('s, bool) call \<Rightarrow> ('s, bool) call \<Rightarrow> ('s, string) call" where
  "ready_route ping indexes_ready =
     attempt unavailable ping
       (\<lambda>healthy. attempt unavailable indexes_ready
          (\<lambda>ready s. if \<not> healthy then (s, Inl unavailable)
                     else if \<not> ready then (s, Inl (HTTPException 503 ''selection indexes not ready''))
                     else (s, Inr ''ready'')))"

text \<open>\<open>request_id_middleware\<close> of api/app.py: the identifier of the answer, and the size check.\<close>

definition request_id_char :: "char \<Rightarrow> bool" where
  "request_id_char c =
     (let n = (of_char c :: nat)
      in (65 \<le> n \<and> n \<le> 90) \<or> (97 \<le> n \<and> n \<le> 122) \<or> (48 \<le> n \<and> n \<le> 57) \<or> n = 46 \<or> n = 95 \<or> n = 45)"

definition request_id :: "string \<Rightarrow> string \<Rightarrow> string" where
  "request_id fresh supplied =
     (if 1 \<le> length supplied \<and> length supplied \<le> 128 \<and> (\<forall>c \<in> set supplied. request_id_char c) then supplied else fresh)"

definition body_refused :: "string \<Rightarrow> string \<Rightarrow> string \<Rightarrow> bool" where
  "body_refused path meth content_length =
     (take (length ''/v1/reclaim/ownership/'') path = ''/v1/reclaim/ownership/'' \<and> meth = ''POST'' \<and>
      (content_length = [] \<or> \<not> (\<forall>c \<in> set content_length. is_digit c) \<or> 4096 < val_digits content_length 0))"

section \<open>The calls on the model\<close>

record ('z, 'h, 'o, 's) api_state =
  ap_repo :: "('z, 'h, 'o, 's) repo"
  ap_cache :: "'z peer_cache"
  ap_drawn :: nat

text \<open>
  What the calls take from outside the state: the draws and the Redis clock. \<open>en_token k\<close> is the
  \<open>k\<close>-th token \<open>secrets.token_urlsafe\<close> draws; the state counts the draws.
\<close>

record ('z, 'h, 'o, 's, 'p) api_env =
  en_svc :: "('z, 'h, 'o, 's, 'p) svc"
  en_max_latency :: rat
  en_sha :: "string \<Rightarrow> string"
  en_token :: "nat \<Rightarrow> string"
  en_draw :: "nat \<Rightarrow> nat"
  en_shuffle :: "proxy_record list \<Rightarrow> proxy_record list"
  en_clock :: time
  en_cfg :: peer_config

definition on_repo ::
  "(('z, 'h, 'o, 's) repo \<Rightarrow> (('z, 'h, 'o, 's) repo \<times> 'a) result) \<Rightarrow> (('z, 'h, 'o, 's) api_state, 'a) call" where
  "on_repo f s = (case f (ap_repo s) of Inl e \<Rightarrow> (s, Inl e) | Inr (R, a) \<Rightarrow> (s\<lparr>ap_repo := R\<rparr>, Inr a))"

definition on_cache ::
  "('z peer_cache \<Rightarrow> ('z peer_cache \<times> 'a) result) \<Rightarrow> (('z, 'h, 'o, 's) api_state, 'a) call" where
  "on_cache f s = (case f (ap_cache s) of Inl e \<Rightarrow> (s, Inl e) | Inr (c, a) \<Rightarrow> (s\<lparr>ap_cache := c\<rparr>, Inr a))"

text \<open>A call that draws \<open>n\<close> tokens.\<close>

definition drawing ::
  "(nat \<Rightarrow> string) \<Rightarrow> nat \<Rightarrow> (string list \<Rightarrow> (('z, 'h, 'o, 's) api_state, 'a) call) \<Rightarrow> (('z, 'h, 'o, 's) api_state, 'a) call" where
  "drawing token n f s = f (map token [ap_drawn s..<ap_drawn s + n]) (s\<lparr>ap_drawn := ap_drawn s + n\<rparr>)"

definition is_formal :: "('z, 'h, 'o, 's, 'p) svc \<Rightarrow> string \<Rightarrow> ('z, 'h, 'o, 's) repo \<Rightarrow> string \<Rightarrow> bool" where
  "is_formal E d R m = (h_get (rh E) (records (pools R d)) m \<noteq> None)"

definition model_calls ::
  "('z, 'h, 'o, 's, 'p) api_env \<Rightarrow> ('z, 'h, 'o, 's) api_state proxy_calls" where
  "model_calls N =
     (let E = en_svc N; Z = zs E; sha = en_sha N; clock = en_clock N; cfg = en_cfg N
      in \<lparr>do_domains = (\<lambda>s. (s, Inr (list_domains E (ap_repo s)))),
          do_select = (\<lambda>d lo n latency age successes. on_repo (\<lambda>R. map_sum id (apsnd sel_records)
            (select_random_proxies E d lo n (Some latency) (Some age) successes clock True (en_draw N) (en_shuffle N) R))),
          do_list = (\<lambda>d lo limit offset st hi src. on_repo (\<lambda>R. map_sum id (Pair R) (list_proxies E R d lo limit offset st hi src))),
          do_get = (\<lambda>d m. on_repo (\<lambda>R. map_sum id (Pair R) (get_record E R d m))),
          do_save = (\<lambda>r. on_repo (\<lambda>R. map_sum id (\<lambda>R'. (R', ())) (save_record E (en_max_latency N) r R))),
          do_issue = (\<lambda>it caller now. drawing (en_token N) 3
            (\<lambda>tokens. on_cache (issue sha it caller now ''formal'' None tokens))),
          do_peer_select = (\<lambda>pol n excluded caller now. drawing (en_token N) (nat n)
            (\<lambda>tokens s. on_cache
               (peer_select Z sha (is_formal E (pf_domain cfg) (ap_repo s)) cfg pol (nat n) excluded caller now tokens) s)),
          do_note = (\<lambda>ok. on_cache (\<lambda>c. Inr (note_api_result ok c, ()))),
          do_resolve = (\<lambda>token caller d m now. on_cache (\<lambda>c. map_sum id (Pair c) (resolve_receipt sha token caller d m now c))),
          do_claim = (\<lambda>r. on_cache (claim_formal_failure r clock)),
          do_invalidate = (\<lambda>cfg' r now. on_cache (invalidate Z cfg' r now))\<rparr>)"

end
