(* ===== verification/RouteProperties.thy ===== *)
theory RouteProperties
  imports Routes
begin

text \<open>
  What the proxy routes guarantee: the shape of a random answer whatever fails beneath it, the
  policies on the model's own calls, the walk over a listing by its cursors, and the effect of
  feedback.
\<close>

section \<open>The answer of the random route\<close>

lemma from_record_Inr:
  assumes "from_record g r = Inr it"
  shows "pe_endpoint it = canonical (endpoint r)" "pe_domain it = rec_domain r" "last_checked_at r = Some (pe_checked it)"
  using assms by (auto simp: from_record_def split: option.splits sum.splits pyfloat.splits if_splits)

text \<open>One formal entry of the answer: its record, and until when it is usable.\<close>

definition formal_entry :: "time \<Rightarrow> int \<Rightarrow> proxy_record \<Rightarrow> selected_response \<Rightarrow> bool" where
  "formal_entry now max_age r x \<longleftrightarrow>
     (\<exists>token usable t. x = formal_selected r token usable \<and> now < usable \<and> usable \<le> now + 600 \<and>
        last_checked_at r = Some t \<and> usable \<le> t + of_int max_age - 5)"

lemma issue_formal_entries:
  assumes "issue_formal C g caller now max_age rs sel s = (s', Inr (Some sel'))"
  shows "\<exists>new. sel' = sel @ new \<and> list_all2 (formal_entry now max_age) rs new"
  using assms
proof (induction rs arbitrary: sel s)
  case Nil
  then show ?case by simp
next
  case (Cons r rs)
  from Cons.prems obtain it s1 token where it: "from_record g r = Inr it" "do_issue C it caller now s = (s1, Inr token)"
    by (auto split: sum.splits prod.splits)
  let ?u = "min (now + 600) (pe_checked it + of_int max_age - 5)"
  from Cons.prems it have u: "now < ?u" and go: "issue_formal C g caller now max_age rs (sel @ [formal_selected r token ?u]) s1 =
      (s', Inr (Some sel'))" by (auto simp: Let_def simp del: min_less_iff_conj split: if_splits)
  from Cons.IH [OF go] obtain new where new: "sel' = (sel @ [formal_selected r token ?u]) @ new"
    "list_all2 (formal_entry now max_age) rs new" by blast
  have "formal_entry now max_age r (formal_selected r token ?u)"
    unfolding formal_entry_def
    by (rule exI [of _ token], rule exI [of _ ?u], rule exI [of _ "pe_checked it"])
       (use u from_record_Inr(3) [OF it(1)] in simp)
  with new show ?case by (intro exI [of _ "formal_selected r token ?u # new"]) simp
qed

text \<open>
  What the route answers once the formal selection succeeded: the plain formal answer, or the
  formal entries in their order followed by peers that are not among them.
\<close>

definition answers :: "route_settings \<Rightarrow> random_query \<Rightarrow> time \<Rightarrow> proxy_record list \<Rightarrow> random_response \<Rightarrow> bool" where
  "answers cfg q now recs resp \<longleftrightarrow>
     (case resp of
        Formal_Response xs \<Rightarrow> xs = map response_of recs
      | Peer_Response xs \<Rightarrow>
          \<exists>formal peers. xs = take (nat (rq_count q)) (formal @ map peer_selected_response peers) \<and>
            list_all2 (formal_entry now (min (or_default (se_max_age (st_selection cfg)) (rq_max_age q)) (se_max_age (st_selection cfg))))
              recs formal \<and>
            (\<forall>p \<in> set peers. pe_endpoint (sp_item p) \<notin> (\<lambda>r. canonical (endpoint r)) ` set recs))"

lemma with_peers_answers:
  assumes "with_peers C g cfg q caller now recs s = (s', r)"
  shows "\<exists>resp. r = Inr resp \<and> answers cfg q now recs resp"
proof -
  let ?age = "min (or_default (se_max_age (st_selection cfg)) (rq_max_age q)) (se_max_age (st_selection cfg))"
  obtain s1 x where x: "issue_formal C g caller now ?age recs [] s = (s1, x)" by (rule prod.exhaust)
  show ?thesis
  proof (cases "\<exists>sel. x = Inr (Some sel)")
    case False
    then show ?thesis using assms x
      by (auto simp: with_peers_def answers_def Let_def split: sum.splits option.splits)
  next
    case True
    then obtain sel where sel: "x = Inr (Some sel)" ..
    with issue_formal_entries [of C g caller now ?age recs "[]" s s1] x
    have entries: "list_all2 (formal_entry now ?age) recs sel" by auto
    have "add_peers C cfg q caller now (map (\<lambda>r. canonical (endpoint r)) recs) (Formal_Response (map response_of recs)) sel s1 = (s', r)"
      using assms x sel by (simp add: with_peers_def Let_def)
    then consider (formal) "r = Inr (Formal_Response (map response_of recs))"
      | (full) "r = Inr (Peer_Response (take (nat (rq_count q)) sel))"
      | (peers) ps where "r = Inr (Peer_Response (take (nat (rq_count q)) (sel @ map peer_selected_response
            (filter (\<lambda>p. pe_endpoint (sp_item p) \<notin> set (map (\<lambda>r. canonical (endpoint r)) recs)) ps))))"
      by (auto simp: add_peers_def split: if_splits sum.splits prod.splits)
    then show ?thesis
    proof cases
      case formal
      then show ?thesis by (simp add: answers_def)
    next
      case full
      with entries show ?thesis by (auto simp: answers_def intro!: exI [of _ sel] exI [of _ "[] :: selected_proxy list"])
    next
      case (peers ps)
      with entries show ?thesis
        by (auto simp: answers_def intro!: exI [of _ sel]
            exI [of _ "filter (\<lambda>p. pe_endpoint (sp_item p) \<notin> set (map (\<lambda>r. canonical (endpoint r)) recs)) ps"])
    qed
  qed
qed


section \<open>The policies, on the model's calls\<close>

definition chosen_endpoint :: "chosen \<Rightarrow> string" where
  "chosen_endpoint x = pe_endpoint (cr_item (cv_record (fst x)))"

lemma chosen_endpoint_pair: "chosen_endpoint (v, x) = pe_endpoint (cr_item (cv_record v))"
  by (simp add: chosen_endpoint_def)

lemma select_loop_distinct:
  assumes "select_loop usable now caller cnt pairs ms sel s = (s', sel')" and "distinct ms"
    and "\<And>m v u. usable m = Some (v, u) \<Longrightarrow> pe_endpoint (cr_item (cv_record v)) = m"
  shows "\<exists>new. sel' = sel @ new \<and> distinct (map chosen_endpoint new) \<and>
     chosen_endpoint ` set new \<subseteq> set ms"
  using assms(1,2)
proof (induction ms arbitrary: sel s)
  case Nil
  then show ?case by simp
next
  case (Cons m ms)
  show ?case
  proof (cases rule: select_loop_step [OF Cons.prems(1)])
    case 1
    from Cons.prems(2) have "distinct ms" by simp
    from Cons.IH [OF 1 this] obtain new where "sel' = sel @ new"
      "distinct (map chosen_endpoint new)"
      "chosen_endpoint ` set new \<subseteq> set ms" by blast
    then show ?thesis by (intro exI [of _ new] conjI subset_trans [OF _ set_subset_Cons])
  next
    case (2 v token u R)
    with assms(3) [OF 2(1)] show ?thesis by (intro exI [of _ "[(v, token, u)]"]) (simp add: chosen_endpoint_pair)
  next
    case (3 v token u R)
    from Cons.prems(2) have "distinct ms" by simp
    from Cons.IH [OF 3(3) this] obtain new where "sel' = (sel @ [(v, token, u)]) @ new"
      "distinct (map chosen_endpoint new)"
      "chosen_endpoint ` set new \<subseteq> set ms" by blast
    with assms(3) [OF 3(1)] Cons.prems(2) show ?thesis by (intro exI [of _ "(v, token, u) # new"]) (auto simp: chosen_endpoint_pair)
  qed
qed

lemma peer_select_distinct:
  assumes "zset Z" and "new_peer_store peer domain policy ttl cooldown origin = Inr cfg" and "peer_run Z cfg s F clock"
    and "peer_select Z sha formal cfg pol cnt excluded caller now tokens s = Inr (s', sel)"
  shows "distinct (map (\<lambda>p. pe_endpoint (sp_item p)) sel)"
proof -
  from assms(4) obtain p sel0 where loop: "select_loop (usable_until formal p now excluded s) now caller cnt
      (map (\<lambda>t. (t, token_digest sha t)) tokens) (unexpired Z now s) [] s = (s', sel0)" "sel = map decode_selected sel0"
    by (auto simp: peer_select_def split: if_splits sum.splits prod.splits)
  have "peer_inv Z cfg clock s F"
    by (rule zset.peer_run_inv [OF assms(1,3) new_peer_store_bounds(1,2) [OF assms(2)]])
  then have key: "pe_endpoint (cr_item (cv_record v)) = m" if "usable_until formal p now excluded s m = Some (v, u)" for m v u
    using usable_until_Some(3) [OF that] by (simp add: peer_inv_def)
  have "distinct (unexpired Z now s)"
    unfolding unexpired_def using assms(1) by (simp add: zset.rangebyscore_distinct)
  from select_loop_distinct [OF loop(1) this key]
  have "distinct (map chosen_endpoint sel0)" by auto
  moreover have "(\<lambda>p. pe_endpoint (sp_item p)) \<circ> decode_selected = chosen_endpoint"
    by (auto simp: decode_selected_def chosen_endpoint_def)
  ultimately show ?thesis by (simp add: loop(2))
qed


text \<open>What the route's calls do to the state: issuing receipts keeps the pool and the peer run.\<close>

definition peer_ready :: "('z, 'h, 'o, 's, 'p) api_env \<Rightarrow> (string \<times> time) list \<Rightarrow> time \<Rightarrow> ('z, 'h, 'o, 's) api_state \<Rightarrow> bool" where
  "peer_ready N F clock s = peer_run (zs (en_svc N)) (en_cfg N) (ap_cache s) F clock"

lemma issue_call_keeps:
  assumes "do_issue (model_calls N) it caller now s = (s', r)" and "peer_ready N F clock s" and "clock \<le> now"
  shows "ap_repo s' = ap_repo s \<and> peer_ready N F now s'"
proof -
  let ?tokens = "map (en_token N) [ap_drawn s..<ap_drawn s + 3]"
  have run: "peer_run (zs (en_svc N)) (en_cfg N) (ap_cache s) F now"
    using peer_run.noted [of "zs (en_svc N)" "en_cfg N" "ap_cache s" F clock now "pc_state (ap_cache s)"] assms(2,3)
    by (simp add: peer_ready_def)
  show ?thesis
  proof (cases "issue (en_sha N) it caller now ''formal'' None ?tokens (ap_cache s)")
    case (Inl e)
    then show ?thesis using assms(1) run by (auto simp: model_calls_def Let_def drawing_def on_cache_def peer_ready_def)
  next
    case (Inr x)
    obtain c token where x: "x = (c, token)" by (cases x)
    from peer_run.issued [OF run order.refl Inr [unfolded x]]
    show ?thesis using assms(1) Inr x by (auto simp: model_calls_def Let_def drawing_def on_cache_def peer_ready_def)
  qed
qed

lemma issue_formal_keeps:
  assumes "issue_formal (model_calls N) g caller now max_age rs sel s = (s', r)" and "peer_ready N F now s"
  shows "ap_repo s' = ap_repo s \<and> peer_ready N F now s'"
  using assms
proof (induction rs arbitrary: sel s)
  case Nil
  then show ?case by simp
next
  case (Cons x xs)
  show ?case
  proof (cases "from_record g x")
    case (Inl e)
    with Cons.prems show ?thesis by simp
  next
    case (Inr it)
    obtain s1 y where y: "do_issue (model_calls N) it caller now s = (s1, y)" by (rule prod.exhaust)
    from issue_call_keeps [OF y Cons.prems(2) order.refl] have keep: "ap_repo s1 = ap_repo s" "peer_ready N F now s1" by auto
    show ?thesis
    proof (cases y)
      case (Inl e)
      with Cons.prems(1) \<open>from_record g x = Inr it\<close> y keep show ?thesis by simp
    next
      case (Inr token)
      define u where "u = min (now + 600) (pe_checked it + of_int max_age - 5)"
      from Cons.prems(1) \<open>from_record g x = Inr it\<close> y Inr have
        run: "(if u \<le> now then (s1, Inr None) else
           issue_formal (model_calls N) g caller now max_age xs (sel @ [formal_selected x token u]) s1) = (s', r)"
        by (simp add: Let_def u_def [symmetric] split del: if_split)
      show ?thesis
      proof (cases "u \<le> now")
        case True
        with run keep show ?thesis by simp
      next
        case False
        with run have "issue_formal (model_calls N) g caller now max_age xs (sel @ [formal_selected x token u]) s1 = (s', r)"
          by simp
        from Cons.IH [OF this keep(2)] keep(1) show ?thesis by simp
      qed
    qed
  qed
qed

lemma peer_call:
  assumes "do_peer_select (model_calls N) pol n excluded caller now s = (s', Inr peers)"
  obtains formal c tokens where "peer_select (zs (en_svc N)) (en_sha N) formal (en_cfg N) pol (nat n) excluded caller now tokens (ap_cache s) =
      Inr (c, peers)" "formal = is_formal (en_svc N) (pf_domain (en_cfg N)) (ap_repo s)"
  using assms
  by (auto simp: model_calls_def Let_def drawing_def on_cache_def split: sum.splits)

lemma map_sum_Inr: "map_sum id f x = Inr y \<longleftrightarrow> (\<exists>z. x = Inr z \<and> f z = y)"
  by (cases x) auto

lemma formal_call:
  assumes "formal_select (model_calls N) cfg q s = (s', Inr recs)"
  obtains sel where "select_random_proxies (en_svc N) (rq_domain q) (max (rq_min_score q) (se_min_score (st_selection cfg)))
      (rq_count q) (Some (min (or_default (se_max_latency (st_selection cfg)) (rq_max_latency q)) (se_max_latency (st_selection cfg))))
      (Some (min (or_default (se_max_age (st_selection cfg)) (rq_max_age q)) (se_max_age (st_selection cfg))))
      (max (or_default (se_min_successes (st_selection cfg)) (rq_min_successes q)) (se_min_successes (st_selection cfg)))
      (en_clock N) True (en_draw N) (en_shuffle N) (ap_repo s) = Inr (ap_repo s', sel)"
    "recs = sel_records sel" "ap_cache s' = ap_cache s"
  using assms
  by (auto simp: formal_select_def model_calls_def Let_def on_repo_def map_sum_Inr split: sum.splits)

lemma with_peers_Peer:
  assumes "with_peers C g cfg q caller now recs s = (s', Inr (Peer_Response xs))"
  obtains s1 formal peers where
    "issue_formal C g caller now (min (or_default (se_max_age (st_selection cfg)) (rq_max_age q)) (se_max_age (st_selection cfg)))
       recs [] s = (s1, Inr (Some formal))"
    "xs = take (nat (rq_count q)) (formal @ map peer_selected_response
       (filter (\<lambda>p. pe_endpoint (sp_item p) \<notin> set (map (\<lambda>r. canonical (endpoint r)) recs)) peers))"
    "peers = [] \<or> (\<exists>pol s2. peer_policy cfg q = Inr pol \<and>
       do_peer_select C pol (rq_count q - int (length formal)) (map (\<lambda>r. canonical (endpoint r)) recs) caller now s1 = (s2, Inr peers))"
proof -
  let ?age = "min (or_default (se_max_age (st_selection cfg)) (rq_max_age q)) (se_max_age (st_selection cfg))"
  let ?ex = "map (\<lambda>r. canonical (endpoint r)) recs"
  from assms obtain s1 formal where issued: "issue_formal C g caller now ?age recs [] s = (s1, Inr (Some formal))"
    and add: "add_peers C cfg q caller now ?ex (Formal_Response (map response_of recs)) formal s1 = (s', Inr (Peer_Response xs))"
    by (auto simp: with_peers_def Let_def split: prod.splits sum.splits option.splits)
  show ?thesis
  proof (cases "int (length formal) < rq_count q")
    case False
    with add that [OF issued, of "[]"] show ?thesis by (simp add: add_peers_def)
  next
    case True
    with add obtain pol s2 peers where "peer_policy cfg q = Inr pol"
      "do_peer_select C pol (rq_count q - int (length formal)) ?ex caller now s1 = (s2, Inr peers)"
      "xs = take (nat (rq_count q)) (formal @ map peer_selected_response (filter (\<lambda>p. pe_endpoint (sp_item p) \<notin> set ?ex) peers))"
      by (auto simp: add_peers_def split: prod.splits sum.splits)
    with that [OF issued, of peers] show ?thesis by blast
  qed
qed

lemma formal_entries_endpoints:
  "list_all2 (formal_entry now age) recs sel \<Longrightarrow> map sd_endpoint sel = map (\<lambda>r. canonical (endpoint r)) recs"
  by (induction rule: list_all2_induct) (auto simp: formal_entry_def formal_selected_def)

text \<open>The bounds every entry of an answer meets: the stricter of the request's and the node's.\<close>

definition entry_ok :: "route_settings \<Rightarrow> random_query \<Rightarrow> time \<Rightarrow> selected_response \<Rightarrow> bool" where
  "entry_ok cfg q now x \<longleftrightarrow>
     max (rq_min_score q) (se_min_score (st_selection cfg)) \<le> sd_score x \<and>
     (\<exists>l. sd_latency x = Some (Finite l) \<and>
        l \<le> min (or_default (se_max_latency (st_selection cfg)) (rq_max_latency q)) (se_max_latency (st_selection cfg))) \<and>
     now < sd_usable_until x \<and> sd_usable_until x \<le> now + 600 \<and>
     (\<exists>t. sd_checked x = Some t \<and> sd_usable_until x \<le> t +
        of_int (min (or_default (se_max_age (st_selection cfg)) (rq_max_age q)) (se_max_age (st_selection cfg))) - 5)"

lemma peer_policy_bounds:
  assumes "peer_policy cfg q = Inr pol"
  shows "po_domain pol = rq_domain q"
    "max (rq_min_score q) (se_min_score (st_selection cfg)) \<le> po_min_score pol"
    "po_max_latency pol \<le> min (or_default (se_max_latency (st_selection cfg)) (rq_max_latency q)) (se_max_latency (st_selection cfg))"
    "po_max_age pol \<le> min (or_default (se_max_age (st_selection cfg)) (rq_max_age q)) (se_max_age (st_selection cfg))"
proof -
  have built: "policy_of d sel = Inr p \<Longrightarrow> p = \<lparr>po_domain = d, po_min_score = se_min_score sel, po_max_latency = se_max_latency sel,
      po_max_age = se_max_age sel, po_min_successes = se_min_successes sel\<rparr>" for d sel p
    by (simp add: policy_of_def new_policy_def split: if_splits)
  from assms obtain request service cache where p: "policy_of (rq_domain q) (request_settings cfg q) = Inr request"
    "policy_of (rq_domain q) (st_selection cfg) = Inr service" "policy_of (rq_domain q) (st_peer cfg) = Inr cache"
    and eff: "effective_peer_policy request service cache = Inr pol"
    by (auto simp: peer_policy_def split: sum.splits)
  note e = effective_Inr [OF eff] and b = built [OF p(1)] built [OF p(2)]
  show "po_domain pol = rq_domain q" using e(1) b by simp
  show "max (rq_min_score q) (se_min_score (st_selection cfg)) \<le> po_min_score pol"
    using e(4,5) b by (simp add: request_settings_def Let_def)
  show "po_max_latency pol \<le> min (or_default (se_max_latency (st_selection cfg)) (rq_max_latency q)) (se_max_latency (st_selection cfg))"
    using e(8,9) b by (simp add: request_settings_def Let_def)
  show "po_max_age pol \<le> min (or_default (se_max_age (st_selection cfg)) (rq_max_age q)) (se_max_age (st_selection cfg))"
    using e(12,13) b by (simp add: request_settings_def Let_def)
qed

text \<open>The peers a call on the model returns: within the policy, fresh, each endpoint once.\<close>

lemma peer_call_entries:
  assumes "pool_svc (en_svc N)" and "new_peer_store peer domain policy ttl cooldown origin = Inr (en_cfg N)"
    and "peer_ready N F now s" and "peer_policy cfg q = Inr pol"
    and "do_peer_select (model_calls N) pol n excluded caller now s = (s', Inr peers)"
  shows "distinct (map (\<lambda>p. pe_endpoint (sp_item p)) peers) \<and> (\<forall>p \<in> set peers. entry_ok cfg q now (peer_selected_response p))"
proof -
  have Z: "zset (zs (en_svc N))" using assms(1) by (simp add: pool_svc_def)
  from assms(3) have run: "peer_run (zs (en_svc N)) (en_cfg N) (ap_cache s) F now" by (simp add: peer_ready_def)
  obtain formal c tokens where sel: "peer_select (zs (en_svc N)) (en_sha N) formal (en_cfg N) pol (nat n) excluded caller now tokens (ap_cache s) =
      Inr (c, peers)" using peer_call [OF assms(5)] by metis
  note b = peer_policy_bounds [OF assms(4)]
  have "entry_ok cfg q now (peer_selected_response x)" if x: "x \<in> set peers" for x
  proof -
    from peer_selected [OF Z assms(2) run sel x] obtain p v where p: "effective_peer_policy pol (pf_policy (en_cfg N)) (pf_policy (en_cfg N)) = Inr p"
      and v: "usable_until formal p now excluded (ap_cache s) (pe_endpoint (sp_item x)) = Some (v, sp_usable_until x)"
        "sp_item x = cr_item (cv_record v)" "sp_checked x = cv_checked v" by metis
    note us = usable_until_Some [OF v(1)] and e = effective_Inr [OF p]
    have score: "max (rq_min_score q) (se_min_score (st_selection cfg)) \<le> pe_score (sp_item x)"
      using us(5) e(4) b(2) v(2) by simp
    have latency: "pe_latency (sp_item x) \<le> min (or_default (se_max_latency (st_selection cfg)) (rq_max_latency q)) (se_max_latency (st_selection cfg))"
      using us(6) e(8) b(3) unfolding v(2) by linarith
    have "po_max_age p \<le> min (or_default (se_max_age (st_selection cfg)) (rq_max_age q)) (se_max_age (st_selection cfg))"
      using e(12) b(4) by linarith
    then have "(of_int (po_max_age p) :: rat) \<le> of_int (min (or_default (se_max_age (st_selection cfg)) (rq_max_age q)) (se_max_age (st_selection cfg)))"
      by (simp only: of_int_le_iff)
    with us(15) v(3) have "sp_usable_until x \<le> sp_checked x + of_int (min (or_default (se_max_age (st_selection cfg)) (rq_max_age q)) (se_max_age (st_selection cfg))) - 5"
      by linarith
    with score latency us(12,13) show ?thesis
      by (simp only: entry_ok_def peer_selected_response_def selected_response.select_convs) simp
  qed
  moreover have "distinct (map (\<lambda>p. pe_endpoint (sp_item p)) peers)"
    by (rule peer_select_distinct [OF Z assms(2) run sel])
  ultimately show ?thesis by blast
qed


lemma formal_entries_ok:
  assumes "list_all2 (formal_entry now (min (or_default (se_max_age (st_selection cfg)) (rq_max_age q)) (se_max_age (st_selection cfg)))) recs sel"
    and "\<And>r. r \<in> set recs \<Longrightarrow> max (rq_min_score q) (se_min_score (st_selection cfg)) \<le> score r \<and>
       (\<exists>l. latency_ewma_ms r = Some (Finite l) \<and>
          l \<le> min (or_default (se_max_latency (st_selection cfg)) (rq_max_latency q)) (se_max_latency (st_selection cfg)))"
  shows "\<forall>x \<in> set sel. entry_ok cfg q now x"
proof
  fix x assume "x \<in> set sel"
  with assms(1) obtain r where "r \<in> set recs" and
    e: "formal_entry now (min (or_default (se_max_age (st_selection cfg)) (rq_max_age q)) (se_max_age (st_selection cfg))) r x"
    by (metis in_set_conv_nth list_all2_conv_all_nth)
  from assms(2) [OF this(1)] e show "entry_ok cfg q now x"
    unfolding formal_entry_def entry_ok_def by (elim exE conjE) (simp add: formal_selected_def)
qed

lemma distinct_answer:
  assumes "map sd_endpoint formal = map f recs" and "distinct (map f recs)" and "distinct (map g peers)"
    and "\<And>p. p \<in> set peers \<Longrightarrow> sd_endpoint (h p) = g p" and "\<And>p. p \<in> set peers \<Longrightarrow> g p \<notin> set (map f recs)"
  shows "distinct (map sd_endpoint (take n (formal @ map h peers)))"
proof -
  have "map sd_endpoint (map h peers) = map g peers" using assms(4) by simp
  then have "map sd_endpoint (formal @ map h peers) = map f recs @ map g peers" using assms(1) by simp
  moreover have "set (map f recs) \<inter> set (map g peers) = {}" 
  proof (intro equals0I)
    fix y assume "y \<in> set (map f recs) \<inter> set (map g peers)"
    then have y: "y \<in> set (map f recs)" "y \<in> g ` set peers" by simp_all
    from y(2) obtain p where "y = g p" "p \<in> set peers" by (rule imageE)
    with assms(5) [of p] y(1) show False by simp
  qed
  then have "distinct (map f recs @ map g peers)" using assms(2,3) by simp
  ultimately show ?thesis by (metis distinct_take take_map)
qed

text \<open>The formal part of an answer on the model.\<close>

lemma random_route_formal:
  assumes "random_route (model_calls N) g cfg stores caller now q s = (s', Inr resp)"
  obtains s2 recs where "formal_select (model_calls N) cfg q s = (s2, Inr recs)"
    "resp = Formal_Response (map response_of recs) \<or> with_peers (model_calls N) g cfg q caller now recs s2 = (s', Inr resp)"
proof -
  from assms have dom: "rq_domain q \<in> set (list_domains (en_svc N) (ap_repo s))"
    by (auto simp: random_route_def require_domain_def attempt_def model_calls_def Let_def split: if_splits)
  obtain s2 x where sel: "formal_select (model_calls N) cfg q s = (s2, x)" by (rule prod.exhaust)
  have doms: "do_domains (model_calls N) s = (s, Inr (list_domains (en_svc N) (ap_repo s)))" by (simp add: model_calls_def Let_def)
  obtain recs where recs: "x = Inr recs"
    using assms sel unfolding random_route_def require_domain_def attempt_def doms
    by (auto simp: dom split: sum.splits exn.splits)
  have "(resp = Formal_Response (map response_of recs)) \<or> with_peers (model_calls N) g cfg q caller now recs s2 = (s', Inr resp)"
    using assms unfolding random_route_def require_domain_def attempt_def doms
    by (auto simp: dom sel recs split: if_splits)
  with that sel recs show ?thesis by blast
qed

lemma formal_select_ok:
  assumes "pool_svc (en_svc N)" and "stored_ok (en_svc N) (pools (ap_repo s) (rq_domain q))"
    and "\<And>n. 0 < n \<Longrightarrow> en_draw N n < n" and "\<And>xs. mset (en_shuffle N xs) = mset xs"
    and "formal_select (model_calls N) cfg q s = (s2, Inr recs)"
  shows "ap_cache s2 = ap_cache s" and "1 \<le> rq_count q" and "int (length recs) \<le> rq_count q"
    and "distinct (map (\<lambda>r. canonical (endpoint r)) recs)"
    and "r \<in> set recs \<Longrightarrow> state r = Available \<and> max (rq_min_score q) (se_min_score (st_selection cfg)) \<le> score r \<and>
      (\<exists>l. latency_ewma_ms r = Some (Finite l) \<and>
        l \<le> min (or_default (se_max_latency (st_selection cfg)) (rq_max_latency q)) (se_max_latency (st_selection cfg)))"
proof -
  from formal_call [OF assms(5)] obtain sl where
    run: "select_random_proxies (en_svc N) (rq_domain q) (max (rq_min_score q) (se_min_score (st_selection cfg)))
      (rq_count q) (Some (min (or_default (se_max_latency (st_selection cfg)) (rq_max_latency q)) (se_max_latency (st_selection cfg))))
      (Some (min (or_default (se_max_age (st_selection cfg)) (rq_max_age q)) (se_max_age (st_selection cfg))))
      (max (or_default (se_min_successes (st_selection cfg)) (rq_min_successes q)) (se_min_successes (st_selection cfg)))
      (en_clock N) True (en_draw N) (en_shuffle N) (ap_repo s) = Inr (ap_repo s2, sl)"
    and sl: "recs = sel_records sl" and cache: "ap_cache s2 = ap_cache s" by metis
  show "ap_cache s2 = ap_cache s" by (rule cache)
  show pos: "1 \<le> rq_count q" using run by (simp add: select_random_proxies_def split: if_splits)
  show "int (length recs) \<le> rq_count q"
    using selection_source(3) [OF assms(1) run assms(3,4)] pos unfolding sl by linarith
  show "distinct (map (\<lambda>r. canonical (endpoint r)) recs)"
    unfolding sl by (rule selection_distinct [OF assms(1,2) run assms(3,4)])
  show "r \<in> set recs \<Longrightarrow> state r = Available \<and> max (rq_min_score q) (se_min_score (st_selection cfg)) \<le> score r \<and>
      (\<exists>l. latency_ewma_ms r = Some (Finite l) \<and>
        l \<le> min (or_default (se_max_latency (st_selection cfg)) (rq_max_latency q)) (se_max_latency (st_selection cfg)))"
    using selection_each [OF assms(1) run assms(3,4), of r] sl by blast
qed

text \<open>The answer with peers.\<close>

lemma with_peers_ok:
  assumes "pool_svc (en_svc N)" and "new_peer_store peer domain policy ttl cooldown origin = Inr (en_cfg N)"
    and "peer_ready N F now s2" and "distinct (map (\<lambda>r. canonical (endpoint r)) recs)"
    and "\<And>r. r \<in> set recs \<Longrightarrow> max (rq_min_score q) (se_min_score (st_selection cfg)) \<le> score r \<and>
       (\<exists>l. latency_ewma_ms r = Some (Finite l) \<and>
          l \<le> min (or_default (se_max_latency (st_selection cfg)) (rq_max_latency q)) (se_max_latency (st_selection cfg)))"
    and "with_peers (model_calls N) g cfg q caller now recs s2 = (s', Inr (Peer_Response xs))"
  shows "length xs \<le> nat (rq_count q) \<and> distinct (map sd_endpoint xs) \<and> (\<forall>x \<in> set xs. entry_ok cfg q now x)"
proof -
  from with_peers_Peer [OF assms(6)] obtain s3 formal peers where
    issued: "issue_formal (model_calls N) g caller now (min (or_default (se_max_age (st_selection cfg)) (rq_max_age q)) (se_max_age (st_selection cfg)))
       recs [] s2 = (s3, Inr (Some formal))"
    and xs: "xs = take (nat (rq_count q)) (formal @ map peer_selected_response
       (filter (\<lambda>p. pe_endpoint (sp_item p) \<notin> set (map (\<lambda>r. canonical (endpoint r)) recs)) peers))"
    and peers: "peers = [] \<or> (\<exists>pol s4. peer_policy cfg q = Inr pol \<and>
       do_peer_select (model_calls N) pol (rq_count q - int (length formal)) (map (\<lambda>r. canonical (endpoint r)) recs) caller now s3 = (s4, Inr peers))"
    by metis
  have entries: "list_all2 (formal_entry now (min (or_default (se_max_age (st_selection cfg)) (rq_max_age q)) (se_max_age (st_selection cfg)))) recs formal"
    using issue_formal_entries [OF issued] by simp
  from issue_formal_keeps [OF issued assms(3)] have ready: "peer_ready N F now s3" by simp
  have ps: "distinct (map (\<lambda>p. pe_endpoint (sp_item p)) peers) \<and> (\<forall>p \<in> set peers. entry_ok cfg q now (peer_selected_response p))"
    using peers peer_call_entries [OF assms(1,2) ready] by fastforce
  have f_ok: "\<forall>x \<in> set formal. entry_ok cfg q now x"
    by (rule formal_entries_ok [OF entries]) (rule assms(5))
  have "\<forall>x \<in> set xs. entry_ok cfg q now x"
    using f_ok ps unfolding xs by (auto dest!: in_set_takeD)
  moreover have "distinct (map sd_endpoint xs)"
    unfolding xs by (rule distinct_answer [OF formal_entries_endpoints [OF entries] assms(4)])
      (use ps in \<open>auto simp: peer_selected_response_def distinct_map_filter\<close>)
  ultimately show ?thesis by (simp add: xs)
qed


text \<open>A node for the witnesses: the pool of the query examples and the peer cache of the run above.\<close>

definition w_env :: "(ref_zset, (member \<times> proxy_record) list, (member \<times> string) list, member list, proxy_record) api_env" where
  "w_env = \<lparr>en_svc = ref_svc, en_max_latency = 5000, en_sha = id, en_token = str_nat, en_draw = (\<lambda>_. 0), en_shuffle = id,
     en_clock = 1700, en_cfg = w_cfg\<rparr>"

definition w_api :: "(ref_zset, (member \<times> proxy_record) list, (member \<times> string) list, member list) api_state" where
  "w_api = \<lparr>ap_repo = ready_repo, ap_cache = w_replaced, ap_drawn = 0\<rparr>"

definition w_settings :: route_settings where
  "w_settings =
     (let sel = \<lparr>se_min_score = 80, se_max_latency = 500, se_max_age = 60, se_min_successes = 1\<rparr>
      in \<lparr>st_selection = sel, st_peer = sel, st_peer_enabled = True, st_target_domain = ''d''\<rparr>)"

definition w_query :: random_query where
  "w_query = \<lparr>rq_domain = ''d'', rq_count = 2, rq_min_score = 80, rq_max_latency = None, rq_max_age = None,
     rq_min_successes = None, rq_include_peers = True\<rparr>"

lemma w_domains: "list_domains ref_svc ready_repo = [''d'']"
  by (simp add: list_domains_def ready_repo_def ref_svc_def ref_set_api_def)

lemma w_formal: "\<exists>s2 recs. formal_select (model_calls w_env) w_settings w_query w_api = (s2, Inr recs)"
  by (simp add: formal_select_def model_calls_def on_repo_def select_random_proxies_def latency_index_ready_def pool_for_def
      ready_repo_def w_env_def w_settings_def w_query_def w_api_def or_default_def Let_def split: prod.split)

lemma w_random: "\<exists>s' resp. random_route (model_calls w_env) (\<lambda>_. True) w_settings True ''c'' 1700 w_query w_api = (s', Inr resp)"
proof -
  obtain s2 recs where "formal_select (model_calls w_env) w_settings w_query w_api = (s2, Inr recs)" using w_formal by blast
  moreover obtain s3 r where w: "with_peers (model_calls w_env) (\<lambda>_. True) w_settings w_query ''c'' 1700 recs s2 = (s3, r)"
    by (rule prod.exhaust)
  moreover have "do_domains (model_calls w_env) w_api = (w_api, Inr [''d''])"
    by (simp add: model_calls_def w_env_def w_api_def w_domains Let_def)
  moreover have "rq_domain w_query = ''d'' \<and> rq_include_peers w_query" by (simp add: w_query_def)
  moreover have "st_peer_enabled w_settings \<and> st_target_domain w_settings = ''d''" by (simp add: w_settings_def Let_def)
  ultimately show ?thesis using with_peers_answers [OF w]
    by (auto simp: random_route_def require_domain_def attempt_def)
qed

lemma w_stored: "stored_ok ref_svc (pools ready_repo ''d'')"
  using ready_inv by (simp add: pool_inv_def ready_repo_def)

lemma w_ready: "peer_ready w_env [(''e'', 1000)] 1700 w_api"
  using w_run by (simp add: peer_ready_def w_env_def w_api_def ref_svc_def)


section \<open>Walking a listing by its cursors\<close>

text \<open>A client that follows \<open>next_cursor\<close> for at most \<open>n\<close> requests: the pages it got, or the error.\<close>

fun follow :: "nat \<Rightarrow> 's proxy_calls \<Rightarrow> codec \<Rightarrow> list_query \<Rightarrow> 's \<Rightarrow> proxy_response list list result option" where
  "follow 0 C K q s = None"
| "follow (Suc n) C K q s =
     (case list_route C K q s of
        (s', Inl e) \<Rightarrow> Some (Inl e)
      | (s', Inr (items, None)) \<Rightarrow> Some (Inr [items])
      | (s', Inr (items, Some c)) \<Rightarrow> map_option (map_sum id ((#) items)) (follow n C K (q\<lparr>lq_cursor := Some c\<rparr>) s'))"

lemma take_members_total:
  assumes "stored_ok E p"
  shows "\<exists>c items'. take_members E p ok limit ms consumed items = Inr (c, items')"
proof (induction ms arbitrary: consumed items)
  case Nil
  then show ?case by simp
next
  case (Cons m ms)
  show ?case
  proof (cases "h_get (rh E) (records p) m")
    case None
    with Cons.IH show ?thesis by simp
  next
    case (Some raw)
    with assms obtain r where "decode_record E raw = Some r" by (auto simp: stored_ok_def)
    with Some Cons.IH show ?thesis by (auto simp del: length_append)
  qed
qed

lemma list_pages_total:
  assumes "stored_ok E p"
  shows "\<exists>pg. list_pages E p ok lo hi limit offset current items = Inr pg"
proof (induction "10001 - current" arbitrary: current items rule: less_induct)
  case less
  define ms where "ms = map fst (z_revrangelimit (zs E) (quality p) (Incl (of_int hi)) (Incl (of_int lo)) current (list_fetch_count limit current))"
  obtain c items' where tm: "take_members E p ok limit ms 0 items = Inr (c, items')"
    using take_members_total [OF assms] by blast
  show ?case
  proof (cases "current \<le> 10000 \<and> ms \<noteq> []")
    case False
    then show ?thesis by (subst list_pages.simps) (auto simp: Let_def ms_def)
  next
    case True
    then have "0 < c" using take_members_consumed [OF tm] by blast
    moreover have "current \<le> 10000" using True by blast
    ultimately have "10001 - (current + c) < 10001 - current" by arith
    from less.hyps [OF this] obtain pg where rec: "list_pages E p ok lo hi limit offset (current + c) items' = Inr pg" by blast
    have eq: "list_pages E p ok lo hi limit offset current items =
        (if length items' = limit then
           Inr \<lparr>page_items = items', page_offset = offset,
             next_offset = (if (c < length ms \<or> length ms = list_fetch_count limit current) \<and> current + c \<le> 10000
                            then Some (current + c) else None)\<rparr>
         else if length ms < list_fetch_count limit current
         then Inr \<lparr>page_items = items', page_offset = offset, next_offset = None\<rparr>
         else list_pages E p ok lo hi limit offset (current + c) items')"
      using True tm unfolding ms_def by (subst list_pages.simps) (simp add: Let_def)
    show ?thesis unfolding eq using rec by simp
  qed
qed

text \<open>One request of the walk on the model.\<close>

definition listable :: "('z, 'h, 'o, 's, 'p) svc \<Rightarrow> list_query \<Rightarrow> ('z, 'h, 'o, 's) repo \<Rightarrow> bool" where
  "listable E q R \<longleftrightarrow>
     lq_domain q \<noteq> [] \<and> length (lq_domain q) \<le> 253 \<and> json_plain (lq_domain q) \<and> lq_domain q \<in> set (list_domains E R) \<and> 0 \<le> lq_min_score q \<and> lq_min_score q \<le> lq_max_score q \<and>
     lq_max_score q \<le> 100 \<and> 1 \<le> lq_limit q \<and> lq_limit q \<le> 200 \<and>
     (case lq_source q of None \<Rightarrow> True | Some s \<Rightarrow> 1 \<le> length s \<and> length s \<le> 64)"

definition codec_ok :: "codec \<Rightarrow> bool" where
  "codec_ok K \<longleftrightarrow> loads_cursors (cd_loads K) \<and> (\<forall>x. cd_sha K x \<noteq> [] \<and> json_plain (cd_sha K x)) \<and>
     (\<forall>x y. length (cd_mac K x y) \<le> 32)"

lemma filters_of_cursor: "filters_of K (q\<lparr>lq_cursor := c\<rparr>) = filters_of K q"
  by (simp add: filters_of_def)

lemma filters_nonempty: "codec_ok K \<Longrightarrow> filters_of K q \<noteq> []"
  by (simp add: codec_ok_def filters_of_def query_filters_hash_def)

lemma filters_plain: "codec_ok K \<Longrightarrow> json_plain (filters_of K q) \<and> length (filters_of K q) \<le> 16"
  by (auto simp: codec_ok_def filters_of_def query_filters_hash_def json_plain_def dest: in_set_takeD)

lemma issued_cursor_fits:
  assumes "codec_ok K" and "listable E q R" and "k \<le> 10000"
    and "encode_cursor (cd_mac K) (cd_secret K) (lq_domain q) (int k) (filters_of K q) = Inr cur"
  shows "cursor_fits (Some cur)"
proof -
  have "length (str_nat k) \<le> Suc 4" by (rule length_str_nat) (use assms(3) in simp)
  then have n: "length (str_int (int k)) \<le> 5" by (simp add: str_int_def)
  have d: "json_plain (lq_domain q)" "length (lq_domain q) \<le> 253" using assms(2) by (simp_all add: listable_def)
  have m: "length (cd_mac K x y) \<le> 32" for x y using assms(1) by (simp add: codec_ok_def)
  from length_cursor [OF assms(4) d(1) _ d(2) _ n m] filters_plain [OF assms(1)] show ?thesis
    by (simp add: cursor_fits_def)
qed

lemma list_route_page:
  assumes "pool_svc (en_svc N)" and "codec_ok K" and "stored_ok (en_svc N) (pools (ap_repo s) (lq_domain q))"
    and "listable (en_svc N) q (ap_repo s)" and "start_offset K q = Inr (int i)" and "i \<le> 10000"
    and "cursor_fits (lq_cursor q)"
  shows "\<exists>items c. list_route (model_calls N) K q s = (s, Inr (map response_of items, c)) \<and> length items \<le> nat (lq_limit q) \<and>
     (let rest = listing (en_svc N) (pools (ap_repo s) (lq_domain q)) (list_match (lq_state q) (lq_source q)) (lq_min_score q) (lq_max_score q)
      in case c of
           None \<Rightarrow> rest i = items
         | Some cur \<Rightarrow> cursor_fits (Some cur) \<and> length items = nat (lq_limit q) \<and> (\<exists>k. start_offset K (q\<lparr>lq_cursor := Some cur\<rparr>) = Inr (int k) \<and>
             i < k \<and> k \<le> 10000 \<and> rest i = items @ rest k))"
proof -
  let ?E = "en_svc N" and ?p = "pools (ap_repo s) (lq_domain q)" and ?ok = "list_match (lq_state q) (lq_source q)"
  from assms(4) have q: "lq_domain q \<noteq> []" "lq_domain q \<in> set (list_domains ?E (ap_repo s))" "0 \<le> lq_min_score q"
    "\<not> lq_min_score q > lq_max_score q" "lq_max_score q \<le> 100" "1 \<le> lq_limit q" "lq_limit q \<le> 200"
    "\<not> (case lq_source q of None \<Rightarrow> False | Some s \<Rightarrow> \<not> (1 \<le> length s \<and> length s \<le> 64))"
    by (auto simp: listable_def split: option.splits)
  obtain pg where pg: "list_pages ?E ?p ?ok (lq_min_score q) (lq_max_score q) (nat (lq_limit q)) i i [] = Inr pg"
    using list_pages_total [OF assms(3)] by blast
  have "length ([] :: proxy_record list) < nat (lq_limit q)" using q(6) by simp
  note spec = pool_svc.list_pages_spec [OF assms(1) pg this]
  have listed: "list_proxies ?E (ap_repo s) (lq_domain q) (lq_min_score q) (lq_limit q) (int i) (lq_state q) (lq_max_score q) (lq_source q) = Inr pg"
    using q assms(6) pg by (simp add: list_proxies_def pool_for_def)
  have route: "list_route (model_calls N) K q s =
      (case next_cursor K q pg of Inl e \<Rightarrow> (s, Inl e) | Inr c \<Rightarrow> (s, Inr (map response_of (page_items pg), c)))"
    using q(2,4) assms(5,7) listed
    by (simp add: list_route_def require_domain_def attempt_def model_calls_def on_repo_def Let_def split: sum.splits)
  show ?thesis
  proof (cases "next_offset pg")
    case None
    with route spec show ?thesis by (intro exI [of _ "page_items pg"] exI [of _ None]) (simp add: next_cursor_def)
  next
    case (Some k)
    with spec have k: "i < k" "k \<le> 10000" "length (page_items pg) = nat (lq_limit q)" by auto
    have "\<exists>cur. encode_cursor (cd_mac K) (cd_secret K) (lq_domain q) (int k) (filters_of K q) = Inr cur"
      using q(1) k(2) filters_nonempty [OF assms(2)] by (simp add: encode_cursor_def Let_def)
    then obtain cur where cur: "encode_cursor (cd_mac K) (cd_secret K) (lq_domain q) (int k) (filters_of K q) = Inr cur" ..
    have "start_offset K (q\<lparr>lq_cursor := Some cur\<rparr>) = Inr (int k)"
      using decode_encoded [OF _ cur, of "cd_loads K"] assms(2) by (simp add: start_offset_def filters_of_cursor codec_ok_def)
    with route spec Some cur k issued_cursor_fits [OF assms(2,4) k(2) cur] show ?thesis
      by (intro exI [of _ "page_items pg"] exI [of _ "Some cur"]) (simp add: next_cursor_def)
  qed
qed

lemma follow_pages:
  assumes "pool_svc (en_svc N)" and "codec_ok K" and "stored_ok (en_svc N) (pools (ap_repo s) (lq_domain q))"
    and "listable (en_svc N) q (ap_repo s)" and "start_offset K q = Inr (int i)" and "i \<le> 10000" and "10001 - i \<le> n"
    and "cursor_fits (lq_cursor q)"
  shows "\<exists>pages. follow n (model_calls N) K q s = Some (Inr (map (map response_of) pages)) \<and>
     concat pages = listing (en_svc N) (pools (ap_repo s) (lq_domain q)) (list_match (lq_state q) (lq_source q)) (lq_min_score q) (lq_max_score q) i \<and>
     (\<forall>page \<in> set pages. length page \<le> nat (lq_limit q)) \<and> (\<forall>page \<in> set (butlast pages). length page = nat (lq_limit q)) \<and>
     pages \<noteq> []"
  using assms(3-8)
proof (induction n arbitrary: q i)
  case 0
  then show ?case by simp
next
  case (Suc n)
  let ?rest = "listing (en_svc N) (pools (ap_repo s) (lq_domain q)) (list_match (lq_state q) (lq_source q)) (lq_min_score q) (lq_max_score q)"
  from list_route_page [OF assms(1,2) Suc.prems(1-4,6)] obtain items c where
    run: "list_route (model_calls N) K q s = (s, Inr (map response_of items, c))" and len: "length items \<le> nat (lq_limit q)"
    and next': "case c of None \<Rightarrow> ?rest i = items
       | Some cur \<Rightarrow> cursor_fits (Some cur) \<and> length items = nat (lq_limit q) \<and> (\<exists>k. start_offset K (q\<lparr>lq_cursor := Some cur\<rparr>) = Inr (int k) \<and>
           i < k \<and> k \<le> 10000 \<and> ?rest i = items @ ?rest k)"
    unfolding Let_def by blast
  show ?case
  proof (cases c)
    case None
    with run len next' show ?thesis by (intro exI [of _ "[items]"]) simp
  next
    case (Some cur)
    let ?q = "q\<lparr>lq_cursor := Some cur\<rparr>"
    from next' Some obtain k where k: "start_offset K ?q = Inr (int k)" "i < k" "k \<le> 10000" "?rest i = items @ ?rest k"
      and full: "length items = nat (lq_limit q)" and fits: "cursor_fits (lq_cursor ?q)" by auto
    have "listable (en_svc N) ?q (ap_repo s)" using Suc.prems(2) by (simp add: listable_def)
    moreover have "10001 - k \<le> n" using Suc.prems(5) k(2,3) by simp
    ultimately obtain pages where "follow n (model_calls N) K ?q s = Some (Inr (map (map response_of) pages))"
      "concat pages = ?rest k" "\<forall>page \<in> set pages. length page \<le> nat (lq_limit q)"
      "\<forall>page \<in> set (butlast pages). length page = nat (lq_limit q)" "pages \<noteq> []"
      using Suc.IH [of ?q k] Suc.prems(1) k(1,3) fits by auto
    with run Some len full k(4) show ?thesis by (intro exI [of _ "items # pages"]) simp
  qed
qed

text \<open>
  C24: A client that lists a pool page by page, each time sending the cursor of the last page,
  comes to an end after at most 10001 requests when the pool does not change meanwhile, without
  an error (no cursor is refused, also not for its length), and has then received every listed
  record of the first 10001 ranks exactly in order, best score first; every page but the last
  is full. The name of the domain is one JSON prints as it is.
\<close>

theorem following_cursors_ends:
  assumes "pool_svc (en_svc N)" and "codec_ok K" and "stored_ok (en_svc N) (pools (ap_repo s) (lq_domain q))"
    and "listable (en_svc N) q (ap_repo s)" and "lq_cursor q = None"
  shows "\<exists>pages. follow 10001 (model_calls N) K q s = Some (Inr (map (map response_of) pages)) \<and>
     concat pages = listing (en_svc N) (pools (ap_repo s) (lq_domain q)) (list_match (lq_state q) (lq_source q)) (lq_min_score q) (lq_max_score q) 0 \<and>
     (\<forall>page \<in> set (butlast pages). length page = nat (lq_limit q))"
proof -
  have "start_offset K q = Inr (int 0)" "cursor_fits (lq_cursor q)" using assms(5) by (simp_all add: start_offset_def cursor_fits_def)
  from follow_pages [OF assms(1-4) this(1) _ _ this(2), of 10001] show ?thesis by auto
qed

definition w_codec :: codec where
  "w_codec = \<lparr>cd_mac = (\<lambda>x y. take 32 y), cd_sha = (\<lambda>_. ''0f''), cd_loads = read_payload, cd_secret = ''k''\<rparr>"

definition w_list :: list_query where
  "w_list = \<lparr>lq_domain = ''d'', lq_state = None, lq_min_score = 0, lq_max_score = 100, lq_source = None, lq_limit = 1, lq_cursor = None\<rparr>"

theorem following_cursors_ends_witness:
  "\<exists>pages. follow 10001 (model_calls w_env) w_codec w_list w_api = Some (Inr pages)"
proof -
  have "pool_svc (en_svc w_env)" by (simp add: w_env_def ref_svc_pool)
  moreover have "codec_ok w_codec" using read_printed by (simp add: codec_ok_def w_codec_def json_plain_def json_char_def)
  moreover have "stored_ok (en_svc w_env) (pools (ap_repo w_api) (lq_domain w_list))"
    using w_stored by (simp add: w_env_def w_api_def w_list_def)
  moreover have "listable (en_svc w_env) w_list (ap_repo w_api)"
    by (simp add: listable_def w_list_def w_env_def w_api_def w_domains json_plain_def json_char_def)
  moreover have "lq_cursor w_list = None" by (simp add: w_list_def)
  ultimately show ?thesis using following_cursors_ends [of w_env w_codec w_api w_list] by blast
qed

section \<open>Feedback\<close>

lemma resolve_Inr:
  assumes "resolve_receipt sha token caller d m now c = Inr r"
  shows "alive now (pc_receipts c (token_digest sha token)) = Some r" "sr_principal r = caller" "sr_domain r = d" "sr_endpoint r = m"
  using assms by (auto simp: resolve_receipt_def compare_digest_def split: if_splits option.splits sum.splits)

lemma resolve_call: "do_resolve (model_calls N) token caller d m now s = (s, resolve_receipt (en_sha N) token caller d m now (ap_cache s))"
  by (cases "resolve_receipt (en_sha N) token caller d m now (ap_cache s)") (simp_all add: model_calls_def Let_def on_cache_def)

lemma get_call: "do_get (model_calls N) d m s = (s, get_record (en_svc N) (ap_repo s) d m)"
  by (cases "get_record (en_svc N) (ap_repo s) d m") (simp_all add: model_calls_def Let_def on_repo_def)

lemma save_call: "do_save (model_calls N) r s = (s', x) \<Longrightarrow> ap_cache s' = ap_cache s"
  by (auto simp: model_calls_def Let_def on_repo_def split: sum.splits)

lemma record_feedback_cache: "record_feedback (model_calls N) ep later jitter b s = (s', x) \<Longrightarrow> ap_cache s' = ap_cache s"
  by (auto simp: record_feedback_def attempt_def get_call Let_def split: sum.splits option.splits prod.splits dest: save_call)

lemma repeated_feedback_state: "repeated_feedback (model_calls N) ep b s = (s', x) \<Longrightarrow> s' = s"
  by (auto simp: repeated_feedback_def attempt_def get_call split: sum.splits option.splits)

lemma invalidate_call:
  "do_invalidate (model_calls N) cfg r now s = (s', x) \<Longrightarrow> ap_repo s' = ap_repo s"
  by (auto simp: model_calls_def Let_def on_cache_def split: sum.splits)

text \<open>The receipts are stored under their digests, and which receipts have been used.\<close>

definition keyed :: "'z peer_cache \<Rightarrow> bool" where
  "keyed c \<longleftrightarrow> (\<forall>d r e. pc_receipts c d = Some (r, e) \<longrightarrow> sr_digest r = d)"

definition used :: "'z peer_cache \<Rightarrow> string \<Rightarrow> bool" where
  "used c d \<longleftrightarrow> (\<exists>r e. pc_receipts c d = Some (r, e) \<and> sr_applied r)"

lemma alive_stored: "alive now x = Some v \<Longrightarrow> \<exists>e. x = Some (v, e)"
  by (auto simp: alive_Some)

lemma claim_formal_effect:
  assumes "claim_formal_failure r clock c = Inr (c', first)" and "keyed c"
  shows "keyed c' \<and> (used c (sr_digest r) \<longrightarrow> \<not> first) \<and> used c' (sr_digest r) \<and> (used c d \<longrightarrow> used c' d)"
proof -
  from assms(1) obtain r0 where r0: "alive clock (pc_receipts c (sr_digest r)) = Some r0"
    and c': "(c', first) = (if sr_applied r0 then (c, False) else (c\<lparr>pc_receipts := (pc_receipts c)(sr_digest r :=
        map_option (\<lambda>(_, e). (r0\<lparr>sr_applied := True\<rparr>, e)) (pc_receipts c (sr_digest r)))\<rparr>, True))"
    by (auto simp: claim_formal_failure_def split: option.splits if_splits)
  from alive_stored [OF r0] obtain e where e: "pc_receipts c (sr_digest r) = Some (r0, e)" ..
  with assms(2) have "sr_digest r0 = sr_digest r" by (simp add: keyed_def)
  with c' e assms(2) show ?thesis by (auto simp: keyed_def used_def split: if_splits)
qed

lemma invalidate_receipt_effect:
  assumes "invalidate Z cfg r now c = Inr (c', x)" and "keyed c"
  shows "keyed c' \<and> (used c d \<longrightarrow> used c' d)"
proof -
  from assms(1) have "invalidate_script Z (sr_digest r) now (of_int (pf_cooldown cfg))
      (of_int (max (pf_cooldown cfg) (po_max_age (pf_policy cfg)) + 605)) c = Some (c', x)"
    by (simp add: invalidate_def split: if_splits option.splits)
  then obtain r0 where r0: "alive now (pc_receipts c (sr_digest r)) = Some r0"
    and c': "pc_receipts c' = pc_receipts c \<or> pc_receipts c' = (pc_receipts c)(sr_digest r :=
        map_option (\<lambda>(_, e). (r0\<lparr>sr_applied := True\<rparr>, e)) (pc_receipts c (sr_digest r)))"
    by (auto simp: invalidate_script_def Let_def split: option.splits if_splits)
  from alive_stored [OF r0] obtain e where e: "pc_receipts c (sr_digest r) = Some (r0, e)" ..
  with assms(2) have "sr_digest r0 = sr_digest r" by (simp add: keyed_def)
  with c' e assms(2) show ?thesis by (auto simp: keyed_def used_def split: if_splits)
qed

text \<open>A report of a failure with a token changes the pool only when it uses the receipt up.\<close>

lemma failure_post:
  assumes "feedback_route (model_calls N) parse stores caller now later jitter b s = (s', x)"
    and "fb_token b = Some token" and "fb_outcome b = Feedback_Proxy_Error" and "keyed (ap_cache s)"
  shows "keyed (ap_cache s') \<and>
    (used (ap_cache s) (token_digest (en_sha N) token) \<longrightarrow> used (ap_cache s') (token_digest (en_sha N) token) \<and> ap_repo s' = ap_repo s) \<and>
    (ap_repo s' \<noteq> ap_repo s \<longrightarrow> used (ap_cache s') (token_digest (en_sha N) token))"
proof (cases "s' = s")
  case True
  with assms(4) show ?thesis by simp
next
  case changed: False
  let ?d = "token_digest (en_sha N) token"
  from assms(1,2) changed obtain e where
    run: "token_feedback (model_calls N) stores caller (canonical e) now later jitter b token s = (s', x)"
    by (auto simp: feedback_route_def Let_def split: option.splits)
  from run changed obtain r where r: "resolve_receipt (en_sha N) token caller (fb_domain b) (canonical e) now (ap_cache s) = Inr r"
    by (auto simp: token_feedback_def resolve_call split: if_splits sum.splits exn.splits)
  from alive_stored [OF resolve_Inr(1) [OF r]] assms(4) have digest: "sr_digest r = ?d" by (auto simp: keyed_def)
  show ?thesis
  proof (cases "sr_source r = ''peer''")
    case True
    with run changed r assms(3) obtain cfg y where inv: "do_invalidate (model_calls N) cfg r now s = (s', y)"
      by (auto simp: token_feedback_def resolve_call attempt_def split: if_splits sum.splits prod.splits)
    then have repo: "ap_repo s' = ap_repo s" by (rule invalidate_call)
    from inv changed obtain c' z where "invalidate (zs (en_svc N)) cfg r now (ap_cache s) = Inr (c', z)" "ap_cache s' = c'"
      by (auto simp: model_calls_def Let_def on_cache_def split: sum.splits)
    with invalidate_receipt_effect [OF this(1) assms(4), of ?d] repo show ?thesis by simp
  next
    case False
    obtain s1 y where claim: "do_claim (model_calls N) r s = (s1, y)" by (rule prod.exhaust)
    from False run changed r assms(3) have
      rest: "(case y of Inl _ \<Rightarrow> (s1, Inl unavailable) | Inr first \<Rightarrow>
         if \<not> first then repeated_feedback (model_calls N) (canonical e) b s1
         else record_feedback (model_calls N) (canonical e) later jitter b s1) = (s', x)"
      by (simp add: token_feedback_def resolve_call attempt_def claim split: if_splits)
    show ?thesis
    proof (cases y)
      case (Inl e')
      then have "s1 = s" using claim by (auto simp: model_calls_def Let_def on_cache_def split: sum.splits)
      with rest Inl changed show ?thesis by simp
    next
      case (Inr first)
      with claim obtain c' where c': "claim_formal_failure r (en_clock N) (ap_cache s) = Inr (c', first)" "s1 = s\<lparr>ap_cache := c'\<rparr>"
        by (auto simp: model_calls_def Let_def on_cache_def split: sum.splits)
      note eff = claim_formal_effect [OF c'(1) assms(4), of ?d, unfolded digest]
      show ?thesis
      proof (cases first)
        case False
        with rest Inr have "repeated_feedback (model_calls N) (canonical e) b s1 = (s', x)" by simp
        then have "s' = s1" by (rule repeated_feedback_state)
        with eff c'(2) show ?thesis by simp
      next
        case True
        with rest Inr have "record_feedback (model_calls N) (canonical e) later jitter b s1 = (s', x)" by simp
        then have "ap_cache s' = c'" using record_feedback_cache c'(2) by fastforce
        with eff True show ?thesis by simp
      qed
    qed
  qed
qed

text \<open>
  A client that reports a failure again and again with one token: each post with the clock of
  Redis, the caller, the two times the route reads, the jitter and the body.
\<close>

record post =
  po_clock :: time
  po_caller :: string
  po_now :: time
  po_later :: time
  po_jitter :: "int \<Rightarrow> int \<Rightarrow> int"
  po_body :: feedback

definition send_post ::
  "('z, 'h, 'o, 's, 'p) api_env \<Rightarrow> (string \<Rightarrow> proxy_endpoint option) \<Rightarrow> route_stores \<Rightarrow> post
     \<Rightarrow> (('z, 'h, 'o, 's) api_state, feedback_response) call" where
  "send_post N parse stores p =
     feedback_route (model_calls (N\<lparr>en_clock := po_clock p\<rparr>)) parse stores (po_caller p) (po_now p) (po_later p) (po_jitter p) (po_body p)"

fun pool_changes ::
  "('z, 'h, 'o, 's, 'p) api_env \<Rightarrow> (string \<Rightarrow> proxy_endpoint option) \<Rightarrow> route_stores \<Rightarrow> post list \<Rightarrow> ('z, 'h, 'o, 's) api_state \<Rightarrow> nat" where
  "pool_changes N parse stores [] s = 0"
| "pool_changes N parse stores (p # ps) s =
     (case send_post N parse stores p s of
        (s', _) \<Rightarrow> (if ap_repo s' = ap_repo s then 0 else 1) + pool_changes N parse stores ps s')"

lemma pool_changes_used:
  assumes "\<forall>p \<in> set ps. fb_token (po_body p) = Some token \<and> fb_outcome (po_body p) = Feedback_Proxy_Error"
    and "keyed (ap_cache s)"
  shows "pool_changes N parse stores ps s \<le> (if used (ap_cache s) (token_digest (en_sha N) token) then 0 else 1)"
  using assms
proof (induction ps arbitrary: s)
  case Nil
  then show ?case by simp
next
  case (Cons p ps)
  obtain s' x where run: "send_post N parse stores p s = (s', x)" by (rule prod.exhaust)
  have eff: "keyed (ap_cache s') \<and>
    (used (ap_cache s) (token_digest (en_sha N) token) \<longrightarrow> used (ap_cache s') (token_digest (en_sha N) token) \<and> ap_repo s' = ap_repo s) \<and>
    (ap_repo s' \<noteq> ap_repo s \<longrightarrow> used (ap_cache s') (token_digest (en_sha N) token))"
    using failure_post [OF run [unfolded send_post_def], of token] Cons.prems by simp
  have "pool_changes N parse stores ps s' \<le> (if used (ap_cache s') (token_digest (en_sha N) token) then 0 else 1)"
    using Cons.IH [of s'] Cons.prems eff by simp
  with eff run show ?case by (auto split: if_splits)
qed

text \<open>
  C25: However often, by whomever, with whatever endpoint and at whatever times a proxy failure
  is reported with one selection token, the pool changes at most once, and not at all when the
  token had been used before.
\<close>

theorem failure_counted_once:
  assumes "\<forall>p \<in> set ps. fb_token (po_body p) = Some token \<and> fb_outcome (po_body p) = Feedback_Proxy_Error"
    and "keyed (ap_cache s)"
  shows "pool_changes N parse stores ps s \<le> 1 \<and>
    (used (ap_cache s) (token_digest (en_sha N) token) \<longrightarrow> pool_changes N parse stores ps s = 0)"
  using pool_changes_used [OF assms, of N parse stores] by (auto split: if_splits)


definition w_formal_receipt :: sel_receipt where
  "w_formal_receipt = w_receipt\<lparr>sr_digest := ''t'', sr_source := ''formal'', sr_peer := None, sr_principal := ''c''\<rparr>"

definition w_reported :: "(ref_zset, (member \<times> proxy_record) list, (member \<times> string) list, member list) api_state" where
  "w_reported = w_api\<lparr>ap_cache := w_state\<lparr>pc_receipts := [''t'' \<mapsto> (w_formal_receipt, 1550)]\<rparr>\<rparr>"

definition w_post :: post where
  "w_post = \<lparr>po_clock = 1000, po_caller = ''c'', po_now = 1000, po_later = 1000, po_jitter = (\<lambda>lo hi. lo),
     po_body = \<lparr>fb_domain = ''d'', fb_endpoint = ''e'', fb_outcome = Feedback_Proxy_Error, fb_latency = None,
       fb_status = None, fb_error = None, fb_token = Some ''t''\<rparr>\<rparr>"

lemma w_keyed: "keyed (ap_cache w_reported)"
  by (simp add: keyed_def w_reported_def w_formal_receipt_def w_receipt_def)

theorem failure_counted_once_witness:
  "pool_changes w_env (\<lambda>_. None) \<lparr>has_receipts = True, has_cache = None, has_redis = True\<rparr> [w_post, w_post] w_reported \<le> 1"
proof -
  have "\<forall>p \<in> set [w_post, w_post]. fb_token (po_body p) = Some ''t'' \<and> fb_outcome (po_body p) = Feedback_Proxy_Error"
    by (simp add: w_post_def)
  from failure_counted_once [OF this w_keyed] show ?thesis by blast
qed

lemma resolve_fails_http:
  "token_feedback (model_calls N) stores caller ep now later jitter b token s = (s', x) \<Longrightarrow>
     resolve_receipt (en_sha N) token caller (fb_domain b) ep now (ap_cache s) = Inl e \<Longrightarrow>
     s' = s \<and> (\<exists>code detail. x = Inl (HTTPException code detail))"
  by (cases e) (auto simp: token_feedback_def resolve_call unavailable_def split: if_splits)

text \<open>
  Feedback that names a selection token has an effect only for the caller, the domain and
  the endpoint the token was issued for, while its receipt lives; in every other case the
  answer is an HTTP error and nothing is changed.
\<close>

lemma feedback_needs_its_receipt:
  assumes "feedback_route (model_calls N) parse stores caller now later jitter b s = (s', x)" and "fb_token b = Some token"
  shows "(s' = s \<and> (\<exists>code detail. x = Inl (HTTPException code detail))) \<or>
    (\<exists>e r. parse (fb_endpoint b) = Some e \<and> alive now (pc_receipts (ap_cache s) (token_digest (en_sha N) token)) = Some r \<and>
       sr_principal r = caller \<and> sr_domain r = fb_domain b \<and> sr_endpoint r = canonical e)"
proof (cases "parse (fb_endpoint b)")
  case None
  with assms show ?thesis by (auto simp: feedback_route_def Let_def)
next
  case (Some e)
  with assms have run: "token_feedback (model_calls N) stores caller (canonical e) now later jitter b token s = (s', x)"
    by (simp add: feedback_route_def Let_def)
  show ?thesis
  proof (cases "resolve_receipt (en_sha N) token caller (fb_domain b) (canonical e) now (ap_cache s)")
    case (Inl e0)
    from resolve_fails_http [OF run this] show ?thesis by simp
  next
    case (Inr r)
    with Some resolve_Inr [OF Inr] show ?thesis by blast
  qed
qed

lemma feedback_needs_its_receipt_witness:
  "(case send_post w_env (\<lambda>_. Some \<lparr>host = ''h'', host_version = 4, port = 80\<rparr>) \<lparr>has_receipts = True, has_cache = None, has_redis = True\<rparr>
       (w_post\<lparr>po_caller := ''other''\<rparr>) w_reported of
     (s', x) \<Rightarrow> s' = w_reported \<and> (\<exists>code detail. x = Inl (HTTPException code detail)))"
proof -
  obtain s' x where run: "send_post w_env (\<lambda>_. Some \<lparr>host = ''h'', host_version = 4, port = 80\<rparr>)
      \<lparr>has_receipts = True, has_cache = None, has_redis = True\<rparr> (w_post\<lparr>po_caller := ''other''\<rparr>) w_reported = (s', x)"
    by (rule prod.exhaust)
  have "sr_principal r = ''c''" if "alive now (pc_receipts (ap_cache w_reported) d) = Some r" for now d r
    using alive_stored [OF that] by (auto simp: w_reported_def w_formal_receipt_def split: if_splits)
  moreover have "fb_token (po_body (w_post\<lparr>po_caller := ''other''\<rparr>)) = Some ''t''" by (simp add: w_post_def)
  ultimately have "s' = w_reported \<and> (\<exists>code detail. x = Inl (HTTPException code detail))"
    using feedback_needs_its_receipt [OF run [unfolded send_post_def]] by fastforce
  with run show ?thesis by simp
qed

text \<open>
  The receipt is used up before the record is saved: when the save fails, the penalty is lost.
  The retry is answered with success and the unchanged record.
\<close>

lemma failed_save_loses_penalty:
  assumes "parse (fb_endpoint b) = Some e" and "fb_token b = Some token" and "fb_outcome b = Feedback_Proxy_Error"
    and "has_receipts stores" and "keyed (ap_cache s)"
    and "resolve_receipt (en_sha N) token caller (fb_domain b) (canonical e) now (ap_cache s) = Inr r"
    and "sr_source r = ''formal''" and "\<not> sr_applied r" and "alive (en_clock N) (pc_receipts (ap_cache s) (sr_digest r)) = Some r"
    and "sr_expires r > now" and "get_record (en_svc N) (ap_repo s) (fb_domain b) (canonical e) = Inr (Some rec)"
  shows "\<exists>s1. feedback_route ((model_calls N)\<lparr>do_save := (\<lambda>_ s. (s, Inl (RuntimeError ''redis'')))\<rparr>) parse stores caller now later jitter b s
      = (s1, Inl unavailable) \<and> ap_repo s1 = ap_repo s \<and>
     feedback_route (model_calls N) parse stores caller now later jitter b s1 = (s1, Inr (Record_Feedback (response_of rec)))"
proof -
  let ?C = "(model_calls N)\<lparr>do_save := (\<lambda>_ s. (s, Inl (RuntimeError ''redis'')))\<rparr>"
  from alive_stored [OF assms(9)] obtain ex where ex: "pc_receipts (ap_cache s) (sr_digest r) = Some (r, ex)" ..
  from alive_stored [OF resolve_Inr(1) [OF assms(6)]] obtain ex' where "pc_receipts (ap_cache s) (token_digest (en_sha N) token) = Some (r, ex')" ..
  with assms(5) have d: "sr_digest r = token_digest (en_sha N) token" by (simp add: keyed_def)
  let ?r' = "r\<lparr>sr_applied := True\<rparr>"
  let ?c = "(ap_cache s)\<lparr>pc_receipts := (pc_receipts (ap_cache s))(sr_digest r \<mapsto> (?r', ex))\<rparr>"
  let ?s1 = "s\<lparr>ap_cache := ?c\<rparr>"
  have claim: "do_claim (model_calls N) r s = (?s1, Inr True)"
    using assms(7,8,9) ex by (simp add: model_calls_def on_cache_def claim_formal_failure_def Let_def)
  have lives: "now < ex" "en_clock N < ex"
    using resolve_Inr(1) [OF assms(6)] assms(9) ex d by (auto simp: alive_def split: if_splits)
  have res1: "resolve_receipt (en_sha N) token caller (fb_domain b) (canonical e) now ?c = Inr ?r'"
    using assms(6) ex d lives by (auto simp: resolve_receipt_def alive_def split: if_splits option.splits sum.splits)
  have claim1: "do_claim (model_calls N) ?r' ?s1 = (?s1, Inr False)"
    using assms(7) lives by (simp add: model_calls_def on_cache_def claim_formal_failure_def Let_def alive_def)
  have first: "feedback_route ?C parse stores caller now later jitter b s = (?s1, Inl unavailable)"
    using assms(1-4,7,11) assms(6) claim
    by (simp add: feedback_route_def token_feedback_def resolve_call record_feedback_def attempt_def get_call Let_def)
  have second: "feedback_route (model_calls N) parse stores caller now later jitter b ?s1 = (?s1, Inr (Record_Feedback (response_of rec)))"
    using assms(1-4,7,11) res1 claim1
    by (simp add: feedback_route_def token_feedback_def resolve_call repeated_feedback_def attempt_def get_call Let_def)
  show ?thesis by (rule exI [of _ ?s1]) (simp add: first second)
qed

text \<open>
  The reply of \<open>stats\<close> is cached under the digest of the domain's name or of \<open>all\<close>: a domain of
  that name is served the totals of all domains.
\<close>

lemma stats_of_a_domain_named_all:
  assumes "get (stats_key sha None) s = (s', Inr (Some reply))" and "read reply = Some v"
  shows "stats_route sha read print get set_for compute (Some ''all'') s = (s', Inr v)"
  using assms by (simp add: stats_route_def attempt_def stats_key_def)

end
