(* ===== verification/Sources.thy ===== *)
theory Sources
  imports Endpoints Redis Cursors Keys
begin

text \<open>
  The sources of the collector: their definitions (collector/models.py, sources.py), the pages
  of a source (pagination.py), the parsers (parsers.py), the health of a source and the memory
  of failed predictions (health.py), the downloader (downloader.py), the page cache (cache.py)
  and the rate limiter of worker.py. What lxml and \<open>re\<close> find in a page and \<open>json.loads\<close> are
  arguments; a payload is a string of bytes.
\<close>

section \<open>Source definitions\<close>

datatype pagination_kind = Json_Total | Html_Max_Page

record pagination =
  pg_kind :: pagination_kind
  pg_template :: string
  pg_total_field :: string
  pg_limit_field :: string
  pg_xpath :: "string option"

definition starts_with :: "string \<Rightarrow> string \<Rightarrow> bool" where
  "starts_with p s = (take (length p) s = p)"

fun contains_text :: "string \<Rightarrow> string \<Rightarrow> bool" where
  "contains_text p [] = (p = [])"
| "contains_text p (c # cs) = (starts_with p (c # cs) \<or> contains_text p cs)"

definition valid_pagination :: "pagination \<Rightarrow> bool" where
  "valid_pagination p \<longleftrightarrow>
     contains_text ''{page}'' (pg_template p) \<and> starts_with ''https://'' (pg_template p) \<and>
     (pg_kind p = Json_Total \<or> pg_xpath p \<notin> {None, Some []})"

datatype region = Domestic | Foreign | All_Regions

datatype source_kind =
    Regex_Source string
  | Json_Source string string string
  | XPath_Source string string string

record source_def =
  so_name :: string
  so_region :: region
  so_urls :: "string list"
  so_max_pages :: int
  so_rate :: rat
  so_pagination :: "pagination option"
  so_kind :: source_kind

text \<open>The field constraints and validators; \<open>re.compile\<close> of a pattern is not checked.\<close>

definition kind_ok :: "source_kind \<Rightarrow> bool" where
  "kind_ok k =
     (case k of
        Regex_Source p \<Rightarrow> p \<noteq> []
      | Json_Source a b c \<Rightarrow> a \<noteq> [] \<and> b \<noteq> [] \<and> c \<noteq> []
      | XPath_Source a b c \<Rightarrow> a \<noteq> [] \<and> b \<noteq> [] \<and> c \<noteq> [])"

definition valid_source :: "source_def \<Rightarrow> bool" where
  "valid_source s \<longleftrightarrow>
     1 \<le> length (so_name s) \<and> length (so_name s) \<le> 64 \<and> so_urls s \<noteq> [] \<and>
     (\<forall>u \<in> set (so_urls s). starts_with ''https://'' u) \<and> 1 \<le> so_max_pages s \<and> so_max_pages s \<le> 100 \<and>
     0 < so_rate s \<and> so_rate s \<le> 10 \<and> (case so_pagination s of None \<Rightarrow> True | Some p \<Rightarrow> valid_pagination p) \<and>
     kind_ok (so_kind s)"

definition validate_sources :: "source_def list \<Rightarrow> source_def list result" where
  "validate_sources xs =
     (if distinct (map so_name xs) then Inr xs else Inl (ValueError ''duplicate source name''))"

definition endpoint_pattern :: string where
  "endpoint_pattern =
     ''(?<!['' @ [CHR 0x5C] @ ''d.])(?:'' @ [CHR 0x5C] @ ''d{1,3}'' @ [CHR 0x5C] @ ''.){3}'' @ [CHR 0x5C] @ ''d{1,3}:'' @
     [CHR 0x5C] @ ''d{1,5}(?!'' @ [CHR 0x5C] @ ''d)''"

definition regex_source :: "string \<Rightarrow> string \<Rightarrow> source_def" where
  "regex_source name url =
     \<lparr>so_name = name, so_region = Foreign, so_urls = [url], so_max_pages = 20, so_rate = 1, so_pagination = None,
      so_kind = Regex_Source endpoint_pattern\<rparr>"

definition geonode_url :: "string \<Rightarrow> string" where
  "geonode_url page =
     ''https://proxylist.geonode.com/api/proxy-list?limit=500&page='' @ page @
     ''&sort_by=lastChecked&sort_type=desc&protocols=http%2Chttps''"

definition freeproxy_url :: "string \<Rightarrow> string" where
  "freeproxy_url page =
     ''https://www.freeproxy.world/?type=http&anonymity=&country=&speed=&port=&page='' @ page"

text \<open>The three labels of the 66daili page are not ASCII: their UTF-8 bytes.\<close>

definition utf8_anonymity :: "string \<times> string \<times> string" where
  "utf8_anonymity =
     ([CHR 0xE9, CHR 0xAB, CHR 0x98, CHR 0xE5, CHR 0x8C, CHR 0xBF],
      [CHR 0xE6, CHR 0x99, CHR 0xAE, CHR 0xE5, CHR 0x8C, CHR 0xBF],
      [CHR 0xE6, CHR 0x9C, CHR 0xAA, CHR 0xE7, CHR 0x9F, CHR 0xA5])"

definition quoted :: "string \<Rightarrow> string" where
  "quoted s = [CHR 0x27] @ s @ [CHR 0x27]"

definition daili_rows :: string where
  "daili_rows =
     (case utf8_anonymity of (high, common, unknown) \<Rightarrow>
        ''.//div[contains(concat('' @ quoted '' '' @ '', normalize-space(@class), '' @ quoted '' '' @ ''), '' @
        quoted '' table-sj '' @ '')]/ul[li[4][normalize-space()='' @ quoted high @ '' or normalize-space()='' @
        quoted common @ '' or normalize-space()='' @ quoted unknown @ ''] and li[5][normalize-space()='' @
        quoted ''HTTPS'' @ '']]'')"

definition default_sources :: "source_def list" where
  "default_sources =
     [\<lparr>so_name = ''geonode'', so_region = Foreign, so_urls = [geonode_url ''1''], so_max_pages = 20, so_rate = 1,
       so_pagination = Some \<lparr>pg_kind = Json_Total, pg_template = geonode_url ''{page}'', pg_total_field = ''total'',
         pg_limit_field = ''limit'', pg_xpath = None\<rparr>,
       so_kind = Json_Source ''data'' ''ip'' ''port''\<rparr>,
      regex_source ''thespeedx'' ''https://raw.githubusercontent.com/TheSpeedX/PROXY-List/master/http.txt'',
      regex_source ''monosans'' ''https://raw.githubusercontent.com/monosans/proxy-list/main/proxies/http.txt'',
      regex_source ''zaeem20'' ''https://raw.githubusercontent.com/Zaeem20/FREE_PROXIES_LIST/master/http.txt'',
      \<lparr>so_name = ''66daili'', so_region = Foreign, so_urls = [''https://www.66daili.com/?protocol=HTTPS&page=1&size=60''],
       so_max_pages = 1, so_rate = 1, so_pagination = None, so_kind = XPath_Source daili_rows ''./li[1]'' ''./li[2]''\<rparr>,
      \<lparr>so_name = ''freeproxy-world'', so_region = Foreign, so_urls = [freeproxy_url ''1''], so_max_pages = 20, so_rate = 1,
       so_pagination = Some \<lparr>pg_kind = Html_Max_Page, pg_template = freeproxy_url ''{page}'', pg_total_field = ''total'',
         pg_limit_field = ''limit'', pg_xpath = Some (''//*[contains(@class, '' @ quoted ''pagination'' @ '')]//a/text()'')\<rparr>,
       so_kind = XPath_Source ''.//table//tr[td]'' ''./td[1]'' ''./td[2]''\<rparr>]"

definition sources_for_region :: "string \<Rightarrow> source_def list result" where
  "sources_for_region r =
     (if r = ''all'' then validate_sources default_sources
      else if r = ''domestic'' \<or> r = ''foreign'' then
        map_sum id (filter (\<lambda>s. so_region s \<in> {if r = ''domestic'' then Domestic else Foreign, All_Regions}))
          (validate_sources default_sources)
      else Inl (ValueError ''region must be domestic, foreign, or all''))"

section \<open>Pages of a source\<close>

definition truncated :: "rat \<Rightarrow> int" where
  "truncated x = (if 0 \<le> x then \<lfloor>x\<rfloor> else \<lceil>x\<rceil>)"

text \<open>
  \<open>_positive_integer\<close>: \<open>int\<close> of a JSON value, \<open>None\<close> for a missing key. An infinite float
  raises an \<open>OverflowError\<close>, which the code does not catch.
\<close>

definition keep_positive :: "int \<Rightarrow> int option" where
  "keep_positive n = (if 0 < n then Some n else None)"

fun positive_integer :: "json option \<Rightarrow> int option result" where
  "positive_integer (Some (J_Int n)) = Inr (keep_positive n)"
| "positive_integer (Some (J_Float (Finite x))) = Inr (keep_positive (truncated x))"
| "positive_integer (Some (J_Float PosInf)) = Inl (OverflowError ''cannot convert float infinity to integer'')"
| "positive_integer (Some (J_Float NegInf)) = Inl (OverflowError ''cannot convert float infinity to integer'')"
| "positive_integer (Some (J_Str s)) = Inr (Option.bind (py_int s) keep_positive)"
| "positive_integer _ = Inr None"

text \<open>\<open>math.ceil(total / limit)\<close>; a quotient beyond the range of doubles raises.\<close>

definition page_quotient :: "int \<Rightarrow> int \<Rightarrow> int result" where
  "page_quotient items limit =
     (let q = of_int items / of_int limit :: rat
      in if 2 ^ 1024 - 2 ^ 970 \<le> q then Inl (OverflowError ''integer division result too large for a float'')
         else Inr \<lceil>q\<rceil>)"

fun replace_page :: "string \<Rightarrow> string \<Rightarrow> string" where
  "replace_page r [] = []"
| "replace_page r (c # cs) =
     (if take 6 (c # cs) = ''{page}'' then r @ replace_page r (drop 5 cs) else c # replace_page r cs)"

text \<open>How many pages the first payload announces; \<open>Inr None\<close> when it does not say.\<close>

definition announced_pages ::
  "(string \<Rightarrow> json option) \<Rightarrow> (string \<Rightarrow> string \<Rightarrow> string list option) \<Rightarrow> pagination \<Rightarrow> string \<Rightarrow> int option result" where
  "announced_pages loads labels p payload =
     (case pg_kind p of
        Json_Total \<Rightarrow>
          (case loads payload of
             Some (J_Object kvs) \<Rightarrow>
               (case positive_integer (map_of kvs (pg_total_field p)) of Inl e \<Rightarrow> Inl e | Inr items \<Rightarrow>
               (case positive_integer (map_of kvs (pg_limit_field p)) of Inl e \<Rightarrow> Inl e | Inr limit \<Rightarrow>
               (case (items, limit) of
                  (Some t, Some l) \<Rightarrow> (case page_quotient t l of Inl e \<Rightarrow> Inl e | Inr n \<Rightarrow> Inr (Some (max 1 n)))
                | _ \<Rightarrow> Inr None)))
           | _ \<Rightarrow> Inr None)
      | Html_Max_Page \<Rightarrow>
          if pg_xpath p \<in> {None, Some []} \<or> payload = [] then Inr None
          else
            (case labels (the (pg_xpath p)) payload of
               None \<Rightarrow> Inr None
             | Some ls \<Rightarrow>
                 (case List.map_filter (\<lambda>l. Option.bind (py_int l) keep_positive) ls of
                    [] \<Rightarrow> Inr None
                  | n # ns \<Rightarrow> Inr (Some (fold max ns n)))))"

definition discover_pages ::
  "(string \<Rightarrow> json option) \<Rightarrow> (string \<Rightarrow> string \<Rightarrow> string list option) \<Rightarrow> source_def \<Rightarrow> string \<Rightarrow> int \<Rightarrow> string list result" where
  "discover_pages loads labels src payload global_max =
     (if global_max < 1 then Inl (ValueError ''global_max_pages must be positive'')
      else
        let cap = min (so_max_pages src) global_max; first_url = hd (so_urls src)
        in (case so_pagination src of
              None \<Rightarrow> Inr (take (nat cap) (so_urls src))
            | Some p \<Rightarrow>
                (case announced_pages loads labels p payload of
                   Inl e \<Rightarrow> Inl e
                 | Inr None \<Rightarrow> Inr [first_url]
                 | Inr (Some n) \<Rightarrow>
                     Inr ((map (\<lambda>k. replace_page (str_nat k) (pg_template p)) [1..<nat (min n cap) + 1])[0 := first_url]))))"

section \<open>Parsers\<close>

definition endpoint_text :: "string \<Rightarrow> string \<Rightarrow> string" where
  "endpoint_text h p =
     (let host = str_strip h; port = str_strip p
      in if CHR '':'' \<in> set host then ''['' @ host @ '']:'' @ port else host @ '':'' @ port)"

fun valid_unique :: "(string \<Rightarrow> proxy_endpoint option) \<Rightarrow> string list \<Rightarrow> string set \<Rightarrow> proxy_endpoint list" where
  "valid_unique parse [] seen = []"
| "valid_unique parse (c # cs) seen =
     (case parse c of
        None \<Rightarrow> valid_unique parse cs seen
      | Some e \<Rightarrow>
          if canonical e \<in> seen then valid_unique parse cs seen
          else e # valid_unique parse cs (insert (canonical e) seen))"

fun split_dots :: "string \<Rightarrow> string list" where
  "split_dots [] = [[]]"
| "split_dots (c # cs) =
     (if c = CHR ''.'' then [] # split_dots cs
      else (case split_dots cs of [] \<Rightarrow> [[c]] | w # ws \<Rightarrow> (c # w) # ws))"

fun walk_path :: "json \<Rightarrow> string list \<Rightarrow> json option" where
  "walk_path v [] = Some v"
| "walk_path v (k # ks) = (case v of J_Object kvs \<Rightarrow> Option.bind (map_of kvs k) (\<lambda>v'. walk_path v' ks) | _ \<Rightarrow> None)"

text \<open>\<open>text_of\<close> is \<open>str\<close> of a JSON value.\<close>

definition json_candidates ::
  "(string \<Rightarrow> json option) \<Rightarrow> (json \<Rightarrow> string) \<Rightarrow> string \<Rightarrow> string \<Rightarrow> string \<Rightarrow> string \<Rightarrow> string list" where
  "json_candidates loads text_of path ip_field port_field payload =
     (case Option.bind (loads payload) (\<lambda>v. walk_path v (split_dots path)) of
        Some (J_List items) \<Rightarrow>
          List.map_filter
            (\<lambda>item. case item of
               J_Object kvs \<Rightarrow>
                 (case (map_of kvs ip_field, map_of kvs port_field) of
                    (Some i, Some p) \<Rightarrow> Some (endpoint_text (text_of i) (text_of p))
                  | _ \<Rightarrow> None)
             | _ \<Rightarrow> None) items
      | _ \<Rightarrow> [])"

text \<open>\<open>rows\<close>: the texts of the two nodes of each row, \<open>None\<close> when lxml refuses the page.\<close>

definition xpath_candidates ::
  "(string \<Rightarrow> string \<Rightarrow> string \<Rightarrow> string \<Rightarrow> (string option \<times> string option) list option) \<Rightarrow> string \<Rightarrow> string \<Rightarrow> string
     \<Rightarrow> string \<Rightarrow> string list" where
  "xpath_candidates rows row_xpath ip_xpath port_xpath payload =
     (if payload = [] then []
      else
        (case rows row_xpath ip_xpath port_xpath payload of
           None \<Rightarrow> []
         | Some rs \<Rightarrow>
             List.map_filter
               (\<lambda>r. case r of
                  (Some h, Some p) \<Rightarrow> if h \<noteq> [] \<and> p \<noteq> [] then Some (endpoint_text h p) else None
                | _ \<Rightarrow> None) rs))"

text \<open>What the parsers take from the libraries.\<close>

record page_readers =
  pr_loads :: "string \<Rightarrow> json option"
  pr_text :: "json \<Rightarrow> string"
  pr_findall :: "string \<Rightarrow> string \<Rightarrow> string list"
  pr_rows :: "string \<Rightarrow> string \<Rightarrow> string \<Rightarrow> string \<Rightarrow> (string option \<times> string option) list option"
  pr_labels :: "string \<Rightarrow> string \<Rightarrow> string list option"
  pr_parse :: "string \<Rightarrow> proxy_endpoint option"

definition parse_source :: "page_readers \<Rightarrow> source_def \<Rightarrow> string \<Rightarrow> proxy_endpoint list" where
  "parse_source L src payload =
     valid_unique (pr_parse L)
       (case so_kind src of
          Json_Source path ip_field port_field \<Rightarrow> json_candidates (pr_loads L) (pr_text L) path ip_field port_field payload
        | Regex_Source pattern \<Rightarrow> pr_findall L pattern payload
        | XPath_Source row ip_path port_path \<Rightarrow> xpath_candidates (pr_rows L) row ip_path port_path payload) {}"

section \<open>Source health\<close>

text \<open>The hash of a source: its failure count and when it may run again.\<close>

record health =
  failure_tally :: nat
  retry_at :: "time option"

type_synonym healths = "string \<Rightarrow> health option"

definition backoff_seconds :: "int list" where
  "backoff_seconds = [30, 60, 120, 300, 600]"

definition health_key :: "string \<Rightarrow> string \<Rightarrow> string result" where
  "health_key prefix name =
     (if name = [] then Inl (ValueError ''source_name must be non-empty'')
      else Inr (prefix @ '':source-health:'' @ quote name))"

definition can_run :: "string \<Rightarrow> time \<Rightarrow> healths \<Rightarrow> bool result" where
  "can_run name now H =
     (if name = [] then Inl (ValueError ''source_name must be non-empty'')
      else Inr (case Option.bind (H name) retry_at of None \<Rightarrow> True | Some t \<Rightarrow> t \<le> now))"

text \<open>\<open>jitter lo hi\<close> is the draw; \<open>base * 1.2\<close> is an integer for every base.\<close>

definition backoff_base :: "nat \<Rightarrow> int" where
  "backoff_base failures = backoff_seconds ! min (failures - 1) 4"

definition record_source_failure :: "(int \<Rightarrow> int \<Rightarrow> int) \<Rightarrow> string \<Rightarrow> time \<Rightarrow> healths \<Rightarrow> (healths \<times> int) result" where
  "record_source_failure jitter name now H =
     (if name = [] then Inl (ValueError ''source_name must be non-empty'')
      else
        let failures = (case H name of None \<Rightarrow> 0 | Some h \<Rightarrow> failure_tally h) + 1;
            base = backoff_base failures;
            delay = jitter base (min 600 (max base (base * 6 div 5)))
        in Inr (H(name \<mapsto> \<lparr>failure_tally = failures, retry_at = Some (now + of_int delay)\<rparr>), delay))"

definition record_source_success :: "string \<Rightarrow> healths \<Rightarrow> healths result" where
  "record_source_success name H =
     (if name = [] then Inl (ValueError ''source_name must be non-empty'') else Inr (H(name := None)))"

text \<open>The prediction failures: per domain a sorted set of endpoints scored with their expiry.\<close>

type_synonym 'z failures = "string \<Rightarrow> 'z"

definition failure_key :: "string \<Rightarrow> string \<Rightarrow> string result" where
  "failure_key prefix d =
     (if d = [] then Inl (ValueError ''domain must be non-empty'') else Inr (prefix @ '':precheck-fail:'' @ quote d))"

definition failed_recently :: "'z zset_api \<Rightarrow> string \<Rightarrow> member \<Rightarrow> time \<Rightarrow> 'z failures \<Rightarrow> 'z failures \<times> bool" where
  "failed_recently Z d m now P =
     (case z_score Z (P d) m of
        None \<Rightarrow> (P, False)
      | Some e \<Rightarrow> if e \<le> now then (P(d := z_rem Z (P d) m), False) else (P, True))"

definition mark_failed :: "'z zset_api \<Rightarrow> int \<Rightarrow> string \<Rightarrow> member \<Rightarrow> time \<Rightarrow> 'z failures \<Rightarrow> 'z failures" where
  "mark_failed Z ttl d m now P = P(d := z_add Z (P d) m (now + of_int ttl))"

definition clear_failed :: "'z zset_api \<Rightarrow> string \<Rightarrow> member \<Rightarrow> 'z failures \<Rightarrow> 'z failures" where
  "clear_failed Z d m P = P(d := z_rem Z (P d) m)"

section \<open>The downloader\<close>

text \<open>
  What one request meets: a connect or read timeout, another transport error, or a response
  with its status, its headers and the chunks of its body, possibly broken off by an exception.
\<close>

datatype transfer = Whole | Cut_Timeout | Cut_Error

record http_response =
  hr_status :: int
  hr_length :: "string option"
  hr_type :: "string option"
  hr_chunks :: "string list"
  hr_end :: transfer

datatype exchange = No_Answer_Timeout | No_Answer_Error | Answer http_response

record download =
  dl_payload :: string
  dl_type :: "string option"
  dl_fetched :: time

definition retry_statuses :: "int set" where
  "retry_statuses = {429, 502, 503, 504}"

definition new_downloader :: "int \<Rightarrow> rat \<Rightarrow> int \<Rightarrow> (nat \<times> nat) result" where
  "new_downloader max_bytes time_limit attempts =
     (if max_bytes < 1 \<or> time_limit \<le> 0 \<or> attempts < 1 then Inl (ValueError ''download limits must be positive'')
      else Inr (nat max_bytes, nat attempts))"

text \<open>The loop over the chunks: the body, or \<open>None\<close> as soon as it is too large.\<close>

fun read_chunks :: "nat \<Rightarrow> string list \<Rightarrow> string \<Rightarrow> string option" where
  "read_chunks max_bytes [] body = Some body"
| "read_chunks max_bytes (c # cs) body =
     (if max_bytes < length body + length c then None else read_chunks max_bytes cs (body @ c))"

definition declared_size :: "string option \<Rightarrow> int" where
  "declared_size header = (case Option.bind header py_int of None \<Rightarrow> 0 | Some n \<Rightarrow> n)"

text \<open>One attempt: the outcome, or \<open>Inl\<close> of whether the timeout or status is worth a retry.\<close>

datatype attempt_end = Retry_Status | Timed_Out | Raised exn | Returned download

definition too_large :: exn where
  "too_large = ResponseTooLarge ''source response exceeds configured byte limit''"

definition attempt_fetch :: "nat \<Rightarrow> time \<Rightarrow> bool \<Rightarrow> exchange \<Rightarrow> attempt_end" where
  "attempt_fetch max_bytes now last_attempt x =
     (case x of
        No_Answer_Timeout \<Rightarrow> Timed_Out
      | No_Answer_Error \<Rightarrow> Raised (RuntimeError ''transport error'')
      | Answer r \<Rightarrow>
          if hr_status r \<in> retry_statuses \<and> \<not> last_attempt then Retry_Status
          else if \<not> (200 \<le> hr_status r \<and> hr_status r \<le> 299) then Raised (ResponseError ''HTTP status'')
          else if int max_bytes < declared_size (hr_length r) then Raised too_large
          else
            (case read_chunks max_bytes (hr_chunks r) [] of
               None \<Rightarrow> Raised too_large
             | Some body \<Rightarrow>
                 (case hr_end r of
                    Whole \<Rightarrow> Returned \<lparr>dl_payload = body, dl_type = hr_type r, dl_fetched = now\<rparr>
                  | Cut_Timeout \<Rightarrow> Timed_Out
                  | Cut_Error \<Rightarrow> Raised (RuntimeError ''transport error''))))"

text \<open>
  \<open>fetch\<close> over the exchanges the network will give, attempt by attempt: how many requests were
  made, the seconds slept between them, and the result.
\<close>

fun fetch :: "nat \<Rightarrow> time \<Rightarrow> nat \<Rightarrow> nat \<Rightarrow> (nat \<Rightarrow> exchange) \<Rightarrow> nat \<times> nat list \<times> download result" where
  "fetch max_bytes now 0 n net = (0, [], Inl (RuntimeError ''source download exhausted retries''))"
| "fetch max_bytes now (Suc left) n net =
     (let again = (case fetch max_bytes now left (Suc n) net of (k, sleeps, r) \<Rightarrow> (Suc k, 2 ^ n # sleeps, r))
      in case attempt_fetch max_bytes now (left = 0) (net n) of
           Returned d \<Rightarrow> (1, [], Inr d)
         | Raised e \<Rightarrow> (1, [], Inl e)
         | Timed_Out \<Rightarrow> if left = 0 then (1, [], Inl (RuntimeError ''timeout'')) else again
         | Retry_Status \<Rightarrow> again)"

section \<open>The rate limiter of one source\<close>

text \<open>\<open>wait\<close> at a monotonic time: when the request starts, and the new \<open>_next_request\<close>.\<close>

definition limiter_wait :: "rat \<Rightarrow> rat \<Rightarrow> rat \<Rightarrow> rat \<times> rat" where
  "limiter_wait per_second current next_request =
     (let delay = next_request - current
      in (if 0 < delay then current + delay else current, max current next_request + 1 / per_second))"

section \<open>The page cache\<close>

text \<open>Keys with their values and expiries on the Redis clock.\<close>

type_synonym kv = "string \<Rightarrow> (string \<times> time) option"

definition b64_std_char :: "nat \<Rightarrow> char" where
  "b64_std_char n = (if n = 62 then CHR ''+'' else if n = 63 then CHR ''/'' else b64_char n)"

definition b64encode :: "string \<Rightarrow> string" where
  "b64encode v = (let t = map b64_std_char (sextets (map of_char v)) in t @ padding (length t))"

definition is_b64_std :: "char \<Rightarrow> bool" where
  "is_b64_std c \<longleftrightarrow> b64_val c \<noteq> None \<and> c \<noteq> CHR ''-'' \<and> c \<noteq> CHR ''_''"

text \<open>\<open>b64decode(validate=True)\<close>: characters of the alphabet, then at most two \<open>=\<close>.\<close>

definition b64decode :: "string \<Rightarrow> string option" where
  "b64decode s =
     (let data = takeWhile (\<lambda>c. c \<noteq> CHR ''='') s; rest = dropWhile (\<lambda>c. c \<noteq> CHR ''='') s
      in if (\<forall>c \<in> set data. is_b64_std c) \<and> (\<forall>c \<in> set rest. c = CHR ''='') \<and> length rest \<le> 2 \<and> length s mod 4 = 0
         then map_option (map char_of) (a2b 0 0 0 s) else None)"

definition source_cache_key :: "(string \<Rightarrow> string) \<Rightarrow> string \<Rightarrow> string \<Rightarrow> string" where
  "source_cache_key sha prefix url = prefix @ '':source-cache:page:'' @ sha url"

definition pagination_key :: "(string \<Rightarrow> string) \<Rightarrow> string \<Rightarrow> string \<Rightarrow> string" where
  "pagination_key sha prefix name = prefix @ '':source-cache:pagination:'' @ sha name"

text \<open>\<open>show_time\<close> and \<open>from_iso\<close> are \<open>isoformat\<close> and \<open>fromisoformat\<close>; a stored content type is text or null.\<close>

definition print_page :: "(time \<Rightarrow> string) \<Rightarrow> download \<Rightarrow> string" where
  "print_page show_time r =
     [CHR ''{''] @ json_string ''payload'' @ '':'' @ json_string (b64encode (dl_payload r)) @ '','' @
     json_string ''content_type'' @ '':'' @ json_optional (dl_type r) @ '','' @
     json_string ''fetched_at'' @ '':'' @ json_string (show_time (dl_fetched r)) @ ''}''"

definition read_page :: "(string \<Rightarrow> json option) \<Rightarrow> (string \<Rightarrow> time option) \<Rightarrow> string \<Rightarrow> download option" where
  "read_page loads from_iso raw =
     (case loads raw of
        Some (J_Object kvs) \<Rightarrow>
          (case (map_of kvs ''payload'', map_of kvs ''fetched_at'') of
             (Some (J_Str p), Some (J_Str t)) \<Rightarrow>
               (case (b64decode p, from_iso t) of
                  (Some payload, Some at') \<Rightarrow>
                    Some \<lparr>dl_payload = payload,
                          dl_type = (case map_of kvs ''content_type'' of Some (J_Str c) \<Rightarrow> Some c | _ \<Rightarrow> None),
                          dl_fetched = at'\<rparr>
                | _ \<Rightarrow> None)
           | _ \<Rightarrow> None)
      | _ \<Rightarrow> None)"

text \<open>Both readers delete a value they cannot read.\<close>

definition cached_value :: "(string \<Rightarrow> 'a option) \<Rightarrow> time \<Rightarrow> string \<Rightarrow> kv \<Rightarrow> kv \<times> 'a option" where
  "cached_value read redis_now key K =
     (case alive redis_now (K key) of
        None \<Rightarrow> (K, None)
      | Some raw \<Rightarrow> (case read raw of None \<Rightarrow> (K(key := None), None) | Some v \<Rightarrow> (K, Some v)))"

definition set_value :: "time \<Rightarrow> string \<Rightarrow> int \<Rightarrow> string \<Rightarrow> kv \<Rightarrow> kv result" where
  "set_value redis_now key ttl v K =
     (if ttl < 1 then Inl (ValueError ''ttl must be positive'') else Inr (K(key \<mapsto> (v, redis_now + of_int ttl))))"

definition print_urls :: "string list \<Rightarrow> string" where
  "print_urls us =
     ''['' @ (case us of [] \<Rightarrow> [] | v # vs \<Rightarrow> json_string v @ concat (map (\<lambda>w. '','' @ json_string w) vs)) @ '']''"

fun json_texts :: "json list \<Rightarrow> string list option" where
  "json_texts [] = Some []"
| "json_texts (J_Str s # vs) = map_option ((#) s) (json_texts vs)"
| "json_texts _ = None"

definition read_urls :: "(string \<Rightarrow> json option) \<Rightarrow> string \<Rightarrow> string list option" where
  "read_urls loads raw = (case loads raw of Some (J_List vs) \<Rightarrow> json_texts vs | _ \<Rightarrow> None)"

end
