(* ===== verification/Collector.thy ===== *)
theory Collector
  imports Sources Probe Capacity
begin

text \<open>
  The collector (collector/worker.py): the pages and endpoints of one source, the ingestion of
  one endpoint step by step (a step ends where the code awaits), the interleaving of the
  ingestions of a round, and the end of a round. Pages are fetched in their order here; the
  tasks of the code may finish in another one, which changes the order of cache writes to
  different keys only.
\<close>

section \<open>One run of a source\<close>

record source_run =
  sn_pages :: nat
  sn_hits :: nat
  sn_parsed :: nat
  sn_invalid :: nat
  sn_predicted :: nat
  sn_added :: nat
  sn_proxy_failures :: nat
  sn_system_errors :: nat
  sn_full :: nat

definition fresh_run :: source_run where
  "fresh_run = \<lparr>sn_pages = 0, sn_hits = 0, sn_parsed = 0, sn_invalid = 0, sn_predicted = 0, sn_added = 0,
     sn_proxy_failures = 0, sn_system_errors = 0, sn_full = 0\<rparr>"

text \<open>
  What a run reads: its settings, the libraries, the clocks, and what the network gives to each
  attempt to fetch a URL.
\<close>

record ('z, 'h, 'o, 's, 'p) collector =
  co_svc :: "('z, 'h, 'o, 's, 'p) svc"
  co_max_latency :: rat
  co_domain :: string
  co_now :: time
  co_redis_now :: time
  co_target :: test_target
  co_client :: client
  co_jitter :: "int \<Rightarrow> int \<Rightarrow> int"
  co_failure_ttl :: int
  co_capacity :: int
  co_overflow :: int
  co_force :: bool
  co_max_pages :: int
  co_max_round :: nat
  co_is_global :: "string \<Rightarrow> bool"
  co_networks :: "ip_network list"
  co_readers :: page_readers
  co_sha :: "string \<Rightarrow> string"
  co_prefix :: string
  co_show_time :: "time \<Rightarrow> string"
  co_read_time :: "string \<Rightarrow> time option"
  co_max_bytes :: nat
  co_attempts :: nat
  co_net :: "string \<Rightarrow> nat \<Rightarrow> exchange"

record page_state =
  ps_cache :: kv
  ps_health :: healths
  ps_run :: source_run

definition load_page ::
  "('z, 'h, 'o, 's, 'p) collector \<Rightarrow> string \<Rightarrow> page_state \<Rightarrow> page_state \<times> (download \<times> bool) result" where
  "load_page K url st =
     (let key = source_cache_key (co_sha K) (co_prefix K) url;
          (cache, hit) = (if co_force K then (ps_cache st, None)
             else cached_value (read_page (pr_loads (co_readers K)) (co_read_time K)) (co_redis_now K) key (ps_cache st));
          st1 = st\<lparr>ps_cache := cache\<rparr>
      in case hit of
           Some d \<Rightarrow> (st1, Inr (d, True))
         | None \<Rightarrow>
             let st2 = st1\<lparr>ps_run := (ps_run st1)\<lparr>sn_pages := sn_pages (ps_run st1) + 1\<rparr>\<rparr>
             in (case snd (snd (fetch (co_max_bytes K) (co_now K) (co_attempts K) 0 (co_net K url))) of
                   Inl e \<Rightarrow> (st2, Inl e)
                 | Inr d \<Rightarrow>
                     (case set_value (co_redis_now K) key 300 (print_page (co_show_time K) d) (ps_cache st2) of
                        Inl e \<Rightarrow> (st2, Inl e)
                      | Inr cache' \<Rightarrow> (st2\<lparr>ps_cache := cache'\<rparr>, Inr (d, False)))))"

definition note_hit :: "bool \<Rightarrow> page_state \<Rightarrow> page_state" where
  "note_hit hit st = (if hit then st\<lparr>ps_run := (ps_run st)\<lparr>sn_hits := sn_hits (ps_run st) + 1\<rparr>\<rparr> else st)"

definition note_error :: "page_state \<Rightarrow> page_state" where
  "note_error st = st\<lparr>ps_run := (ps_run st)\<lparr>sn_system_errors := sn_system_errors (ps_run st) + 1\<rparr>\<rparr>"

text \<open>The other pages: one that fails is counted and stays empty.\<close>

fun load_pages :: "('z, 'h, 'o, 's, 'p) collector \<Rightarrow> string list \<Rightarrow> page_state \<Rightarrow> page_state \<times> string option list" where
  "load_pages K [] st = (st, [])"
| "load_pages K (u # us) st =
     (let (st1, payload) = (case load_page K u st of
            (s, Inl e) \<Rightarrow> (note_error s, None)
          | (s, Inr (d, hit)) \<Rightarrow> (note_hit hit s, Some (dl_payload d)));
          (st2, rest) = load_pages K us st1
      in (st2, payload # rest))"

definition pages_of ::
  "('z, 'h, 'o, 's, 'p) collector \<Rightarrow> source_def \<Rightarrow> string \<Rightarrow> page_state \<Rightarrow> page_state \<times> string list result" where
  "pages_of K src payload st =
     (let key = pagination_key (co_sha K) (co_prefix K) (so_name src);
          (cache, known) = cached_value (read_urls (pr_loads (co_readers K))) (co_redis_now K) key (ps_cache st);
          st1 = st\<lparr>ps_cache := cache\<rparr>
      in case known of
           Some us \<Rightarrow> (st1, Inr us)
         | None \<Rightarrow>
             (case discover_pages (pr_loads (co_readers K)) (pr_labels (co_readers K)) src payload (co_max_pages K) of
                Inl e \<Rightarrow> (st1, Inl e)
              | Inr us \<Rightarrow>
                  (case set_value (co_redis_now K) key 300 (print_urls us) (ps_cache st1) of
                     Inl e \<Rightarrow> (st1, Inl e)
                   | Inr cache' \<Rightarrow> (st1\<lparr>ps_cache := cache'\<rparr>, Inr us))))"

text \<open>
  The endpoints that are kept: new ones that pass the network check, up to the limit. \<open>kept\<close>
  are those so far, whose canonical texts are the \<open>seen\<close> set of the code; \<open>bad\<close> counts the
  rejected.
\<close>

fun keep_endpoints ::
  "(proxy_endpoint \<Rightarrow> bool) \<Rightarrow> nat \<Rightarrow> proxy_endpoint list \<Rightarrow> proxy_endpoint list \<Rightarrow> nat \<Rightarrow> proxy_endpoint list \<times> nat" where
  "keep_endpoints allowed limit [] kept bad = (kept, bad)"
| "keep_endpoints allowed limit (e # es) kept bad =
     (if canonical e \<in> canonical ` set kept then keep_endpoints allowed limit es kept bad
      else if \<not> allowed e then keep_endpoints allowed limit es kept (bad + 1)
      else if limit \<le> length (kept @ [e]) then (kept @ [e], bad)
      else keep_endpoints allowed limit es (kept @ [e]) bad)"

fun keep_payloads ::
  "(string \<Rightarrow> proxy_endpoint list) \<Rightarrow> (proxy_endpoint \<Rightarrow> bool) \<Rightarrow> nat \<Rightarrow> string option list \<Rightarrow> proxy_endpoint list
     \<Rightarrow> source_run \<Rightarrow> proxy_endpoint list \<times> source_run" where
  "keep_payloads parse allowed limit [] kept run = (kept, run)"
| "keep_payloads parse allowed limit (None # ps) kept run = keep_payloads parse allowed limit ps kept run"
| "keep_payloads parse allowed limit (Some payload # ps) kept run =
     (let parsed = parse payload;
          (kept', bad) = keep_endpoints allowed limit parsed kept 0;
          run' = run\<lparr>sn_parsed := sn_parsed run + length parsed, sn_invalid := sn_invalid run + bad\<rparr>
      in if limit \<le> length kept' then (kept', run') else keep_payloads parse allowed limit ps kept' run')"

definition endpoint_allowed :: "('z, 'h, 'o, 's, 'p) collector \<Rightarrow> proxy_endpoint \<Rightarrow> bool" where
  "endpoint_allowed K e = (case validate_proxy_endpoint (co_is_global K) False (co_networks K) e of Inl _ \<Rightarrow> False | Inr _ \<Rightarrow> True)"

definition source_failed :: "('z, 'h, 'o, 's, 'p) collector \<Rightarrow> source_def \<Rightarrow> page_state \<Rightarrow> page_state \<times> proxy_endpoint list result" where
  "source_failed K src st =
     (case record_source_failure (co_jitter K) (so_name src) (co_now K) (ps_health st) of
        Inl e \<Rightarrow> (st, Inl e)
      | Inr (H, _) \<Rightarrow> (st\<lparr>ps_health := H\<rparr>, Inr []))"

text \<open>
  \<open>collect_source\<close> up to the ingestion: the state with the counters of the run, and the
  endpoints to ingest or the exception that leaves the method.
\<close>

definition collect_source ::
  "('z, 'h, 'o, 's, 'p) collector \<Rightarrow> string \<Rightarrow> source_def \<Rightarrow> page_state \<Rightarrow> page_state \<times> proxy_endpoint list result" where
  "collect_source K d src st =
     (if t_domain (co_target K) \<noteq> d then (st, Inl (ValueError ''collector domain must match prediction target''))
      else
        (case can_run (so_name src) (co_now K) (ps_health st) of
           Inl e \<Rightarrow> (st, Inl e)
         | Inr False \<Rightarrow> (st, Inr [])
         | Inr True \<Rightarrow>
             (case load_page K (hd (so_urls src)) st of
                (st1, Inl e) \<Rightarrow> source_failed K src (note_error st1)
              | (st1, Inr (first, hit)) \<Rightarrow>
                  (case pages_of K src (dl_payload first) (note_hit hit st1) of
                     (st2, Inl e) \<Rightarrow> (st2, Inl e)
                   | (st2, Inr pages) \<Rightarrow>
                       let (st3, rest) = load_pages K (tl pages) st2;
                           (endpoints, run) = keep_payloads (parse_source (co_readers K) src) (endpoint_allowed K) (co_max_round K)
                             (Some (dl_payload first) # rest) [] (ps_run st3);
                           st4 = st3\<lparr>ps_run := run\<rparr>
                       in if endpoints = [] then source_failed K src st4
                          else
                            (case record_source_success (so_name src) (ps_health st4) of
                               Inl e \<Rightarrow> (st4, Inl e)
                             | Inr H \<Rightarrow> (st4\<lparr>ps_health := H\<rparr>, Inr endpoints))))))"

section \<open>Ingesting an endpoint\<close>

record ('z, 'h, 'o, 's) ingest_state =
  is_repo :: "('z, 'h, 'o, 's) repo"
  is_failures :: "'z failures"
  is_run :: source_run

text \<open>Where a task is; each constructor carries what its later steps still need.\<close>

datatype phase =
    Waiting
  | Looked "proxy_record option"
  | Admitted "proxy_record option"
  | Merging "proxy_record option" "proxy_record option"
  | Written "proxy_record option"
  | Due_Check proxy_record
  | Predicting proxy_record
  | Probed proxy_record probe_result
  | Saved
  | Finished
  | Broken exn

definition capacity_of :: "('z, 'h, 'o, 's, 'p) collector \<Rightarrow> int" where
  "capacity_of K = (if co_force K then co_capacity K + co_overflow K else co_capacity K)"

definition new_candidate ::
  "('z, 'h, 'o, 's, 'p) collector \<Rightarrow> string \<Rightarrow> proxy_endpoint \<Rightarrow> proxy_record option \<Rightarrow> proxy_record" where
  "new_candidate K source e existing =
     \<lparr>endpoint = e, rec_domain = co_domain K, score = 50, state = Candidate, source_names = {source},
      first_seen_at = (case existing of None \<Rightarrow> co_now K | Some r \<Rightarrow> first_seen_at r), last_seen_at = co_now K,
      last_checked_at = None, next_check_at = co_now K, consecutive_successes = 0, consecutive_failures = 0,
      success_count = 0, failure_count = 0, latency_ewma_ms = None, last_status_code = None,
      last_error_type = None, last_error_message = None\<rparr>"

definition verified_by :: "('z, 'h, 'o, 's, 'p) collector \<Rightarrow> proxy_record \<Rightarrow> probe_result \<Rightarrow> proxy_record" where
  "verified_by K current r =
     (let verified = apply_probe_result current r (co_now K)
      in verified\<lparr>next_check_at := schedule_check verified (co_now K) (co_jitter K)\<rparr>)"

text \<open>One step of \<open>_ingest_endpoint\<close> for endpoint \<open>e\<close> of a source.\<close>

fun ingest_step ::
  "('z, 'h, 'o, 's, 'p) collector \<Rightarrow> string \<Rightarrow> proxy_endpoint \<Rightarrow> phase \<Rightarrow> ('z, 'h, 'o, 's) ingest_state
     \<Rightarrow> phase \<times> ('z, 'h, 'o, 's) ingest_state" where
  "ingest_step K src e Waiting s =
     (case get_record (co_svc K) (is_repo s) (co_domain K) (canonical e) of
        Inl x \<Rightarrow> (Broken x, s) | Inr existing \<Rightarrow> (Looked existing, s))"
| "ingest_step K src e (Looked (Some r)) s = (Admitted (Some r), s)"
| "ingest_step K src e (Looked None) s =
     (case record_count (co_svc K) (is_repo s) (co_domain K) of
        Inl x \<Rightarrow> (Broken x, s)
      | Inr n \<Rightarrow>
          if capacity_of K \<le> int n then (Finished, s\<lparr>is_run := (is_run s)\<lparr>sn_full := sn_full (is_run s) + 1\<rparr>\<rparr>)
          else (Admitted None, s))"
| "ingest_step K src e (Admitted existing) s =
     (case get_record (co_svc K) (is_repo s) (co_domain K) (canonical e) of
        Inl x \<Rightarrow> (Broken x, s) | Inr found \<Rightarrow> (Merging existing found, s))"
| "ingest_step K src e (Merging existing found) s =
     (Written existing,
      s\<lparr>is_repo := on_pool (co_domain K) (upsert_write (co_svc K) (co_max_latency K) found (new_candidate K src e existing))
          ((is_repo s)\<lparr>domains := s_add (ss (co_svc K)) (domains (is_repo s)) (co_domain K)\<rparr>)\<rparr>)"
| "ingest_step K src e (Written existing) s =
     (case get_record (co_svc K) (is_repo s) (co_domain K) (canonical e) of
        Inl x \<Rightarrow> (Broken x, s)
      | Inr None \<Rightarrow> (Finished, s)
      | Inr (Some current) \<Rightarrow>
          if (case existing of None \<Rightarrow> True | Some r \<Rightarrow> next_check_at r \<le> co_now K) then (Due_Check current, s)
          else (Finished, s))"
| "ingest_step K src e (Due_Check current) s =
     (case failed_recently (zs (co_svc K)) (co_domain K) (canonical e) (co_now K) (is_failures s) of
        (P, True) \<Rightarrow> (Finished, s\<lparr>is_failures := P\<rparr>)
      | (P, False) \<Rightarrow>
          (Predicting current, s\<lparr>is_failures := P, is_run := (is_run s)\<lparr>sn_predicted := sn_predicted (is_run s) + 1\<rparr>\<rparr>))"
| "ingest_step K src e (Predicting current) s =
     (case probe_once (co_client K) (Some e) (co_target K) of
        Inl x \<Rightarrow> (Broken x, s) | Inr r \<Rightarrow> (Probed current r, s))"
| "ingest_step K src e (Probed current r) s =
     (if category r = Success then
        (case save_record (co_svc K) (co_max_latency K) (verified_by K current r) (is_repo s) of
           Inl x \<Rightarrow> (Broken x, s) | Inr R \<Rightarrow> (Saved, s\<lparr>is_repo := R\<rparr>))
      else if category r = Proxy_Error then
        (Finished, s\<lparr>is_failures := mark_failed (zs (co_svc K)) (co_failure_ttl K) (co_domain K) (canonical e) (co_now K) (is_failures s),
                     is_run := (is_run s)\<lparr>sn_proxy_failures := sn_proxy_failures (is_run s) + 1\<rparr>\<rparr>)
      else if category r = System_Error then
        (Finished, s\<lparr>is_run := (is_run s)\<lparr>sn_system_errors := sn_system_errors (is_run s) + 1\<rparr>\<rparr>)
      else (Finished, s))"
| "ingest_step K src e Saved s =
     (Finished, s\<lparr>is_failures := clear_failed (zs (co_svc K)) (co_domain K) (canonical e) (is_failures s),
                  is_run := (is_run s)\<lparr>sn_added := sn_added (is_run s) + 1\<rparr>\<rparr>)"
| "ingest_step K src e Finished s = (Finished, s)"
| "ingest_step K src e (Broken x) s = (Broken x, s)"

text \<open>A task that runs alone takes at most nine steps.\<close>

fun ingest_steps ::
  "('z, 'h, 'o, 's, 'p) collector \<Rightarrow> string \<Rightarrow> proxy_endpoint \<Rightarrow> nat \<Rightarrow> phase \<times> ('z, 'h, 'o, 's) ingest_state
     \<Rightarrow> phase \<times> ('z, 'h, 'o, 's) ingest_state" where
  "ingest_steps K src e 0 x = x"
| "ingest_steps K src e (Suc n) x = ingest_steps K src e n (ingest_step K src e (fst x) (snd x))"

definition ingest_endpoint ::
  "('z, 'h, 'o, 's, 'p) collector \<Rightarrow> string \<Rightarrow> proxy_endpoint \<Rightarrow> ('z, 'h, 'o, 's) ingest_state
     \<Rightarrow> phase \<times> ('z, 'h, 'o, 's) ingest_state" where
  "ingest_endpoint K src e s = ingest_steps K src e 9 (Waiting, s)"

section \<open>A round\<close>

definition active :: "phase \<Rightarrow> bool" where
  "active p \<longleftrightarrow> (case p of Waiting \<Rightarrow> False | Finished \<Rightarrow> False | Broken _ \<Rightarrow> False | _ \<Rightarrow> True)"

text \<open>
  The tasks of a round: source and endpoint of each, in any interleaving of their steps with at
  most \<open>c\<close> of them past their semaphores. A task may be cancelled (when another raises), and
  other processes may remove records meanwhile.
\<close>

type_synonym task = "string \<times> proxy_endpoint"

definition pool_members :: "('z, 'h, 'o, 's, 'p) collector \<Rightarrow> ('z, 'h, 'o, 's) repo \<Rightarrow> member set" where
  "pool_members K R = {m. h_get (rh (co_svc K)) (records (pools R (co_domain K))) m \<noteq> None}"

text \<open>
  The records of the pool are decodable and of its domain and their own endpoints: what every
  write of the code leaves, also the writes of other processes.
\<close>

definition homed :: "('z, 'h, 'o, 's, 'p) collector \<Rightarrow> ('z, 'h, 'o, 's) repo \<Rightarrow> bool" where
  "homed K R \<longleftrightarrow>
     (\<forall>m raw. h_get (rh (co_svc K)) (records (pools R (co_domain K))) m = Some raw \<longrightarrow>
        (\<exists>r. decode_record (co_svc K) raw = Some r \<and> storable r \<and> canonical (endpoint r) = m \<and> rec_domain r = co_domain K))"

inductive ingest_run ::
  "('z, 'h, 'o, 's, 'p) collector \<Rightarrow> nat \<Rightarrow> task list \<Rightarrow> ('z, 'h, 'o, 's) ingest_state \<Rightarrow> phase list
     \<Rightarrow> ('z, 'h, 'o, 's) ingest_state \<Rightarrow> bool" for K c ts s0 where
  spawned: "ingest_run K c ts s0 (replicate (length ts) Waiting) s0"
| stepped: "ingest_run K c ts s0 ps s \<Longrightarrow> i < length ts \<Longrightarrow> active (ps ! i) \<or> length (filter active ps) < c \<Longrightarrow>
    ingest_step K (fst (ts ! i)) (snd (ts ! i)) (ps ! i) s = (p', s') \<Longrightarrow> ingest_run K c ts s0 (ps[i := p']) s'"
| cancelled: "ingest_run K c ts s0 ps s \<Longrightarrow> i < length ts \<Longrightarrow> ingest_run K c ts s0 (ps[i := Broken (RuntimeError ''cancelled'')]) s"
| removed: "ingest_run K c ts s0 ps s \<Longrightarrow> homed K R \<Longrightarrow> pool_members K R \<subseteq> pool_members K (is_repo s) \<Longrightarrow>
    ingest_run K c ts s0 ps (s\<lparr>is_repo := R\<rparr>)"

text \<open>The end of \<open>collect_round\<close>: \<open>gather\<close> raises the first exception of a source.\<close>

fun first_error :: "'a result list \<Rightarrow> exn option" where
  "first_error [] = None"
| "first_error (Inl e # rs) = Some e"
| "first_error (Inr _ # rs) = first_error rs"

definition finish_round ::
  "('z, 'h, 'o, 's, 'p) collector \<Rightarrow> source_run result list \<Rightarrow> ('z, 'h, 'o, 's) repo
     \<Rightarrow> (('z, 'h, 'o, 's) repo \<times> source_run list) result" where
  "finish_round K results R =
     (case first_error results of
        Some e \<Rightarrow> Inl e
      | None \<Rightarrow>
          (case enforce_capacity (co_svc K) (co_domain K) (co_capacity K) R of
             Inl e \<Rightarrow> Inl e
           | Inr (R', _) \<Rightarrow> Inr (R', map projr results)))"

end
