(* ===== verification/CollectorProperties.thy ===== *)
theory CollectorProperties
  imports Collector LeaseProtocol
begin

text \<open>
  What the collector is relied upon for: how far concurrent ingestions can overfill a pool,
  which endpoints a source may contribute, how many pages and requests a source costs, how a
  failing source backs off, and that a page is fetched once while its cache entry lives.
\<close>


section \<open>How far a round can overfill a pool\<close>

text \<open>The endpoints of the tasks that are past the capacity check, or were let through as known.\<close>

definition admitted :: "phase \<Rightarrow> bool" where
  "admitted p \<longleftrightarrow> active p \<and> p \<noteq> Looked None"

definition pending :: "task list \<Rightarrow> phase list \<Rightarrow> member set" where
  "pending ts ps = {canonical (snd (ts ! i)) |i. i < length ts \<and> admitted (ps ! i)}"

lemma pending_update:
  "length ps = length ts \<Longrightarrow> i < length ts \<Longrightarrow>
     pending ts (ps[i := p']) \<subseteq> pending ts ps \<union> (if admitted p' then {canonical (snd (ts ! i))} else {})"
  by (auto simp: pending_def nth_list_update split: if_splits)

lemma pending_card: "length ps = length ts \<Longrightarrow> card (pending ts ps) \<le> length (filter active ps) \<and> finite (pending ts ps)"
proof -
  assume l: "length ps = length ts"
  let ?I = "{i. i < length ps \<and> active (ps ! i)}"
  have "pending ts ps \<subseteq> (\<lambda>i. canonical (snd (ts ! i))) ` ?I"
    using l by (auto simp: pending_def admitted_def)
  moreover have "finite ?I" by simp
  ultimately have "card (pending ts ps) \<le> card ?I" "finite (pending ts ps)"
    by (auto intro: surj_card_le finite_subset)
  moreover have "card ?I = length (filter active ps)" by (simp add: length_filter_conv_card)
  ultimately show ?thesis by simp
qed

text \<open>A task carries a record of its own endpoint from the step that read it to the step that writes it.\<close>

definition own_record :: "('z, 'h, 'o, 's, 'p) collector \<Rightarrow> proxy_endpoint \<Rightarrow> proxy_record \<Rightarrow> bool" where
  "own_record K e r \<longleftrightarrow> storable r \<and> canonical (endpoint r) = canonical e \<and> rec_domain r = co_domain K"

fun phase_ok :: "('z, 'h, 'o, 's, 'p) collector \<Rightarrow> proxy_endpoint \<Rightarrow> phase \<Rightarrow> bool" where
  "phase_ok K e (Merging existing (Some r)) = own_record K e r"
| "phase_ok K e (Due_Check r) = own_record K e r"
| "phase_ok K e (Predicting r) = own_record K e r"
| "phase_ok K e (Probed r p) = (own_record K e r \<and> valid_result p \<and> (\<forall>l. latency_ms p = Some l \<longrightarrow> isfinite l))"
| "phase_ok K e _ = True"

definition task_ok :: "('z, 'h, 'o, 's, 'p) collector \<Rightarrow> proxy_endpoint \<Rightarrow> bool" where
  "task_ok K e \<longleftrightarrow> valid_endpoint e \<and> 1 \<le> length (co_domain K) \<and> length (co_domain K) \<le> 253"

lemma homed_get:
  assumes "homed K R" and "get_record (co_svc K) R (co_domain K) (canonical e) = Inr (Some r)"
  shows "own_record K e r"
proof -
  from assms(2) obtain raw where "h_get (rh (co_svc K)) (records (pools R (co_domain K))) (canonical e) = Some raw"
    "decode_record (co_svc K) raw = Some r"
    by (auto simp: get_record_def pool_for_def get_record_pool_def split: if_splits option.splits)
  moreover from assms(1) this(1) obtain r' where "decode_record (co_svc K) raw = Some r'" "own_record K e r'"
    unfolding homed_def own_record_def by blast
  ultimately show ?thesis by simp
qed

lemma homed_get_phase:
  "homed K R \<Longrightarrow> get_record (co_svc K) R (co_domain K) (canonical e) = Inr found \<Longrightarrow> phase_ok K e (Merging existing found)"
  by (cases found) (simp_all add: homed_get)

lemma probe_once_finite: "probe_once client ep t = Inr q \<Longrightarrow> latency_ms q = Some l \<Longrightarrow> isfinite l"
  by (auto simp: probe_once_def validate_response_def failure_def make_result_Inr
      split: prod.splits fetch_outcome.splits if_splits option.splits)

lemma latency_average_finite:
  "latency_average a b = Some v \<Longrightarrow> \<forall>x. a = Some x \<longrightarrow> isfinite x \<Longrightarrow> \<forall>x. b = Some x \<longrightarrow> isfinite x \<Longrightarrow> isfinite v"
  by (cases a; cases b) (auto simp: latency_average_def elim!: isfinite.elims(2) split: option.splits if_splits)

lemma storable_probe_result:
  assumes "storable r" and "valid_result p" and "\<forall>l. latency_ms p = Some l \<longrightarrow> isfinite l"
  shows "storable (apply_probe_result r p now)"
proof -
  have "isfinite v" if "latency_ewma_ms (apply_probe_result r p now) = Some v" for v
    using that assms(1,3) latency_average_finite [of "latency_ewma_ms r" "latency_ms p" v]
    by (auto simp: apply_probe_result_def apply_success_def apply_failure_def storable_def Let_def split: if_splits option.splits)
  moreover have "valid_record (apply_probe_result r p now)"
    using assms(1,2) by (intro apply_probe_result_valid) (simp_all add: storable_def)
  ultimately show ?thesis by (auto simp: storable_def split: option.splits)
qed


context pool_svc
begin

lemma homed_put:
  assumes "homed K R" and "co_svc K = E" and "own_record K e r"
    and "records (pools R' (co_domain K)) = h_set (rh E) (records (pools R (co_domain K))) (canonical e) (encode_record E r)"
  shows "homed K R'" and "pool_members K R' = insert (canonical e) (pool_members K R)"
proof -
  have "decode_record E (encode_record E r) = Some r" using assms(3) by (simp add: codec own_record_def)
  with assms show "homed K R'" unfolding homed_def own_record_def by auto
  show "pool_members K R' = insert (canonical e) (pool_members K R)"
    unfolding pool_members_def assms(2,4) by auto
qed

lemma upsert_record:
  assumes "homed K R" and "co_svc K = E" and "task_ok K e" and "\<forall>r. found = Some r \<longrightarrow> own_record K e r"
  shows "\<exists>r. own_record K e r \<and>
    records (upsert_write E x found (new_candidate K src e ex) p) = h_set (rh E) (records p) (canonical e) (encode_record E r)"
proof -
  let ?c = "new_candidate K src e ex"
  have c: "own_record K e ?c"
    using assms(3) by (auto simp: own_record_def task_ok_def new_candidate_def storable_def valid_record_def valid_latency_def
        valid_status_def valid_text_def)
  show ?thesis
  proof (cases found)
    case None
    with c show ?thesis
      by (intro exI [of _ "?c\<lparr>state := Candidate\<rparr>"])
         (simp add: upsert_write_def insert_candidate_def own_record_def storable_candidate new_candidate_def Let_def)
  next
    case (Some r)
    with assms(4) have r: "own_record K e r" by simp
    with c have "own_record K e (merge_seen r ?c)"
      by (simp add: own_record_def storable_merge) (simp add: merge_seen_def)
    with Some show ?thesis
      by (intro exI [of _ "merge_seen r ?c"]) (simp add: upsert_write_def merge_candidate_def Let_def new_candidate_def)
  qed
qed

text \<open>What one step keeps, and which endpoint it can add.\<close>

lemma ingest_step_keeps:
  assumes "homed K (is_repo s)" and "co_svc K = E" and "task_ok K e" and "phase_ok K e p"
    and "ingest_step K src e p s = (p', s')"
  shows "homed K (is_repo s') \<and> phase_ok K e p' \<and>
    pool_members K (is_repo s') \<subseteq> pool_members K (is_repo s) \<union> (if admitted p then {canonical e} else {})"
proof (cases p)
  case (Merging ex found)
  from assms(4) Merging have "\<forall>r. found = Some r \<longrightarrow> own_record K e r" by (cases found) auto
  with assms obtain r where r: "own_record K e r"
    and rec: "records (upsert_write E (co_max_latency K) found (new_candidate K src e ex) (pools (is_repo s) (co_domain K)))
      = h_set (rh E) (records (pools (is_repo s) (co_domain K))) (canonical e) (encode_record E r)"
    using upsert_record by blast
  from assms(5) Merging assms(2) have s': "p' = Written ex" "is_repo s' = on_pool (co_domain K)
      (upsert_write E (co_max_latency K) found (new_candidate K src e ex))
      ((is_repo s)\<lparr>domains := s_add (ss E) (domains (is_repo s)) (co_domain K)\<rparr>)" by auto
  have "records (pools (is_repo s') (co_domain K)) = h_set (rh E) (records (pools (is_repo s) (co_domain K))) (canonical e) (encode_record E r)"
    unfolding s'(2) by (simp add: on_pool_def rec)
  from homed_put [OF assms(1,2) r this] Merging s'(1) show ?thesis by (simp add: admitted_def active_def)
next
  case (Probed current q)
  let ?v = "verified_by K current q"
  from assms(4) Probed have own: "own_record K e current" and q: "valid_result q" "\<forall>l. latency_ms q = Some l \<longrightarrow> isfinite l" by auto
  show ?thesis
  proof (cases "category q = Success")
    case False
    with assms(1,5) Probed show ?thesis by (auto split: if_splits)
  next
    case True
    have v: "own_record K e ?v"
      using own storable_probe_result [OF _ q] by (auto simp: own_record_def verified_by_def Let_def storable_def valid_record_def)
    from own have "rec_domain ?v = co_domain K" "canonical (endpoint ?v) = canonical e"
      by (simp_all add: verified_by_def own_record_def Let_def)
    with assms(2,3) have "save_record E (co_max_latency K) ?v (is_repo s) = Inr (on_pool (co_domain K) (save_pool E (co_max_latency K) ?v)
        ((is_repo s)\<lparr>domains := s_add (ss E) (domains (is_repo s)) (co_domain K)\<rparr>))"
      by (auto simp: save_record_def pool_for_def task_ok_def)
    with assms(2,5) Probed True have s': "p' = Saved" "is_repo s' = on_pool (co_domain K) (save_pool E (co_max_latency K) ?v)
        ((is_repo s)\<lparr>domains := s_add (ss E) (domains (is_repo s)) (co_domain K)\<rparr>)" by auto
    have "records (pools (is_repo s') (co_domain K)) = h_set (rh E) (records (pools (is_repo s) (co_domain K))) (canonical e) (encode_record E ?v)"
      unfolding s'(2) using v by (simp add: on_pool_def save_pool_def Let_def own_record_def)
    from homed_put [OF assms(1,2) v this] Probed s'(1) show ?thesis by (simp add: admitted_def active_def)
  qed
next
  case (Looked x)
  with assms show ?thesis by (cases x) (auto split: sum.splits if_splits)
next
  case (Admitted x)
  with assms homed_get_phase show ?thesis by (auto split: sum.splits option.splits)
next
  case (Written x)
  with assms homed_get show ?thesis by (auto split: sum.splits option.splits if_splits)
next
  case (Due_Check r)
  with assms show ?thesis by (auto split: prod.splits bool.splits)
next
  case (Predicting r)
  with assms probe_once_valid probe_once_finite show ?thesis by (auto split: sum.splits)
qed (use assms in \<open>auto split: sum.splits\<close>)

lemma members_finite: "co_svc K = E \<Longrightarrow> finite (pool_members K R)"
  and members_count: "co_svc K = E \<Longrightarrow> record_count E R (co_domain K) = Inr n \<Longrightarrow> n = card (pool_members K R)"
  by (use r.finite_keys in \<open>auto simp: pool_members_def r.len_get record_count_def pool_for_def split: if_splits\<close>)

text \<open>A task is let through for an endpoint that is stored, or for a pool that has room.\<close>

lemma ingest_step_admits:
  assumes "co_svc K = E" and "ingest_step K src e p s = (p', s')" and "admitted p'" and "\<not> admitted p"
  shows "is_repo s' = is_repo s \<and>
    (canonical e \<in> pool_members K (is_repo s) \<or> (p = Looked None \<and> int (card (pool_members K (is_repo s))) < capacity_of K))"
proof (cases p)
  case Waiting
  with assms show ?thesis
    by (auto simp: admitted_def active_def pool_members_def get_record_def get_record_pool_def pool_for_def split: sum.splits if_splits option.splits)
next
  case (Looked x)
  show ?thesis
  proof (cases x)
    case None
    with Looked assms members_count [OF assms(1), of "is_repo s"] show ?thesis
      by (auto simp: admitted_def active_def split: sum.splits if_splits)
  qed (use Looked assms in \<open>auto simp: admitted_def active_def\<close>)
qed (use assms in \<open>auto simp: admitted_def active_def\<close>)

lemma ingest_step_active:
  "ingest_step K src e p s = (p', s') \<Longrightarrow> \<not> active p \<Longrightarrow> p \<noteq> Waiting \<Longrightarrow> p' = p"
  by (cases p) (auto simp: active_def)

end

lemma filter_update_length:
  assumes "i < length ps"
  shows "length (filter P (ps[i := x])) \<le> length (filter P ps) + (if P x \<and> \<not> P (ps ! i) then 1 else 0)"
proof -
  have "ps = take i ps @ ps ! i # drop (Suc i) ps" using assms by (rule id_take_nth_drop)
  then have "length (filter P ps) = length (filter P (take i ps)) + length (filter P [ps ! i]) + length (filter P (drop (Suc i) ps))"
    by (metis append_Cons append_Nil filter_append length_append add.assoc)
  with assms show ?thesis by (simp add: upd_conv_take_nth_drop)
qed

definition round_ok ::
  "('z, 'h, 'o, 's, 'p) collector \<Rightarrow> nat \<Rightarrow> task list \<Rightarrow> ('z, 'h, 'o, 's) ingest_state \<Rightarrow> phase list
     \<Rightarrow> ('z, 'h, 'o, 's) ingest_state \<Rightarrow> bool" where
  "round_ok K c ts s0 ps s \<longleftrightarrow>
     length ps = length ts \<and> length (filter active ps) \<le> c \<and> homed K (is_repo s) \<and>
     (\<forall>i < length ts. phase_ok K (snd (ts ! i)) (ps ! i)) \<and>
     int (card (pool_members K (is_repo s) \<union> pending ts ps))
       \<le> max (int (card (pool_members K (is_repo s0)))) (capacity_of K - 1 + int c)"

context pool_svc
begin

lemma pending_none: "pending ts (replicate (length ts) Waiting) = {}"
  by (auto simp: pending_def admitted_def active_def)

lemma round_ok_step:
  assumes "round_ok K c ts s0 ps s" and "co_svc K = E" and "i < length ts" and "task_ok K (snd (ts ! i))"
    and "active (ps ! i) \<or> length (filter active ps) < c"
    and "ingest_step K (fst (ts ! i)) (snd (ts ! i)) (ps ! i) s = (p', s')"
  shows "round_ok K c ts s0 (ps[i := p']) s'"
proof -
  let ?e = "snd (ts ! i)" and ?ps = "ps[i := p']"
  let ?U = "pool_members K (is_repo s) \<union> pending ts ps"
  from assms(1) have len: "length ps = length ts" and act: "length (filter active ps) \<le> c" and h: "homed K (is_repo s)"
    and ph: "\<forall>j < length ts. phase_ok K (snd (ts ! j)) (ps ! j)"
    and U: "int (card ?U) \<le> max (int (card (pool_members K (is_repo s0)))) (capacity_of K - 1 + int c)"
    by (auto simp: round_ok_def)
  have keeps: "homed K (is_repo s')" "phase_ok K ?e p'"
    "pool_members K (is_repo s') \<subseteq> pool_members K (is_repo s) \<union> (if admitted (ps ! i) then {canonical ?e} else {})"
    using ingest_step_keeps [OF h assms(2,4) _ assms(6)] ph assms(3) by auto
  have act': "length (filter active ?ps) \<le> c"
    using filter_update_length [of i ps active p'] len assms(3,5) act by (auto split: if_splits)
  have fin: "finite ?U" using members_finite [OF assms(2)] pending_card [OF len] by blast
  have old: "canonical ?e \<in> pending ts ps" if "admitted (ps ! i)" using that assms(3) by (auto simp: pending_def)
  have "int (card (pool_members K (is_repo s') \<union> pending ts ?ps)) \<le> max (int (card (pool_members K (is_repo s0)))) (capacity_of K - 1 + int c)"
  proof (cases "admitted p' \<and> \<not> admitted (ps ! i) \<and> canonical ?e \<notin> pool_members K (is_repo s)")
    case False
    then have "pool_members K (is_repo s') \<union> pending ts ?ps \<subseteq> ?U"
      using keeps(3) pending_update [OF len assms(3), of p'] old by (auto split: if_splits)
    with card_mono [OF fin this] U show ?thesis by linarith
  next
    case True
    then have room: "is_repo s' = is_repo s" "int (card (pool_members K (is_repo s))) < capacity_of K"
      using ingest_step_admits [OF assms(2,6)] by auto
    have "card (pending ts ?ps) \<le> c" using pending_card [of ?ps ts] len act' by simp
    with room card_Un_le [of "pool_members K (is_repo s)" "pending ts ?ps"] show ?thesis by simp
  qed
  moreover have "\<forall>j < length ts. phase_ok K (snd (ts ! j)) (?ps ! j)"
    using keeps(2) ph assms(3) len by (simp add: nth_list_update)
  ultimately show ?thesis using len act' keeps(1) by (simp add: round_ok_def)
qed

lemma round_ok_less:
  assumes "round_ok K c ts s0 ps s" and "co_svc K = E" and "length ps' = length ps"
    and "length (filter active ps') \<le> length (filter active ps)" and "homed K R"
    and "\<forall>i < length ts. phase_ok K (snd (ts ! i)) (ps' ! i)"
    and "pool_members K R \<subseteq> pool_members K (is_repo s)" and "pending ts ps' \<subseteq> pending ts ps"
  shows "round_ok K c ts s0 ps' (s\<lparr>is_repo := R\<rparr>)"
proof -
  have "finite (pool_members K (is_repo s) \<union> pending ts ps)"
    using assms(1,2) members_finite pending_card by (auto simp: round_ok_def)
  from card_mono [OF this, of "pool_members K R \<union> pending ts ps'"] assms(7,8)
  have "card (pool_members K R \<union> pending ts ps') \<le> card (pool_members K (is_repo s) \<union> pending ts ps)" by blast
  with assms show ?thesis by (auto simp: round_ok_def)
qed

lemma round_ok_run:
  assumes "ingest_run K c ts s0 ps s" and "co_svc K = E" and "homed K (is_repo s0)" and "\<forall>t \<in> set ts. task_ok K (snd t)"
  shows "round_ok K c ts s0 ps s"
  using assms(1)
proof induction
  case spawned
  have "filter active (replicate n Waiting) = []" for n by (induction n) (auto simp: active_def)
  with assms(3) show ?case by (simp add: round_ok_def pending_none)
next
  case (stepped ps s i p' s')
  with round_ok_step assms(2,4) nth_mem show ?case by blast
next
  case (cancelled ps s i)
  let ?b = "Broken (RuntimeError ''cancelled'')"
  have "pending ts (ps[i := ?b]) \<subseteq> pending ts ps"
    using cancelled pending_update [of ps ts i ?b] by (simp add: round_ok_def admitted_def active_def)
  moreover have "length (filter active (ps[i := ?b])) \<le> length (filter active ps)"
    using cancelled filter_update_length [of i ps active ?b] by (simp add: round_ok_def active_def)
  ultimately have "round_ok K c ts s0 (ps[i := ?b]) (s\<lparr>is_repo := is_repo s\<rparr>)"
    using cancelled assms(2) by (intro round_ok_less [of K c ts s0 ps]) (auto simp: round_ok_def nth_list_update)
  then show ?case by simp
next
  case (removed ps s R)
  with assms(2) show ?case by (intro round_ok_less [of K c ts s0 ps]) (auto simp: round_ok_def)
qed

end

text \<open>
  C27: However the ingestions of a round interleave, with at most \<open>c\<close> of them under way at a time
  and with other processes removing records meanwhile, the pool of the domain never exceeds its
  capacity (with the allowance of a forced refresh) by more than \<open>c - 1\<close> records, or stays at
  what it had.
\<close>

theorem pool_overshoot_bounded:
  assumes "pool_svc (co_svc K)" and "ingest_run K c ts s0 ps s" and "homed K (is_repo s0)"
    and "\<forall>t \<in> set ts. valid_endpoint (snd t)" and "1 \<le> length (co_domain K)" and "length (co_domain K) \<le> 253"
  shows "int (h_len (rh (co_svc K)) (records (pools (is_repo s) (co_domain K))))
    \<le> max (int (h_len (rh (co_svc K)) (records (pools (is_repo s0) (co_domain K))))) (capacity_of K - 1 + int c)"
proof -
  have len: "h_len (rh (co_svc K)) (records (pools R (co_domain K))) = card (pool_members K R)" for R
    using pool_svc.members_count [OF assms(1) refl, of R] assms(5) by (cases "co_domain K") (simp_all add: record_count_def pool_for_def)
  have "round_ok K c ts s0 ps s"
    using pool_svc.round_ok_run [OF assms(1,2) refl assms(3)] assms(4-6) by (simp add: task_ok_def)
  then have "length ps = length ts" "int (card (pool_members K (is_repo s) \<union> pending ts ps))
      \<le> max (int (card (pool_members K (is_repo s0)))) (capacity_of K - 1 + int c)" by (simp_all add: round_ok_def)
  moreover from this(1) have "card (pool_members K (is_repo s)) \<le> card (pool_members K (is_repo s) \<union> pending ts ps)"
    using pool_svc.members_finite [OF assms(1) refl] pending_card by (intro card_mono) auto
  ultimately show ?thesis unfolding len by linarith
qed

text \<open>Steps in a given order, and a pool of capacity 1 that two concurrent tasks fill with 2 records.\<close>

fun in_order ::
  "('z, 'h, 'o, 's, 'p) collector \<Rightarrow> task list \<Rightarrow> nat list \<Rightarrow> phase list \<times> ('z, 'h, 'o, 's) ingest_state
     \<Rightarrow> phase list \<times> ('z, 'h, 'o, 's) ingest_state" where
  "in_order K ts [] x = x"
| "in_order K ts (i # is) (ps, s) =
     (case ingest_step K (fst (ts ! i)) (snd (ts ! i)) (ps ! i) s of (p', s') \<Rightarrow> in_order K ts is (ps[i := p'], s'))"

lemma in_order_run:
  "ingest_run K c ts s0 ps s \<Longrightarrow> length ps = length ts \<Longrightarrow> \<forall>i \<in> set is. i < length ts \<and> (active (ps ! i) \<or> length ts \<le> c) \<Longrightarrow>
    length ts \<le> c \<Longrightarrow> in_order K ts is (ps, s) = (ps', s') \<Longrightarrow> ingest_run K c ts s0 ps' s'"
proof (induction "is" arbitrary: ps s)
  case (Cons i "is")
  obtain p1 s1 where st: "ingest_step K (fst (ts ! i)) (snd (ts ! i)) (ps ! i) s = (p1, s1)" by fastforce
  have "active (ps ! i) \<or> length (filter active ps) < c"
  proof (cases "active (ps ! i)")
    case False
    with Cons.prems have "length (filter active ps) < length ps" by (intro length_filter_less [of "ps ! i"]) auto
    with Cons.prems show ?thesis by simp
  qed simp
  with Cons.prems st have "ingest_run K c ts s0 (ps[i := p1]) s1" by (intro ingest_run.stepped) auto
  with Cons st show ?case by simp
qed simp

definition w_readers :: page_readers where
  "w_readers = \<lparr>pr_loads = (\<lambda>_. None), pr_text = (\<lambda>_. []), pr_findall = (\<lambda>_ s. [s]), pr_rows = (\<lambda>_ _ _ _. None),
     pr_labels = (\<lambda>_ _. None), pr_parse = (\<lambda>s. Some \<lparr>host = s, host_version = 4, port = 80\<rparr>)\<rparr>"

definition w_collector ::
  "(ref_zset, (member \<times> proxy_record) list, (member \<times> string) list, member list, proxy_record) collector" where
  "w_collector =
     \<lparr>co_svc = ref_svc, co_max_latency = 5000, co_domain = ''d'', co_now = 10, co_redis_now = 10,
      co_target = \<lparr>t_name = ''t'', t_domain = ''d'', expected_statuses = {200}, expected_text = None, json_keys = []\<rparr>,
      co_client = (\<lambda>_ _. (Transport_Failed ''ConnectError'' ''refused'', 1)), co_jitter = (\<lambda>lo hi. lo), co_failure_ttl = 60,
      co_capacity = 1, co_overflow = 0, co_force = False, co_max_pages = 3, co_max_round = 5, co_is_global = (\<lambda>_. True),
      co_networks = [], co_readers = w_readers, co_sha = id, co_prefix = ''p'', co_show_time = (\<lambda>_. ''t''),
      co_read_time = (\<lambda>_. Some 10), co_max_bytes = 100, co_attempts = 3, co_net = (\<lambda>_ _. No_Answer_Timeout)\<rparr>"

definition w_tasks :: "task list" where
  "w_tasks = [(''s'', \<lparr>host = ''a'', host_version = 4, port = 80\<rparr>), (''s'', \<lparr>host = ''b'', host_version = 4, port = 80\<rparr>)]"

definition w_ingest ::
  "(ref_zset, (member \<times> proxy_record) list, (member \<times> string) list, member list) ingest_state" where
  "w_ingest = \<lparr>is_repo = \<lparr>domains = [], pools = (\<lambda>_. empty_pool ref_svc)\<rparr>, is_failures = (\<lambda>_. z_empty ref_zset_api), is_run = fresh_run\<rparr>"

lemma w_overfull:
  "\<exists>ps s. in_order w_collector w_tasks [0, 1, 0, 1, 0, 1, 0, 1] ([Waiting, Waiting], w_ingest) = (ps, s) \<and>
     h_len ref_hash_api (records (pools (is_repo s) ''d'')) = 2"
  by (simp add: w_collector_def w_tasks_def w_ingest_def get_record_def get_record_pool_def record_count_def pool_for_def
      capacity_of_def upsert_write_def insert_candidate_def on_pool_def new_candidate_def empty_pool_def ref_svc_eval
      canonical_def sample_port Let_def)

theorem pool_overshoot_bounded_witness:
  "\<exists>ps s. ingest_run w_collector 2 w_tasks w_ingest ps s \<and> capacity_of w_collector = 1 \<and>
     h_len ref_hash_api (records (pools (is_repo s) ''d'')) = 2 \<and>
     int (h_len ref_hash_api (records (pools (is_repo s) ''d''))) \<le> 2"
proof -
  obtain ps s where run: "in_order w_collector w_tasks [0, 1, 0, 1, 0, 1, 0, 1] ([Waiting, Waiting], w_ingest) = (ps, s)"
    and two: "h_len ref_hash_api (records (pools (is_repo s) ''d'')) = 2" using w_overfull by blast
  have len: "length w_tasks = 2" by (simp add: w_tasks_def)
  have "ingest_run w_collector 2 w_tasks w_ingest [Waiting, Waiting] w_ingest"
    using ingest_run.spawned [of w_collector 2 w_tasks w_ingest] by (simp add: len numeral_2_eq_2)
  from in_order_run [OF this _ _ _ run] have r: "ingest_run w_collector 2 w_tasks w_ingest ps s" by (simp add: len)
  have svc: "pool_svc (co_svc w_collector)" by (simp add: w_collector_def ref_svc_pool)
  have "homed w_collector (is_repo w_ingest)"
    by (simp add: homed_def w_collector_def w_ingest_def empty_pool_def ref_svc_eval)
  moreover have "\<forall>t \<in> set w_tasks. valid_endpoint (snd t)" by (simp add: w_tasks_def valid_endpoint_def)
  moreover have "co_domain w_collector = ''d''" "capacity_of w_collector = 1" "co_svc w_collector = ref_svc"
    by (simp_all add: w_collector_def capacity_of_def)
  ultimately have "int (h_len ref_hash_api (records (pools (is_repo s) ''d''))) \<le> 2"
    using pool_overshoot_bounded [OF svc r] by (simp add: w_ingest_def empty_pool_def ref_svc_eval)
  moreover have "capacity_of w_collector = 1" by (simp add: w_collector_def capacity_of_def)
  ultimately show ?thesis using r two by blast
qed

section \<open>What a source may contribute\<close>

lemma valid_unique_distinct:
  "distinct (map canonical (valid_unique parse cs seen)) \<and> canonical ` set (valid_unique parse cs seen) \<inter> seen = {}"
  by (induction cs arbitrary: seen) (auto split: option.splits)

lemma keep_endpoints_ok:
  assumes "keep_endpoints allowed limit es kept bad = (kept', bad')"
    and "distinct (map canonical kept)" and "\<forall>e \<in> set kept. allowed e \<and> Q e" and "length kept < max 1 limit"
    and "\<forall>e \<in> set es. Q e"
  shows "distinct (map canonical kept') \<and> (\<forall>e \<in> set kept'. allowed e \<and> Q e) \<and> length kept' \<le> max 1 limit"
  using assms
proof (induction es arbitrary: kept bad)
  case (Cons e es)
  show ?case
  proof (cases "canonical e \<notin> canonical ` set kept \<and> allowed e")
    case False
    then obtain b where "keep_endpoints allowed limit es kept b = (kept', bad')"
      using Cons.prems(1) by (cases "canonical e \<in> canonical ` set kept") simp_all
    from Cons.IH [OF this Cons.prems(2-4)] Cons.prems(5) show ?thesis by simp
  next
    case True
    then have d: "distinct (map canonical (kept @ [e]))" using Cons.prems(2) by simp
    have a: "\<forall>x \<in> set (kept @ [e]). allowed x \<and> Q x" using True Cons.prems(3,5) by simp
    show ?thesis
    proof (cases "limit \<le> length (kept @ [e])")
      case full: True
      with True Cons.prems(1) have "kept' = kept @ [e]" by simp
      with d a Cons.prems(4) show ?thesis by simp
    next
      case False
      with True Cons.prems(1) have "keep_endpoints allowed limit es (kept @ [e]) bad = (kept', bad')" by simp
      from Cons.IH [OF this d a] False Cons.prems(5) show ?thesis by simp
    qed
  qed
qed simp

lemma keep_payloads_ok:
  assumes "keep_payloads parse allowed limit ps kept run = (kept', run')"
    and "distinct (map canonical kept)" and "\<forall>e \<in> set kept. allowed e \<and> (\<exists>p. e \<in> set (parse p))" and "length kept < max 1 limit"
  shows "distinct (map canonical kept') \<and> (\<forall>e \<in> set kept'. allowed e \<and> (\<exists>p. e \<in> set (parse p))) \<and> length kept' \<le> max 1 limit"
  using assms
proof (induction ps arbitrary: kept run)
  case (Cons p ps)
  show ?case
  proof (cases p)
    case None
    with Cons.prems(1) have "keep_payloads parse allowed limit ps kept run = (kept', run')" by simp
    from Cons.IH [OF this Cons.prems(2-4)] show ?thesis .
  next
    case (Some payload)
    obtain k bad where k: "keep_endpoints allowed limit (parse payload) kept 0 = (k, bad)" by fastforce
    have "\<forall>e \<in> set (parse payload). \<exists>p. e \<in> set (parse p)" by (intro ballI exI)
    note ok = keep_endpoints_ok [OF k Cons.prems(2-4) this]
    show ?thesis
    proof (cases "limit \<le> length k")
      case True
      with Some k Cons.prems(1) have "kept' = k" by (simp add: Let_def)
      with ok show ?thesis by simp
    next
      case False
      with Some k Cons.prems(1) obtain r where "keep_payloads parse allowed limit ps k r = (kept', run')"
        by (simp add: Let_def)
      from Cons.IH [OF this conjunct1 [OF ok] conjunct1 [OF conjunct2 [OF ok]]] False show ?thesis by simp
    qed
  qed
qed simp

text \<open>Loading pages leaves the health of the sources alone.\<close>

lemma load_page_health: "load_page K u st = (st', x) \<Longrightarrow> ps_health st' = ps_health st"
  by (auto simp: load_page_def Let_def split: prod.splits if_splits option.splits sum.splits)

lemma noted_health [simp]: "ps_health (note_hit hit st) = ps_health st" "ps_health (note_error st) = ps_health st"
  by (simp_all add: note_hit_def note_error_def)

lemma load_pages_health: "load_pages K us st = (st', xs) \<Longrightarrow> ps_health st' = ps_health st"
proof (induction us arbitrary: st xs)
  case (Cons u us)
  obtain s x where l: "load_page K u st = (s, x)" by fastforce
  from load_page_health [OF l] Cons l show ?case
    by (cases x) (auto simp: Let_def split: prod.splits)
qed simp

lemma pages_of_health: "pages_of K src p st = (st', x) \<Longrightarrow> ps_health st' = ps_health st"
  by (auto simp: pages_of_def Let_def split: prod.splits option.splits sum.splits)

lemma source_failed_Inr:
  "source_failed K src st = (st', Inr eps) \<Longrightarrow> eps = [] \<and>
    (\<exists>delay. record_source_failure (co_jitter K) (so_name src) (co_now K) (ps_health st) = Inr (ps_health st', delay))"
  by (auto simp: source_failed_def split: sum.splits prod.splits)

lemma record_success_Inr: "record_source_success n H = Inr H' \<Longrightarrow> H' = H(n := None)"
  by (auto simp: record_source_success_def split: if_splits)

text \<open>The three ways a source is done with.\<close>

lemma collect_source_cases:
  assumes "collect_source K d src st = (st', Inr eps)"
  shows "can_run (so_name src) (co_now K) (ps_health st) = Inr False \<and> st' = st \<and> eps = []
    \<or> can_run (so_name src) (co_now K) (ps_health st) = Inr True \<and> eps = [] \<and>
      (\<exists>delay. record_source_failure (co_jitter K) (so_name src) (co_now K) (ps_health st) = Inr (ps_health st', delay))
    \<or> can_run (so_name src) (co_now K) (ps_health st) = Inr True \<and> eps \<noteq> [] \<and> ps_health st' = (ps_health st)(so_name src := None) \<and>
      (\<exists>ps run run'. keep_payloads (parse_source (co_readers K) src) (endpoint_allowed K) (co_max_round K) ps [] run = (eps, run'))"
proof (cases "can_run (so_name src) (co_now K) (ps_health st)")
  case (Inr ok)
  obtain s1 x where l: "load_page K (hd (so_urls src)) st = (s1, x)" by fastforce
  note h1 = load_page_health [OF l]
  show ?thesis
  proof (cases x)
    case (Inl e)
    with assms Inr l h1 source_failed_Inr [of K src "note_error s1" st' eps] show ?thesis
      by (auto simp: collect_source_def split: if_splits bool.splits)
  next
    case x: (Inr y)
    obtain first hit where y: "y = (first, hit)" by fastforce
    obtain s2 z where p: "pages_of K src (dl_payload first) (note_hit hit s1) = (s2, z)" by fastforce
    obtain s3 rest where r: "load_pages K (tl (projr z)) s2 = (s3, rest)" by fastforce
    obtain k run where k: "keep_payloads (parse_source (co_readers K) src) (endpoint_allowed K) (co_max_round K)
        (Some (dl_payload first) # rest) [] (ps_run s3) = (k, run)" by fastforce
    have h3: "ps_health s3 = ps_health st"
      using load_pages_health [OF r] pages_of_health [OF p] h1 by simp
    show ?thesis
      using assms Inr l x y p r k h3 source_failed_Inr [of K src "s3\<lparr>ps_run := run\<rparr>" st' eps]
      by (auto simp: collect_source_def Let_def simp del: keep_payloads.simps dest: record_success_Inr split: if_splits bool.splits sum.splits)
  qed
qed (use assms in \<open>simp add: collect_source_def split: if_splits\<close>)

definition draws :: "(int \<Rightarrow> int \<Rightarrow> int) \<Rightarrow> bool" where
  "draws jitter \<longleftrightarrow> (\<forall>lo hi. lo \<le> hi \<longrightarrow> lo \<le> jitter lo hi \<and> jitter lo hi \<le> hi)"

lemma backoff_base_bounds: "30 \<le> backoff_base n" "backoff_base n \<le> 600" "5 \<le> n \<Longrightarrow> backoff_base n = 600"
proof -
  have "min (n - 1) 4 \<in> {0, 1, 2, 3, 4}" by auto
  then show "30 \<le> backoff_base n" "backoff_base n \<le> 600" by (auto simp: backoff_base_def backoff_seconds_def)
  show "backoff_base n = 600" if "5 \<le> n"
  proof -
    have "min (n - 1) 4 = 4" using that by simp
    then show ?thesis by (simp add: backoff_base_def backoff_seconds_def)
  qed
qed

lemma record_source_failure_Inr:
  assumes "record_source_failure jitter name now H = Inr (H', delay)" and "draws jitter"
  shows "\<exists>n. n = (case H name of None \<Rightarrow> 0 | Some h \<Rightarrow> failure_tally h) + 1 \<and>
    H' = H(name \<mapsto> \<lparr>failure_tally = n, retry_at = Some (now + of_int delay)\<rparr>) \<and>
    backoff_base n \<le> delay \<and> 5 * delay \<le> 6 * backoff_base n \<and> delay \<le> 600"
proof -
  define n where "n = (case H name of None \<Rightarrow> 0 | Some h \<Rightarrow> failure_tally h) + 1"
  define base where "base = backoff_base n"
  define hi where "hi = min 600 (max base (base * 6 div 5))"
  have "30 \<le> base" "base \<le> 600" by (simp_all add: base_def backoff_base_bounds)
  then have hi: "base \<le> hi" "5 * hi \<le> 6 * base" "hi \<le> 600" by (auto simp: hi_def)
  from assms(1) have d: "delay = jitter base hi"
    "H' = H(name \<mapsto> \<lparr>failure_tally = n, retry_at = Some (now + of_int delay)\<rparr>)"
    by (auto simp: record_source_failure_def Let_def base_def n_def hi_def split: if_splits)
  have "base \<le> delay" "delay \<le> hi" using assms(2) hi(1) d(1) by (auto simp: draws_def)
  with hi have "base \<le> delay" "5 * delay \<le> 6 * base" "delay \<le> 600" by linarith+
  with d(2) show ?thesis by (intro exI [of _ n]) (simp add: base_def, simp add: n_def)
qed


definition w_regex :: source_def where
  "w_regex = \<lparr>so_name = ''s'', so_region = Foreign, so_urls = [''u''], so_max_pages = 2, so_rate = 1, so_pagination = None,
     so_kind = Regex_Source ''x''\<rparr>"

lemma w_collected:
  "\<exists>st'. collect_source w_collector ''d'' w_regex \<lparr>ps_cache = (\<lambda>_. None), ps_health = (\<lambda>_. None), ps_run = fresh_run\<rparr> = (st', Inr [])"
  by (simp add: collect_source_def w_collector_def w_regex_def can_run_def load_page_def cached_value_def fetch.simps
      attempt_fetch_def eval_nat_numeral source_failed_def record_source_failure_def note_error_def Let_def)

lemma w_draws: "draws (co_jitter w_collector)"
  by (simp add: draws_def w_collector_def)


text \<open>
  A failing source backs off by steps: the delay of its n-th failure in a row is at least the
  n-th of 30, 60, 120, 300 and 600 seconds (600 from the fifth on), at most a fifth more, and never
  above 600; until then it may not run, from then on it may, and a success clears it.
\<close>

lemma failing_source_backs_off:
  assumes "record_source_failure jitter name now H = Inr (H', delay)" and "draws jitter"
  shows "\<exists>h. H' name = Some h \<and> failure_tally h = (case H name of None \<Rightarrow> 0 | Some h \<Rightarrow> failure_tally h) + 1
    \<and> backoff_base (failure_tally h) \<le> delay \<and> 5 * delay \<le> 6 * backoff_base (failure_tally h)
    \<and> 30 \<le> delay \<and> delay \<le> 600 \<and> (5 \<le> failure_tally h \<longrightarrow> delay = 600)
    \<and> (\<forall>t. can_run name t H' = Inr (now + of_int delay \<le> t))
    \<and> (\<exists>H''. record_source_success name H' = Inr H'' \<and> H'' = H(name := None) \<and> (\<forall>t. can_run name t H'' = Inr True))"
proof -
  from record_source_failure_Inr [OF assms] obtain n where n: "n = (case H name of None \<Rightarrow> 0 | Some h \<Rightarrow> failure_tally h) + 1"
    and H': "H' = H(name \<mapsto> \<lparr>failure_tally = n, retry_at = Some (now + of_int delay)\<rparr>)"
    and d: "backoff_base n \<le> delay" "5 * delay \<le> 6 * backoff_base n" "delay \<le> 600" by blast
  have "name \<noteq> []" using assms(1) by (auto simp: record_source_failure_def)
  moreover have "30 \<le> delay" "5 \<le> n \<longrightarrow> delay = 600" using d backoff_base_bounds [of n] by auto
  ultimately show ?thesis using d n
    by (intro exI [of _ "\<lparr>failure_tally = n, retry_at = Some (now + of_int delay)\<rparr>"])
       (simp add: H' can_run_def record_source_success_def)
qed

lemma failing_source_backs_off_witness:
  "\<exists>H'. record_source_failure (\<lambda>lo hi. hi) ''s'' 100 (\<lambda>_. Some \<lparr>failure_tally = 1, retry_at = Some 50\<rparr>) = Inr (H', 72) \<and>
     can_run ''s'' 171 H' = Inr False \<and> can_run ''s'' 172 H' = Inr True"
proof -
  obtain H' where run: "record_source_failure (\<lambda>lo hi. hi) ''s'' 100 (\<lambda>_. Some \<lparr>failure_tally = 1, retry_at = Some 50\<rparr>) = Inr (H', 72)"
    by (simp add: record_source_failure_def backoff_base_def backoff_seconds_def Let_def)
  have "draws (\<lambda>lo hi. hi)" by (simp add: draws_def)
  from failing_source_backs_off [OF run this] run show ?thesis by auto
qed

section \<open>What a source costs\<close>

lemma starts_with_append [simp]: "starts_with p (p @ s)"
  by (simp add: starts_with_def)

text \<open>Replacing the page number leaves a scheme alone.\<close>

lemma replace_page_prefix: "CHR ''{'' \<notin> set p \<Longrightarrow> starts_with p s \<Longrightarrow> starts_with p (replace_page r s)"
proof (induction p arbitrary: s)
  case (Cons c p)
  then obtain cs where s: "s = c # cs" "starts_with p cs" by (cases s) (auto simp: starts_with_def)
  have "c \<noteq> CHR ''{''" using Cons.prems(1) by auto
  then have "replace_page r s = c # replace_page r cs" by (simp add: s(1))
  with Cons.IH [OF _ s(2)] Cons.prems(1) show ?case by (simp add: starts_with_def)
qed (simp add: starts_with_def)

lemma announced_pages_positive: "announced_pages loads labels p payload = Inr (Some n) \<Longrightarrow> 1 \<le> n"
proof -
  have step: "1 \<le> fold max ns m" if "1 \<le> m" for m :: int and ns using that by (induction ns arbitrary: m) auto
  have kept: "n \<in> set (List.map_filter (\<lambda>l. Option.bind (py_int l) keep_positive) ls) \<Longrightarrow> 1 \<le> n" for n ls
    by (auto simp: List.map_filter_def keep_positive_def split: if_splits bind_splits)
  assume "announced_pages loads labels p payload = Inr (Some n)"
  with step kept show ?thesis
    by (auto simp: announced_pages_def split: pagination_kind.splits option.splits json.splits sum.splits if_splits list.splits)
       (metis list.set_intros(1))
qed

text \<open>
  However many pages the first payload announces, a source costs between one page and the
  smaller of its own and the global limit, and the first is its first configured URL. Every page
  is HTTPS: a configured URL, or the template of the source with the number of the page.
\<close>

lemma discovered_pages_bounded:
  assumes "valid_source src" and "discover_pages loads labels src payload global_max = Inr us"
  shows "us \<noteq> [] \<and> int (length us) \<le> min (so_max_pages src) global_max \<and> hd us = hd (so_urls src)
    \<and> (\<forall>u \<in> set us. starts_with ''https://'' u)
    \<and> (\<forall>p k. so_pagination src = Some p \<and> 0 < k \<and> k < length us \<longrightarrow> us ! k = replace_page (str_nat (k + 1)) (pg_template p))"
proof -
  define cap where "cap = min (so_max_pages src) global_max"
  have cap: "1 \<le> cap" and urls: "so_urls src \<noteq> []" "\<forall>u \<in> set (so_urls src). starts_with ''https://'' u"
    using assms by (auto simp: cap_def valid_source_def discover_pages_def split: if_splits)
  show ?thesis
  proof (cases "so_pagination src")
    case None
    with assms(2) have "us = take (nat cap) (so_urls src)" by (auto simp: discover_pages_def cap_def Let_def split: if_splits)
    with None cap urls show ?thesis by (auto simp: cap_def [symmetric] dest: in_set_takeD) 
  next
    case (Some p)
    have p: "starts_with ''https://'' (pg_template p)" using assms(1) Some by (simp add: valid_source_def valid_pagination_def)
    show ?thesis
    proof (cases "us = [hd (so_urls src)]")
      case True
      with cap urls show ?thesis by (simp add: cap_def)
    next
      case False
      then obtain n where n: "announced_pages loads labels p payload = Inr (Some n)" and
        us: "us = (map (\<lambda>k. replace_page (str_nat k) (pg_template p)) [1..<nat (min n cap) + 1])[0 := hd (so_urls src)]"
        using assms(2) Some by (auto simp: discover_pages_def cap_def Let_def split: if_splits sum.splits option.splits)
      define m where "m = nat (min n cap)"
      have m: "1 \<le> m" "int m \<le> cap" using announced_pages_positive [OF n] cap by (auto simp: m_def)
      have len: "length us = m" using m(1) by (simp add: us m_def [symmetric])
      have nth: "us ! k = (if k = 0 then hd (so_urls src) else replace_page (str_nat (k + 1)) (pg_template p))" if "k < m" for k
      proof -
        have "map (\<lambda>k. replace_page (str_nat k) (pg_template p)) [1..<m + 1] ! k = replace_page (str_nat (1 + k)) (pg_template p)"
          using that by (intro nth_map_upt) simp
        with that show ?thesis by (simp only: us m_def [symmetric]) (simp add: nth_list_update del: upt_Suc)
      qed
      have "starts_with ''https://'' (us ! k)" if "k < m" for k
        using nth [OF that] urls p by (auto intro!: replace_page_prefix)
      moreover have "us \<noteq> []" using len m(1) by auto
      moreover have "hd us = hd (so_urls src)" using nth [of 0] m(1) len \<open>us \<noteq> []\<close> by (simp add: hd_conv_nth)
      ultimately show ?thesis using len m nth Some
        by (auto simp: cap_def [symmetric] in_set_conv_nth)
    qed
  qed
qed

lemma w_regex_pages: "discover_pages (\<lambda>_. None) (\<lambda>_ _. None) (default_sources ! 1) ''x'' 3
    = Inr [''https://raw.githubusercontent.com/TheSpeedX/PROXY-List/master/http.txt'']"
  by (simp add: discover_pages_def default_sources_def regex_source_def Let_def)

lemma discovered_pages_bounded_witness:
  "\<exists>us. discover_pages (\<lambda>_. Some (J_Object [(''total'', J_Int 1000000), (''limit'', J_Int 5)])) (\<lambda>_ _. None) (default_sources ! 0) ''x'' 3 = Inr us
     \<and> length us \<le> 3 \<and> (\<forall>u \<in> set us. starts_with ''https://'' u)"
proof -
  let ?loads = "\<lambda>_. Some (J_Object [(''total'', J_Int 1000000), (''limit'', J_Int 5)])"
  have "page_quotient 1000000 5 = Inr 200000" by (simp add: page_quotient_def Let_def)
  then obtain us where run: "discover_pages ?loads (\<lambda>_ _. None) (default_sources ! 0) ''x'' 3 = Inr us"
    by (simp add: discover_pages_def default_sources_def announced_pages_def keep_positive_def Let_def)
  have "valid_source (default_sources ! 0)"
    by (simp add: valid_source_def default_sources_def valid_pagination_def kind_ok_def geonode_url_def starts_with_def)
  from discovered_pages_bounded [OF this run] run show ?thesis by auto
qed

lemma read_chunks_bounded: "read_chunks n cs body = Some b \<Longrightarrow> length body \<le> n \<Longrightarrow> length b \<le> n"
  by (induction cs arbitrary: body) (auto split: if_splits)

lemma attempt_fetch_Returned:
  "attempt_fetch n now l x = Returned d \<Longrightarrow> length (dl_payload d) \<le> n \<and> (\<exists>r. x = Answer r \<and> 200 \<le> hr_status r \<and> hr_status r \<le> 299)"
  by (auto simp: attempt_fetch_def split: exchange.splits if_splits option.splits transfer.splits dest: read_chunks_bounded)

lemma attempt_fetch_last: "attempt_fetch n now True x \<noteq> Retry_Status"
  by (auto simp: attempt_fetch_def split: exchange.splits option.splits transfer.splits)

definition exhausted :: exn where
  "exhausted = RuntimeError ''source download exhausted retries''"

lemma attempt_fetch_exhausted: "attempt_fetch n now l x \<noteq> Raised exhausted"
  by (auto simp: attempt_fetch_def too_large_def exhausted_def split: exchange.splits option.splits transfer.splits)

text \<open>An exchange that is worth another request.\<close>

definition retried :: "exchange \<Rightarrow> bool" where
  "retried x \<longleftrightarrow> (case x of No_Answer_Timeout \<Rightarrow> True | No_Answer_Error \<Rightarrow> False
     | Answer r \<Rightarrow> hr_status r \<in> retry_statuses \<or> hr_end r = Cut_Timeout)"

lemma attempt_fetch_again: "attempt_fetch n now l x \<in> {Retry_Status, Timed_Out} \<Longrightarrow> retried x"
  by (auto simp: attempt_fetch_def retried_def split: exchange.splits if_splits option.splits transfer.splits)

lemma fetch_again:
  "left \<noteq> 0 \<Longrightarrow> attempt_fetch b now (left = 0) (net n) \<in> {Retry_Status, Timed_Out} \<Longrightarrow>
     fetch b now (Suc left) n net = (case fetch b now left (Suc n) net of (k, sleeps, r) \<Rightarrow> (Suc k, 2 ^ n # sleeps, r))"
  by (auto split: prod.splits)

lemma fetch_bounds:
  assumes "fetch b now left n net = (k, sleeps, r)" and "0 < left"
  shows "1 \<le> k \<and> k \<le> left \<and> sleeps = map (\<lambda>i. 2 ^ i) [n..<n + k - 1] \<and> (\<forall>i < k - 1. retried (net (n + i)))
    \<and> r \<noteq> Inl exhausted \<and> (\<forall>d. r = Inr d \<longrightarrow> length (dl_payload d) \<le> b \<and>
        (\<exists>a. net (n + k - 1) = Answer a \<and> 200 \<le> hr_status a \<and> hr_status a \<le> 299))"
  using assms
proof (induction left arbitrary: n k sleeps)
  case (Suc left)
  let ?a = "attempt_fetch b now (left = 0) (net n)"
  show ?case
  proof (cases "left \<noteq> 0 \<and> ?a \<in> {Retry_Status, Timed_Out}")
    case False
    then have "k = 1 \<and> sleeps = [] \<and> r \<noteq> Inl exhausted \<and> (\<forall>d. r = Inr d \<longrightarrow> ?a = Returned d)"
      using Suc.prems(1) attempt_fetch_last [of b now "net n"] attempt_fetch_exhausted [of b now "left = 0" "net n"]
      by (cases ?a; auto simp: exhausted_def Let_def split: if_splits)
    with attempt_fetch_Returned show ?thesis by fastforce
  next
    case True
    obtain k' sl' r' where f: "fetch b now left (Suc n) net = (k', sl', r')" by (cases "fetch b now left (Suc n) net")
    with fetch_again [of left b now net n] True Suc.prems(1) have eq: "k = Suc k'" "sleeps = 2 ^ n # sl'" "r = r'" by auto
    note ih = Suc.IH [OF f [folded eq(3)]]
    have "[n..<n + k - 1] = n # [Suc n..<Suc n + k' - 1]" if "1 \<le> k'" using that eq(1) upt_conv_Cons [of n "n + k - 1"] by simp
    moreover have "retried (net (n + i))" if "i < k - 1" "\<forall>i < k' - 1. retried (net (Suc n + i))" for i
      using that attempt_fetch_again [of b now "left = 0" "net n"] True eq(1) by (cases i) auto
    ultimately show ?thesis using ih True eq by auto
  qed
qed simp

text \<open>
  A download makes at least one request and at most the configured number of attempts, waits
  1, 2, 4, ... seconds between them, and asks again only after a timeout or one of the statuses
  429, 502, 503 and 504. It returns a body only of a success status and never one above the
  byte limit, and the error of exhausted retries is never raised.
\<close>

lemma downloads_bounded:
  assumes "new_downloader max_bytes time_limit attempts = Inr (b, a)"
  shows "case fetch b now a 0 net of (k, sleeps, r) \<Rightarrow>
    1 \<le> k \<and> int k \<le> attempts \<and> sleeps = map (\<lambda>i. 2 ^ i) [0..<k - 1] \<and> (\<forall>i < k - 1. retried (net i))
    \<and> r \<noteq> Inl exhausted \<and> (\<forall>d. r = Inr d \<longrightarrow> int (length (dl_payload d)) \<le> max_bytes \<and>
        (\<exists>x. net (k - 1) = Answer x \<and> 200 \<le> hr_status x \<and> hr_status x \<le> 299))"
proof -
  obtain k sleeps r where f: "fetch b now a 0 net = (k, sleeps, r)" by (cases "fetch b now a 0 net")
  from assms have "0 < a" "int a = attempts" "int b = max_bytes" by (auto simp: new_downloader_def split: if_splits)
  with fetch_bounds [OF f] f show ?thesis by auto
qed

lemma downloads_bounded_witness:
  "new_downloader 10 5 3 = Inr (10, 3) \<and>
   (case fetch 10 7 3 0 (\<lambda>i. if i = 0 then No_Answer_Timeout else Answer \<lparr>hr_status = 200, hr_length = None, hr_type = None,
      hr_chunks = [''abc''], hr_end = Whole\<rparr>) of (k, sleeps, r) \<Rightarrow> int k \<le> 3 \<and> sleeps = map (\<lambda>i. 2 ^ i) [0..<k - 1])"
proof -
  have "new_downloader 10 5 3 = Inr (10, 3)" by (simp add: new_downloader_def)
  from downloads_bounded [OF this, where now = 7 and net = "\<lambda>i. if i = 0 then No_Answer_Timeout else Answer \<lparr>hr_status = 200, hr_length = None,
      hr_type = None, hr_chunks = [''abc''], hr_end = Whole\<rparr>"] this show ?thesis
    by (simp only: split_beta)
qed

section \<open>The page cache\<close>

lemma b64_std_val: "n < 64 \<Longrightarrow> b64_val (b64_std_char n) = Some n \<and> is_b64_std (b64_std_char n) \<and> b64_std_char n \<noteq> CHR ''=''"
proof -
  assume n: "n < 64"
  consider "n = 62" | "n = 63" | "n < 62" using n by linarith
  then show ?thesis
  proof cases
    case 3
    then have "(of_char (b64_char n) :: nat) \<noteq> of_char (CHR ''-'')" "(of_char (b64_char n) :: nat) \<noteq> of_char (CHR ''_'')"
      by (auto simp: of_b64_char)
    then have "b64_char n \<noteq> CHR ''-''" "b64_char n \<noteq> CHR ''_''" by auto
    with 3 b64_val_char [of n] b64_char_plain [of n] show ?thesis by (simp add: b64_std_char_def is_b64_std_def)
  qed (simp_all add: b64_std_char_def is_b64_std_def b64_val_def Let_def)
qed

lemma alphabet_std: "alphabet b64_std_char"
  using b64_std_val by (simp add: alphabet_def)

lemma padding_rest: "\<forall>c \<in> set (padding n). c = CHR ''=''" "n mod 4 \<noteq> 1 \<Longrightarrow> length (padding n) \<le> 2"
  "(n + length (padding n)) mod 4 = 0"
proof -
  show "\<forall>c \<in> set (padding n). c = CHR ''=''" by (simp add: padding_def)
  have l: "int (length (padding n)) = - int n mod 4" by (simp add: padding_def)
  show "length (padding n) \<le> 2" if "n mod 4 \<noteq> 1"
  proof -
    have "int n mod 4 \<noteq> 1" using that by presburger
    then have "- int n mod 4 \<le> 2" by presburger
    with l show ?thesis by linarith
  qed
  have "(int n + - int n mod 4) mod 4 = 0" by presburger
  with l have "int (n + length (padding n)) mod 4 = 0" by simp
  then show "(n + length (padding n)) mod 4 = 0" by presburger
qed

lemma length_sextets_mod: "length (sextets bs) mod 4 \<noteq> 1"
  by (induction bs rule: sextets.induct) (simp_all add: mod_Suc)

lemma b64_round_trip: "b64decode (b64encode v) = Some v"
proof -
  let ?xs = "sextets (map of_char v)" and ?eq = "\<lambda>c. c \<noteq> CHR ''=''"
  let ?t = "map b64_std_char ?xs"
  have small: "\<forall>x \<in> set ?xs. x < 64" by (rule sextets_small) auto
  with b64_std_val have t: "\<forall>c \<in> set ?t. is_b64_std c \<and> ?eq c" by auto
  have split: "takeWhile ?eq (?t @ padding n) = ?t" "dropWhile ?eq (?t @ padding n) = padding n" for n
  proof -
    have "takeWhile ?eq (padding n) = [] \<and> dropWhile ?eq (padding n) = padding n" by (cases "padding n") (use padding_rest(1) [of n] in auto)
    with t show "takeWhile ?eq (?t @ padding n) = ?t" "dropWhile ?eq (?t @ padding n) = padding n"
      by (simp_all add: takeWhile_append2 dropWhile_append2 del: set_map)
  qed
  have a: "a2b 0 0 0 (?t @ padding (length ?xs)) = Some (map of_char v)"
    using a2b_sextets [OF alphabet_std, of "map of_char v"] by simp
  have "b64encode v = ?t @ padding (length ?xs)" by (simp add: b64encode_def Let_def)
  moreover have "length (padding (length ?xs)) \<le> 2" "length (?t @ padding (length ?xs)) mod 4 = 0"
    using padding_rest(2,3) [of "length ?xs"] length_sextets_mod by simp_all
  ultimately show ?thesis
    using split [of "length ?xs"] padding_rest(1) [of "length ?xs"] t a by (simp add: b64decode_def Let_def comp_def)
qed

text \<open>What the page cache relies on: \<open>json.loads\<close> reads what the code printed, and so does \<open>fromisoformat\<close>.\<close>

definition reads_page :: "('z, 'h, 'o, 's, 'p) collector \<Rightarrow> download \<Rightarrow> bool" where
  "reads_page K d \<longleftrightarrow>
     co_read_time K (co_show_time K (dl_fetched d)) = Some (dl_fetched d) \<and>
     pr_loads (co_readers K) (print_page (co_show_time K) d) =
        Some (J_Object [(''payload'', J_Str (b64encode (dl_payload d))),
          (''content_type'', case dl_type d of None \<Rightarrow> J_Null | Some c \<Rightarrow> J_Str c),
          (''fetched_at'', J_Str (co_show_time K (dl_fetched d)))])"

lemma page_round_trip: "reads_page K d \<Longrightarrow> read_page (pr_loads (co_readers K)) (co_read_time K) (print_page (co_show_time K) d) = Some d"
  by (simp add: reads_page_def read_page_def b64_round_trip split: option.splits)

text \<open>
  A page is fetched once while its cache entry lives. After a load that fetched it, a load
  of the same URL less than 300 seconds later on the Redis clock, by any run that is not forced
  to refresh, gives the very same download, whatever its bytes, without a request.
\<close>

lemma loaded_page_is_cached:
  assumes "reads_page K d" and "load_page K url st = (st1, Inr (d, False))"
    and "ps_cache st2 = ps_cache st1" and "\<not> co_force K" and "now2 < co_redis_now K + 300"
  shows "load_page (K\<lparr>co_redis_now := now2\<rparr>) url st2 = (st2, Inr (d, True))"
proof -
  let ?key = "source_cache_key (co_sha K) (co_prefix K) url"
  from assms(2) have "ps_cache st1 ?key = Some (print_page (co_show_time K) d, co_redis_now K + 300)"
    by (auto simp: load_page_def set_value_def Let_def split: prod.splits option.splits sum.splits if_splits)
  then have "cached_value (read_page (pr_loads (co_readers K)) (co_read_time K)) now2 ?key (ps_cache st2) = (ps_cache st2, Some d)"
    using assms(3,5) page_round_trip [OF assms(1)] by (simp add: cached_value_def)
  with assms(4) show ?thesis by (simp add: load_page_def Let_def)
qed

definition w_page :: download where
  "w_page = \<lparr>dl_payload = ''abc'', dl_type = None, dl_fetched = 10\<rparr>"

definition w_caching ::
  "(ref_zset, (member \<times> proxy_record) list, (member \<times> string) list, member list, proxy_record) collector" where
  "w_caching = w_collector\<lparr>
     co_readers := w_readers\<lparr>pr_loads := (\<lambda>_. Some (J_Object [(''payload'', J_Str (b64encode ''abc'')), (''content_type'', J_Null),
       (''fetched_at'', J_Str ''t'')]))\<rparr>,
     co_net := (\<lambda>_ _. Answer \<lparr>hr_status = 200, hr_length = None, hr_type = None, hr_chunks = [''ab'', ''c''], hr_end = Whole\<rparr>)\<rparr>"

lemma loaded_page_is_cached_witness:
  "\<exists>st1. load_page w_caching ''u'' \<lparr>ps_cache = (\<lambda>_. None), ps_health = (\<lambda>_. None), ps_run = fresh_run\<rparr> = (st1, Inr (w_page, False))
     \<and> load_page (w_caching\<lparr>co_redis_now := 309\<rparr>) ''u'' st1 = (st1, Inr (w_page, True))"
proof -
  let ?st = "\<lparr>ps_cache = (\<lambda>_. None), ps_health = (\<lambda>_. None), ps_run = fresh_run\<rparr>"
  obtain st1 where run: "load_page w_caching ''u'' ?st = (st1, Inr (w_page, False))"
    by (simp add: load_page_def w_caching_def w_collector_def w_page_def cached_value_def set_value_def attempt_fetch_def
        declared_size_def numeral_3_eq_3 retry_statuses_def Let_def)
  have "reads_page w_caching w_page" by (simp add: reads_page_def w_caching_def w_collector_def w_page_def)
  from loaded_page_is_cached [OF this run refl] run show ?thesis by (auto simp: w_caching_def w_collector_def)
qed

section \<open>What ends a round\<close>

text \<open>
  A payload whose total is an infinite number ends the whole round: \<open>int\<close> of the number raises
  an \<open>OverflowError\<close> that neither \<open>discover_pages\<close> nor \<open>collect_source\<close> catches, \<open>gather\<close>
  raises it, and the pool is not brought back to its capacity.
\<close>

lemma infinite_total_is_raised:
  assumes "so_pagination src = Some p" and "pg_kind p = Json_Total" and "1 \<le> global_max"
    and "loads payload = Some (J_Object kvs)" and "map_of kvs (pg_total_field p) = Some (J_Float PosInf)"
  shows "discover_pages loads labels src payload global_max = Inl (OverflowError ''cannot convert float infinity to integer'')"
  using assms by (simp add: discover_pages_def announced_pages_def Let_def)

lemma raised_pages_leave_the_source:
  assumes "t_domain (co_target K) = d" and "can_run (so_name src) (co_now K) (ps_health st) = Inr True"
    and "load_page K (hd (so_urls src)) st = (st1, Inr (first, hit))"
    and "pages_of K src (dl_payload first) (note_hit hit st1) = (st2, Inl e)"
  shows "collect_source K d src st = (st2, Inl e)"
  using assms by (simp add: collect_source_def)

lemma raised_source_ends_the_round: "Inl e \<in> set results \<Longrightarrow> \<exists>e'. finish_round K results R = Inl e'"
proof -
  assume "Inl e \<in> set results"
  then have "\<exists>e'. first_error results = Some e'"
  proof (induction results)
    case (Cons r rs)
    then show ?case by (cases r) auto
  qed simp
  then show ?thesis by (auto simp: finish_round_def)
qed

text \<open>A task that runs alone ends within its nine steps.\<close>

definition steps_left :: "phase \<Rightarrow> nat" where
  "steps_left p = (case p of Waiting \<Rightarrow> 9 | Looked _ \<Rightarrow> 8 | Admitted _ \<Rightarrow> 7 | Merging _ _ \<Rightarrow> 6 | Written _ \<Rightarrow> 5
     | Due_Check _ \<Rightarrow> 4 | Predicting _ \<Rightarrow> 3 | Probed _ _ \<Rightarrow> 2 | Saved \<Rightarrow> 1 | Finished \<Rightarrow> 0 | Broken _ \<Rightarrow> 0)"

lemma ingest_step_left: "steps_left (fst (ingest_step K src e p s)) \<le> steps_left p - 1"
  by (cases "(K, src, e, p, s)" rule: ingest_step.cases)
     (auto simp: steps_left_def split: sum.splits option.splits prod.splits bool.splits)

lemma ingest_endpoint_ends: "fst (ingest_endpoint K src e s) = Finished \<or> (\<exists>x. fst (ingest_endpoint K src e s) = Broken x)"
proof -
  have "steps_left (fst (ingest_steps K src e n (p, s))) \<le> steps_left p - n" for n p s
  proof (induction n arbitrary: p s)
    case (Suc n)
    from Suc.IH [of "fst (ingest_step K src e p s)" "snd (ingest_step K src e p s)"] ingest_step_left [of K src e p s]
    show ?case by simp
  qed simp
  from this [of 9 Waiting s] show ?thesis
    by (auto simp: ingest_endpoint_def steps_left_def split: phase.splits)
qed

text \<open>Requests of one source keep their distance.\<close>

lemma limiter_spaces_requests:
  assumes "limiter_wait rate now next_request = (start, next')" and "limiter_wait rate now' next' = (start', next'')"
  shows "now \<le> start \<and> start + 1 / rate \<le> start'"
  using assms by (auto simp: limiter_wait_def Let_def max_def split: if_splits)

end
