(* ===== verification/Analytics.thy ===== *)
theory Analytics
  imports PoolQuery
begin

text \<open>
  The dashboard's aggregates (dashboard/analytics.py and the models of dashboard/models.py): score
  buckets, latency percentiles by nearest rank, the quality of each source, and the snapshot of
  a pool that is shown and kept as a history point.
\<close>

section \<open>The order of floats\<close>

text \<open>
  The order that \<open>sorted\<close> uses on latencies, made total by putting NaN last: without NaN, which
  no valid record has, it is the comparison of the language.
\<close>

definition pf_rank :: "pyfloat \<Rightarrow> nat" where
  "pf_rank v = (case v of NegInf \<Rightarrow> 0 | Finite _ \<Rightarrow> 1 | PosInf \<Rightarrow> 2 | NaN \<Rightarrow> 3)"

definition pf_value :: "pyfloat \<Rightarrow> rat" where
  "pf_value v = (case v of Finite x \<Rightarrow> x | _ \<Rightarrow> 0)"

instantiation pyfloat :: linorder
begin

definition less_eq_pyfloat :: "pyfloat \<Rightarrow> pyfloat \<Rightarrow> bool" where
  "less_eq_pyfloat a b \<longleftrightarrow> pf_rank a < pf_rank b \<or> (pf_rank a = pf_rank b \<and> pf_value a \<le> pf_value b)"

definition less_pyfloat :: "pyfloat \<Rightarrow> pyfloat \<Rightarrow> bool" where
  "less_pyfloat a b \<longleftrightarrow> pf_rank a < pf_rank b \<or> (pf_rank a = pf_rank b \<and> pf_value a < pf_value b)"

instance
proof
  fix a b c :: pyfloat
  show "(a < b) = (a \<le> b \<and> \<not> b \<le> a)" "a \<le> a" "a \<le> b \<or> b \<le> a"
    by (auto simp: less_eq_pyfloat_def less_pyfloat_def)
  show "a \<le> b \<Longrightarrow> b \<le> c \<Longrightarrow> a \<le> c"
    by (auto simp: less_eq_pyfloat_def)
  assume "a \<le> b" "b \<le> a"
  then have "pf_rank a = pf_rank b" "pf_value a = pf_value b" by (auto simp: less_eq_pyfloat_def)
  then show "a = b" by (cases a; cases b) (auto simp: pf_rank_def pf_value_def)
qed

end

lemma pf_order: "a \<noteq> NaN \<Longrightarrow> b \<noteq> NaN \<Longrightarrow> (a \<le> b) = pf_le a b"
  by (cases a; cases b) (auto simp: less_eq_pyfloat_def pf_rank_def pf_value_def)

section \<open>Models\<close>

record score_buckets =
  sb_low :: nat
  sb_watch :: nat
  sb_usable :: nat
  sb_high :: nat

record latency_summary =
  ls_samples :: nat
  ls_average :: "pyfloat option"
  ls_p50 :: "pyfloat option"
  ls_p95 :: "pyfloat option"

record source_quality =
  sq_name :: string
  sq_total :: nat
  sq_tested :: nat
  sq_available :: nat
  sq_rate :: "rat option"
  sq_average :: "rat option"

record history_point =
  hp_observed :: time
  hp_total :: nat
  hp_candidate :: nat
  hp_available :: nat
  hp_degraded :: nat
  hp_quarantined :: nat
  hp_due :: nat
  hp_leased :: nat
  hp_rate :: "rat option"
  hp_share :: "rat option"
  hp_high_quality :: nat
  hp_buckets :: score_buckets
  hp_latency :: latency_summary

text \<open>An aggregate is a history point with the sources and the extent of the scan.\<close>

record dashboard_aggregate =
  da_point :: history_point
  da_sources :: "source_quality list"
  da_scanned :: nat
  da_partial :: bool

text \<open>The field constraints that the types do not say.\<close>

definition unit_rate :: "rat option \<Rightarrow> bool" where
  "unit_rate r = (case r of None \<Rightarrow> True | Some x \<Rightarrow> 0 \<le> x \<and> x \<le> 1)"

definition valid_summary :: "latency_summary \<Rightarrow> bool" where
  "valid_summary l \<longleftrightarrow> valid_latency (ls_average l) \<and> valid_latency (ls_p50 l) \<and> valid_latency (ls_p95 l)"

definition valid_quality :: "source_quality \<Rightarrow> bool" where
  "valid_quality q \<longleftrightarrow> unit_rate (sq_rate q) \<and> (case sq_average q of None \<Rightarrow> True | Some x \<Rightarrow> 0 \<le> x \<and> x \<le> 100)"

definition valid_point :: "history_point \<Rightarrow> bool" where
  "valid_point p \<longleftrightarrow> unit_rate (hp_rate p) \<and> unit_rate (hp_share p) \<and> valid_summary (hp_latency p)"

definition valid_aggregate :: "dashboard_aggregate \<Rightarrow> bool" where
  "valid_aggregate a \<longleftrightarrow> valid_point (da_point a) \<and> (\<forall>q \<in> set (da_sources a). valid_quality q)"

definition from_aggregate :: "dashboard_aggregate \<Rightarrow> history_point result" where
  "from_aggregate a = (if valid_point (da_point a) then Inr (da_point a) else Inl (ValueError ''HistoryPoint''))"

section \<open>Aggregation\<close>

definition rate_of :: "nat \<Rightarrow> nat \<Rightarrow> rat option" where
  "rate_of numerator denominator = (if denominator = 0 then None else Some (of_nat numerator / of_nat denominator))"

definition nearest_rank :: "pyfloat list \<Rightarrow> rat \<Rightarrow> pyfloat option" where
  "nearest_rank values percentile =
     (if values = [] then None
      else
        let ordered = sort values; rank = max 1 (nat \<lceil>percentile * of_nat (length ordered)\<rceil>)
        in Some (ordered ! (rank - 1)))"

definition count_score :: "proxy_record \<Rightarrow> score_buckets \<Rightarrow> score_buckets" where
  "count_score r b =
     (if score r < 60 then b\<lparr>sb_low := sb_low b + 1\<rparr>
      else if score r < 80 then b\<lparr>sb_watch := sb_watch b + 1\<rparr>
      else if score r < 90 then b\<lparr>sb_usable := sb_usable b + 1\<rparr>
      else b\<lparr>sb_high := sb_high b + 1\<rparr>)"

definition score_buckets_of :: "proxy_record list \<Rightarrow> score_buckets" where
  "score_buckets_of rs = fold count_score rs \<lparr>sb_low = 0, sb_watch = 0, sb_usable = 0, sb_high = 0\<rparr>"

definition latency_of :: "proxy_record list \<Rightarrow> latency_summary" where
  "latency_of rs =
     (let values = List.map_filter latency_ewma_ms rs
      in \<lparr>ls_samples = length values,
          ls_average = (if values = [] then None else Some (pf_scale (fold pf_add values (Finite 0)) (1 / of_nat (length values)))),
          ls_p50 = nearest_rank values (1 / 2), ls_p95 = nearest_rank values (19 / 20)\<rparr>)"

text \<open>What is gathered for a source.\<close>

record source_tally =
  tl_total :: nat
  tl_tested :: nat
  tl_available :: nat
  tl_scores :: "int list"

definition tally_one :: "proxy_record \<Rightarrow> source_tally option \<Rightarrow> source_tally" where
  "tally_one r known =
     (let t = (case known of None \<Rightarrow> \<lparr>tl_total = 0, tl_tested = 0, tl_available = 0, tl_scores = []\<rparr> | Some t \<Rightarrow> t)
      in \<lparr>tl_total = tl_total t + 1,
          tl_tested = (if state r \<noteq> Candidate then tl_tested t + 1 else tl_tested t),
          tl_available = (if state r = Available then tl_available t + 1 else tl_available t),
          tl_scores = tl_scores t @ [score r]\<rparr>)"

definition tally_record :: "proxy_record \<Rightarrow> (string \<Rightarrow> source_tally option) \<Rightarrow> string \<Rightarrow> source_tally option" where
  "tally_record r acc = (\<lambda>name. if name \<in> source_names r then Some (tally_one r (acc name)) else acc name)"

definition quality_of :: "string \<Rightarrow> source_tally \<Rightarrow> source_quality" where
  "quality_of name t =
     \<lparr>sq_name = name, sq_total = tl_total t, sq_tested = tl_tested t, sq_available = tl_available t,
      sq_rate = rate_of (tl_available t) (tl_tested t),
      sq_average = Some (of_int (sum_list (tl_scores t)) / of_nat (length (tl_scores t)))\<rparr>"

definition source_order :: "source_quality \<Rightarrow> int \<times> int \<times> string" where
  "source_order q = (- int (sq_available q), - int (sq_total q), sq_name q)"

definition sources_of :: "proxy_record list \<Rightarrow> source_quality list" where
  "sources_of rs =
     (let acc = fold tally_record rs (\<lambda>_. None); names = sorted_list_of_set (\<Union>r \<in> set rs. source_names r)
      in sort_key source_order (List.map_filter (\<lambda>name. map_option (quality_of name) (acc name)) names))"

definition aggregate_records ::
  "proxy_record list \<Rightarrow> pool_stats \<Rightarrow> time \<Rightarrow> nat \<Rightarrow> bool \<Rightarrow> dashboard_aggregate result" where
  "aggregate_records rs st observed_at n_scanned is_partial =
     (let a = \<lparr>da_point =
                 \<lparr>hp_observed = observed_at, hp_total = st_total st, hp_candidate = st_candidate st,
                  hp_available = st_available st, hp_degraded = st_degraded st, hp_quarantined = st_quarantined st,
                  hp_due = st_due st, hp_leased = st_leased st,
                  hp_rate = rate_of (st_available st) (st_available st + st_degraded st + st_quarantined st),
                  hp_share = rate_of (st_available st) (st_total st),
                  hp_high_quality = length (filter (\<lambda>r. state r = Available \<and> 90 \<le> score r) rs),
                  hp_buckets = score_buckets_of rs, hp_latency = latency_of rs\<rparr>,
               da_sources = sources_of rs, da_scanned = n_scanned, da_partial = is_partial\<rparr>
      in if valid_aggregate a then Inr a else Inl (ValueError ''DashboardAggregate''))"

section \<open>What an aggregate says\<close>

lemma unit_rate_of: "a \<le> b \<Longrightarrow> unit_rate (rate_of a b)"
  by (auto simp: unit_rate_def rate_of_def divide_le_eq)

text \<open>The nearest rank is a sample; at least the percentile of the samples are up to it, fewer are below it.\<close>

lemma filter_parts: "length (filter P xs) = length (filter P (take k xs)) + length (filter P (drop k xs))"
  by (metis append_take_drop_id filter_append length_append)

lemma sorted_count_le:
  "sorted xs \<Longrightarrow> i < length xs \<Longrightarrow> i < length (filter (\<lambda>x. x \<le> xs ! i) xs)"
proof -
  assume s: "sorted xs" and i: "i < length xs"
  have "filter (\<lambda>x. x \<le> xs ! i) (take (Suc i) xs) = take (Suc i) xs"
    using s i by (auto simp: filter_id_conv in_set_conv_nth sorted_nth_mono)
  with i filter_parts [of "\<lambda>x. x \<le> xs ! i" xs "Suc i"] show ?thesis by simp
qed

lemma sorted_count_less:
  "sorted xs \<Longrightarrow> i < length xs \<Longrightarrow> length (filter (\<lambda>x. x < xs ! i) xs) \<le> i"
proof -
  assume s: "sorted xs" and i: "i < length xs"
  have "filter (\<lambda>x. x < xs ! i) (drop i xs) = []"
    using s i by (auto simp: filter_empty_conv in_set_conv_nth sorted_nth_mono not_less)
  moreover have "length (filter (\<lambda>x. x < xs ! i) (take i xs)) \<le> i" by (rule order.trans [OF length_filter_le]) simp
  ultimately show ?thesis using filter_parts [of "\<lambda>x. x < xs ! i" xs i] by simp
qed

lemma nearest_rank_percentile:
  assumes "nearest_rank xs p = Some v" and "0 < p" and "p \<le> 1"
  shows "v \<in> set xs \<and> p * of_nat (length xs) \<le> of_nat (length (filter (\<lambda>x. x \<le> v) xs))
    \<and> of_nat (length (filter (\<lambda>x. x < v) xs)) < p * of_nat (length xs)"
proof -
  define n where "n = length xs"
  define k where "k = nat \<lceil>p * of_nat n\<rceil>"
  have ne: "xs \<noteq> []" and v0: "v = sort xs ! (max 1 k - 1)"
    using assms(1) by (auto simp: nearest_rank_def k_def n_def Let_def split: if_splits)
  have pos: "0 < p * of_nat n" using ne assms(2) by (simp add: n_def)
  then have c: "0 < \<lceil>p * of_nat n\<rceil>" by simp
  have "p * of_nat n \<le> of_nat n" using mult_right_mono [OF assms(3), of "of_nat n"] by simp
  then have "\<lceil>p * of_nat n\<rceil> \<le> int n" by (simp add: ceiling_le_iff)
  with c have k: "1 \<le> k" "k \<le> n" unfolding k_def by linarith+
  have up: "p * of_nat n \<le> of_nat k" using c by (simp add: k_def)
  have down: "of_nat (k - 1) < p * of_nat n"
  proof -
    have "of_int \<lceil>p * of_nat n\<rceil> - 1 < p * of_nat n" by linarith
    with c k(1) show ?thesis by (simp add: k_def of_nat_diff)
  qed
  have v: "v = sort xs ! (k - 1)" and i: "k - 1 < length (sort xs)" using v0 k by (auto simp: n_def)
  have "length (filter P (sort xs)) = length (filter P xs)" for P by (metis mset_filter mset_sort size_mset)
  then have le: "k - 1 < length (filter (\<lambda>x. x \<le> v) xs)" and lt: "length (filter (\<lambda>x. x < v) xs) \<le> k - 1"
    using sorted_count_le [OF sorted_sort i] sorted_count_less [OF sorted_sort i] by (simp_all add: v)
  have "v \<in> set xs" using i v by (metis nth_mem set_sort)
  moreover have "of_nat k \<le> (of_nat (length (filter (\<lambda>x. x \<le> v) xs)) :: rat)" using le k(1) by (simp only: of_nat_le_iff)
  moreover have "(of_nat (length (filter (\<lambda>x. x < v) xs)) :: rat) \<le> of_nat (k - 1)" using lt by (simp only: of_nat_le_iff)
  ultimately show ?thesis using up down by (simp add: n_def)
qed

lemma score_buckets_total:
  "sb_low b + sb_watch b + sb_usable b + sb_high b + length rs =
     (let c = fold count_score rs b in sb_low c + sb_watch c + sb_usable c + sb_high c)"
proof (induction rs arbitrary: b)
  case (Cons r rs)
  have "sb_low (count_score r b) + sb_watch (count_score r b) + sb_usable (count_score r b) + sb_high (count_score r b)
      = Suc (sb_low b + sb_watch b + sb_usable b + sb_high b)" by (simp add: count_score_def)
  with Cons.IH [of "count_score r b"] show ?case by (simp add: Let_def)
qed simp

text \<open>Non-negative floats add up and scale to non-negative floats.\<close>

lemma pf_add_nonneg: "pf_le (Finite 0) a \<Longrightarrow> pf_le (Finite 0) b \<Longrightarrow> pf_le (Finite 0) (pf_add a b)"
  by (cases a; cases b) auto

lemma pf_sum_nonneg: "\<forall>v \<in> set vs. pf_le (Finite 0) v \<Longrightarrow> pf_le (Finite 0) a \<Longrightarrow> pf_le (Finite 0) (fold pf_add vs a)"
  by (induction vs arbitrary: a) (simp_all add: pf_add_nonneg)

lemma pf_scale_nonneg: "pf_le (Finite 0) a \<Longrightarrow> 0 \<le> k \<Longrightarrow> pf_le (Finite 0) (pf_scale a k)"
  by (cases a) auto

lemma nearest_rank_mem: "nearest_rank vs p = Some v \<Longrightarrow> 0 < p \<Longrightarrow> p \<le> 1 \<Longrightarrow> v \<in> set vs"
  using nearest_rank_percentile by blast

lemma latency_of_valid: "\<forall>r \<in> set rs. valid_record r \<Longrightarrow> valid_summary (latency_of rs)"
proof -
  assume "\<forall>r \<in> set rs. valid_record r"
  then have nn: "\<forall>v \<in> set (List.map_filter latency_ewma_ms rs). pf_le (Finite 0) v"
    by (auto simp: List.map_filter_def valid_record_def valid_latency_def)
  then have "valid_latency (nearest_rank (List.map_filter latency_ewma_ms rs) p)" if "0 < p" "p \<le> 1" for p
    using that nearest_rank_mem by (auto simp: valid_latency_def split: option.splits)
  with nn pf_sum_nonneg [OF nn, of "Finite 0"] show ?thesis
    by (auto simp: valid_summary_def latency_of_def valid_latency_def Let_def intro!: pf_scale_nonneg)
qed

definition tally_ok :: "source_tally \<Rightarrow> bool" where
  "tally_ok t \<longleftrightarrow> tl_available t \<le> tl_tested t \<and> tl_tested t \<le> tl_total t \<and> tl_total t = length (tl_scores t) \<and>
     (\<forall>x \<in> set (tl_scores t). 0 \<le> x \<and> x \<le> 100)"

lemma tally_records_ok:
  "\<forall>r \<in> set rs. valid_record r \<Longrightarrow> \<forall>n t. acc n = Some t \<longrightarrow> tally_ok t \<Longrightarrow> fold tally_record rs acc n = Some t \<Longrightarrow> tally_ok t"
proof (induction rs arbitrary: acc)
  case (Cons r rs)
  have "tally_ok t'" if "tally_record r acc m = Some t'" for m t'
    using that Cons.prems(1,2)
    by (cases "acc m") (fastforce simp: tally_record_def tally_one_def tally_ok_def valid_record_def Let_def split: if_splits)+
  then have "\<forall>m t'. tally_record r acc m = Some t' \<longrightarrow> tally_ok t'" by blast
  from Cons.IH [OF _ this] Cons.prems(1,3) show ?case by simp
qed simp

lemma score_sum_bounds: "\<forall>x \<in> set xs. 0 \<le> x \<and> x \<le> 100 \<Longrightarrow> 0 \<le> sum_list xs \<and> sum_list xs \<le> 100 * int (length xs)"
  by (induction xs) auto

lemma quality_of_valid: "tally_ok t \<Longrightarrow> valid_quality (quality_of n t)"
proof -
  assume t: "tally_ok t"
  then have "0 \<le> sum_list (tl_scores t) \<and> sum_list (tl_scores t) \<le> 100 * int (length (tl_scores t))"
    using score_sum_bounds by (simp add: tally_ok_def)
  then have "0 \<le> (of_int (sum_list (tl_scores t)) :: rat)"
    "(of_int (sum_list (tl_scores t)) :: rat) \<le> of_int (100 * int (length (tl_scores t)))"
    by (simp_all only: of_int_le_iff of_int_0_le_iff)
  with t show ?thesis
    by (auto simp: valid_quality_def quality_of_def tally_ok_def unit_rate_of divide_le_eq)
qed

lemma sources_of_valid: "\<forall>r \<in> set rs. valid_record r \<Longrightarrow> q \<in> set (sources_of rs) \<Longrightarrow> valid_quality q"
  using tally_records_ok [of rs "\<lambda>_. None"] quality_of_valid
  by (auto simp: sources_of_def List.map_filter_def Let_def)

lemma sources_of_sorted: "sorted (map source_order (sources_of rs))"
  by (simp add: sources_of_def Let_def)

text \<open>The statistics of the repository add up, for one domain and for all.\<close>

definition stats_ok :: "pool_stats \<Rightarrow> bool" where
  "stats_ok s \<longleftrightarrow> st_total s = st_candidate s + st_available s + st_degraded s + st_quarantined s"

lemma count_records_ok: "count_records E xs s = Inr s' \<Longrightarrow> stats_ok s \<Longrightarrow> stats_ok s'"
proof (induction xs arbitrary: s)
  case (Cons x xs)
  then show ?case
    by (cases x) (auto simp: count_record_def stats_ok_def split: option.splits proxy_state.splits)
qed simp

lemma domain_stats_ok: "domain_stats E R d = Inr s \<Longrightarrow> stats_ok s"
proof -
  assume "domain_stats E R d = Inr s"
  then obtain s0 xs where "count_records E xs no_stats = Inr s0"
    "s = s0\<lparr>st_due := st_due s, st_leased := st_leased s\<rparr>"
    by (auto simp: domain_stats_def split: sum.splits)
  moreover from this(1) have "stats_ok s0" using count_records_ok by (fastforce simp: stats_ok_def no_stats_def)
  ultimately show ?thesis by (metis stats_ok_def pool_stats.select_convs pool_stats.surjective pool_stats.update_convs(6,7))
qed

lemma total_stats_ok: "total_stats E R ds t = Inr s \<Longrightarrow> stats_ok t \<Longrightarrow> stats_ok s"
proof (induction ds arbitrary: t)
  case (Cons d ds)
  then obtain c where "domain_stats E R d = Inr c" "total_stats E R ds (add_stats t c) = Inr s"
    by (auto split: sum.splits)
  moreover have "stats_ok (add_stats t c)"
    using domain_stats_ok [OF calculation(1)] Cons.prems(2) by (simp add: stats_ok_def add_stats_def)
  ultimately show ?case using Cons.IH by blast
qed simp

lemma stats_of_ok: "stats E R d = Inr s \<Longrightarrow> stats_ok s"
  using total_stats_ok domain_stats_ok by (fastforce simp: stats_def stats_ok_def no_stats_def split: option.splits)

text \<open>An aggregate of readable records and the repository's statistics is always well formed.\<close>

lemma aggregate_records_total:
  assumes "\<forall>r \<in> set rs. valid_record r" and "stats E R d = Inr st"
  shows "\<exists>a. aggregate_records rs st at' n b = Inr a \<and> valid_aggregate a \<and> from_aggregate a = Inr (da_point a) \<and>
    hp_observed (da_point a) = at' \<and> da_scanned a = n \<and> da_partial a = b"
proof -
  have "stats_ok st" using assms(2) by (rule stats_of_ok)
  then have "unit_rate (rate_of (st_available st) (st_available st + st_degraded st + st_quarantined st))"
    "unit_rate (rate_of (st_available st) (st_total st))" by (auto simp: stats_ok_def intro: unit_rate_of)
  with latency_of_valid [OF assms(1)] sources_of_valid [OF assms(1)] show ?thesis
    by (simp add: aggregate_records_def valid_aggregate_def valid_point_def from_aggregate_def Let_def)
qed

end
