(* ===== verification/History.thy ===== *)
theory History
  imports Analytics
begin

text \<open>
  The dashboard's history (dashboard/history.py, lua.py and the policies of models.py): points by
  five-minute and hour buckets, a write with its retention and its cap as the script does them,
  the read of a range, the invariant that both keeps index and data together, and the abstract
  history, a map from bucket times to points, that the script implements.
\<close>

section \<open>Ranges and resolutions\<close>

datatype history_range = H1 | H6 | H12 | H24 | D7 | D30

datatype resolution = Five_Minutes | Hour

record range_policy =
  rp_hours :: nat
  rp_resolution :: resolution
  rp_max :: nat

definition range_policy_of :: "history_range \<Rightarrow> range_policy" where
  "range_policy_of r =
     (case r of
        H1 \<Rightarrow> \<lparr>rp_hours = 1, rp_resolution = Five_Minutes, rp_max = 12\<rparr>
      | H6 \<Rightarrow> \<lparr>rp_hours = 6, rp_resolution = Five_Minutes, rp_max = 72\<rparr>
      | H12 \<Rightarrow> \<lparr>rp_hours = 12, rp_resolution = Five_Minutes, rp_max = 144\<rparr>
      | H24 \<Rightarrow> \<lparr>rp_hours = 24, rp_resolution = Five_Minutes, rp_max = 288\<rparr>
      | D7 \<Rightarrow> \<lparr>rp_hours = 168, rp_resolution = Hour, rp_max = 168\<rparr>
      | D30 \<Rightarrow> \<lparr>rp_hours = 720, rp_resolution = Hour, rp_max = 720\<rparr>)"

section \<open>Buckets\<close>

definition step_of :: "resolution \<Rightarrow> int" where
  "step_of res = (case res of Five_Minutes \<Rightarrow> 300 | Hour \<Rightarrow> 3600)"

text \<open>
  \<open>_bucket_time\<close> in POSIX seconds: minutes and hours of UTC are multiples of the step, as days
  have 86400 seconds.
\<close>

definition bucket_time :: "time \<Rightarrow> resolution \<Rightarrow> int" where
  "bucket_time t res = \<lfloor>t / of_int (step_of res)\<rfloor> * step_of res"

text \<open>The Gregorian date of a day number, counting years from March as \<open>datetime\<close> counts centuries.\<close>

definition civil_of_day :: "int \<Rightarrow> int \<times> int \<times> int" where
  "civil_of_day n =
     (let z = n + 719468; era = z div 146097; doe = z mod 146097;
          c = min 3 (doe div 36524); r = doe - 36524 * c; q = r div 1461; s = r mod 1461;
          a = min 3 (s div 365); doy = s - 365 * a; mp = (5 * doy + 2) div 153;
          m = (if mp < 10 then mp + 3 else mp - 9)
      in (400 * era + 100 * c + 4 * q + a + (if m \<le> 2 then 1 else 0), m, doy - (153 * mp + 2) div 5 + 1))"

fun digits :: "nat \<Rightarrow> int \<Rightarrow> string" where
  "digits 0 v = []"
| "digits (Suc n) v = digits n (v div 10) @ [char_of (48 + nat (v mod 10))]"

text \<open>\<open>strftime\<close> with \<open>%Y%m%d%H%M\<close> or \<open>%Y%m%d%H\<close>, for the years it prints with four digits.\<close>

definition four_digit_year :: "int \<Rightarrow> bool" where
  "four_digit_year t \<longleftrightarrow> 1000 \<le> fst (civil_of_day (t div 86400)) \<and> fst (civil_of_day (t div 86400)) \<le> 9999"

definition bucket_name :: "resolution \<Rightarrow> int \<Rightarrow> string" where
  "bucket_name res t =
     (case civil_of_day (t div 86400) of (y, m, d) \<Rightarrow>
        digits 4 y @ digits 2 m @ digits 2 d @ digits 2 (t mod 86400 div 3600) @
        (if res = Five_Minutes then digits 2 (t mod 3600 div 60) else []))"

section \<open>The store\<close>

record ('z, 'h, 'p) history_api =
  ha_zs :: "'z zset_api"
  ha_hash :: "('h, 'p) hash_api"
  ha_encode :: "history_point \<Rightarrow> 'p"
  ha_decode :: "'p \<Rightarrow> history_point option"

record ('z, 'h) history =
  hi_index :: 'z
  hi_data :: 'h

definition new_history_store :: "string \<Rightarrow> int \<Rightarrow> int \<Rightarrow> (nat \<times> nat) result" where
  "new_history_store prefix short_hours long_hours =
     (if prefix = [] then Inl (ValueError ''prefix must be non-empty'')
      else if short_hours < 1 \<or> long_hours < 1 then Inl (ValueError ''retention hours must be positive'')
      else Inr (nat short_hours, nat long_hours))"

text \<open>The script \<open>WRITE_HISTORY\<close>.\<close>

definition forget_bucket :: "('z, 'h, 'p) history_api \<Rightarrow> string \<Rightarrow> ('z, 'h) history \<Rightarrow> ('z, 'h) history" where
  "forget_bucket A b h = h\<lparr>hi_data := h_del (ha_hash A) (hi_data h) b, hi_index := z_rem (ha_zs A) (hi_index h) b\<rparr>"

definition write_history ::
  "('z, 'h, 'p) history_api \<Rightarrow> string \<Rightarrow> time \<Rightarrow> 'p \<Rightarrow> time \<Rightarrow> nat \<Rightarrow> ('z, 'h) history \<Rightarrow> ('z, 'h) history \<times> nat" where
  "write_history A b at' payload cutoff maximum h =
     (let h1 = \<lparr>hi_index = z_add (ha_zs A) (hi_index h) b at', hi_data = h_set (ha_hash A) (hi_data h) b payload\<rparr>;
          expired = map fst (z_rangebyscore (ha_zs A) (hi_index h1) Below_All (Incl cutoff));
          h2 = \<lparr>hi_index = z_remrangebyscore (ha_zs A) (hi_index h1) Below_All (Incl cutoff),
                hi_data = fold (\<lambda>b d. h_del (ha_hash A) d b) expired (hi_data h1)\<rparr>;
          oldest = map fst (take (z_card (ha_zs A) (hi_index h2) - maximum) (z_range (ha_zs A) (hi_index h2)));
          h3 = fold (forget_bucket A) oldest h2
      in (h3, z_card (ha_zs A) (hi_index h3)))"

definition max_buckets :: "resolution \<Rightarrow> nat" where
  "max_buckets res = (case res of Five_Minutes \<Rightarrow> 576 | Hour \<Rightarrow> 720)"

definition history_write ::
  "('z, 'h, 'p) history_api \<Rightarrow> nat \<times> nat \<Rightarrow> resolution \<Rightarrow> history_point \<Rightarrow> ('z, 'h) history \<Rightarrow> ('z, 'h) history \<times> nat" where
  "history_write A hours res point h =
     (let t = bucket_time (hp_observed point) res;
          retention = (if res = Five_Minutes then fst hours else snd hours)
      in write_history A (bucket_name res t) (of_int t) (ha_encode A (point\<lparr>hp_observed := of_int t\<rparr>))
           (of_int t - of_nat retention * 3600) (max_buckets res) h)"

definition invalid_history :: exn where
  "invalid_history = ValueError ''invalid dashboard history''"

text \<open>\<open>read\<close> of the history of the resolution the range uses.\<close>

definition history_read ::
  "('z, 'h, 'p) history_api \<Rightarrow> history_range \<Rightarrow> time \<Rightarrow> ('z, 'h) history \<Rightarrow> history_point list result" where
  "history_read A r now h =
     (let policy = range_policy_of r;
          buckets = map fst (z_rangelimit (ha_zs A) (hi_index h) (Incl (now - of_nat (rp_hours policy) * 3600)) (Incl now)
                               0 (rp_max policy));
          payloads = List.map_filter (h_get (ha_hash A) (hi_data h)) buckets
      in if buckets = [] then Inr []
         else if \<exists>p \<in> set payloads. ha_decode A p = None then Inl invalid_history
         else if length payloads \<noteq> length buckets then Inl invalid_history
         else Inr (List.map_filter (ha_decode A) payloads))"

section \<open>Dates and names\<close>

definition day_of_civil :: "int \<times> int \<times> int \<Rightarrow> int" where
  "day_of_civil ymd =
     (case ymd of (y, m, d) \<Rightarrow>
        let y' = (if m \<le> 2 then y - 1 else y); yoe = y' mod 400; mp = (if m > 2 then m - 3 else m + 9)
        in (y' div 400) * 146097 + 365 * yoe + yoe div 4 - yoe div 100 + (153 * mp + 2) div 5 + d - 1 - 719468)"

lemma civil_parts:
  fixes n :: int
  defines "doe \<equiv> (n + 719468) mod 146097"
  defines "c \<equiv> min 3 (doe div 36524)"
  defines "r \<equiv> doe - 36524 * c"
  defines "q \<equiv> r div 1461"
  defines "s \<equiv> r mod 1461"
  defines "a \<equiv> min 3 (s div 365)"
  defines "doy \<equiv> s - 365 * a"
  defines "mp \<equiv> (5 * doy + 2) div 153"
  shows "0 \<le> c" "c \<le> 3" "0 \<le> q" "q \<le> 24" "0 \<le> a" "a \<le> 3" "0 \<le> mp" "mp \<le> 11"
    "doe = 36524 * c + 1461 * q + 365 * a + doy" "0 \<le> doy - (153 * mp + 2) div 5" "doy - (153 * mp + 2) div 5 \<le> 30"
proof -
  have doe: "0 \<le> doe" "doe < 146097" by (simp_all add: doe_def)
  have cs: "36524 * (doe div 36524) \<le> doe" "doe < 36524 * (doe div 36524) + 36524" "0 \<le> doe div 36524"
    using doe by linarith+
  show "0 \<le> c" "c \<le> 3" using cs by (simp_all add: c_def)
  have r: "0 \<le> r" "r \<le> 36524" using cs doe unfolding r_def c_def min_def by (auto split: if_splits)
  show "0 \<le> q" "q \<le> 24" using r unfolding q_def by linarith+
  have s: "0 \<le> s" "s < 1461" "r = 1461 * q + s" by (simp_all add: s_def q_def)
  have as: "365 * (s div 365) \<le> s" "s < 365 * (s div 365) + 365" "0 \<le> s div 365" using s by linarith+
  show "0 \<le> a" "a \<le> 3" using as by (simp_all add: a_def)
  have doy: "0 \<le> doy" "doy \<le> 365" using as s unfolding doy_def a_def min_def by (auto split: if_splits)
  show "0 \<le> mp" "mp \<le> 11" using doy unfolding mp_def by linarith+
  show "doe = 36524 * c + 1461 * q + 365 * a + doy" using s(3) unfolding r_def doy_def by linarith
  show "0 \<le> doy - (153 * mp + 2) div 5" "doy - (153 * mp + 2) div 5 \<le> 30" using doy unfolding mp_def by linarith+
qed

lemma civil_shape:
  obtains era c q a doy mp m :: int
  where "civil_of_day n = (400 * era + 100 * c + 4 * q + a + (if m \<le> 2 then 1 else 0), m, doy - (153 * mp + 2) div 5 + 1)"
    and "m = (if mp < 10 then mp + 3 else mp - 9)" and "0 \<le> mp" "mp \<le> 11" and "0 \<le> c" "c \<le> 3" "0 \<le> q" "q \<le> 24" "0 \<le> a" "a \<le> 3"
    and "0 \<le> doy - (153 * mp + 2) div 5" "doy - (153 * mp + 2) div 5 \<le> 30"
    and "n + 719468 = era * 146097 + 36524 * c + 1461 * q + 365 * a + doy"
proof -
  define era where "era = (n + 719468) div 146097"
  define doe where "doe = (n + 719468) mod 146097"
  define c where "c = min 3 (doe div 36524)"
  define r where "r = doe - 36524 * c"
  define q where "q = r div 1461"
  define s where "s = r mod 1461"
  define a where "a = min 3 (s div 365)"
  define doy where "doy = s - 365 * a"
  define mp where "mp = (5 * doy + 2) div 153"
  define m where "m = (if mp < 10 then mp + 3 else mp - 9)"
  note parts = civil_parts [of n, folded doe_def, folded c_def, folded r_def, folded q_def s_def, folded a_def,
      folded doy_def, folded mp_def]
  have "civil_of_day n = (400 * era + 100 * c + 4 * q + a + (if m \<le> 2 then 1 else 0), m, doy - (153 * mp + 2) div 5 + 1)"
    unfolding civil_of_day_def Let_def era_def m_def mp_def doy_def a_def s_def q_def r_def c_def doe_def by (rule refl)
  moreover have "n + 719468 = era * 146097 + 36524 * c + 1461 * q + 365 * a + doy"
    using parts(9) div_mult_mod_eq [of "n + 719468" 146097, folded era_def doe_def] by linarith
  ultimately show thesis using that m_def parts(1-8,10,11) by blast
qed

lemma day_of_civil_of_day: "day_of_civil (civil_of_day n) = n"
proof -
  obtain era c q a doy mp m :: int
    where civil: "civil_of_day n = (400 * era + 100 * c + 4 * q + a + (if m \<le> 2 then 1 else 0), m, doy - (153 * mp + 2) div 5 + 1)"
    and md: "m = (if mp < 10 then mp + 3 else mp - 9)" "0 \<le> mp" "mp \<le> 11"
    and b: "0 \<le> c" "c \<le> 3" "0 \<le> q" "q \<le> 24" "0 \<le> a" "a \<le> 3"
    and n: "n + 719468 = era * 146097 + 36524 * c + 1461 * q + 365 * a + doy"
    by (rule civil_shape [of n], rule that)
  define yoe where "yoe = 100 * c + 4 * q + a"
  have yoe: "0 \<le> yoe" "yoe < 400" "yoe div 4 = 25 * c + q" "yoe div 100 = c" using b unfolding yoe_def by linarith+
  have m: "(if m > 2 then m - 3 else m + 9) = mp" using md by auto
  have y: "(400 * era + yoe) mod 400 = yoe" "(400 * era + yoe) div 400 = era" using yoe(1,2) by simp_all
  have y': "(if m \<le> 2 then 400 * era + 100 * c + 4 * q + a + (if m \<le> 2 then 1 else 0) - 1
      else 400 * era + 100 * c + 4 * q + a + (if m \<le> 2 then 1 else 0)) = 400 * era + yoe" by (simp add: yoe_def)
  have "day_of_civil (civil_of_day n) = era * 146097 + 365 * yoe + yoe div 4 - yoe div 100 + doy - 719468"
    unfolding civil day_of_civil_def prod.case Let_def y' m y by linarith
  also have "\<dots> = n" using n yoe(3,4) yoe_def by linarith
  finally show ?thesis .
qed

lemma civil_bounds: "civil_of_day n = (y, m, d) \<Longrightarrow> 1 \<le> m \<and> m \<le> 12 \<and> 1 \<le> d \<and> d \<le> 31"
  by (rule civil_shape [of n]) auto

lemma length_digits [simp]: "length (digits n v) = n"
  by (induction n arbitrary: v) auto

lemma digit_inj: "0 \<le> a \<Longrightarrow> a < 10 \<Longrightarrow> 0 \<le> b \<Longrightarrow> b < 10 \<Longrightarrow>
    (char_of (48 + nat a) :: char) = char_of (48 + nat b) \<longleftrightarrow> a = b" for a b :: int
proof
  assume ab: "0 \<le> a" "a < 10" "0 \<le> b" "b < 10" and "(char_of (48 + nat a) :: char) = char_of (48 + nat b)"
  then have "(of_char (char_of (48 + nat a) :: char) :: nat) = of_char (char_of (48 + nat b) :: char)" by simp
  with ab show "a = b" by (simp add: of_char_of)
qed simp

lemma digits_inj: "0 \<le> v \<Longrightarrow> v < 10 ^ n \<Longrightarrow> 0 \<le> w \<Longrightarrow> w < 10 ^ n \<Longrightarrow> digits n v = digits n w \<Longrightarrow> v = w"
proof (induction n arbitrary: v w)
  case (Suc n)
  then have d: "digits n (v div 10) = digits n (w div 10)" "nat (v mod 10) = nat (w mod 10)" by (simp_all add: digit_inj)
  from d(2) have "v mod 10 = w mod 10" by (metis eq_nat_nat_iff pos_mod_sign zero_less_numeral)
  moreover from Suc.prems(1-4) have "0 \<le> v div 10" "v div 10 < 10 ^ n" "0 \<le> w div 10" "w div 10 < 10 ^ n" by auto
  ultimately have "v div 10 = w div 10" using Suc.IH d(1) by blast
  with \<open>v mod 10 = w mod 10\<close> show ?case by (metis div_mult_mod_eq)
qed simp

lemma clock_parts: "0 \<le> t mod 86400 div 3600" "t mod 86400 div 3600 < 10 ^ 2" "0 \<le> t mod 3600 div 60" "t mod 3600 div 60 < 10 ^ 2"
  for t :: int
proof -
  have "0 \<le> t mod 86400" "t mod 86400 < 86400" "0 \<le> t mod 3600" "t mod 3600 < 3600" by simp_all
  then have "0 \<le> t mod 86400 div 3600" "t mod 86400 div 3600 < 100" "0 \<le> t mod 3600 div 60" "t mod 3600 div 60 < 100"
    by linarith+
  then show "0 \<le> t mod 86400 div 3600" "t mod 86400 div 3600 < 10 ^ 2" "0 \<le> t mod 3600 div 60" "t mod 3600 div 60 < 10 ^ 2"
    by (simp_all only: power2_eq_square)
qed

lemma clock_time: "60 dvd t \<Longrightarrow> t = 86400 * (t div 86400) + 3600 * (t mod 86400 div 3600) + 60 * (t mod 3600 div 60)"
  for t :: int
proof -
  assume "60 dvd t"
  then have "60 dvd t mod 3600" by (simp add: dvd_mod)
  then have m: "60 * (t mod 3600 div 60) = t mod 3600" by (rule dvd_mult_div_cancel)
  have "3600 * (t mod 86400 div 3600) + t mod 86400 mod 3600 = t mod 86400" by (rule mult_div_mod_eq)
  moreover have "t mod 86400 mod 3600 = t mod 3600" by (rule mod_mod_cancel) simp
  moreover have "86400 * (t div 86400) + t mod 86400 = t" by (rule mult_div_mod_eq)
  ultimately show ?thesis using m by linarith
qed

lemma split_digits:
  "digits n v @ r = digits n w @ r' \<Longrightarrow> 0 \<le> v \<Longrightarrow> v < 10 ^ n \<Longrightarrow> 0 \<le> w \<Longrightarrow> w < 10 ^ n \<Longrightarrow> v = w \<and> r = r'"
  using digits_inj by (metis append_eq_append_conv length_digits)

text \<open>Buckets of one resolution have different names.\<close>

lemma bucket_name_inj:
  assumes "bucket_name res t = bucket_name res u" and "step_of res dvd t" and "step_of res dvd u"
    and "four_digit_year t" and "four_digit_year u"
  shows "t = u"
proof -
  obtain y m d where t: "civil_of_day (t div 86400) = (y, m, d)" by (cases "civil_of_day (t div 86400)")
  obtain y' m' d' where u: "civil_of_day (u div 86400) = (y', m', d')" by (cases "civil_of_day (u div 86400)")
  let ?r = "\<lambda>t. if res = Five_Minutes then digits 2 (t mod 3600 div 60) else []"
  have names: "digits 4 y @ digits 2 m @ digits 2 d @ digits 2 (t mod 86400 div 3600) @ ?r t
      = digits 4 y' @ digits 2 m' @ digits 2 d' @ digits 2 (u mod 86400 div 3600) @ ?r u"
    using assms(1) by (simp add: bucket_name_def t u)
  have y: "1000 \<le> y" "y \<le> 9999" "1000 \<le> y'" "y' \<le> 9999" using assms(4,5) by (simp_all add: four_digit_year_def t u)
  have m: "0 \<le> m" "m < 10 ^ 2" "0 \<le> m'" "m' < 10 ^ 2" and d: "0 \<le> d" "d < 10 ^ 2" "0 \<le> d'" "d' < 10 ^ 2"
    using civil_bounds [OF t] civil_bounds [OF u] by simp_all
  have y4: "0 \<le> y" "y < 10 ^ 4" "0 \<le> y'" "y' < 10 ^ 4" using y by simp_all
  note 1 = split_digits [OF names y4]
  note 2 = split_digits [OF conjunct2 [OF 1] m]
  note 3 = split_digits [OF conjunct2 [OF 2] d]
  note h = split_digits [OF conjunct2 [OF 3] clock_parts(1,2) [of t] clock_parts(1,2) [of u]]
  have day: "t div 86400 = u div 86400" using day_of_civil_of_day t u conjunct1 [OF 1] conjunct1 [OF 2] conjunct1 [OF 3] by metis
  have "60 dvd t" "60 dvd u" using assms(2,3) by (auto simp: step_of_def split: resolution.splits elim: dvd_trans [rotated])
  note times = clock_time [OF this(1)] clock_time [OF this(2)]
  have "t mod 3600 div 60 = u mod 3600 div 60"
  proof (cases res)
    case Hour
    with assms(2,3) show ?thesis by (simp add: step_of_def)
  next
    case Five_Minutes
    with conjunct2 [OF h] have "digits 2 (t mod 3600 div 60) = digits 2 (u mod 3600 div 60)" by simp
    from digits_inj [OF clock_parts(3,4) [of t] clock_parts(3,4) [of u] this] show ?thesis .
  qed
  with times day conjunct1 [OF h] show "t = u" by linarith
qed

lemma bucket_time_facts: "step_of res dvd bucket_time t res" "of_int (bucket_time t res) \<le> t" "t < of_int (bucket_time t res) + of_int (step_of res)"
proof -
  have s: "0 < step_of res" by (simp add: step_of_def split: resolution.splits)
  show "step_of res dvd bucket_time t res" by (simp add: bucket_time_def)
  have "of_int \<lfloor>t / of_int (step_of res)\<rfloor> * of_int (step_of res) \<le> t"
    "t < (of_int \<lfloor>t / of_int (step_of res)\<rfloor> + 1) * of_int (step_of res)"
    using s by (simp_all add: floor_divide_lower floor_divide_upper)
  then show "of_int (bucket_time t res) \<le> t" "t < of_int (bucket_time t res) + of_int (step_of res)"
    by (simp_all add: bucket_time_def distrib_right)
qed

section \<open>The abstract history\<close>

text \<open>
  What the codec promises: a valid point reads back as itself, but for infinite floats, which are
  written as \<open>null\<close>.
\<close>

definition finite_or_none :: "pyfloat option \<Rightarrow> pyfloat option" where
  "finite_or_none x = (case x of None \<Rightarrow> None | Some v \<Rightarrow> if isfinite v then Some v else None)"

definition plain_point :: "history_point \<Rightarrow> history_point" where
  "plain_point p =
     (let l = hp_latency p
      in p\<lparr>hp_latency := l\<lparr>ls_average := finite_or_none (ls_average l), ls_p50 := finite_or_none (ls_p50 l),
             ls_p95 := finite_or_none (ls_p95 l)\<rparr>\<rparr>)"

locale history_store =
  z: zset "ha_zs A" + d: hash "ha_hash A" for A :: "('z, 'h, 'p) history_api" +
  assumes point_codec: "valid_point p \<Longrightarrow> ha_decode A (ha_encode A p) = Some (plain_point p)"

text \<open>The point of a bucket time, as far as the index and the data agree on it.\<close>

definition point_at :: "('z, 'h, 'p) history_api \<Rightarrow> resolution \<Rightarrow> ('z, 'h) history \<Rightarrow> int \<Rightarrow> history_point option" where
  "point_at A res h t =
     (if z_score (ha_zs A) (hi_index h) (bucket_name res t) = Some (of_int t)
      then Option.bind (h_get (ha_hash A) (hi_data h) (bucket_name res t)) (ha_decode A) else None)"

text \<open>Every index entry is a bucket with its time and a valid point; the data has nothing else.\<close>

definition bucket_ok :: "resolution \<Rightarrow> int \<Rightarrow> bool" where
  "bucket_ok res t \<longleftrightarrow> step_of res dvd t \<and> four_digit_year t"

definition entry_of :: "('z, 'h, 'p) history_api \<Rightarrow> resolution \<Rightarrow> string \<Rightarrow> rat \<Rightarrow> 'p \<Rightarrow> bool" where
  "entry_of A res b s raw \<longleftrightarrow>
     (\<exists>t p. s = of_int t \<and> bucket_ok res t \<and> b = bucket_name res t \<and> valid_point p \<and> raw = ha_encode A p)"

definition bucket_fits :: "('z, 'h, 'p) history_api \<Rightarrow> resolution \<Rightarrow> string \<Rightarrow> rat option \<Rightarrow> 'p option \<Rightarrow> bool" where
  "bucket_fits A res b s raw \<longleftrightarrow> (case (s, raw) of (None, None) \<Rightarrow> True | (Some x, Some r) \<Rightarrow> entry_of A res b x r | _ \<Rightarrow> False)"

definition history_ok :: "('z, 'h, 'p) history_api \<Rightarrow> resolution \<Rightarrow> ('z, 'h) history \<Rightarrow> bool" where
  "history_ok A res h \<longleftrightarrow> (\<forall>b. bucket_fits A res b (z_score (ha_zs A) (hi_index h) b) (h_get (ha_hash A) (hi_data h) b))"

text \<open>What a write keeps: the points after the cutoff, and of those the newest \<open>n\<close>.\<close>

definition retained :: "int \<Rightarrow> nat \<Rightarrow> (int \<Rightarrow> 'a option) \<Rightarrow> int \<Rightarrow> 'a option" where
  "retained cutoff n M =
     (let recent = M |` {t. cutoff < t} in recent |` {t. card {u \<in> dom recent. t < u} < n})"

definition put_point :: "nat \<times> nat \<Rightarrow> resolution \<Rightarrow> history_point \<Rightarrow> (int \<Rightarrow> history_point option) \<Rightarrow> int \<Rightarrow> history_point option" where
  "put_point hours res p M =
     (let t = bucket_time (hp_observed p) res
      in retained (t - (if res = Five_Minutes then int (fst hours) else int (snd hours)) * 3600) (max_buckets res)
           (M(t \<mapsto> plain_point (p\<lparr>hp_observed := of_int t\<rparr>))))"

definition empty_history :: "('z, 'h, 'p) history_api \<Rightarrow> ('z, 'h) history" where
  "empty_history A = \<lparr>hi_index = z_empty (ha_zs A), hi_data = h_empty (ha_hash A)\<rparr>"

definition history_run :: "('z, 'h, 'p) history_api \<Rightarrow> nat \<times> nat \<Rightarrow> resolution \<Rightarrow> history_point list \<Rightarrow> ('z, 'h) history" where
  "history_run A hours res ps = fold (\<lambda>p h. fst (history_write A hours res p h)) ps (empty_history A)"

lemma history_okD:
  "history_ok A res h \<Longrightarrow> z_score (ha_zs A) (hi_index h) b = Some s \<Longrightarrow>
     \<exists>t p. s = of_int t \<and> bucket_ok res t \<and> b = bucket_name res t \<and> valid_point p \<and>
       h_get (ha_hash A) (hi_data h) b = Some (ha_encode A p)"
  by (auto simp: history_ok_def bucket_fits_def entry_of_def split: option.splits dest!: spec [of _ b]) blast+

lemma sorted_scores: "sorted (map zkey xs) \<Longrightarrow> sorted (map snd xs)"
  by (induction xs) auto

lemma drop_newest:
  assumes "sorted ts" and "distinct ts" and "k \<le> length ts" and "x \<in> set ts"
  shows "x \<in> set (take k ts) \<longleftrightarrow> \<not> card {u \<in> set ts. x < u} < length ts - k"
proof -
  from assms(4) obtain i where i: "i < length ts" "x = ts ! i" by (auto simp: in_set_conv_nth)
  have lt: "ts ! i < ts ! j \<longleftrightarrow> i < j" if "j < length ts" for j
    using that i(1) assms(1,2) by (metis sorted_nth_mono nth_eq_iff_index_eq linorder_not_less order_less_le nat_less_le)
  have "{u \<in> set ts. x < u} = set (drop (Suc i) ts)"
  proof (intro set_eqI iffI)
    fix u assume "u \<in> {u \<in> set ts. x < u}"
    then obtain j where "j < length ts" "u = ts ! j" "i < j" using lt i(2) by (auto simp: in_set_conv_nth)
    then show "u \<in> set (drop (Suc i) ts)"
      by (auto simp: in_set_conv_nth intro!: exI [of _ "j - Suc i"])
  next
    fix u assume "u \<in> set (drop (Suc i) ts)"
    then obtain j where "j < length ts - Suc i" "u = ts ! (Suc i + j)" by (auto simp: in_set_conv_nth)
    moreover from this have "u \<in> set ts" by simp
    ultimately show "u \<in> {u \<in> set ts. x < u}" using lt [of "Suc i + j"] i(2) by simp
  qed
  then have "card {u \<in> set ts. x < u} = length ts - Suc i" by (simp add: distinct_card assms(2))
  moreover have "x \<in> set (take k ts) \<longleftrightarrow> i < k"
    using i assms(2,3) by (auto simp: in_set_conv_nth nth_eq_iff_index_eq)
  ultimately show ?thesis using i(1) assms(3) by auto
qed

context history_store
begin

lemma point_at_Some:
  assumes "history_ok A res h"
  shows "point_at A res h t \<noteq> None \<longleftrightarrow> z_score (ha_zs A) (hi_index h) (bucket_name res t) = Some (of_int t)"
proof (cases "z_score (ha_zs A) (hi_index h) (bucket_name res t) = Some (of_int t)")
  case True
  from history_okD [OF assms True] point_codec show ?thesis by (auto simp: point_at_def True)
qed (simp add: point_at_def)

text \<open>Forgetting a set of buckets in both keys.\<close>

lemma forgotten:
  assumes "history_ok A res h"
    and "\<And>b. z_score (ha_zs A) (hi_index h') b = (if b \<in> S then None else z_score (ha_zs A) (hi_index h) b)"
    and "\<And>b. h_get (ha_hash A) (hi_data h') b = (if b \<in> S then None else h_get (ha_hash A) (hi_data h) b)"
  shows "history_ok A res h'" and "point_at A res h' t = (if bucket_name res t \<in> S then None else point_at A res h t)"
proof -
  show "history_ok A res h'" using assms(1) by (simp add: history_ok_def bucket_fits_def assms(2,3))
  show "point_at A res h' t = (if bucket_name res t \<in> S then None else point_at A res h t)"
    by (simp add: point_at_def assms(2,3))
qed

lemma get_dels: "h_get (ha_hash A) (fold (\<lambda>b x. h_del (ha_hash A) x b) bs x) k = (if k \<in> set bs then None else h_get (ha_hash A) x k)"
  by (induction bs arbitrary: x) auto

lemma forget_fold:
  "z_score (ha_zs A) (hi_index (fold (forget_bucket A) bs h)) b = (if b \<in> set bs then None else z_score (ha_zs A) (hi_index h) b)"
  "h_get (ha_hash A) (hi_data (fold (forget_bucket A) bs h)) b = (if b \<in> set bs then None else h_get (ha_hash A) (hi_data h) b)"
  by (induction bs arbitrary: h) (auto simp: forget_bucket_def)

lemma added:
  assumes "history_ok A res h" and "bucket_ok res t" and "valid_point p"
    and "h1 = \<lparr>hi_index = z_add (ha_zs A) (hi_index h) (bucket_name res t) (of_int t),
              hi_data = h_set (ha_hash A) (hi_data h) (bucket_name res t) (ha_encode A p)\<rparr>"
  shows "history_ok A res h1" and "point_at A res h1 = (point_at A res h)(t \<mapsto> plain_point p)"
proof -
  have "entry_of A res (bucket_name res t) (of_int t) (ha_encode A p)" using assms(2,3) by (auto simp: entry_of_def)
  then have "bucket_fits A res (bucket_name res t) (Some (of_int t)) (Some (ha_encode A p))" by (simp add: bucket_fits_def)
  with assms(1) show "history_ok A res h1" by (simp add: history_ok_def assms(4))
  have "point_at A res h1 u = ((point_at A res h)(t \<mapsto> plain_point p)) u" for u
  proof (cases "bucket_name res u = bucket_name res t \<and> u \<noteq> t")
    case True
    have "z_score (ha_zs A) (hi_index h) (bucket_name res u) \<noteq> Some (of_int u)"
    proof
      assume "z_score (ha_zs A) (hi_index h) (bucket_name res u) = Some (of_int u)"
      from history_okD [OF assms(1) this] have "bucket_ok res u" by auto
      with True assms(2) bucket_name_inj [of res u t] show False by (simp add: bucket_ok_def)
    qed
    with True show ?thesis by (simp add: point_at_def assms(4))
  next
    case False
    then show ?thesis using point_codec [OF assms(3)] by (cases "u = t") (simp_all add: point_at_def assms(4))
  qed
  then show "point_at A res h1 = (point_at A res h)(t \<mapsto> plain_point p)" by (rule ext)
qed

lemma index_times:
  assumes "history_ok A res h"
  shows "set (map snd (z_range (ha_zs A) (hi_index h))) = of_int ` dom (point_at A res h)"
    and "sorted (map snd (z_range (ha_zs A) (hi_index h)))" and "distinct (map snd (z_range (ha_zs A) (hi_index h)))"
proof -
  let ?xs = "z_range (ha_zs A) (hi_index h)"
  have entry: "\<exists>t. s = of_int t \<and> b = bucket_name res t \<and> point_at A res h t \<noteq> None" if "(b, s) \<in> set ?xs" for b s
  proof -
    from that have sc: "z_score (ha_zs A) (hi_index h) b = Some s" by (simp add: z.range_score)
    from history_okD [OF assms this] obtain t where "s = of_int t" "b = bucket_name res t" by blast
    with point_at_Some [OF assms, of t] sc show ?thesis by auto
  qed
  show "set (map snd ?xs) = of_int ` dom (point_at A res h)"
  proof (intro set_eqI iffI)
    fix s :: rat assume "s \<in> of_int ` dom (point_at A res h)"
    then obtain t where t: "s = of_int t" "point_at A res h t \<noteq> None" by (auto simp: dom_def)
    with point_at_Some [OF assms, of t] have "(bucket_name res t, s) \<in> set ?xs" by (simp add: z.range_score)
    then show "s \<in> set (map snd ?xs)" by force
  qed (use entry in \<open>force simp: dom_def\<close>)
  show "sorted (map snd ?xs)" using z.range_sorted by (rule sorted_scores)
  have "inj_on snd (set ?xs)"
  proof (rule inj_onI)
    fix x y assume xy: "x \<in> set ?xs" "y \<in> set ?xs" "snd x = snd y"
    from xy(1,2) have "(fst x, snd x) \<in> set ?xs" "(fst y, snd y) \<in> set ?xs" by simp_all
    from entry [OF this(1)] entry [OF this(2)] xy(3) have "fst x = fst y" by auto
    with xy(3) show "x = y" by (simp add: prod_eq_iff)
  qed
  moreover have "distinct ?xs" using z.range_distinct [of "hi_index h"] by (simp add: distinct_map)
  ultimately show "distinct (map snd ?xs)" by (simp add: distinct_map)
qed

lemma cut_off:
  assumes "history_ok A res h"
    and "h' = \<lparr>hi_index = z_remrangebyscore (ha_zs A) (hi_index h) Below_All (Incl (of_int cutoff)),
              hi_data = fold (\<lambda>b x. h_del (ha_hash A) x b)
                (map fst (z_rangebyscore (ha_zs A) (hi_index h) Below_All (Incl (of_int cutoff)))) (hi_data h)\<rparr>"
  shows "history_ok A res h'" and "point_at A res h' = point_at A res h |` {t. cutoff < t}"
proof -
  define S where "S = set (map fst (z_rangebyscore (ha_zs A) (hi_index h) Below_All (Incl (of_int cutoff))))"
  have S: "b \<in> S \<longleftrightarrow> (\<exists>s. z_score (ha_zs A) (hi_index h) b = Some s \<and> s \<le> of_int cutoff)" for b
    using z.rangebyscore_mem [of _ _ "hi_index h" Below_All "Incl (of_int cutoff)"] by (force simp: S_def)
  have sc: "z_score (ha_zs A) (hi_index h') b = (if b \<in> S then None else z_score (ha_zs A) (hi_index h) b)" for b
    by (auto simp: assms(2) z.score_remrange S split: option.splits)
  have "h_get (ha_hash A) (hi_data h') b = (if b \<in> S then None else h_get (ha_hash A) (hi_data h) b)" for b
    by (simp add: assms(2) get_dels S_def)
  note f = forgotten [OF assms(1) sc this]
  show "history_ok A res h'" by (rule f(1))
  have "point_at A res h' t = (point_at A res h |` {t. cutoff < t}) t" for t
  proof (cases "point_at A res h t = None")
    case False
    with point_at_Some [OF assms(1), of t] f(2) S [of "bucket_name res t"] show ?thesis
      by (cases "cutoff < t") (auto simp: restrict_map_def)
  qed (use f(2) in \<open>auto simp: restrict_map_def\<close>)
  then show "point_at A res h' = point_at A res h |` {t. cutoff < t}" by (rule ext)
qed

lemma cut_oldest:
  assumes "history_ok A res h"
    and "oldest = map fst (take (z_card (ha_zs A) (hi_index h) - n) (z_range (ha_zs A) (hi_index h)))"
    and "h' = fold (forget_bucket A) oldest h"
  shows "history_ok A res h'" and "point_at A res h' = point_at A res h |` {t. card {u \<in> dom (point_at A res h). t < u} < n}"
    and "z_card (ha_zs A) (hi_index h') \<le> n"
proof -
  let ?xs = "z_range (ha_zs A) (hi_index h)" and ?M = "point_at A res h"
  let ?ts = "map snd ?xs"
  define k where "k = length ?xs - n"
  have old: "oldest = map fst (take k ?xs)" by (simp add: assms(2) k_def z.card_range)
  note f = forgotten [OF assms(1) forget_fold, of oldest, folded assms(3)]
  show "history_ok A res h'" by (rule f(1))
  have kept: "bucket_name res t \<in> set oldest \<longleftrightarrow> \<not> card {u \<in> dom ?M. t < u} < n" if "?M t \<noteq> None" for t
  proof -
    have sc: "z_score (ha_zs A) (hi_index h) (bucket_name res t) = Some (of_int t)" using point_at_Some [OF assms(1)] that by blast
    have "bucket_name res t \<in> set oldest \<longleftrightarrow> of_int t \<in> set (take k ?ts)"
    proof
      assume "bucket_name res t \<in> set oldest"
      then obtain s where s: "(bucket_name res t, s) \<in> set (take k ?xs)" by (auto simp: old)
      then have "(bucket_name res t, s) \<in> set ?xs" by (rule in_set_takeD)
      with sc have "s = of_int t" by (simp add: z.range_score)
      with s show "of_int t \<in> set (take k ?ts)" by (force simp: take_map)
    next
      assume "of_int t \<in> set (take k ?ts)"
      then obtain b where b: "(b, of_int t) \<in> set (take k ?xs)" by (auto simp: take_map)
      then have "z_score (ha_zs A) (hi_index h) b = Some (of_int t)" using in_set_takeD z.range_score by metis
      from history_okD [OF assms(1) this] have "b = bucket_name res t" by auto
      with b show "bucket_name res t \<in> set oldest" by (force simp: old)
    qed
    moreover have mem: "of_int t \<in> set ?ts" using index_times(1) [OF assms(1)] that by auto
    moreover have "of_int t \<in> set (take k ?ts) \<longleftrightarrow> \<not> card {u \<in> set ?ts. of_int t < u} < length ?ts - k"
      using index_times(2,3) [OF assms(1)] mem by (intro drop_newest) (simp_all add: k_def)
    moreover have "{u \<in> set ?ts. of_int t < u} = of_int ` {u \<in> dom ?M. t < u}" using index_times(1) [OF assms(1)] by auto
    then have c: "card {u \<in> set ?ts. of_int t < u} = card {u \<in> dom ?M. t < u}" by (simp add: card_image inj_on_def)
    moreover have "card {u \<in> set ?ts. of_int t < u} < card (set ?ts)" using mem by (intro psubset_card_mono) auto
    then have "card {u \<in> dom ?M. t < u} < length ?xs" using c distinct_card [OF index_times(3) [OF assms(1)]] by simp
    ultimately show ?thesis by (auto simp: k_def)
  qed
  have "point_at A res h' t = (?M |` {t. card {u \<in> dom ?M. t < u} < n}) t" for t
    using kept [of t] f(2) by (cases "?M t = None") (auto simp: restrict_map_def)
  then show "point_at A res h' = ?M |` {t. card {u \<in> dom ?M. t < u} < n}" by (rule ext)
  have "{m. z_score (ha_zs A) (hi_index h') m \<noteq> None} = fst ` set ?xs - set oldest"
    using z.range_score [of _ _ "hi_index h"] by (force simp: assms(3) forget_fold)
  also have "\<dots> = fst ` set (drop k ?xs)"
  proof -
    have "distinct (map fst (take k ?xs @ drop k ?xs))" by (simp add: z.range_distinct del: map_append)
    then have "fst ` set (take k ?xs) \<inter> fst ` set (drop k ?xs) = {}" by (simp only: map_append distinct_append set_map)
    moreover have "set ?xs = set (take k ?xs) \<union> set (drop k ?xs)" by (metis append_take_drop_id set_append)
    ultimately show ?thesis by (auto simp: old image_Un)
  qed
  finally have eq: "{m. z_score (ha_zs A) (hi_index h') m \<noteq> None} = fst ` set (drop k ?xs)" .
  have "card (fst ` set (drop k ?xs)) \<le> card (set (drop k ?xs))" by (rule card_image_le) simp
  also have "\<dots> \<le> length (drop k ?xs)" by (rule card_length)
  finally show "z_card (ha_zs A) (hi_index h') \<le> n" unfolding z.card_score eq by (simp add: k_def)
qed

lemma write_refines:
  assumes "history_ok A res h" and "valid_point p" and "four_digit_year (bucket_time (hp_observed p) res)"
  shows "history_ok A res (fst (history_write A hours res p h))"
    and "point_at A res (fst (history_write A hours res p h)) = put_point hours res p (point_at A res h)"
    and "z_card (ha_zs A) (hi_index (fst (history_write A hours res p h))) \<le> max_buckets res"
proof -
  define t where "t = bucket_time (hp_observed p) res"
  define cutoff where "cutoff = t - (if res = Five_Minutes then int (fst hours) else int (snd hours)) * 3600"
  define q where "q = p\<lparr>hp_observed := of_int t\<rparr>"
  define h1 where "h1 = \<lparr>hi_index = z_add (ha_zs A) (hi_index h) (bucket_name res t) (of_int t),
      hi_data = h_set (ha_hash A) (hi_data h) (bucket_name res t) (ha_encode A q)\<rparr>"
  define h2 where "h2 = \<lparr>hi_index = z_remrangebyscore (ha_zs A) (hi_index h1) Below_All (Incl (of_int cutoff)),
      hi_data = fold (\<lambda>b x. h_del (ha_hash A) x b)
        (map fst (z_rangebyscore (ha_zs A) (hi_index h1) Below_All (Incl (of_int cutoff)))) (hi_data h1)\<rparr>"
  define oldest where "oldest = map fst (take (z_card (ha_zs A) (hi_index h2) - max_buckets res) (z_range (ha_zs A) (hi_index h2)))"
  define h3 where "h3 = fold (forget_bucket A) oldest h2"
  have c: "(of_int t - of_nat (if res = Five_Minutes then fst hours else snd hours) * 3600 :: rat) = of_int cutoff"
    by (simp add: cutoff_def)
  have run: "fst (history_write A hours res p h) = h3"
    unfolding history_write_def write_history_def Let_def t_def [symmetric] c q_def [symmetric] h1_def [symmetric]
    by (simp add: h1_def h2_def oldest_def h3_def)
  have "bucket_ok res t" using assms(3) bucket_time_facts(1) by (simp add: bucket_ok_def t_def)
  moreover have "valid_point q" using assms(2) by (simp add: q_def valid_point_def)
  ultimately have 1: "history_ok A res h1" "point_at A res h1 = (point_at A res h)(t \<mapsto> plain_point q)"
    using added [OF assms(1) _ _ h1_def] by blast+
  note 2 = cut_off [OF 1(1) h2_def]
  note 3 = cut_oldest [OF 2(1) oldest_def h3_def]
  show "history_ok A res (fst (history_write A hours res p h))" unfolding run by (rule 3(1))
  show "z_card (ha_zs A) (hi_index (fst (history_write A hours res p h))) \<le> max_buckets res" unfolding run by (rule 3(3))
  show "point_at A res (fst (history_write A hours res p h)) = put_point hours res p (point_at A res h)"
    unfolding run 3(2) 2(2) 1(2) put_point_def retained_def Let_def t_def [symmetric] q_def [symmetric] cutoff_def [symmetric]
    by (rule refl)
qed

lemma empty_history_ok: "history_ok A res (empty_history A)" "point_at A res (empty_history A) = (\<lambda>_. None)"
  by (auto simp: history_ok_def bucket_fits_def empty_history_def point_at_def)

lemma read_window:
  assumes "history_ok A (rp_resolution (range_policy_of r)) h"
  shows "\<exists>ts. sorted ts \<and> distinct ts \<and>
    set ts = {t \<in> dom (point_at A (rp_resolution (range_policy_of r)) h). now - of_nat (rp_hours (range_policy_of r)) * 3600 \<le> of_int t \<and> of_int t \<le> now} \<and>
    history_read A r now h = Inr (map (\<lambda>t. the (point_at A (rp_resolution (range_policy_of r)) h t)) (take (rp_max (range_policy_of r)) ts))"
proof -
  let ?res = "rp_resolution (range_policy_of r)" and ?n = "rp_max (range_policy_of r)"
  let ?M = "point_at A ?res h"
  define lo where "lo = now - of_nat (rp_hours (range_policy_of r)) * 3600"
  define xs where "xs = z_rangebyscore (ha_zs A) (hi_index h) (Incl lo) (Incl now)"
  define ts where "ts = map (\<lambda>x. \<lfloor>snd x\<rfloor>) xs"
  have entry: "\<exists>t p. snd x = of_int t \<and> fst x = bucket_name ?res t \<and> h_get (ha_hash A) (hi_data h) (fst x) = Some (ha_encode A p) \<and>
      ha_decode A (ha_encode A p) = Some (plain_point p) \<and> ?M t = Some (plain_point p)" if "x \<in> set xs" for x
  proof -
    have sc: "z_score (ha_zs A) (hi_index h) (fst x) = Some (snd x)"
      using that z.rangebyscore_mem [of "fst x" "snd x"] by (simp add: xs_def)
    from history_okD [OF assms this] obtain t p where "snd x = of_int t" "fst x = bucket_name ?res t" "valid_point p"
      "h_get (ha_hash A) (hi_data h) (fst x) = Some (ha_encode A p)" by blast
    with point_codec sc show ?thesis by (intro exI [of _ t] exI [of _ p]) (simp add: point_at_def)
  qed
  have sub: "x \<in> set xs" if "x \<in> set (take ?n xs)" for x using that by (rule in_set_takeD)
  have got: "List.map_filter (h_get (ha_hash A) (hi_data h)) (map fst ys) = map (\<lambda>x. the (h_get (ha_hash A) (hi_data h) (fst x))) ys
      \<and> List.map_filter (ha_decode A) (map (\<lambda>x. the (h_get (ha_hash A) (hi_data h) (fst x))) ys) = map (\<lambda>x. the (?M \<lfloor>snd x\<rfloor>)) ys
      \<and> \<not> (\<exists>x \<in> set ys. ha_decode A (the (h_get (ha_hash A) (hi_data h) (fst x))) = None)" if "set ys \<subseteq> set xs" for ys
    using that
  proof (induction ys)
    case (Cons y ys)
    from Cons.prems entry [of y] obtain t p where "snd y = of_int t" "h_get (ha_hash A) (hi_data h) (fst y) = Some (ha_encode A p)"
      "ha_decode A (ha_encode A p) = Some (plain_point p)" "?M t = Some (plain_point p)" by auto
    with Cons show ?case by (simp add: List.map_filter_simps)
  qed (simp add: List.map_filter_simps)
  have "history_read A r now h = Inr (map (\<lambda>x. the (?M \<lfloor>snd x\<rfloor>)) (take ?n xs))"
    using got [of "take ?n xs"] sub
    by (auto simp: history_read_def Let_def z.rangelimit_range lo_def [symmetric] xs_def [symmetric] subset_iff List.map_filter_simps)
  moreover have mp: "map snd xs = map of_int ts" using entry by (force simp: ts_def)
  have "sorted (map snd xs)" unfolding xs_def by (rule sorted_scores [OF z.rangebyscore_sorted])
  moreover have "distinct (map snd xs)"
    unfolding xs_def z.rangebyscore_range by (rule distinct_map_filter [OF index_times(3) [OF assms]])
  ultimately have "history_read A r now h = Inr (map (\<lambda>x. the (?M \<lfloor>snd x\<rfloor>)) (take ?n xs)) \<and> sorted ts \<and> distinct ts"
    by (simp add: mp sorted_wrt_map distinct_map)
  moreover have "set ts = {t \<in> dom ?M. lo \<le> of_int t \<and> of_int t \<le> now}"
  proof (intro set_eqI iffI)
    fix t assume "t \<in> set ts"
    then obtain x where x: "x \<in> set xs" "t = \<lfloor>snd x\<rfloor>" by (auto simp: ts_def)
    then have "lo \<le> snd x" "snd x \<le> now" using z.rangebyscore_mem [of "fst x" "snd x"] by (simp_all add: xs_def)
    with entry [OF x(1)] x(2) show "t \<in> {t \<in> dom ?M. lo \<le> of_int t \<and> of_int t \<le> now}" by auto
  next
    fix t assume t: "t \<in> {t \<in> dom ?M. lo \<le> of_int t \<and> of_int t \<le> now}"
    then have "(bucket_name ?res t, of_int t) \<in> set xs" using point_at_Some [OF assms, of t] by (auto simp: xs_def z.rangebyscore_mem)
    then show "t \<in> set ts" by (force simp: ts_def)
  qed
  ultimately show ?thesis by (intro exI [of _ ts]) (simp add: ts_def lo_def take_map comp_def)
qed

end

section \<open>The properties\<close>

lemma run_refines:
  assumes "history_store A" and "\<forall>p \<in> set ps. valid_point p \<and> four_digit_year (bucket_time (hp_observed p) res)"
    and "history_ok A res h" and "z_card (ha_zs A) (hi_index h) \<le> max_buckets res"
  shows "history_ok A res (fold (\<lambda>p h. fst (history_write A hours res p h)) ps h) \<and>
    point_at A res (fold (\<lambda>p h. fst (history_write A hours res p h)) ps h) = fold (put_point hours res) ps (point_at A res h) \<and>
    z_card (ha_zs A) (hi_index (fold (\<lambda>p h. fst (history_write A hours res p h)) ps h)) \<le> max_buckets res"
  using assms(2-)
proof (induction ps arbitrary: h)
  case (Cons p ps)
  note w = history_store.write_refines [OF assms(1) Cons.prems(2), of p hours]
  from Cons.prems(1) have "valid_point p" "four_digit_year (bucket_time (hp_observed p) res)" by simp_all
  with w Cons.IH [of "fst (history_write A hours res p h)"] Cons.prems(1) show ?case by simp
qed simp

lemma empty_card: "history_store A \<Longrightarrow> z_card (ha_zs A) (hi_index (empty_history A)) = 0"
proof -
  assume "history_store A"
  then have Z: "zset (ha_zs A)" by (simp add: history_store_def)
  show ?thesis by (simp add: empty_history_def zset.card_score [OF Z] zset.score_empty [OF Z])
qed

text \<open>
  C29: The history of a scope at one resolution, a sorted set and a hash that a script updates
  together, implements a map from bucket times to points. After any writes it holds, under each
  bucket, what the abstract map holds: the last point written for the bucket, unless a write since
  then put its cutoff past it or 576 (720 for hours) newer buckets were kept. Index and data always
  have the same buckets, and never more than that cap.
\<close>

theorem history_refines_map:
  assumes "history_store A" and "\<forall>p \<in> set ps. valid_point p \<and> four_digit_year (bucket_time (hp_observed p) res)"
  shows "point_at A res (history_run A hours res ps) = fold (put_point hours res) ps (\<lambda>_. None)
    \<and> (\<forall>b. z_score (ha_zs A) (hi_index (history_run A hours res ps)) b = None \<longleftrightarrow>
          h_get (ha_hash A) (hi_data (history_run A hours res ps)) b = None)
    \<and> z_card (ha_zs A) (hi_index (history_run A hours res ps)) \<le> max_buckets res"
proof -
  note r = run_refines [OF assms history_store.empty_history_ok(1) [OF assms(1)], of hours, folded history_run_def]
  have ok: "history_ok A res (history_run A hours res ps)" using r empty_card [OF assms(1)] by simp
  have "z_score (ha_zs A) (hi_index (history_run A hours res ps)) b = None \<longleftrightarrow>
      h_get (ha_hash A) (hi_data (history_run A hours res ps)) b = None" for b
    using ok by (auto simp: history_ok_def bucket_fits_def split: option.splits dest!: spec [of _ b])
  with r empty_card [OF assms(1)] history_store.empty_history_ok(2) [OF assms(1)] show ?thesis by simp
qed

text \<open>The range of a policy is as long as its buckets; a window off the grid has no room for more.\<close>

lemma policy_span: "int (rp_hours (range_policy_of r)) * 3600 = step_of (rp_resolution (range_policy_of r)) * int (rp_max (range_policy_of r))"
  by (cases r) (simp_all add: range_policy_of_def step_of_def)

lemma window_count:
  fixes x :: rat
  assumes "0 < step" and "finite T" and "\<forall>t \<in> T. step dvd t \<and> x - of_int (step * int n) \<le> of_int t \<and> of_int t \<le> x"
    and "\<not> (\<exists>k. x = of_int (k * step))"
  shows "card T \<le> n"
proof -
  let ?q = "\<lfloor>x / of_int step\<rfloor>"
  have lower: "of_int ?q * of_int step \<le> x" and upper: "x < (of_int ?q + 1) * of_int step"
    using assms(1) by (simp_all add: floor_divide_lower floor_divide_upper)
  have ne: "of_int (?q * step) \<noteq> x" using assms(4) by metis
  have "(\<lambda>t. t div step) ` T \<subseteq> {?q - int n + 1..?q}"
  proof (intro subsetI, elim imageE)
    fix k t assume t: "k = t div step" "t \<in> T"
    with assms(3) have kt: "t = k * step" and b: "x - of_int (step * int n) \<le> of_int t" "of_int t \<le> x" by auto
    have "of_int (k * step) < (of_int ((?q + 1) * step) :: rat)" using b(2) upper kt by simp
    then have "k < ?q + 1" using assms(1) by (simp only: of_int_less_iff) simp
    moreover have "(of_int ((?q - int n) * step) :: rat) = of_int (?q * step) - of_int (step * int n)"
      by (simp add: algebra_simps)
    then have "(of_int ((?q - int n) * step) :: rat) < of_int (k * step)" using b(1) lower ne kt by simp
    then have "?q - int n < k" using assms(1) by (simp only: of_int_less_iff) simp
    ultimately show "k \<in> {?q - int n + 1..?q}" by simp
  qed
  moreover have "inj_on (\<lambda>t. t div step) T" using assms(3) by (intro inj_onI) (metis dvd_div_mult_self)
  ultimately have "card T \<le> card {?q - int n + 1..?q}" by (metis card_image card_mono finite_atLeastAtMost_int)
  then show ?thesis by simp
qed

text \<open>
  C30: A read of any range never fails on what was written: it gives the stored points of the
  window in ascending order of their buckets, at most as many as the range has buckets, and all of
  them whenever the reading time is not itself on the bucket grid.
\<close>

theorem history_reads_window:
  assumes "history_store A" and "\<forall>p \<in> set ps. valid_point p \<and> four_digit_year (bucket_time (hp_observed p) (rp_resolution (range_policy_of r)))"
  shows "\<exists>ts. let M = fold (put_point hours (rp_resolution (range_policy_of r))) ps (\<lambda>_. None);
      W = {t \<in> dom M. now - of_nat (rp_hours (range_policy_of r)) * 3600 \<le> of_int t \<and> of_int t \<le> now}
    in history_read A r now (history_run A hours (rp_resolution (range_policy_of r)) ps) = Inr (map (\<lambda>t. the (M t)) ts)
      \<and> sorted ts \<and> distinct ts \<and> set ts \<subseteq> W \<and> length ts \<le> rp_max (range_policy_of r)
      \<and> ((\<exists>k. now = of_int (k * step_of (rp_resolution (range_policy_of r)))) \<or> set ts = W)"
proof -
  let ?res = "rp_resolution (range_policy_of r)" and ?n = "rp_max (range_policy_of r)"
  let ?h = "history_run A hours ?res ps"
  note run = run_refines [OF assms history_store.empty_history_ok(1) [OF assms(1)], of hours, folded history_run_def]
  have ok: "history_ok A ?res ?h" and M: "point_at A ?res ?h = fold (put_point hours ?res) ps (\<lambda>_. None)"
    using run empty_card [OF assms(1)] history_store.empty_history_ok(2) [OF assms(1)] by simp_all
  define W where "W = {t \<in> dom (point_at A ?res ?h). now - of_nat (rp_hours (range_policy_of r)) * 3600 \<le> of_int t \<and> of_int t \<le> now}"
  from history_store.read_window [OF assms(1) ok, of now] obtain ts where ts: "sorted ts" "distinct ts" "set ts = W"
    "history_read A r now ?h = Inr (map (\<lambda>t. the (point_at A ?res ?h t)) (take ?n ts))" unfolding W_def by blast
  have grid: "step_of ?res dvd t" if "t \<in> W" for t
  proof -
    have "z_score (ha_zs A) (hi_index ?h) (bucket_name ?res t) = Some (of_int t)"
      using that history_store.point_at_Some [OF assms(1) ok, of t] by (auto simp: W_def)
    from history_okD [OF ok this] show ?thesis by (auto simp: bucket_ok_def)
  qed
  have span: "(of_nat (rp_hours (range_policy_of r)) * 3600 :: rat) = of_int (step_of ?res * int ?n)"
    unfolding policy_span [symmetric] by simp
  have "set (take ?n ts) = W" if off: "\<not> (\<exists>k. now = of_int (k * step_of ?res))"
  proof -
    have "card W \<le> ?n"
      using grid off ts(3) by (intro window_count [of "step_of ?res" W now])
        (auto simp: W_def span step_of_def split: resolution.splits intro: finite_subset [OF _ finite_set])
    then have "length ts \<le> ?n" using ts(2,3) distinct_card by metis
    then show ?thesis using ts(3) by simp
  qed
  moreover have "set (take ?n ts) \<subseteq> W" using ts(3) set_take_subset by metis
  ultimately show ?thesis using ts(1,2,4)
    by (intro exI [of _ "take ?n ts"]) (auto simp: Let_def M [symmetric] W_def sorted_wrt_take)
qed

text \<open>A store for the witnesses, on the reference data structures.\<close>

definition w_history :: "(ref_zset, (member \<times> history_point) list, history_point) history_api" where
  "w_history = \<lparr>ha_zs = ref_zset_api, ha_hash = ref_hash_api, ha_encode = id, ha_decode = (\<lambda>p. Some (plain_point p))\<rparr>"

lemma w_history_store: "history_store w_history"
proof -
  have "history_store_axioms w_history" by (rule history_store_axioms.intro) (simp add: w_history_def)
  then show ?thesis by (simp add: history_store_def w_history_def ref_zset.zset_axioms ref_hash.hash_axioms)
qed

interpretation ref_history: history_store w_history
  by (rule w_history_store)

definition w_point :: "time \<Rightarrow> history_point" where
  "w_point t = \<lparr>hp_observed = t, hp_total = 1, hp_candidate = 0, hp_available = 1, hp_degraded = 0, hp_quarantined = 0, hp_due = 1,
     hp_leased = 0, hp_rate = Some 1, hp_share = Some 1, hp_high_quality = 1,
     hp_buckets = \<lparr>sb_low = 0, sb_watch = 0, sb_usable = 0, sb_high = 1\<rparr>,
     hp_latency = \<lparr>ls_samples = 1, ls_average = Some (Finite 100), ls_p50 = Some (Finite 100), ls_p95 = Some PosInf\<rparr>\<rparr>"

lemma w_buckets: "bucket_time 1000 Five_Minutes = 900" "bucket_time 1250 Five_Minutes = 1200"
  by (simp_all add: bucket_time_def step_of_def floor_eq_iff)

lemma w_years: "four_digit_year 900" "four_digit_year 1200"
  by (code_simp, code_simp)

lemma w_points: "\<forall>p \<in> set [w_point 1000, w_point 1250]. valid_point p \<and> four_digit_year (bucket_time (hp_observed p) Five_Minutes)"
proof -
  have "valid_point (w_point t)" "hp_observed (w_point t) = t" for t
    by (simp_all add: w_point_def valid_point_def unit_rate_def valid_summary_def valid_latency_def)
  then show ?thesis by (simp add: w_buckets w_years)
qed

theorem history_refines_map_witness:
  "point_at w_history Five_Minutes (history_run w_history (48, 720) Five_Minutes [w_point 1000, w_point 1250]) =
     fold (put_point (48, 720) Five_Minutes) [w_point 1000, w_point 1250] (\<lambda>_. None)"
  using history_refines_map [OF w_history_store w_points] by blast

theorem history_reads_window_witness:
  "\<exists>ts. history_read w_history H1 1301 (history_run w_history (48, 720) Five_Minutes [w_point 1000, w_point 1250])
     = Inr (map (\<lambda>t. the (fold (put_point (48, 720) Five_Minutes) [w_point 1000, w_point 1250] (\<lambda>_. None) t)) ts) \<and> length ts \<le> 12"
proof -
  have H1: "rp_resolution (range_policy_of H1) = Five_Minutes" "rp_max (range_policy_of H1) = 12" by (simp_all add: range_policy_of_def)
  with w_points have "\<forall>p \<in> set [w_point 1000, w_point 1250]. valid_point p \<and>
      four_digit_year (bucket_time (hp_observed p) (rp_resolution (range_policy_of H1)))" by simp
  from history_reads_window [OF w_history_store this, of "(48, 720)" 1301] show ?thesis
    unfolding H1 by (auto simp: Let_def)
qed

end
