(* ===== verification/Snapshot.thy ===== *)
theory Snapshot
  imports History
begin

text \<open>
  The recording of dashboard snapshots (dashboard/snapshot.py): the time buckets, the two keys that
  coordinate the workers, the points written for every domain and for the whole pool, and the
  interleaving of several recorders.
\<close>

section \<open>Coordination\<close>

record dashboard_settings =
  ds_interval :: int
  ds_short_hours :: int
  ds_long_hours :: int
  ds_heartbeat_interval :: int
  ds_heartbeat_ttl :: int
  ds_refresh :: int
  ds_max_records :: int

definition global_scope :: string where
  "global_scope = ''__all__''"

definition snapshot_bucket :: "dashboard_settings \<Rightarrow> time \<Rightarrow> int" where
  "snapshot_bucket c now = (let t = \<lfloor>now\<rfloor> in t - t mod ds_interval c)"

text \<open>The keys \<open>snapshot-done\<close> and \<open>snapshot-lock\<close> of each bucket, with their expiry.\<close>

record snapshot_keys =
  sk_done :: "int \<Rightarrow> (string \<times> time) option"
  sk_lock :: "int \<Rightarrow> (string \<times> time) option"

definition is_recorded :: "time \<Rightarrow> int \<Rightarrow> snapshot_keys \<Rightarrow> bool" where
  "is_recorded clock b k \<longleftrightarrow> alive clock (sk_done k b) \<noteq> None"

definition try_lock :: "time \<Rightarrow> string \<Rightarrow> int \<Rightarrow> snapshot_keys \<Rightarrow> snapshot_keys \<times> bool" where
  "try_lock clock owner b k =
     (if alive clock (sk_lock k b) = None then (k\<lparr>sk_lock := (sk_lock k)(b \<mapsto> (owner, clock + 60))\<rparr>, True) else (k, False))"

definition mark_recorded :: "time \<Rightarrow> int \<Rightarrow> snapshot_keys \<Rightarrow> snapshot_keys" where
  "mark_recorded clock b k = k\<lparr>sk_done := (sk_done k)(b \<mapsto> (''1'', clock + 900))\<rparr>"

text \<open>The script \<open>_RELEASE_LOCK\<close>.\<close>

definition release_lock :: "time \<Rightarrow> string \<Rightarrow> int \<Rightarrow> snapshot_keys \<Rightarrow> snapshot_keys" where
  "release_lock clock owner b k =
     (if alive clock (sk_lock k b) = Some owner then k\<lparr>sk_lock := (sk_lock k)(b := None)\<rparr> else k)"

section \<open>Recording\<close>

type_synonym ('z, 'h) histories = "string \<Rightarrow> resolution \<Rightarrow> ('z, 'h) history"

definition write_history_of ::
  "('z, 'h, 'p) history_api \<Rightarrow> nat \<times> nat \<Rightarrow> string \<Rightarrow> resolution \<Rightarrow> history_point \<Rightarrow> ('z, 'h) histories \<Rightarrow> ('z, 'h) histories" where
  "write_history_of A hours scope res p hs = hs(scope := (hs scope)(res := fst (history_write A hours res p (hs scope res))))"

definition write_point ::
  "('z, 'h, 'p) history_api \<Rightarrow> nat \<times> nat \<Rightarrow> string \<Rightarrow> int \<Rightarrow> history_point \<Rightarrow> ('z, 'h) histories \<Rightarrow> ('z, 'h) histories" where
  "write_point A hours scope bucket point hs =
     (let hs1 = write_history_of A hours scope Five_Minutes point hs
      in if bucket mod 3600 div 60 = 0 then write_history_of A hours scope Hour point hs1 else hs1)"

text \<open>\<open>_write_scope\<close>: an exception leaves the histories as they are.\<close>

definition write_scope ::
  "('zp, 'hp, 'o, 's, 'pp) svc \<Rightarrow> ('z, 'h, 'p) history_api \<Rightarrow> nat \<times> nat \<Rightarrow> ('zp, 'hp, 'o, 's) repo
     \<Rightarrow> string \<Rightarrow> int \<Rightarrow> record_scan \<Rightarrow> ('z, 'h) histories \<Rightarrow> ('z, 'h) histories result" where
  "write_scope E A hours R scope bucket scan hs =
     (case stats E R (if scope = global_scope then None else Some scope) of
        Inl e \<Rightarrow> Inl e
      | Inr st \<Rightarrow>
          (case aggregate_records (scan_items scan) st (of_int bucket) (scanned scan) (partial scan) of
             Inl e \<Rightarrow> Inl e
           | Inr a \<Rightarrow>
               (case from_aggregate a of
                  Inl e \<Rightarrow> Inl e
                | Inr point \<Rightarrow> Inr (write_point A hours scope bucket point hs))))"

text \<open>The records of all domains gathered so far, up to the maximum.\<close>

definition extend_scan :: "nat \<Rightarrow> record_scan \<Rightarrow> record_scan \<Rightarrow> record_scan" where
  "extend_scan maximum scan g =
     (let remaining = maximum - length (scan_items g)
      in \<lparr>scan_items = scan_items g @ take remaining (scan_items scan),
          scanned = scanned g + (if 0 < remaining then min (scanned scan) remaining else 0),
          partial = (partial g \<or> partial scan \<or> remaining < scanned scan \<or> remaining = 0)\<rparr>)"

fun record_domains ::
  "('zp, 'hp, 'o, 's, 'pp) svc \<Rightarrow> ('z, 'h, 'p) history_api \<Rightarrow> nat \<times> nat \<Rightarrow> nat \<Rightarrow> ('zp, 'hp, 'o, 's) repo
     \<Rightarrow> int \<Rightarrow> string list \<Rightarrow> record_scan \<Rightarrow> ('z, 'h) histories \<Rightarrow> ('z, 'h) histories \<times> record_scan result" where
  "record_domains E A hours maximum R bucket [] g hs = (hs, Inr g)"
| "record_domains E A hours maximum R bucket (d # ds) g hs =
     (case scan_records E R d (int maximum) 500 of
        Inl e \<Rightarrow> (hs, Inl e)
      | Inr scan \<Rightarrow>
          (case write_scope E A hours R d bucket scan hs of
             Inl e \<Rightarrow> (hs, Inl e)
           | Inr hs' \<Rightarrow> record_domains E A hours maximum R bucket ds (extend_scan maximum scan g) hs'))"

definition record_snapshot ::
  "('zp, 'hp, 'o, 's, 'pp) svc \<Rightarrow> ('z, 'h, 'p) history_api \<Rightarrow> nat \<times> nat \<Rightarrow> nat \<Rightarrow> ('zp, 'hp, 'o, 's) repo
     \<Rightarrow> int \<Rightarrow> ('z, 'h) histories \<Rightarrow> ('z, 'h) histories \<times> unit result" where
  "record_snapshot E A hours maximum R bucket hs =
     (case record_domains E A hours maximum R bucket (list_domains E R)
             \<lparr>scan_items = [], scanned = 0, partial = False\<rparr> hs of
        (hs', Inl e) \<Rightarrow> (hs', Inl e)
      | (hs', Inr g) \<Rightarrow>
          (case write_scope E A hours R global_scope bucket g hs' of
             Inl e \<Rightarrow> (hs', Inl e)
           | Inr hs'' \<Rightarrow> (hs'', Inr ())))"

text \<open>
  \<open>record_if_due\<close>: \<open>clock\<close> is the server's clock until the lock is taken, \<open>clock'\<close> when the
  recording ends. The \<open>finally\<close> clause releases the lock on every path.
\<close>

definition record_if_due ::
  "('zp, 'hp, 'o, 's, 'pp) svc \<Rightarrow> ('z, 'h, 'p) history_api \<Rightarrow> nat \<times> nat \<Rightarrow> dashboard_settings \<Rightarrow> ('zp, 'hp, 'o, 's) repo
     \<Rightarrow> time \<Rightarrow> time \<Rightarrow> string \<Rightarrow> time \<Rightarrow> snapshot_keys \<times> ('z, 'h) histories
     \<Rightarrow> (snapshot_keys \<times> ('z, 'h) histories) \<times> bool result" where
  "record_if_due E A hours c R clock clock' owner now s =
     (case s of (k, hs) \<Rightarrow>
        let b = snapshot_bucket c now
        in if is_recorded clock b k then ((k, hs), Inr False)
           else
             (case try_lock clock owner b k of
                (k1, False) \<Rightarrow> ((k1, hs), Inr False)
              | (k1, True) \<Rightarrow>
                  if is_recorded clock b k1 then ((release_lock clock owner b k1, hs), Inr False)
                  else
                    (case record_snapshot E A hours (nat (ds_max_records c)) R b hs of
                       (hs', Inl e) \<Rightarrow> ((release_lock clock' owner b k1, hs'), Inl e)
                     | (hs', Inr _) \<Rightarrow>
                         ((release_lock clock' owner b (mark_recorded clock' b k1), hs'), Inr True))))"

section \<open>Several recorders\<close>

text \<open>
  A call of \<open>record_if_due\<close> has a fresh owner and goes through these phases, one Redis command
  each: it has seen no \<open>done\<close> key; holds the lock since a time; has begun to write, at a time; has
  marked the bucket, at a time; has released the lock. It may fail in between, with or without
  reaching the \<open>finally\<close> clause.
\<close>

datatype snapshot_phase =
    Fresh
  | Seen int
  | Locked int time
  | Writing int time time
  | Marked int time time
  | Ended int time time
  | Failed

record snapshot_state =
  sn_clock :: time
  sn_keys :: snapshot_keys
  sn_phase :: "string \<Rightarrow> snapshot_phase"

inductive snapshot_step :: "snapshot_state \<Rightarrow> snapshot_state \<Rightarrow> bool" where
  tick: "sn_clock s \<le> t \<Longrightarrow> snapshot_step s (s\<lparr>sn_clock := t\<rparr>)"
| look: "sn_phase s w = Fresh \<Longrightarrow> \<not> is_recorded (sn_clock s) b (sn_keys s) \<Longrightarrow>
    snapshot_step s (s\<lparr>sn_phase := (sn_phase s)(w := Seen b)\<rparr>)"
| lock: "sn_phase s w = Seen b \<Longrightarrow> try_lock (sn_clock s) w b (sn_keys s) = (k, True) \<Longrightarrow>
    snapshot_step s (s\<lparr>sn_keys := k, sn_phase := (sn_phase s)(w := Locked b (sn_clock s))\<rparr>)"
| start: "sn_phase s w = Locked b t \<Longrightarrow> sn_clock s < t + 60 \<Longrightarrow> \<not> is_recorded (sn_clock s) b (sn_keys s) \<Longrightarrow>
    snapshot_step s (s\<lparr>sn_phase := (sn_phase s)(w := Writing b t (sn_clock s))\<rparr>)"
| mark: "sn_phase s w = Writing b t t1 \<Longrightarrow> sn_clock s < t + 60 \<Longrightarrow>
    snapshot_step s (s\<lparr>sn_keys := mark_recorded (sn_clock s) b (sn_keys s),
                      sn_phase := (sn_phase s)(w := Marked b t1 (sn_clock s))\<rparr>)"
| release: "sn_phase s w = Marked b t1 t2 \<Longrightarrow>
    snapshot_step s (s\<lparr>sn_keys := release_lock (sn_clock s) w b (sn_keys s), sn_phase := (sn_phase s)(w := Ended b t1 t2)\<rparr>)"
| fail: "sn_phase s w = Locked b t \<or> sn_phase s w = Writing b t t1 \<Longrightarrow>
    snapshot_step s (s\<lparr>sn_keys := release_lock (sn_clock s) w b (sn_keys s), sn_phase := (sn_phase s)(w := Failed)\<rparr>)"
| crash: "(\<forall>b t1 t2. sn_phase s w \<noteq> Marked b t1 t2 \<and> sn_phase s w \<noteq> Ended b t1 t2) \<Longrightarrow>
    snapshot_step s (s\<lparr>sn_phase := (sn_phase s)(w := Failed)\<rparr>)"

definition snapshot_start :: "snapshot_state \<Rightarrow> bool" where
  "snapshot_start s \<longleftrightarrow> sn_phase s = (\<lambda>_. Fresh)"

text \<open>A call has written the snapshot of a bucket: when it began and when it marked it.\<close>

definition wrote :: "snapshot_state \<Rightarrow> string \<Rightarrow> int \<Rightarrow> time \<Rightarrow> time \<Rightarrow> bool" where
  "wrote s w b t1 t2 \<longleftrightarrow> sn_phase s w = Marked b t1 t2 \<or> sn_phase s w = Ended b t1 t2"

definition holds_lock :: "snapshot_state \<Rightarrow> string \<Rightarrow> int \<Rightarrow> time \<Rightarrow> bool" where
  "holds_lock s w b t \<longleftrightarrow> sn_phase s w = Locked b t \<or> (\<exists>t1. sn_phase s w = Writing b t t1)"

lemma wrote_update: "wrote (s\<lparr>sn_keys := k, sn_phase := (sn_phase s)(w := p)\<rparr>) w' b t1 t2 \<longleftrightarrow>
    (if w' = w then p = Marked b t1 t2 \<or> p = Ended b t1 t2 else wrote s w' b t1 t2)"
  "wrote (s\<lparr>sn_phase := (sn_phase s)(w := p)\<rparr>) w' b t1 t2 \<longleftrightarrow>
    (if w' = w then p = Marked b t1 t2 \<or> p = Ended b t1 t2 else wrote s w' b t1 t2)"
  "wrote (s\<lparr>sn_clock := t\<rparr>) w' b t1 t2 = wrote s w' b t1 t2"
  by (auto simp: wrote_def)

lemma holds_update: "holds_lock (s\<lparr>sn_keys := k, sn_phase := (sn_phase s)(w := p)\<rparr>) w' b t \<longleftrightarrow>
    (if w' = w then p = Locked b t \<or> (\<exists>t1. p = Writing b t t1) else holds_lock s w' b t)"
  "holds_lock (s\<lparr>sn_phase := (sn_phase s)(w := p)\<rparr>) w' b t \<longleftrightarrow>
    (if w' = w then p = Locked b t \<or> (\<exists>t1. p = Writing b t t1) else holds_lock s w' b t)"
  "holds_lock (s\<lparr>sn_clock := u\<rparr>) w' b t = holds_lock s w' b t"
  by (auto simp: holds_lock_def)

lemmas phase_updates = wrote_update holds_update

text \<open>The first law: within 60 seconds the lock is its taker's.\<close>

definition lock_inv :: "snapshot_state \<Rightarrow> bool" where
  "lock_inv s \<longleftrightarrow> (\<forall>w b t. holds_lock s w b t \<longrightarrow> sn_clock s < t + 60 \<longrightarrow> sk_lock (sn_keys s) b = Some (w, t + 60))"

lemma lock_step: "snapshot_step s s' \<Longrightarrow> lock_inv s \<Longrightarrow> lock_inv s'"
proof (induction rule: snapshot_step.induct)
  case (lock s w b k)
  then have k: "alive (sn_clock s) (sk_lock (sn_keys s) b) = None"
    "k = (sn_keys s)\<lparr>sk_lock := (sk_lock (sn_keys s))(b \<mapsto> (w, sn_clock s + 60))\<rparr>"
    by (auto simp: try_lock_def split: if_splits)
  have "\<not> (holds_lock s w' b t \<and> sn_clock s < t + 60)" for w' t
    using lock(3) k(1) by (auto simp: lock_inv_def)
  with lock(3) k(2) show ?case by (auto simp: lock_inv_def phase_updates)
next
  case (release s w b t1 t2)
  then have "\<not> holds_lock s w b' t" for b' t by (auto simp: holds_lock_def)
  with release show ?case by (auto simp: lock_inv_def phase_updates release_lock_def alive_Some)
next
  case (fail s w b t t1)
  then have "holds_lock s w b' t' \<Longrightarrow> b' = b" for b' t' by (auto simp: holds_lock_def)
  with fail show ?case by (auto simp: lock_inv_def phase_updates release_lock_def alive_Some)
next
  case (start s w b t)
  then show ?case by (auto simp: lock_inv_def phase_updates holds_lock_def)
next
  case (tick s t)
  then show ?case by (force simp: lock_inv_def phase_updates)
qed (auto simp: lock_inv_def phase_updates mark_recorded_def)

text \<open>The second: a marked bucket keeps its key for 900 seconds.\<close>

definition mark_inv :: "snapshot_state \<Rightarrow> bool" where
  "mark_inv s \<longleftrightarrow> (\<forall>w b t1 t2. wrote s w b t1 t2 \<longrightarrow>
     t2 \<le> sn_clock s \<and> (\<exists>v e. sk_done (sn_keys s) b = Some (v, e) \<and> t2 + 900 \<le> e))"

lemma mark_step: "snapshot_step s s' \<Longrightarrow> mark_inv s \<Longrightarrow> mark_inv s'"
proof (induction rule: snapshot_step.induct)
  case (mark s w b t t1)
  then show ?case by (fastforce simp: mark_inv_def phase_updates mark_recorded_def)
next
  case (release s w b t1 t2)
  then have "wrote s w b t1 t2" by (simp add: wrote_def)
  with release show ?case by (auto simp: mark_inv_def phase_updates release_lock_def)
next
  case (tick s t)
  then show ?case by (fastforce simp: mark_inv_def phase_updates)
next
  case (lock s w b k)
  then show ?case by (auto simp: mark_inv_def phase_updates try_lock_def split: if_splits)
qed (auto simp: mark_inv_def phase_updates release_lock_def)

text \<open>A write that starts finds no key, so it is far from any bucket marked before.\<close>

lemma not_recorded_late: "mark_inv s \<Longrightarrow> wrote s w b t1 t2 \<Longrightarrow> \<not> is_recorded (sn_clock s) b (sn_keys s) \<Longrightarrow> t2 + 900 \<le> sn_clock s"
proof -
  assume "mark_inv s" "wrote s w b t1 t2" and fresh: "\<not> is_recorded (sn_clock s) b (sn_keys s)"
  then obtain v e where "sk_done (sn_keys s) b = Some (v, e)" "t2 + 900 \<le> e" unfolding mark_inv_def by blast
  with fresh show ?thesis by (simp add: is_recorded_def split: if_splits)
qed

definition apart_inv :: "snapshot_state \<Rightarrow> bool" where
  "apart_inv s \<longleftrightarrow>
     (\<forall>w w' b t1 t2 t t1'. wrote s w b t1 t2 \<longrightarrow> sn_phase s w' = Writing b t t1' \<longrightarrow> t2 + 900 \<le> t1' \<or> t + 60 \<le> sn_clock s) \<and>
     (\<forall>w w' b t1 t2 t1' t2'. wrote s w b t1 t2 \<longrightarrow> wrote s w' b t1' t2' \<longrightarrow> w \<noteq> w' \<longrightarrow> t2 + 900 \<le> t1' \<or> t2' + 900 \<le> t1)"

lemma apart_mono:
  assumes "apart_inv s" and "sn_clock s' = sn_clock s" and "\<And>w b u v. wrote s' w b u v \<Longrightarrow> wrote s w b u v"
    and "\<And>w b t t'. sn_phase s' w = Writing b t t' \<Longrightarrow> sn_phase s w = Writing b t t'"
  shows "apart_inv s'"
  using assms unfolding apart_inv_def by metis

lemma apart_step: "snapshot_step s s' \<Longrightarrow> lock_inv s \<Longrightarrow> mark_inv s \<Longrightarrow> apart_inv s \<Longrightarrow> apart_inv s'"
proof (induction rule: snapshot_step.induct)
  case (tick s t)
  then show ?case by (force simp: apart_inv_def phase_updates)
next
  case (start s w b t)
  note late = not_recorded_late [OF start(5) _ start(3)]
  from start have "\<not> wrote s w b' t1 t2" for b' t1 t2 by (simp add: wrote_def)
  with start(6) late show ?case by (auto simp: apart_inv_def phase_updates)
next
  case (mark s w b t t1)
  have other: "t' + 60 \<le> sn_clock s" if "sn_phase s w' = Writing b t' t1'" "w' \<noteq> w" for w' t' t1'
  proof (rule ccontr)
    assume "\<not> t' + 60 \<le> sn_clock s"
    with mark(3) that(1) have "sk_lock (sn_keys s) b = Some (w', t' + 60)" by (auto simp: lock_inv_def holds_lock_def)
    moreover from mark(1-3) have "sk_lock (sn_keys s) b = Some (w, t + 60)" by (auto simp: lock_inv_def holds_lock_def)
    ultimately show False using that(2) by simp
  qed
  have early: "t2' + 900 \<le> t1" if "wrote s w' b t1' t2'" for w' t1' t2'
    using mark(1,2,5) that by (force simp: apart_inv_def)
  show ?case using mark(1,5) other early by (auto simp: apart_inv_def phase_updates split: if_splits)
next
  case (release s w b t1 t2)
  let ?s = "s\<lparr>sn_keys := release_lock (sn_clock s) w b (sn_keys s), sn_phase := (sn_phase s)(w := Ended b t1 t2)\<rparr>"
  show ?case
  proof (rule apart_mono [OF release(4)])
    show "wrote ?s w' b' u v \<Longrightarrow> wrote s w' b' u v" for w' b' u v
      using release(1) by (cases "w' = w") (simp_all add: wrote_def)
  qed (simp_all split: if_splits)
qed (auto simp: apart_inv_def phase_updates split: if_splits)

inductive_set snapshot_reachable :: "snapshot_state set" where
  init: "snapshot_start s \<Longrightarrow> s \<in> snapshot_reachable"
| step: "s \<in> snapshot_reachable \<Longrightarrow> snapshot_step s s' \<Longrightarrow> s' \<in> snapshot_reachable"

lemma reachable_inv: "s \<in> snapshot_reachable \<Longrightarrow> lock_inv s \<and> mark_inv s \<and> apart_inv s"
proof (induction rule: snapshot_reachable.induct)
  case (init s)
  then show ?case by (simp add: snapshot_start_def lock_inv_def mark_inv_def apart_inv_def wrote_def holds_lock_def)
next
  case (step s s')
  then show ?case using lock_step mark_step apart_step by blast
qed


text \<open>A call alone finishes: from a free bucket it ends having written, and leaves the lock free.\<close>

lemma whole_call:
  assumes "s \<in> snapshot_reachable" and "sn_phase s w = Fresh" and "\<not> is_recorded (sn_clock s) b (sn_keys s)"
    and "alive (sn_clock s) (sk_lock (sn_keys s) b) = None"
  obtains s' where "s' \<in> snapshot_reachable" and "wrote s' w b (sn_clock s) (sn_clock s)" and "sn_clock s' = sn_clock s"
    and "\<forall>w'. w' \<noteq> w \<longrightarrow> sn_phase s' w' = sn_phase s w'"
    and "sk_done (sn_keys s') = (sk_done (sn_keys s))(b \<mapsto> (''1'', sn_clock s + 900))" and "sk_lock (sn_keys s') b = None"
proof -
  let ?c = "sn_clock s" and ?ph = "sn_phase s" and ?k = "sn_keys s"
  let ?k1 = "?k\<lparr>sk_lock := (sk_lock ?k)(b \<mapsto> (w, ?c + 60))\<rparr>"
  let ?s1 = "s\<lparr>sn_phase := ?ph(w := Seen b)\<rparr>"
  let ?s2 = "s\<lparr>sn_keys := ?k1, sn_phase := ?ph(w := Locked b ?c)\<rparr>"
  let ?s3 = "s\<lparr>sn_keys := ?k1, sn_phase := ?ph(w := Writing b ?c ?c)\<rparr>"
  let ?k4 = "mark_recorded ?c b ?k1"
  let ?s4 = "s\<lparr>sn_keys := ?k4, sn_phase := ?ph(w := Marked b ?c ?c)\<rparr>"
  let ?s5 = "s\<lparr>sn_keys := release_lock ?c w b ?k4, sn_phase := ?ph(w := Ended b ?c ?c)\<rparr>"
  have "?s1 \<in> snapshot_reachable" by (rule snapshot_reachable.step [OF assms(1) snapshot_step.look [OF assms(2,3)]])
  moreover have "snapshot_step ?s1 ?s2"
    using snapshot_step.lock [of ?s1 w b ?k1] assms(4) by (simp add: try_lock_def)
  moreover have "snapshot_step ?s2 ?s3"
    using snapshot_step.start [of ?s2 w b ?c] assms(3) by (simp add: is_recorded_def)
  moreover have "snapshot_step ?s3 ?s4" using snapshot_step.mark [of ?s3 w b ?c ?c] by simp
  moreover have "snapshot_step ?s4 ?s5" using snapshot_step.release [of ?s4 w b ?c ?c] by simp
  ultimately have "?s5 \<in> snapshot_reachable" using snapshot_reachable.step by blast
  then show thesis by (rule that) (simp_all add: wrote_def release_lock_def mark_recorded_def)
qed

text \<open>
  C32: However the recorders of several workers interleave, crash or fail, two completed recordings
  of one bucket never overlap, and the second begins at least 900 seconds after the first was
  marked, as long as a recording takes less than the 60 seconds the lock lives.
\<close>

theorem snapshots_are_apart:
  assumes "s \<in> snapshot_reachable" and "wrote s w b t1 t2" and "wrote s w' b u1 u2" and "w \<noteq> w'"
  shows "t2 + 900 \<le> u1 \<or> u2 + 900 \<le> t1"
  using reachable_inv [OF assms(1)] assms(2-4) unfolding apart_inv_def by blast

definition w_snapshot :: snapshot_state where
  "w_snapshot = \<lparr>sn_clock = 0, sn_keys = \<lparr>sk_done = (\<lambda>_. None), sk_lock = (\<lambda>_. None)\<rparr>, sn_phase = (\<lambda>_. Fresh)\<rparr>"

theorem snapshots_are_apart_witness:
  "\<exists>s t u. s \<in> snapshot_reachable \<and> wrote s ''a'' 0 t t \<and> wrote s ''b'' 0 u u \<and> (t + 900 \<le> u \<or> u + 900 \<le> t)"
proof -
  have start: "w_snapshot \<in> snapshot_reachable" by (rule snapshot_reachable.init) (simp add: snapshot_start_def w_snapshot_def)
  obtain s1 where s1: "s1 \<in> snapshot_reachable" "wrote s1 ''a'' 0 0 0" "sn_clock s1 = 0" "sn_phase s1 ''b'' = Fresh"
    "sk_done (sn_keys s1) 0 = Some (''1'', 900)" "sk_lock (sn_keys s1) 0 = None"
    by (rule whole_call [OF start, of "''a''" 0]) (simp_all add: w_snapshot_def is_recorded_def)
  let ?s2 = "s1\<lparr>sn_clock := 1000\<rparr>"
  have s2: "?s2 \<in> snapshot_reachable" by (rule snapshot_reachable.step [OF s1(1) snapshot_step.tick]) (simp add: s1(3))
  obtain s3 where s3: "s3 \<in> snapshot_reachable" "wrote s3 ''b'' 0 1000 1000" "sn_phase s3 ''a'' = sn_phase s1 ''a''"
    by (rule whole_call [OF s2, of "''b''" 0]) (simp_all add: s1 is_recorded_def)
  have "wrote s3 ''a'' 0 0 0" using s1(2) s3(3) by (simp add: wrote_def)
  with s3 snapshots_are_apart [OF s3(1) this s3(2)] show ?thesis
    by (intro exI [of _ s3] exI [of _ 0] exI [of _ 1000]) simp
qed

section \<open>What a recording writes\<close>

definition readable :: "('zp, 'hp, 'o, 's, 'pp) svc \<Rightarrow> ('zp, 'hp, 'o, 's) repo \<Rightarrow> bool" where
  "readable E R \<longleftrightarrow> (\<forall>d \<in> set (list_domains E R). d \<noteq> [] \<and> stored_ok E (pools R d))"

text \<open>A point carries the statistics of its scope.\<close>

definition reports :: "pool_stats \<Rightarrow> int \<Rightarrow> history_point \<Rightarrow> bool" where
  "reports st bucket p \<longleftrightarrow>
     valid_point p \<and> hp_observed p = of_int bucket \<and> hp_total p = st_total st \<and> hp_candidate p = st_candidate st \<and>
     hp_available p = st_available st \<and> hp_degraded p = st_degraded st \<and> hp_quarantined p = st_quarantined st \<and>
     hp_due p = st_due st \<and> hp_leased p = st_leased st"

definition valid_scan :: "record_scan \<Rightarrow> bool" where
  "valid_scan g \<longleftrightarrow> (\<forall>r \<in> set (scan_items g). valid_record r)"

context pool_svc
begin

lemma scan_page_valid:
  "\<forall>raw \<in> set raws. decode_record E raw \<noteq> None \<Longrightarrow> \<forall>r \<in> set acc. valid_record r \<Longrightarrow>
     (\<exists>g. scan_page E limit open' raws acc = Inr (Inl g) \<and> valid_scan g) \<or>
     (\<exists>acc'. scan_page E limit open' raws acc = Inr (Inr acc') \<and> (\<forall>r \<in> set acc'. valid_record r))"
proof (induction raws arbitrary: acc)
  case (Cons raw raws)
  from Cons.prems(1) obtain r where r: "decode_record E raw = Some r" by auto
  with decoded_valid Cons.prems(2) have "\<forall>x \<in> set (acc @ [r]). valid_record x" by auto
  with Cons.IH [of "acc @ [r]"] Cons.prems(1) r show ?case by (simp add: Let_def valid_scan_def)
qed simp

lemma scan_pages_valid:
  "\<forall>page \<in> set pages. \<forall>raw \<in> set (map snd page). decode_record E raw \<noteq> None \<Longrightarrow> \<forall>r \<in> set acc. valid_record r \<Longrightarrow>
     \<exists>g. scan_pages E limit pages acc = Inr g \<and> valid_scan g"
proof (induction pages arbitrary: acc)
  case (Cons page pages)
  from Cons.prems(1) have "\<forall>raw \<in> set (map snd page). decode_record E raw \<noteq> None" by simp
  from scan_page_valid [OF this Cons.prems(2), of limit "pages \<noteq> []"] show ?case
  proof
    assume "\<exists>g. scan_page E limit (pages \<noteq> []) (map snd page) acc = Inr (Inl g) \<and> valid_scan g"
    then show ?thesis by auto
  next
    assume "\<exists>acc'. scan_page E limit (pages \<noteq> []) (map snd page) acc = Inr (Inr acc') \<and> (\<forall>r \<in> set acc'. valid_record r)"
    then obtain acc' where "scan_page E limit (pages \<noteq> []) (map snd page) acc = Inr (Inr acc')" "\<forall>r \<in> set acc'. valid_record r" by blast
    with Cons.IH [of acc'] Cons.prems(1) show ?thesis by simp
  qed
qed (simp add: valid_scan_def)

lemma stored_decodes: "stored_ok E p \<Longrightarrow> (m, raw) \<in> set (concat (h_scan (rh E) (records p) n)) \<Longrightarrow> decode_record E raw \<noteq> None"
  unfolding r.scan_get by (auto simp: stored_ok_def)

lemma scan_records_valid:
  "d \<noteq> [] \<Longrightarrow> stored_ok E (pools R d) \<Longrightarrow> 1 \<le> limit \<Longrightarrow> limit \<le> 100000 \<Longrightarrow>
     \<exists>g. scan_records E R d limit 500 = Inr g \<and> valid_scan g"
proof -
  assume d: "d \<noteq> []" "1 \<le> limit" "limit \<le> 100000" and ok: "stored_ok E (pools R d)"
  have "\<forall>page \<in> set (h_scan (rh E) (records (pools R d)) 500). \<forall>raw \<in> set (map snd page). decode_record E raw \<noteq> None"
    using stored_decodes [OF ok, of _ _ 500] by fastforce
  from scan_pages_valid [OF this, of "[]" "nat limit"] d show ?thesis by (simp add: scan_records_def pool_for_def)
qed

lemma count_records_decoded: "\<forall>(m, raw) \<in> set xs. decode_record E raw \<noteq> None \<Longrightarrow> \<exists>s'. count_records E xs s = Inr s'"
  by (induction xs arbitrary: s) auto

lemma domain_stats_total: "d \<noteq> [] \<Longrightarrow> stored_ok E (pools R d) \<Longrightarrow> \<exists>s. domain_stats E R d = Inr s"
proof -
  assume d: "d \<noteq> []" and ok: "stored_ok E (pools R d)"
  have "\<forall>(m, raw) \<in> set (concat (h_scan (rh E) (records (pools R d)) 200)). decode_record E raw \<noteq> None"
    using stored_decodes [OF ok, of _ _ 200] by blast
  from count_records_decoded [OF this, of no_stats] d show ?thesis by (auto simp: domain_stats_def pool_for_def)
qed

lemma total_stats_total: "\<forall>d \<in> set ds. d \<noteq> [] \<and> stored_ok E (pools R d) \<Longrightarrow> \<exists>s. total_stats E R ds t = Inr s"
proof (induction ds arbitrary: t)
  case (Cons d ds)
  then obtain s where s: "domain_stats E R d = Inr s" using domain_stats_total [of d R] by auto
  from Cons obtain s' where "total_stats E R ds (add_stats t s) = Inr s'" by force
  with s show ?case by simp
qed simp

lemma stats_total: "readable E R \<Longrightarrow> scope = None \<or> the scope \<in> set (list_domains E R) \<Longrightarrow> \<exists>s. stats E R scope = Inr s"
  using total_stats_total [of "list_domains E R" R no_stats] domain_stats_total [of _ R]
  by (cases scope) (auto simp: stats_def readable_def)

lemma write_scope_total:
  assumes "valid_scan g" and "stats E R (if scope = global_scope then None else Some scope) = Inr st"
  shows "\<exists>p. write_scope E A hours R scope bucket g hs = Inr (write_point A hours scope bucket p hs) \<and> reports st bucket p"
proof -
  from aggregate_records_total [OF _ assms(2), of "scan_items g"] assms(1)
  obtain a where a: "aggregate_records (scan_items g) st (of_int bucket) (scanned g) (partial g) = Inr a"
    "valid_aggregate a" "from_aggregate a = Inr (da_point a)" "hp_observed (da_point a) = of_int bucket"
    unfolding valid_scan_def by metis
  moreover have "reports st bucket (da_point a)"
    using a by (auto simp: reports_def aggregate_records_def valid_aggregate_def Let_def split: if_splits)
  ultimately show ?thesis using assms(2) by (auto simp: write_scope_def)
qed

lemma extend_scan_valid: "valid_scan scan \<Longrightarrow> valid_scan g \<Longrightarrow> valid_scan (extend_scan n scan g)"
  by (auto simp: valid_scan_def extend_scan_def Let_def dest: in_set_takeD)

end

definition point_written ::
  "('z, 'h, 'p) history_api \<Rightarrow> nat \<times> nat \<Rightarrow> int \<Rightarrow> history_point \<Rightarrow> (resolution \<Rightarrow> ('z, 'h) history) \<Rightarrow> resolution \<Rightarrow> ('z, 'h) history" where
  "point_written A hours bucket p h res =
     (if res = Five_Minutes \<or> bucket mod 3600 div 60 = 0 then fst (history_write A hours res p (h res)) else h res)"

lemma write_point_at:
  "write_point A hours scope bucket p hs = hs(scope := point_written A hours bucket p (hs scope))"
proof -
  have "res = Five_Minutes \<or> res = Hour" for res by (cases res) auto
  then show ?thesis
    by (auto simp: write_point_def write_history_of_def point_written_def Let_def fun_eq_iff)
qed

context pool_svc
begin

lemma record_domains_total:
  assumes "1 \<le> n" and "n \<le> 100000"
  shows "\<forall>d \<in> set ds. d \<noteq> [] \<and> d \<noteq> global_scope \<and> stored_ok E (pools R d) \<Longrightarrow> distinct ds \<Longrightarrow> valid_scan g \<Longrightarrow>
    \<exists>ps g'. record_domains E A hours n R bucket ds g hs =
        ((\<lambda>d. if d \<in> set ds then point_written A hours bucket (ps d) (hs d) else hs d), Inr g') \<and> valid_scan g' \<and>
      (\<forall>d \<in> set ds. \<exists>st. stats E R (Some d) = Inr st \<and> reports st bucket (ps d))"
proof (induction ds arbitrary: g hs)
  case (Cons d ds)
  then have d: "d \<noteq> []" "d \<noteq> global_scope" "stored_ok E (pools R d)" "d \<notin> set ds" "distinct ds" by simp_all
  from scan_records_valid [OF d(1,3), of "int n"] assms obtain scan
    where scan: "scan_records E R d (int n) 500 = Inr scan" "valid_scan scan" by auto
  from domain_stats_total [OF d(1,3)] obtain st where "domain_stats E R d = Inr st" ..
  then have st: "stats E R (if d = global_scope then None else Some d) = Inr st" using d(2) by (simp add: stats_def)
  from write_scope_total [OF scan(2) st] obtain p where
    p: "write_scope E A hours R d bucket scan hs = Inr (write_point A hours d bucket p hs)" "reports st bucket p" by blast
  let ?hs = "write_point A hours d bucket p hs"
  from Cons.IH [OF _ d(5) extend_scan_valid [OF scan(2) Cons.prems(3)], of n ?hs] Cons.prems(1) obtain ps g' where
    ih: "record_domains E A hours n R bucket ds (extend_scan n scan g) ?hs =
        ((\<lambda>d. if d \<in> set ds then point_written A hours bucket (ps d) (?hs d) else ?hs d), Inr g')"
      "valid_scan g'" "\<forall>d \<in> set ds. \<exists>st. stats E R (Some d) = Inr st \<and> reports st bucket (ps d)" by auto
  have "(\<lambda>x. if x \<in> set ds then point_written A hours bucket (ps x) (?hs x) else ?hs x) =
      (\<lambda>x. if x \<in> set (d # ds) then point_written A hours bucket ((ps(d := p)) x) (hs x) else hs x)"
    using d(4) by (auto simp: write_point_at)
  moreover have "\<forall>x \<in> set (d # ds). \<exists>st. stats E R (Some x) = Inr st \<and> reports st bucket ((ps(d := p)) x)"
    using ih(3) st p(2) d(2,4) by auto
  ultimately show ?case using scan(1) p(1) ih(1,2) by (intro exI [of _ "ps(d := p)"] exI [of _ g']) simp
qed auto

end

context pool_svc
begin

lemma record_snapshot_total:
  assumes "readable E R" and "global_scope \<notin> set (list_domains E R)" and "1 \<le> n" and "n \<le> 100000"
  shows "\<exists>ps. record_snapshot E A hours n R bucket hs =
      ((\<lambda>d. if d \<in> insert global_scope (set (list_domains E R)) then point_written A hours bucket (ps d) (hs d) else hs d), Inr ()) \<and>
    (\<forall>d \<in> insert global_scope (set (list_domains E R)).
       \<exists>st. stats E R (if d = global_scope then None else Some d) = Inr st \<and> reports st bucket (ps d))"
proof -
  let ?ds = "list_domains E R" and ?g = "\<lparr>scan_items = [], scanned = 0, partial = False\<rparr>"
  have ds: "\<forall>d \<in> set ?ds. d \<noteq> [] \<and> d \<noteq> global_scope \<and> stored_ok E (pools R d)" using assms(1,2) by (auto simp: readable_def)
  have "distinct ?ds" by (simp add: list_domains_def s.members_distinct)
  from record_domains_total [OF assms(3,4) ds this, of ?g A hours bucket hs] obtain ps g where
    run: "record_domains E A hours n R bucket ?ds ?g hs =
        ((\<lambda>d. if d \<in> set ?ds then point_written A hours bucket (ps d) (hs d) else hs d), Inr g)" and g: "valid_scan g"
      and each: "\<forall>d \<in> set ?ds. \<exists>st. stats E R (Some d) = Inr st \<and> reports st bucket (ps d)"
    by (auto simp: valid_scan_def)
  obtain st where st: "stats E R None = Inr st" using stats_total [OF assms(1), of None] by auto
  let ?hs = "\<lambda>d. if d \<in> set ?ds then point_written A hours bucket (ps d) (hs d) else hs d"
  from write_scope_total [OF g, of R global_scope st A hours bucket ?hs] st obtain p where
    p: "write_scope E A hours R global_scope bucket g ?hs = Inr (write_point A hours global_scope bucket p ?hs)" "reports st bucket p"
    by auto
  have "write_point A hours global_scope bucket p ?hs =
      (\<lambda>d. if d \<in> insert global_scope (set ?ds) then point_written A hours bucket ((ps(global_scope := p)) d) (hs d) else hs d)"
    using assms(2) by (auto simp: write_point_at)
  moreover have "\<forall>d \<in> insert global_scope (set ?ds).
      \<exists>st. stats E R (if d = global_scope then None else Some d) = Inr st \<and> reports st bucket ((ps(global_scope := p)) d)"
    using each ds st p(2) by auto
  ultimately show ?thesis using run p(1) by (intro exI [of _ "ps(global_scope := p)"]) (simp add: record_snapshot_def)
qed

end


definition w_dashboard :: dashboard_settings where
  "w_dashboard = \<lparr>ds_interval = 300, ds_short_hours = 48, ds_long_hours = 720, ds_heartbeat_interval = 30, ds_heartbeat_ttl = 90,
     ds_refresh = 30, ds_max_records = 20000\<rparr>"

lemma w_bucket: "snapshot_bucket w_dashboard 1000 = 900" "bucket_time 900 Five_Minutes = 900" "bucket_time 900 Hour = 0"
  by (simp_all add: snapshot_bucket_def w_dashboard_def bucket_time_def step_of_def floor_eq_iff)

lemma w_readable: "readable ref_svc ready_repo" "list_domains ref_svc ready_repo = [''d'']"
  using ready_inv by (simp_all add: readable_def list_domains_def ready_repo_def ref_svc_def ref_set_api_def pool_inv_def)


text \<open>
  An interval above 900 seconds is longer than the life of the mark: a second call in the bucket
  finds it due again.
\<close>

lemma long_bucket_is_due_again:
  "snapshot_bucket (w_dashboard\<lparr>ds_interval := 3600\<rparr>) 7200 = snapshot_bucket (w_dashboard\<lparr>ds_interval := 3600\<rparr>) 8200"
  "\<not> is_recorded 8200 7200 (mark_recorded 7200 7200 k)"
  by (simp_all add: snapshot_bucket_def is_recorded_def mark_recorded_def)

text \<open>An interval of at most 900 seconds is recorded once, when the clocks agree.\<close>

lemma bucket_recorded_once:
  assumes "0 < ds_interval c" and "ds_interval c \<le> 900" and "snapshot_bucket c t = snapshot_bucket c u" and "t \<le> u"
    and "t \<le> clock" and "clock \<le> u"
  shows "is_recorded u (snapshot_bucket c u) (mark_recorded clock (snapshot_bucket c t) k)"
proof -
  have "0 \<le> \<lfloor>t\<rfloor> mod ds_interval c" "\<lfloor>u\<rfloor> mod ds_interval c < ds_interval c" using assms(1) by simp_all
  with assms(3) have "\<lfloor>u\<rfloor> < \<lfloor>t\<rfloor> + ds_interval c" unfolding snapshot_bucket_def Let_def by linarith
  with assms(2) have "\<lfloor>u\<rfloor> + 1 \<le> \<lfloor>t\<rfloor> + 900" by linarith
  then have "u < t + 900" by linarith
  with assms(3,5) show ?thesis by (simp add: is_recorded_def mark_recorded_def)
qed

end
