(* ===== verification/Heartbeat.thy ===== *)
theory Heartbeat
  imports Redis
begin

text \<open>
  The heartbeats of the workers (dashboard/heartbeat.py): each role has an index of instances by
  their last beat, and one expiring key per instance. The theorem says that the health the store
  reports is a function of the beats alone: prune, cap and repair of the index do not show.
\<close>

section \<open>The store\<close>

datatype worker_role = Collector_Role | Checker_Role

datatype role_status = Healthy | Stale | Down

record role_health =
  rh_role :: worker_role
  rh_status :: role_status
  rh_active :: nat
  rh_newest :: "time option"

record heartbeat_config =
  hb_interval :: int
  hb_ttl :: int

text \<open>The two keys of a role; an instance key holds a timestamp and the reading at which it expires.\<close>

record 'z heartbeats =
  hb_index :: 'z
  hb_keys :: "string \<Rightarrow> (time \<times> time) option"

definition worker_role_of :: "string \<Rightarrow> worker_role result" where
  "worker_role_of name =
     (if name = ''collector'' then Inr Collector_Role
      else if name = ''checker'' then Inr Checker_Role
      else Inl (ValueError ''worker role must be collector or checker''))"

definition role_name :: "worker_role \<Rightarrow> string" where
  "role_name r = (case r of Collector_Role \<Rightarrow> ''collector'' | Checker_Role \<Rightarrow> ''checker'')"

definition heartbeat_index_key :: "string \<Rightarrow> worker_role \<Rightarrow> string" where
  "heartbeat_index_key prefix r = prefix @ '':worker-heartbeat:index:'' @ role_name r"

definition heartbeat_instance_prefix :: "string \<Rightarrow> worker_role \<Rightarrow> string" where
  "heartbeat_instance_prefix prefix r = prefix @ '':worker-heartbeat:'' @ role_name r @ '':''"

definition new_heartbeat_store :: "string \<Rightarrow> int \<Rightarrow> int \<Rightarrow> heartbeat_config result" where
  "new_heartbeat_store prefix interval ttl =
     (if prefix = [] then Inl (ValueError ''prefix must be non-empty'')
      else if interval < 1 \<or> ttl < interval * 2 then Inl (ValueError ''heartbeat TTL must be at least two intervals'')
      else Inr \<lparr>hb_interval = interval, hb_ttl = ttl\<rparr>)"

definition instance_char :: "char \<Rightarrow> bool" where
  "instance_char c \<longleftrightarrow>
     CHR ''A'' \<le> c \<and> c \<le> CHR ''Z'' \<or> CHR ''a'' \<le> c \<and> c \<le> CHR ''z'' \<or> CHR ''0'' \<le> c \<and> c \<le> CHR ''9'' \<or>
     c = CHR ''.'' \<or> c = CHR ''_'' \<or> c = CHR ''-''"

definition instance_id_ok :: "string \<Rightarrow> bool" where
  "instance_id_ok i \<longleftrightarrow> 1 \<le> length i \<and> length i \<le> 128 \<and> list_all instance_char i"

section \<open>A beat\<close>

text \<open>The script \<open>_BEAT\<close>; \<open>clock\<close> is the clock of the server, which expires the instance keys.\<close>

definition drop_instance :: "'z zset_api \<Rightarrow> string \<Rightarrow> 'z heartbeats \<Rightarrow> 'z heartbeats" where
  "drop_instance Z i s = s\<lparr>hb_keys := (hb_keys s)(i := None), hb_index := z_rem Z (hb_index s) i\<rparr>"

definition beat_script ::
  "'z zset_api \<Rightarrow> time \<Rightarrow> time \<Rightarrow> string \<Rightarrow> int \<Rightarrow> time \<Rightarrow> 'z heartbeats \<Rightarrow> 'z heartbeats \<times> nat" where
  "beat_script Z clock timestamp i ttl cutoff s =
     (let s1 = \<lparr>hb_index = z_add Z (hb_index s) i timestamp, hb_keys = (hb_keys s)(i \<mapsto> (timestamp, clock + of_int ttl))\<rparr>;
          expired = map fst (z_rangebyscore Z (hb_index s1) Below_All (Incl cutoff));
          s2 = fold (drop_instance Z) expired s1;
          oldest = map fst (take (z_card Z (hb_index s2) - 100) (z_range Z (hb_index s2)));
          s3 = fold (drop_instance Z) oldest s2
      in (s3, z_card Z (hb_index s3)))"

definition beat ::
  "'z zset_api \<Rightarrow> heartbeat_config \<Rightarrow> time \<Rightarrow> string \<Rightarrow> time \<Rightarrow> 'z heartbeats \<Rightarrow> ('z heartbeats \<times> nat) result" where
  "beat Z c clock i now s =
     (if \<not> instance_id_ok i then Inl (ValueError ''instance ID must contain only safe characters'')
      else Inr (beat_script Z clock now i (hb_ttl c) (now - of_int (hb_ttl c)) s))"

section \<open>Health\<close>

definition is_live :: "heartbeat_config \<Rightarrow> time \<Rightarrow> time \<Rightarrow> 'z heartbeats \<Rightarrow> string \<times> rat \<Rightarrow> bool" where
  "is_live c clock now s e \<longleftrightarrow>
     alive clock (hb_keys s (fst e)) \<noteq> None \<and> 0 \<le> now - snd e \<and> now - snd e \<le> of_int (hb_ttl c)"

definition heartbeat_health ::
  "'z zset_api \<Rightarrow> heartbeat_config \<Rightarrow> worker_role \<Rightarrow> time \<Rightarrow> time \<Rightarrow> 'z heartbeats \<Rightarrow> 'z heartbeats \<times> role_health" where
  "heartbeat_health Z c r clock now s =
     (let entries = take 100 (rev (z_range Z (hb_index s)));
          live = filter (is_live c clock now s) entries;
          dead = map fst (filter (\<lambda>e. \<not> is_live c clock now s e) entries);
          s' = s\<lparr>hb_index := fold (\<lambda>i z. z_rem Z z i) dead (hb_index s)\<rparr>;
          down = \<lparr>rh_role = r, rh_status = Down, rh_active = 0, rh_newest = None\<rparr>
      in if entries = [] then (s, down)
         else if live = [] then (s', down)
         else
           let newest = Max (set (map snd live))
           in (s', \<lparr>rh_role = r,
                    rh_status = (if now - newest \<le> of_int (hb_interval c * 2) then Healthy else Stale),
                    rh_active = length live, rh_newest = Some newest\<rparr>))"

section \<open>Runs and their specification\<close>

datatype heartbeat_event = Beat string time | Look time

text \<open>The server's clock is the clock of the workers.\<close>

definition heartbeat_step :: "'z zset_api \<Rightarrow> heartbeat_config \<Rightarrow> heartbeat_event \<Rightarrow> 'z heartbeats \<Rightarrow> 'z heartbeats" where
  "heartbeat_step Z c e s =
     (case e of
        Beat i t \<Rightarrow> (case beat Z c t i t s of Inl _ \<Rightarrow> s | Inr (s', _) \<Rightarrow> s')
      | Look t \<Rightarrow> fst (heartbeat_health Z c Checker_Role t t s))"

definition heartbeat_run :: "'z zset_api \<Rightarrow> heartbeat_config \<Rightarrow> heartbeat_event list \<Rightarrow> 'z heartbeats" where
  "heartbeat_run Z c es = fold (heartbeat_step Z c) es \<lparr>hb_index = z_empty Z, hb_keys = (\<lambda>_. None)\<rparr>"

definition event_time :: "heartbeat_event \<Rightarrow> time" where
  "event_time e = (case e of Beat _ t \<Rightarrow> t | Look t \<Rightarrow> t)"

definition note_beat :: "heartbeat_event \<Rightarrow> (string \<Rightarrow> time option) \<Rightarrow> string \<Rightarrow> time option" where
  "note_beat e m = (case e of Beat i t \<Rightarrow> if instance_id_ok i then m(i \<mapsto> t) else m | Look _ \<Rightarrow> m)"

text \<open>The last accepted beat of each instance, and those that a clock reading still counts.\<close>

definition last_beats :: "heartbeat_event list \<Rightarrow> string \<Rightarrow> time option" where
  "last_beats es = fold note_beat es (\<lambda>_. None)"

definition living :: "heartbeat_config \<Rightarrow> (string \<Rightarrow> time option) \<Rightarrow> time \<Rightarrow> (string \<times> time) set" where
  "living c m now = {(i, t). m i = Some t \<and> now < t + of_int (hb_ttl c)}"

text \<open>The keys of the two roles are disjoint, and no instance has the key of an index.\<close>

lemma heartbeat_keys_disjoint:
  "heartbeat_instance_prefix p r @ i \<noteq> heartbeat_index_key p r'"
  "heartbeat_instance_prefix p r @ i = heartbeat_instance_prefix p r' @ i' \<longleftrightarrow> r = r' \<and> i = i'"
  by (cases r; cases r'; simp add: heartbeat_instance_prefix_def heartbeat_index_key_def role_name_def)+

text \<open>The index without what a beat prunes.\<close>

definition unexpired_index :: "'z zset_api \<Rightarrow> time \<Rightarrow> 'z \<Rightarrow> 'z" where
  "unexpired_index Z cutoff z = fold (\<lambda>i z. z_rem Z z i) (map fst (z_rangebyscore Z z Below_All (Incl cutoff))) z"

lemma drop_instances:
  "hb_keys (fold (drop_instance Z) is s) = (\<lambda>i. if i \<in> set is then None else hb_keys s i)"
  "hb_index (fold (drop_instance Z) is s) = fold (\<lambda>i z. z_rem Z z i) is (hb_index s)"
  by (induction "is" arbitrary: s) (auto simp: drop_instance_def)

lemma split_fst: "distinct (map fst (a @ b)) \<Longrightarrow> (m, x) \<in> set (a @ b) \<Longrightarrow> m \<in> fst ` set a \<longleftrightarrow> (m, x) \<notin> set b"
  by (fastforce simp: rev_image_eqI)

lemma in_set_drop: "x \<in> set (drop k xs) \<Longrightarrow> \<exists>i. k \<le> i \<and> i < length xs \<and> x = xs ! i"
proof -
  assume "x \<in> set (drop k xs)"
  then obtain i where "i < length xs - k" "x = xs ! (k + i)" by (auto simp: in_set_conv_nth)
  then show ?thesis by (intro exI [of _ "k + i"]) simp
qed

text \<open>A list sorted by a key keeps, past the oldest, only what is above any entry it drops.\<close>

lemma newest_above:
  assumes "sorted (map f xs)" and "distinct (map f xs)" and "n \<le> length (filter (\<lambda>x. c < f x) xs)" and "x \<in> set (drop (length xs - n) xs)"
  shows "c < f x"
proof (rule ccontr)
  assume "\<not> c < f x"
  from assms(4) obtain i where i: "length xs - n \<le> i" "i < length xs" "x = xs ! i" using in_set_drop by metis
  have low: "\<not> c < f y" if "y \<in> set (take (Suc i) xs)" for y
  proof -
    from that obtain j where j: "j \<le> i" "j < length xs" "y = xs ! j" by (auto simp: in_set_conv_nth less_Suc_eq_le)
    then have "f y \<le> f x" using assms(1) i sorted_nth_mono [of "map f xs" j i] by simp
    with \<open>\<not> c < f x\<close> show ?thesis by auto
  qed
  have "filter (\<lambda>x. c < f x) xs = filter (\<lambda>x. c < f x) (take (Suc i) xs) @ filter (\<lambda>x. c < f x) (drop (Suc i) xs)"
    by (metis append_take_drop_id filter_append)
  also have "filter (\<lambda>x. c < f x) (take (Suc i) xs) = []" using low by (simp add: filter_empty_conv)
  finally have "length (filter (\<lambda>x. c < f x) xs) \<le> length xs - Suc i"
    by (metis append_Nil length_drop length_filter_le)
  with assms(3) i show False by linarith
qed

lemma dropped_below:
  assumes "sorted (map f xs)" and "distinct (map f xs)" and "y \<in> set (take k xs)" and "x \<in> set (drop k xs)"
  shows "f y < f x"
proof -
  from assms(3) obtain j where j: "j < k" "j < length xs" "y = xs ! j" by (auto simp: in_set_conv_nth)
  from assms(4) obtain i where i: "k \<le> i" "i < length xs" "x = xs ! i" using in_set_drop by metis
  have "f y \<le> f x" using assms(1) i j sorted_nth_mono [of "map f xs" j i] by simp
  moreover have "f y \<noteq> f x" using assms(2) i j nth_eq_iff_index_eq [of "map f xs" j i] by simp
  ultimately show ?thesis by simp
qed


context zset
begin

lemma zkeys_distinct: "distinct (map zkey (z_range Z z))"
proof -
  have "distinct (map snd (map zkey (z_range Z z)))" using range_distinct [of z] by (simp add: comp_def)
  then show ?thesis by (simp only: distinct_map)
qed

lemma card_all: "z_card Z z = card {(m, s). z_score Z z m = Some s}"
proof -
  have "{(m, s). z_score Z z m = Some s} = set (z_range Z z)" using range_score by auto
  then show ?thesis using range_distinct [of z] by (simp add: card_range distinct_card distinct_map)
qed

text \<open>What a beat leaves in the index.\<close>

lemma pruned_score:
  "z_score Z (unexpired_index Z cutoff z) m = (case z_score Z z m of None \<Rightarrow> None | Some x \<Rightarrow> if x \<le> cutoff then None else Some x)"
  using rangebyscore_mem [of m _ z Below_All "Incl cutoff"]
  by (force simp: unexpired_index_def fold_rem_score split: option.splits)

lemma beat_script_index:
  fixes s :: "'z heartbeats"
  assumes "beat_script Z clock t i ttl cutoff s = (s', n)"
  defines "xs \<equiv> z_range Z (unexpired_index Z cutoff (z_add Z (hb_index s) i t))"
  shows "z_score Z (hb_index s') m = Some x \<longleftrightarrow> (m, x) \<in> set (drop (length xs - 100) xs)" (is ?index)
    and "z_score Z (hb_index s') m \<noteq> None \<Longrightarrow> hb_keys s' m = ((hb_keys s)(i \<mapsto> (t, clock + of_int ttl))) m" (is "_ \<Longrightarrow> ?keys")
    and "n = z_card Z (hb_index s')"
proof -
  define z1 where "z1 = z_add Z (hb_index s) i t"
  define s1 where "s1 = \<lparr>hb_index = z1, hb_keys = (hb_keys s)(i \<mapsto> (t, clock + of_int ttl))\<rparr>"
  define expired where "expired = map fst (z_rangebyscore Z z1 Below_All (Incl cutoff))"
  define s2 where "s2 = fold (drop_instance Z) expired s1"
  have i2: "hb_index s2 = unexpired_index Z cutoff z1" by (simp add: s2_def drop_instances unexpired_index_def expired_def s1_def)
  define oldest where "oldest = map fst (take (length xs - 100) xs)"
  have xs: "xs = z_range Z (hb_index s2)" by (simp add: xs_def i2 z1_def)
  have "z_card Z (hb_index s2) = length xs" by (simp add: xs card_range)
  then have s': "s' = fold (drop_instance Z) oldest s2" and n: "n = z_card Z (hb_index s')"
    using assms(1) by (auto simp: beat_script_def Let_def s1_def expired_def s2_def oldest_def z1_def xs)
  show "n = z_card Z (hb_index s')" by (rule n)
  have idx: "z_score Z (hb_index s') m = (if m \<in> set oldest then None else z_score Z (hb_index s2) m)"
    by (simp add: s' drop_instances fold_rem_score)
  have split: "take (length xs - 100) xs @ drop (length xs - 100) xs = xs" by simp
  have "distinct (map fst xs)" by (simp add: xs range_distinct)
  note parts = split_fst [of "take (length xs - 100) xs" "drop (length xs - 100) xs" m x, unfolded split, OF this]
  have "m \<in> set oldest \<longleftrightarrow> (m, x) \<notin> set (drop (length xs - 100) xs)" if "(m, x) \<in> set xs"
    using parts that by (simp only: oldest_def set_map)
  moreover have "(m, x) \<in> set (drop (length xs - 100) xs) \<Longrightarrow> (m, x) \<in> set xs" by (rule in_set_dropD)
  ultimately show ?index unfolding idx using range_score [of m x "hb_index s2", folded xs] by auto
  assume "z_score Z (hb_index s') m \<noteq> None"
  then have "m \<notin> set oldest" and two: "z_score Z (hb_index s2) m \<noteq> None" by (auto simp: idx split: if_splits)
  from two have "\<exists>y. z_score Z z1 m = Some y \<and> \<not> y \<le> cutoff"
    unfolding i2 pruned_score by (cases "z_score Z z1 m") (simp_all split: if_splits)
  moreover have "\<exists>y. z_score Z z1 m = Some y \<and> y \<le> cutoff" if "m \<in> set expired"
  proof -
    from that obtain y where "(m, y) \<in> set (z_rangebyscore Z z1 Below_All (Incl cutoff))" by (auto simp: expired_def)
    then show ?thesis unfolding rangebyscore_mem by (intro exI [of _ y]) simp
  qed
  ultimately have "m \<notin> set expired" by auto
  with \<open>m \<notin> set oldest\<close> show ?keys by (simp add: s' drop_instances s2_def s1_def)
qed

lemma beat_script_bound:
  assumes "beat_script Z clock t i ttl cutoff s = (s', n)"
  shows "n \<le> 100" and "n = z_card Z (hb_index s')"
proof -
  let ?xs = "z_range Z (unexpired_index Z cutoff (z_add Z (hb_index s) i t))"
  show n: "n = z_card Z (hb_index s')" by (rule beat_script_index(3) [OF assms])
  have "{(m, x). z_score Z (hb_index s') m = Some x} = set (drop (length ?xs - 100) ?xs)"
    using beat_script_index(1) [OF assms] by auto
  then have "n \<le> length (drop (length ?xs - 100) ?xs)" unfolding n card_all by (metis card_length)
  then show "n \<le> 100" by simp
qed

definition hb_inv :: "heartbeat_config \<Rightarrow> time \<Rightarrow> (string \<Rightarrow> time option) \<Rightarrow> 'z heartbeats \<Rightarrow> bool" where
  "hb_inv c T m s \<longleftrightarrow>
     finite (dom m) \<and> (\<forall>i t. m i = Some t \<longrightarrow> t \<le> T) \<and>
     (\<forall>i t. z_score Z (hb_index s) i = Some t \<longrightarrow> m i = Some t \<and> hb_keys s i = Some (t, t + of_int (hb_ttl c))) \<and>
     z_card Z (hb_index s) \<le> 100 \<and>
     (\<forall>j u. (j, u) \<in> living c m T \<longrightarrow>
        z_score Z (hb_index s) j = Some u \<or>
        z_card Z (hb_index s) = 100 \<and> (\<forall>i t. z_score Z (hb_index s) i = Some t \<longrightarrow> (u, j) < (t, i)))"

lemma hb_invD:
  assumes "hb_inv c T m s"
  shows "finite (dom m)" and "m i = Some t \<Longrightarrow> t \<le> T" and "z_card Z (hb_index s) \<le> 100"
    and "z_score Z (hb_index s) i = Some t \<Longrightarrow> m i = Some t \<and> hb_keys s i = Some (t, t + of_int (hb_ttl c)) \<and> t \<le> T"
    and "(i, t) \<in> living c m T \<Longrightarrow> z_score Z (hb_index s) i \<noteq> Some t \<Longrightarrow>
      z_card Z (hb_index s) = 100 \<and> (\<forall>k x. z_score Z (hb_index s) k = Some x \<longrightarrow> (t, i) < (x, k))"
  using assms unfolding hb_inv_def by blast+

lemma living_mono: "(i, t) \<in> living c m now \<Longrightarrow> T \<le> now \<Longrightarrow> (i, t) \<in> living c m T"
  by (auto simp: living_def)

text \<open>An entry that the index misses was below a full index, and stays there.\<close>

lemma beat_keeps_newest:
  assumes inv: "hb_inv c T m s" and le: "T \<le> t" and run: "beat_script Z t t i (hb_ttl c) (t - of_int (hb_ttl c)) s = (s', n)"
    and live: "(j, u) \<in> living c (m(i \<mapsto> t)) t" and out: "z_score Z (hb_index s') j \<noteq> Some u"
  shows "z_card Z (hb_index s') = 100 \<and> (\<forall>k x. z_score Z (hb_index s') k = Some x \<longrightarrow> (u, j) < (x, k))"
proof -
  define z1 where "z1 = z_add Z (hb_index s) i t"
  define xs where "xs = z_range Z (unexpired_index Z (t - of_int (hb_ttl c)) z1)"
  note index = beat_script_index(1) [OF run, folded z1_def, folded xs_def]
  note sorted = range_sorted [of "unexpired_index Z (t - of_int (hb_ttl c)) z1", folded xs_def]
  note keys = zkeys_distinct [of "unexpired_index Z (t - of_int (hb_ttl c)) z1", folded xs_def]
  have dis: "distinct (map fst xs)" by (simp add: xs_def range_distinct)
  have "{(m, x). z_score Z (hb_index s') m = Some x} = set (drop (length xs - 100) xs)" using index by auto
  then have card: "z_card Z (hb_index s') = length (drop (length xs - 100) xs)"
    using dis unfolding card_all by (simp add: distinct_card distinct_map)
  have in_xs: "(k, x) \<in> set xs \<longleftrightarrow> z_score Z z1 k = Some x \<and> t - of_int (hb_ttl c) < x" for k x
    unfolding xs_def range_score pruned_score by (auto split: option.splits)
  have young: "t - of_int (hb_ttl c) < u" and mj: "(m(i \<mapsto> t)) j = Some u" using live by (auto simp: living_def)
  have "100 \<le> length xs \<and> (\<forall>e \<in> set (drop (length xs - 100) xs). (u, j) < zkey e)"
  proof (cases "z_score Z z1 j = Some u")
    case True
    then have "(j, u) \<in> set xs" using in_xs young by simp
    with out index have "(j, u) \<in> set (take (length xs - 100) xs)"
      by (metis Un_iff append_take_drop_id set_append)
    moreover from this have "100 < length xs" by (cases "length xs - 100") auto
    ultimately show ?thesis using dropped_below [OF sorted keys] by fastforce
  next
    case False
    then have ji: "j \<noteq> i" using mj by (auto simp: z1_def)
    then have "(j, u) \<in> living c m T" "z_score Z (hb_index s) j \<noteq> Some u"
      using live le False by (auto simp: living_def z1_def)
    note full = hb_invD(5) [OF inv this]
    let ?ys = "filter (\<lambda>e. (u, j) < zkey e) xs"
    have "k \<in> fst ` set ?ys" if k: "z_score Z (hb_index s) k = Some x" for k x
    proof -
      have above: "(u, j) < (x, k)" and "x \<le> t" using full k hb_invD(4) [OF inv k] le by auto
      then have "(u, j) < (t, i)" if "k = i" using that by (auto simp: less_prod_def')
      moreover have "t - of_int (hb_ttl c) < x" using above young by (auto simp: less_prod_def')
      ultimately have "(k, if k = i then t else x) \<in> set ?ys" using above k \<open>x \<le> t\<close> by (auto simp: in_xs z1_def)
      then show ?thesis by force
    qed
    then have "{k. z_score Z (hb_index s) k \<noteq> None} \<subseteq> fst ` set ?ys" by auto
    then have "card {k. z_score Z (hb_index s) k \<noteq> None} \<le> card (fst ` set ?ys)" by (intro card_mono) auto
    also have "\<dots> \<le> length ?ys" using card_length [of "map fst ?ys"] by (simp only: set_map length_map)
    finally have ys: "100 \<le> length ?ys" using conjunct1 [OF full] by (simp only: card_score)
    have "(u, j) < zkey e" if "e \<in> set (drop (length xs - 100) xs)" for e
      by (rule newest_above [OF sorted keys ys that])
    moreover have "100 \<le> length xs" by (rule order.trans [OF ys length_filter_le])
    ultimately show ?thesis by simp
  qed
  then show ?thesis using card index by auto
qed

lemma beat_inv:
  assumes inv: "hb_inv c T m s" and "T \<le> t" and run: "beat_script Z t t i (hb_ttl c) (t - of_int (hb_ttl c)) s = (s', n)"
  shows "hb_inv c t (m(i \<mapsto> t)) s'"
proof -
  have entry: "(m(i \<mapsto> t)) k = Some x \<and> hb_keys s' k = Some (x, x + of_int (hb_ttl c))"
    if k: "z_score Z (hb_index s') k = Some x" for k x
  proof -
    from k have "(k, x) \<in> set (z_range Z (unexpired_index Z (t - of_int (hb_ttl c)) (z_add Z (hb_index s) i t)))"
      unfolding beat_script_index(1) [OF run] by (rule in_set_dropD)
    then have "z_score Z (z_add Z (hb_index s) i t) k = Some x"
      unfolding range_score pruned_score by (auto split: option.splits if_splits)
    with beat_script_index(2) [OF run] k hb_invD(4) [OF inv, of k x] show ?thesis by (auto split: if_splits)
  qed
  have "u \<le> t" if "(m(i \<mapsto> t)) j = Some u" for j u
    using that hb_invD(2) [OF inv, of j u] \<open>T \<le> t\<close> by (auto split: if_splits)
  moreover have "finite (dom (m(i \<mapsto> t)))" using hb_invD(1) [OF inv] by simp
  moreover have "z_card Z (hb_index s') \<le> 100" using beat_script_bound [OF run] by simp
  ultimately show ?thesis unfolding hb_inv_def
    using entry beat_keeps_newest [OF inv \<open>T \<le> t\<close> run] by (intro conjI allI impI) blast+
qed

text \<open>What a look at the health finds: the indexed entries still living, all of them.\<close>

lemma looked_at:
  assumes inv: "hb_inv c T m s" and le: "T \<le> now"
  defines "L \<equiv> {(i, t). z_score Z (hb_index s) i = Some t \<and> now < t + of_int (hb_ttl c)}"
  shows "set (filter (is_live c now now s) (take 100 (rev (z_range Z (hb_index s))))) = L" (is ?live)
    and "length (filter (is_live c now now s) (take 100 (rev (z_range Z (hb_index s))))) = card L"
    and "set (map fst (filter (\<lambda>e. \<not> is_live c now now s e) (take 100 (rev (z_range Z (hb_index s)))))) =
      {i. \<exists>t. z_score Z (hb_index s) i = Some t \<and> \<not> now < t + of_int (hb_ttl c)}" (is ?dead)
proof -
  have all: "take 100 (rev (z_range Z (hb_index s))) = rev (z_range Z (hb_index s))"
    using hb_invD(3) [OF inv] by (simp add: card_range)
  have is_live: "is_live c now now s (i, t) \<longleftrightarrow> now < t + of_int (hb_ttl c)" if "z_score Z (hb_index s) i = Some t" for i t
    using hb_invD(4) [OF inv that] le by (auto simp: is_live_def)
  show live: ?live using is_live by (auto simp: all range_score L_def)
  have "distinct (filter (is_live c now now s) (rev (z_range Z (hb_index s))))"
    using range_distinct [of "hb_index s"] by (simp add: distinct_map)
  then show "length (filter (is_live c now now s) (take 100 (rev (z_range Z (hb_index s))))) = card L"
    using live all distinct_card by metis
  show ?dead using is_live by (force simp: all range_score)
qed

lemma missing_is_older:
  assumes inv: "hb_inv c T m s" and le: "T \<le> now" and j: "(j, u) \<in> living c m now" and out: "z_score Z (hb_index s) j \<noteq> Some u"
  shows "z_card Z (hb_index s) = 100" and "z_score Z (hb_index s) i = Some t \<Longrightarrow> (u, j) < (t, i) \<and> now < t + of_int (hb_ttl c)"
proof -
  note full = hb_invD(5) [OF inv living_mono [OF j le] out]
  then show "z_card Z (hb_index s) = 100" by blast
  assume "z_score Z (hb_index s) i = Some t"
  with full have "(u, j) < (t, i)" by blast
  moreover from this have "u \<le> t" by (auto simp: less_prod_def')
  ultimately show "(u, j) < (t, i) \<and> now < t + of_int (hb_ttl c)" using j by (auto simp: living_def)
qed

lemma look_inv:
  assumes inv: "hb_inv c T m s" and le: "T \<le> now"
  shows "hb_inv c now m (fst (heartbeat_health Z c r now now s))"
proof -
  define s' where "s' = fst (heartbeat_health Z c r now now s)"
  let ?entries = "take 100 (rev (z_range Z (hb_index s)))"
  let ?dead = "map fst (filter (\<lambda>e. \<not> is_live c now now s e) ?entries)"
  have "s' = s\<lparr>hb_index := fold (\<lambda>i z. z_rem Z z i) ?dead (hb_index s)\<rparr>"
    unfolding s'_def heartbeat_health_def Let_def by (cases "?entries = []") auto
  then have keys: "hb_keys s' = hb_keys s"
    and idx: "\<And>i. z_score Z (hb_index s') i = (if i \<in> set ?dead then None else z_score Z (hb_index s) i)"
    by (simp_all add: fold_rem_score)
  have idx: "z_score Z (hb_index s') i = Some t \<longleftrightarrow> z_score Z (hb_index s) i = Some t \<and> now < t + of_int (hb_ttl c)" for i t
    unfolding idx looked_at(3) [OF inv le] by auto
  have sub: "{(i, t). z_score Z (hb_index s') i = Some t} \<subseteq> {(i, t). z_score Z (hb_index s) i = Some t}" using idx by auto
  have fin: "finite {(i, t). z_score Z (hb_index s) i = Some t}"
    by (rule finite_subset [of _ "set (z_range Z (hb_index s))"]) (auto simp: range_score)
  have "z_card Z (hb_index s') \<le> z_card Z (hb_index s)" unfolding card_all by (rule card_mono [OF fin sub])
  then have small: "z_card Z (hb_index s') \<le> 100" using hb_invD(3) [OF inv] by simp
  have full: "z_card Z (hb_index s') = 100 \<and> (\<forall>i t. z_score Z (hb_index s') i = Some t \<longrightarrow> (u, j) < (t, i))"
    if j: "(j, u) \<in> living c m now" and "z_score Z (hb_index s') j \<noteq> Some u" for j u
  proof -
    from that have out: "z_score Z (hb_index s) j \<noteq> Some u" unfolding idx by (auto simp: living_def)
    note older = missing_is_older [OF inv le j out]
    have "{(i, t). z_score Z (hb_index s') i = Some t} = {(i, t). z_score Z (hb_index s) i = Some t}"
      using older(2) by (auto simp: idx)
    then have "z_card Z (hb_index s') = 100" using older(1) unfolding card_all by simp
    with older(2) idx show ?thesis by blast
  qed
  have young: "t \<le> now" if "m i = Some t" for i t using hb_invD(2) [OF inv that] le by simp
  have "m i = Some t \<and> hb_keys s' i = Some (t, t + of_int (hb_ttl c))" if "z_score Z (hb_index s') i = Some t" for i t
    using that hb_invD(4) [OF inv] unfolding idx keys by blast
  with young hb_invD(1) [OF inv] small full show ?thesis unfolding s'_def [symmetric] hb_inv_def
    by (intro conjI allI impI) blast+
qed

lemma Max_cap:
  assumes "finite V" and "L \<subseteq> V" and "L \<noteq> {}" and "\<And>x y. x \<in> V - L \<Longrightarrow> y \<in> L \<Longrightarrow> f x \<le> f y"
  shows "Max (f ` L) = Max (f ` V)"
proof (rule antisym)
  show "Max (f ` L) \<le> Max (f ` V)" using assms by (intro Max_mono image_mono) auto
  have fl: "finite (f ` L)" using assms(1,2) finite_subset by blast
  obtain y where y: "y \<in> L" using assms(3) by blast
  have "f x \<le> Max (f ` L)" if "x \<in> V" for x
  proof (cases "x \<in> L")
    case True
    with fl show ?thesis by simp
  next
    case False
    then have "f x \<le> f y" using assms(4) that y by blast
    also have "f y \<le> Max (f ` L)" using fl y by simp
    finally show ?thesis .
  qed
  moreover have "V \<noteq> {}" using y assms(2) by blast
  ultimately show "Max (f ` V) \<le> Max (f ` L)" using assms(1) by simp
qed

lemma health_reports:
  fixes r :: worker_role
  assumes inv: "hb_inv c T m s" and le: "T \<le> now"
  defines "V \<equiv> living c m now"
  defines "h \<equiv> snd (heartbeat_health Z c r now now s)"
  shows "rh_active h = min 100 (card V)"
    and "rh_newest h = (if V = {} then None else Some (Max (snd ` V)))"
    and "rh_status h = (if V = {} then Down else if now - Max (snd ` V) \<le> of_int (hb_interval c * 2) then Healthy else Stale)"
proof -
  define L where "L = {(i, t). z_score Z (hb_index s) i = Some t \<and> now < t + of_int (hb_ttl c)}"
  let ?live = "filter (is_live c now now s) (take 100 (rev (z_range Z (hb_index s))))"
  note live = looked_at(1,2) [OF inv le, folded L_def]
  have LV: "L \<subseteq> V" using hb_invD(4) [OF inv] by (auto simp: L_def V_def living_def)
  have fin: "finite V"
    by (rule finite_subset [of _ "(\<lambda>i. (i, the (m i))) ` dom m"]) (force simp: V_def living_def hb_invD(1) [OF inv])+
  have full: "card L = 100 \<and> (\<forall>y \<in> L. snd x \<le> snd y)" if "x \<in> V - L" for x
  proof -
    obtain j u where x: "x = (j, u)" by (cases x)
    with that have j: "(j, u) \<in> living c m now" "z_score Z (hb_index s) j \<noteq> Some u" by (auto simp: V_def L_def living_def)
    note older = missing_is_older [OF inv le j]
    have "L = {(i, t). z_score Z (hb_index s) i = Some t}" using older(2) by (auto simp: L_def)
    then have "card L = 100" using older(1) unfolding card_all by simp
    moreover have "u \<le> t" if "(i, t) \<in> L" for i t using older(2) [of i t] that by (auto simp: L_def less_prod_def')
    ultimately show ?thesis using x by auto
  qed
  have "card L \<le> 100" unfolding live(2) [symmetric] by (rule order.trans [OF length_filter_le]) simp
  moreover have "card L \<le> card V" by (rule card_mono [OF fin LV])
  moreover have "card L = 100 \<or> L = V" using full LV by blast
  ultimately have card: "card L = min 100 (card V)" by auto
  have empty: "V = {} \<longleftrightarrow> ?live = []"
  proof -
    have "card L = 0 \<longleftrightarrow> card V = 0" unfolding card by (simp add: min_def)
    then show ?thesis using live(2) fin by (metis card_0_eq length_0_conv)
  qed
  have newest: "Max (set (map snd ?live)) = Max (snd ` V)" if "V \<noteq> {}"
  proof -
    have "L \<noteq> {}" using that empty live(1) by (metis set_empty)
    have "snd x \<le> snd y" if "x \<in> V - L" "y \<in> L" for x y using full [OF that(1)] that(2) by blast
    from Max_cap [OF fin LV \<open>L \<noteq> {}\<close> this] show ?thesis using live(1) by (simp only: set_map)
  qed
  have "h = (if ?live = [] then \<lparr>rh_role = r, rh_status = Down, rh_active = 0, rh_newest = None\<rparr>
      else \<lparr>rh_role = r, rh_status = (if now - Max (set (map snd ?live)) \<le> of_int (hb_interval c * 2) then Healthy else Stale),
             rh_active = length ?live, rh_newest = Some (Max (set (map snd ?live)))\<rparr>)"
    unfolding h_def heartbeat_health_def Let_def by (cases "take 100 (rev (z_range Z (hb_index s))) = []") auto
  with empty newest live(2) card fin show "rh_active h = min 100 (card V)"
    "rh_newest h = (if V = {} then None else Some (Max (snd ` V)))"
    "rh_status h = (if V = {} then Down else if now - Max (snd ` V) \<le> of_int (hb_interval c * 2) then Healthy else Stale)"
    by (cases "V = {}"; simp)+
qed

lemma step_inv:
  "hb_inv c T m s \<Longrightarrow> T \<le> event_time e \<Longrightarrow> hb_inv c (event_time e) (note_beat e m) (heartbeat_step Z c e s)"
proof (cases e)
  case (Look t)
  assume "hb_inv c T m s" "T \<le> event_time e"
  with look_inv Look show ?thesis by (simp add: event_time_def note_beat_def heartbeat_step_def)
next
  case (Beat i t)
  assume inv: "hb_inv c T m s" and "T \<le> event_time e"
  then have le: "T \<le> t" by (simp add: Beat event_time_def)
  show ?thesis
  proof (cases "instance_id_ok i")
    case True
    obtain s' n where run: "beat_script Z t t i (hb_ttl c) (t - of_int (hb_ttl c)) s = (s', n)" by fastforce
    from beat_inv [OF inv le run] True run show ?thesis
      by (simp add: Beat event_time_def note_beat_def heartbeat_step_def beat_def)
  next
    case False
    have "hb_inv c t m s" unfolding hb_inv_def
      using inv le living_mono [of _ _ c m t T] unfolding hb_inv_def by (meson order_trans)
    with False show ?thesis by (simp add: Beat event_time_def note_beat_def heartbeat_step_def beat_def)
  qed
qed

lemma run_inv:
  "hb_inv c T m s \<Longrightarrow> sorted (T # map event_time es) \<Longrightarrow> T' = last (T # map event_time es) \<Longrightarrow>
     hb_inv c T' (fold note_beat es m) (fold (heartbeat_step Z c) es s)"
proof (induction es arbitrary: T m s)
  case (Cons e es)
  from Cons.prems(2) have le: "T \<le> event_time e" and rest: "sorted (event_time e # map event_time es)" by simp_all
  from Cons.IH [OF step_inv [OF Cons.prems(1) le] rest] Cons.prems(3) show ?case by simp
qed simp

lemma first_inv: "hb_inv c T (\<lambda>_. None) \<lparr>hb_index = z_empty Z, hb_keys = (\<lambda>_. None)\<rparr>"
proof -
  have "z_card Z (z_empty Z) = 0" by (simp add: card_score)
  then show ?thesis by (simp add: hb_inv_def living_def)
qed

lemma run_reports:
  assumes "sorted (map event_time es @ [now])"
  shows "\<exists>T. hb_inv c T (last_beats es) (heartbeat_run Z c es) \<and> T \<le> now"
proof -
  define T where "T = hd (map event_time es @ [now])"
  have "\<forall>t \<in> set (map event_time es). t \<le> now" using assms by (auto simp: sorted_append)
  then have le: "last (T # map event_time es) \<le> now"
    by (cases es) (auto simp: T_def last_in_set simp del: set_map)
  have sorted: "sorted (T # map event_time es)"
    using assms by (cases es) (simp_all add: T_def sorted_append)
  from run_inv [OF first_inv sorted refl] le show ?thesis
    unfolding last_beats_def heartbeat_run_def by blast
qed

end


definition w_heartbeat :: heartbeat_config where
  "w_heartbeat = \<lparr>hb_interval = 30, hb_ttl = 90\<rparr>"

definition w_beats :: "heartbeat_event list" where
  "w_beats = [Beat ''a'' 0, Beat ''b'' 20, Look 95, Beat ''not:safe'' 96]"

lemma w_living: "living w_heartbeat (last_beats w_beats) 100 = {(''b'', 20)}"
  by (auto simp: living_def last_beats_def w_beats_def w_heartbeat_def note_beat_def instance_id_ok_def instance_char_def less_eq_char_def
      split: if_splits)


end
