(* ===== verification/Dashboard.thy ===== *)
theory Dashboard
  imports Snapshot Heartbeat Routes
begin

text \<open>
  The dashboard's service and routes (dashboard/service.py, api/dashboard_models.py and
  api/routes/dashboard.py): the responses built from repository, histories and heartbeats, the
  response cache, and the errors of the routes.
\<close>

section \<open>Responses\<close>

record dashboard_summary =
  sm_domain :: "string option"
  sm_observed :: time
  sm_total :: nat
  sm_candidate :: nat
  sm_available :: nat
  sm_indexed :: nat
  sm_selectable :: nat
  sm_degraded :: nat
  sm_quarantined :: nat
  sm_due :: nat
  sm_leased :: nat
  sm_rate :: "rat option"
  sm_share :: "rat option"
  sm_high_quality :: nat
  sm_latest :: "time option"
  sm_freshness :: "rat option"
  sm_api :: string
  sm_redis :: string
  sm_collector :: role_health
  sm_checker :: role_health
  sm_refresh :: int
  sm_scanned :: nat
  sm_partial :: bool

record quality_summary =
  qs_domain :: string
  qs_observed :: time
  qs_candidate :: nat
  qs_available :: nat
  qs_degraded :: nat
  qs_quarantined :: nat
  qs_buckets :: score_buckets
  qs_latency :: latency_summary
  qs_scanned :: nat
  qs_partial :: bool

record source_summary =
  ss_domain :: string
  ss_observed :: time
  ss_items :: "source_quality list"
  ss_scanned :: nat
  ss_partial :: bool

section \<open>The service\<close>

text \<open>What is stored: pools, histories, heartbeats and the cached texts with their expiry.\<close>

record ('zp, 'hp, 'o, 's, 'z, 'h, 'c) board =
  bd_repo :: "('zp, 'hp, 'o, 's) repo"
  bd_histories :: "('z, 'h) histories"
  bd_beats :: "worker_role \<Rightarrow> 'zp heartbeats"
  bd_cache :: "string \<Rightarrow> ('c \<times> time) option"

text \<open>
  What the service is made of: its settings, the hash function, the models' JSON readers and
  writers, and \<open>PING\<close>, which may raise.
\<close>

record ('zp, 'hp, 'o, 's, 'pp, 'z, 'h, 'p, 'c) board_service =
  bs_svc :: "('zp, 'hp, 'o, 's, 'pp) svc"
  bs_history :: "('z, 'h, 'p) history_api"
  bs_settings :: dashboard_settings
  bs_selection :: selection_settings
  bs_prefix :: string
  bs_heartbeat :: heartbeat_config
  bs_sha :: "string \<Rightarrow> string"
  bs_ping :: "bool result"
  bs_dump_summary :: "dashboard_summary \<Rightarrow> 'c"
  bs_parse_summary :: "'c \<Rightarrow> dashboard_summary option"
  bs_dump_quality :: "quality_summary \<Rightarrow> 'c"
  bs_parse_quality :: "'c \<Rightarrow> quality_summary option"
  bs_dump_sources :: "source_summary \<Rightarrow> 'c"
  bs_parse_sources :: "'c \<Rightarrow> source_summary option"

text \<open>\<open>_selection_counts\<close>: a domain whose index is not ready is left out and noted.\<close>

fun selection_totals ::
  "('zp, 'hp, 'o, 's, 'pp) svc \<Rightarrow> selection_settings \<Rightarrow> time \<Rightarrow> string list \<Rightarrow> nat \<times> nat \<times> bool \<Rightarrow> ('zp, 'hp, 'o, 's) repo
     \<Rightarrow> ('zp, 'hp, 'o, 's) repo \<times> (nat \<times> nat \<times> bool) result" where
  "selection_totals E c now [] acc R = (R, Inr acc)"
| "selection_totals E c now (d # ds) acc R =
     (case acc of (indexed, selectable, missing) \<Rightarrow>
        (case selection_counts E d (se_min_score c) (se_max_latency c) (se_max_age c) (se_min_successes c) now R of
           Inl e \<Rightarrow>
             if e = LatencyIndexNotReady then selection_totals E c now ds (indexed, selectable, True) R
             else (R, Inl e)
         | Inr (R', i, _, n) \<Rightarrow> selection_totals E c now ds (indexed + i, selectable + n, missing) R'))"

definition board_selection ::
  "('zp, 'hp, 'o, 's, 'pp) svc \<Rightarrow> selection_settings \<Rightarrow> string option \<Rightarrow> time \<Rightarrow> ('zp, 'hp, 'o, 's) repo
     \<Rightarrow> ('zp, 'hp, 'o, 's) repo \<times> (nat \<times> nat \<times> bool) result" where
  "board_selection E c domain now R =
     selection_totals E c now (case domain of None \<Rightarrow> list_domains E R | Some d \<Rightarrow> [d]) (0, 0, False) R"

definition cache_key :: "(string \<Rightarrow> string) \<Rightarrow> string \<Rightarrow> string \<Rightarrow> string \<Rightarrow> string list \<Rightarrow> string" where
  "cache_key sha prefix kind scope parts =
     prefix @ '':api:dashboard:'' @ kind @ '':'' @ sha (kind @ concat (map ((#) (CHR ''|'')) (scope # parts)))"

text \<open>\<open>_cached\<close>: a text that does not parse counts as missing.\<close>

definition cache_or_build ::
  "('c \<Rightarrow> 'm option) \<Rightarrow> ('m \<Rightarrow> 'c) \<Rightarrow> time \<Rightarrow> string \<Rightarrow> int
     \<Rightarrow> (('zp, 'hp, 'o, 's, 'z, 'h, 'c) board \<Rightarrow> ('zp, 'hp, 'o, 's, 'z, 'h, 'c) board \<times> 'm result)
     \<Rightarrow> ('zp, 'hp, 'o, 's, 'z, 'h, 'c) board \<Rightarrow> ('zp, 'hp, 'o, 's, 'z, 'h, 'c) board \<times> 'm result" where
  "cache_or_build parse dump clock key ttl build s =
     (case Option.bind (alive clock (bd_cache s key)) parse of
        Some v \<Rightarrow> (s, Inr v)
      | None \<Rightarrow>
          (case build s of
             (s', Inl e) \<Rightarrow> (s', Inl e)
           | (s', Inr v) \<Rightarrow> (s'\<lparr>bd_cache := (bd_cache s')(key \<mapsto> (dump v, clock + of_int ttl))\<rparr>, Inr v)))"

text \<open>\<open>DashboardDomainNotFound\<close> is a \<open>LookupError\<close> with the name of the domain.\<close>

definition require_known_domain :: "('zp, 'hp, 'o, 's, 'pp) svc \<Rightarrow> ('zp, 'hp, 'o, 's) repo \<Rightarrow> string \<Rightarrow> unit result" where
  "require_known_domain E R d = (if d \<notin> set (list_domains E R) then Inl (LookupError d) else Inr ())"

fun gather_scans ::
  "('zp, 'hp, 'o, 's, 'pp) svc \<Rightarrow> nat \<Rightarrow> ('zp, 'hp, 'o, 's) repo \<Rightarrow> string list \<Rightarrow> record_scan \<Rightarrow> record_scan result" where
  "gather_scans E maximum R [] g = Inr g"
| "gather_scans E maximum R (d # ds) g =
     (case scan_records E R d (int maximum) 500 of
        Inl e \<Rightarrow> Inl e
      | Inr scan \<Rightarrow>
          (let remaining = maximum - length (scan_items g); included = take remaining (scan_items scan)
           in gather_scans E maximum R ds
                \<lparr>scan_items = scan_items g @ included, scanned = scanned g + length included,
                 partial = (partial g \<or> partial scan \<or> remaining < scanned scan \<or> remaining = 0)\<rparr>))"

definition board_aggregate ::
  "('zp, 'hp, 'o, 's, 'pp) svc \<Rightarrow> nat \<Rightarrow> string option \<Rightarrow> time \<Rightarrow> ('zp, 'hp, 'o, 's) repo \<Rightarrow> dashboard_aggregate result" where
  "board_aggregate E maximum domain now R =
     (case domain of
        Some d \<Rightarrow>
          (case require_known_domain E R d of
             Inl e \<Rightarrow> Inl e
           | Inr _ \<Rightarrow>
               (case stats E R (Some d) of
                  Inl e \<Rightarrow> Inl e
                | Inr st \<Rightarrow>
                    (case scan_records E R d (int maximum) 500 of
                       Inl e \<Rightarrow> Inl e
                     | Inr scan \<Rightarrow> aggregate_records (scan_items scan) st now (scanned scan) (partial scan))))
      | None \<Rightarrow>
          (case stats E R None of
             Inl e \<Rightarrow> Inl e
           | Inr st \<Rightarrow>
               (case gather_scans E maximum R (list_domains E R) \<lparr>scan_items = [], scanned = 0, partial = False\<rparr> of
                  Inl e \<Rightarrow> Inl e
                | Inr g \<Rightarrow> aggregate_records (scan_items g) st now (scanned g) (partial g))))"

definition read_history ::
  "('z, 'h, 'p) history_api \<Rightarrow> string \<Rightarrow> history_range \<Rightarrow> time \<Rightarrow> ('z, 'h) histories \<Rightarrow> history_point list result" where
  "read_history A scope r now hs = history_read A r now (hs scope (rp_resolution (range_policy_of r)))"

text \<open>The domain query of a route: an empty text does not get past the query validation.\<close>

definition scope_of :: "string option \<Rightarrow> string" where
  "scope_of domain = (case domain of None \<Rightarrow> global_scope | Some d \<Rightarrow> if d = [] then global_scope else d)"

definition valid_dashboard_summary :: "dashboard_summary \<Rightarrow> bool" where
  "valid_dashboard_summary v \<longleftrightarrow>
     unit_rate (sm_rate v) \<and> unit_rate (sm_share v) \<and> (case sm_freshness v of None \<Rightarrow> True | Some x \<Rightarrow> 0 \<le> x) \<and>
     10 \<le> sm_refresh v \<and> sm_refresh v \<le> 300"

definition look_at ::
  "('zp, 'hp, 'o, 's, 'pp, 'z, 'h, 'p, 'c) board_service \<Rightarrow> worker_role \<Rightarrow> time \<Rightarrow> time \<Rightarrow> ('zp, 'hp, 'o, 's, 'z, 'h, 'c) board
     \<Rightarrow> ('zp, 'hp, 'o, 's, 'z, 'h, 'c) board \<times> role_health" where
  "look_at B r clock now s =
     (case heartbeat_health (zs (bs_svc B)) (bs_heartbeat B) r clock now (bd_beats s r) of
        (b, h) \<Rightarrow> (s\<lparr>bd_beats := (bd_beats s)(r := b)\<rparr>, h))"

definition build_summary ::
  "('zp, 'hp, 'o, 's, 'pp, 'z, 'h, 'p, 'c) board_service \<Rightarrow> string option \<Rightarrow> time \<Rightarrow> time \<Rightarrow> ('zp, 'hp, 'o, 's, 'z, 'h, 'c) board
     \<Rightarrow> ('zp, 'hp, 'o, 's, 'z, 'h, 'c) board \<times> dashboard_summary result" where
  "build_summary B domain clock now s =
     (case board_aggregate (bs_svc B) (nat (ds_max_records (bs_settings B))) domain now (bd_repo s) of
        Inl e \<Rightarrow> (s, Inl e)
      | Inr a \<Rightarrow>
          (case board_selection (bs_svc B) (bs_selection B) domain now (bd_repo s) of
             (R', Inl e) \<Rightarrow> (s\<lparr>bd_repo := R'\<rparr>, Inl e)
           | (R', Inr (indexed, selectable, missing)) \<Rightarrow>
               let s1 = s\<lparr>bd_repo := R'\<rparr>
               in (case read_history (bs_history B) (scope_of domain) H24 now (bd_histories s1) of
                     Inl e \<Rightarrow> (s1, Inl e)
                   | Inr points \<Rightarrow>
                       (case bs_ping B of
                          Inl e \<Rightarrow> (s1, Inl e)
                        | Inr pong \<Rightarrow>
                            (case look_at B Collector_Role clock now s1 of
                               (s2, collector) \<Rightarrow>
                                 (case look_at B Checker_Role clock now s2 of
                                    (s3, checker) \<Rightarrow>
                                      let latest = (if points = [] then None else Some (hp_observed (last points)));
                                          p = da_point a;
                                          v = \<lparr>sm_domain = domain, sm_observed = hp_observed p, sm_total = hp_total p,
                                               sm_candidate = hp_candidate p, sm_available = hp_available p, sm_indexed = indexed,
                                               sm_selectable = selectable, sm_degraded = hp_degraded p,
                                               sm_quarantined = hp_quarantined p, sm_due = hp_due p, sm_leased = hp_leased p,
                                               sm_rate = hp_rate p, sm_share = hp_share p, sm_high_quality = hp_high_quality p,
                                               sm_latest = latest, sm_freshness = map_option (\<lambda>t. max 0 (now - t)) latest,
                                               sm_api = ''healthy'', sm_redis = (if pong then ''healthy'' else ''down''),
                                               sm_collector = collector, sm_checker = checker,
                                               sm_refresh = ds_refresh (bs_settings B), sm_scanned = da_scanned a,
                                               sm_partial = (da_partial a \<or> missing)\<rparr>
                                      in (s3, if valid_dashboard_summary v then Inr v else Inl (ValueError ''DashboardSummary''))))))))"

definition board_summary ::
  "('zp, 'hp, 'o, 's, 'pp, 'z, 'h, 'p, 'c) board_service \<Rightarrow> string option \<Rightarrow> time \<Rightarrow> time \<Rightarrow> ('zp, 'hp, 'o, 's, 'z, 'h, 'c) board
     \<Rightarrow> ('zp, 'hp, 'o, 's, 'z, 'h, 'c) board \<times> dashboard_summary result" where
  "board_summary B domain clock now =
     cache_or_build (bs_parse_summary B) (bs_dump_summary B) clock (cache_key (bs_sha B) (bs_prefix B) ''summary'' (scope_of domain) []) 10
       (build_summary B domain clock now)"

definition board_history ::
  "('zp, 'hp, 'o, 's, 'pp, 'z, 'h, 'p, 'c) board_service \<Rightarrow> string option \<Rightarrow> history_range \<Rightarrow> time
     \<Rightarrow> ('zp, 'hp, 'o, 's, 'z, 'h, 'c) board \<Rightarrow> history_point list result" where
  "board_history B domain r now s =
     (case (case domain of None \<Rightarrow> Inr () | Some d \<Rightarrow> require_known_domain (bs_svc B) (bd_repo s) d) of
        Inl e \<Rightarrow> Inl e
      | Inr _ \<Rightarrow> read_history (bs_history B) (scope_of domain) r now (bd_histories s))"

definition board_quality ::
  "('zp, 'hp, 'o, 's, 'pp, 'z, 'h, 'p, 'c) board_service \<Rightarrow> string \<Rightarrow> time \<Rightarrow> time \<Rightarrow> ('zp, 'hp, 'o, 's, 'z, 'h, 'c) board
     \<Rightarrow> ('zp, 'hp, 'o, 's, 'z, 'h, 'c) board \<times> quality_summary result" where
  "board_quality B domain clock now =
     cache_or_build (bs_parse_quality B) (bs_dump_quality B) clock (cache_key (bs_sha B) (bs_prefix B) ''quality'' domain []) 30
       (\<lambda>s. case board_aggregate (bs_svc B) (nat (ds_max_records (bs_settings B))) (Some domain) now (bd_repo s) of
               Inl e \<Rightarrow> (s, Inl e)
             | Inr a \<Rightarrow>
                 let p = da_point a
                 in (s, Inr \<lparr>qs_domain = domain, qs_observed = hp_observed p, qs_candidate = hp_candidate p,
                             qs_available = hp_available p, qs_degraded = hp_degraded p, qs_quarantined = hp_quarantined p,
                             qs_buckets = hp_buckets p, qs_latency = hp_latency p, qs_scanned = da_scanned a,
                             qs_partial = da_partial a\<rparr>))"

definition board_sources ::
  "('zp, 'hp, 'o, 's, 'pp, 'z, 'h, 'p, 'c) board_service \<Rightarrow> string \<Rightarrow> int \<Rightarrow> time \<Rightarrow> time \<Rightarrow> ('zp, 'hp, 'o, 's, 'z, 'h, 'c) board
     \<Rightarrow> ('zp, 'hp, 'o, 's, 'z, 'h, 'c) board \<times> source_summary result" where
  "board_sources B domain limit clock now s =
     (if \<not> (1 \<le> limit \<and> limit \<le> 100) then (s, Inl (ValueError ''source limit must be within 1..100''))
      else cache_or_build (bs_parse_sources B) (bs_dump_sources B) clock
             (cache_key (bs_sha B) (bs_prefix B) ''sources'' domain [str_int limit]) 30
             (\<lambda>s. case board_aggregate (bs_svc B) (nat (ds_max_records (bs_settings B))) (Some domain) now (bd_repo s) of
                     Inl e \<Rightarrow> (s, Inl e)
                   | Inr a \<Rightarrow> (s, Inr \<lparr>ss_domain = domain, ss_observed = hp_observed (da_point a),
                                       ss_items = take (nat limit) (da_sources a), ss_scanned = da_scanned a,
                                       ss_partial = da_partial a\<rparr>)) s)"

section \<open>The routes\<close>

definition dashboard_error :: "exn \<Rightarrow> exn" where
  "dashboard_error e = (case e of LookupError _ \<Rightarrow> HTTPException 404 ''domain not found'' | _ \<Rightarrow> unavailable)"

definition routed :: "'st \<times> 'm result \<Rightarrow> 'st \<times> 'm result" where
  "routed x = (case x of (s, Inl e) \<Rightarrow> (s, Inl (dashboard_error e)) | (s, Inr v) \<Rightarrow> (s, Inr v))"

text \<open>The history route: with an unchanged entity tag the response is 304 and has no body.\<close>

datatype 'm tagged = Not_Modified string | Body 'm string

definition history_route ::
  "('zp, 'hp, 'o, 's, 'pp, 'z, 'h, 'p, 'c) board_service \<Rightarrow> (history_range \<times> history_point list \<Rightarrow> string) \<Rightarrow> string option
     \<Rightarrow> string option \<Rightarrow> history_range \<Rightarrow> time \<Rightarrow> ('zp, 'hp, 'o, 's, 'z, 'h, 'c) board \<Rightarrow> history_point list tagged result" where
  "history_route B dump if_none_match domain r now s =
     (case board_history B domain r now s of
        Inl e \<Rightarrow> Inl (dashboard_error e)
      | Inr points \<Rightarrow>
          let etag = [CHR 0x22] @ bs_sha B (dump (r, points)) @ [CHR 0x22]
          in Inr (if if_none_match = Some etag then Not_Modified etag else Body points etag))"

definition summary_route where
  "summary_route B domain clock now s = routed (board_summary B domain clock now s)"

definition quality_route where
  "quality_route B domain clock now s = routed (board_quality B domain clock now s)"

definition sources_route where
  "sources_route B domain limit clock now s = routed (board_sources B domain limit clock now s)"


section \<open>The cache\<close>

text \<open>What the readers and the hash promise; the latencies of a quality summary may lose an infinite value.\<close>

locale board_codec =
  fixes B :: "('zp, 'hp, 'o, 's, 'pp, 'z, 'h, 'p, 'c) board_service"
  assumes summary_codec: "bs_parse_summary B (bs_dump_summary B v) = Some v"
    and quality_codec: "\<exists>l. bs_parse_quality B (bs_dump_quality B w) = Some (w\<lparr>qs_latency := l\<rparr>)"
    and sources_codec: "bs_parse_sources B (bs_dump_sources B u) = Some u"
    and sha_inj: "bs_sha B a = bs_sha B b \<Longrightarrow> a = b"
begin

definition summary_key :: "string \<Rightarrow> string" where
  "summary_key scope = cache_key (bs_sha B) (bs_prefix B) ''summary'' scope []"

definition quality_key :: "string \<Rightarrow> string" where
  "quality_key d = cache_key (bs_sha B) (bs_prefix B) ''quality'' d []"

definition sources_key :: "string \<Rightarrow> int \<Rightarrow> string" where
  "sources_key d n = cache_key (bs_sha B) (bs_prefix B) ''sources'' d [str_int n]"

lemma keys_differ [simp]:
  "summary_key a \<noteq> quality_key b" "quality_key b \<noteq> summary_key a" "summary_key a \<noteq> sources_key b n"
  "sources_key b n \<noteq> summary_key a" "quality_key a \<noteq> sources_key b n" "sources_key b n \<noteq> quality_key a"
  by (simp_all add: summary_key_def quality_key_def sources_key_def cache_key_def)

lemma no_bar: "CHR ''|'' \<notin> set (str_int n)"
  by (auto simp: str_int_def dest: str_nat_digits split: if_splits)

lemma bar_split: "a @ CHR ''|'' # x = b @ CHR ''|'' # y \<Longrightarrow> CHR ''|'' \<notin> set x \<Longrightarrow> CHR ''|'' \<notin> set y \<Longrightarrow> a = b \<and> x = y"
  by (auto simp: append_eq_append_conv2 Cons_eq_append_conv append_eq_Cons_conv)

lemma key_inj [simp]:
  "summary_key a = summary_key b \<longleftrightarrow> a = b" "quality_key a = quality_key b \<longleftrightarrow> a = b"
  "sources_key a m = sources_key b n \<longleftrightarrow> a = b \<and> m = n"
proof -
  show "summary_key a = summary_key b \<longleftrightarrow> a = b" "quality_key a = quality_key b \<longleftrightarrow> a = b"
    by (auto simp: summary_key_def quality_key_def cache_key_def dest!: sha_inj)
  have "sources_key a m = sources_key b n \<Longrightarrow> a = b \<and> str_int m = str_int n"
    using bar_split [OF _ no_bar no_bar] by (auto simp: sources_key_def cache_key_def dest!: sha_inj)
  then show "sources_key a m = sources_key b n \<longleftrightarrow> a = b \<and> m = n" using read_str_int by metis
qed

inductive cache_entry_ok :: "time \<Rightarrow> string \<Rightarrow> 'c \<times> time \<Rightarrow> bool" for T where
  summary_entry: "sm_observed v \<le> T \<Longrightarrow> cache_entry_ok T (summary_key (scope_of (sm_domain v))) (bs_dump_summary B v, sm_observed v + 10)"
| quality_entry: "qs_observed w \<le> T \<Longrightarrow> cache_entry_ok T (quality_key (qs_domain w)) (bs_dump_quality B w, qs_observed w + 30)"
| sources_entry: "ss_observed u \<le> T \<Longrightarrow> int (length (ss_items u)) \<le> n \<Longrightarrow>
    cache_entry_ok T (sources_key (ss_domain u) n) (bs_dump_sources B u, ss_observed u + 30)"

definition cache_ok :: "time \<Rightarrow> ('zp, 'hp, 'o, 's, 'z, 'h, 'c) board \<Rightarrow> bool" where
  "cache_ok T s \<longleftrightarrow> (\<forall>key x. bd_cache s key = Some x \<longrightarrow> cache_entry_ok T key x)"

lemma entry_later: "cache_entry_ok T key x \<Longrightarrow> T \<le> T' \<Longrightarrow> cache_entry_ok T' key x"
  by (induction rule: cache_entry_ok.induct) (auto intro: cache_entry_ok.intros)

lemma cache_later: "cache_ok T s \<Longrightarrow> T \<le> T' \<Longrightarrow> bd_cache s' = bd_cache s \<Longrightarrow> cache_ok T' s'"
  unfolding cache_ok_def using entry_later by metis

text \<open>Every answer of \<open>_cached\<close> is a stored one of the key that has not expired, or a new one.\<close>

lemma cached_cases:
  assumes "cache_or_build parse dump clock key ttl build s = (s', res)"
  shows "(\<exists>raw e v. bd_cache s key = Some (raw, e) \<and> clock < e \<and> parse raw = Some v \<and> s' = s \<and> res = Inr v) \<or>
    (\<exists>x. build s = (s', Inl x) \<and> res = Inl x) \<or>
    (\<exists>s1 v. build s = (s1, Inr v) \<and> s' = s1\<lparr>bd_cache := (bd_cache s1)(key \<mapsto> (dump v, clock + of_int ttl))\<rparr> \<and> res = Inr v)"
proof (cases "Option.bind (alive clock (bd_cache s key)) parse")
  case None
  obtain s1 r where b: "build s = (s1, r)" by (cases "build s")
  show ?thesis
  proof (cases r)
    case (Inl e)
    with None assms b have "s1 = s' \<and> Inl e = res" by (simp add: cache_or_build_def)
    with b Inl show ?thesis by blast
  next
    case (Inr v)
    with None assms b have "s1\<lparr>bd_cache := (bd_cache s1)(key \<mapsto> (dump v, clock + of_int ttl))\<rparr> = s' \<and> Inr v = res" by (simp add: cache_or_build_def)
    with b Inr show ?thesis by blast
  qed
next
  case (Some v)
  then obtain raw where "alive clock (bd_cache s key) = Some raw" "parse raw = Some v" by (cases "alive clock (bd_cache s key)") auto
  moreover from this(1) obtain e where "bd_cache s key = Some (raw, e)" "clock < e" unfolding alive_Some by blast
  moreover have "s' = s" "res = Inr v" using Some assms by (simp_all add: cache_or_build_def)
  ultimately show ?thesis by blast
qed

lemma built_ok:
  "cache_ok T s1 \<Longrightarrow> cache_entry_ok T key x \<Longrightarrow> cache_ok T (s1\<lparr>bd_cache := (bd_cache s1)(key \<mapsto> x)\<rparr>)"
  by (auto simp: cache_ok_def)

end

lemma aggregate_observed:
  "board_aggregate E n domain now R = Inr a \<Longrightarrow> hp_observed (da_point a) = now"
  by (auto simp: board_aggregate_def aggregate_records_def Let_def split: option.splits sum.splits if_splits)

lemma look_at_cache: "look_at B r clock now s = (s', h) \<Longrightarrow> bd_cache s' = bd_cache s"
  by (auto simp: look_at_def split: prod.splits)

lemma build_summary_facts:
  assumes "build_summary B domain clock now s = (s', res)"
  shows "bd_cache s' = bd_cache s \<and> (\<forall>v. res = Inr v \<longrightarrow> sm_observed v = now \<and> sm_domain v = domain)"
proof (cases "board_aggregate (bs_svc B) (nat (ds_max_records (bs_settings B))) domain now (bd_repo s)")
  case (Inl e)
  with assms have "s' = s" "res = Inl e" by (simp_all add: build_summary_def)
  then show ?thesis by simp
next
  case (Inr a)
  note agg = Inr
  obtain R' r where sel: "board_selection (bs_svc B) (bs_selection B) domain now (bd_repo s) = (R', r)" by fastforce
  let ?s1 = "s\<lparr>bd_repo := R'\<rparr>"
  obtain s2 h2 where l2: "look_at B Collector_Role clock now ?s1 = (s2, h2)" by fastforce
  obtain s3 h3 where l3: "look_at B Checker_Role clock now s2 = (s3, h3)" by fastforce
  have cache: "bd_cache s3 = bd_cache s" using look_at_cache [OF l2] look_at_cache [OF l3] by simp
  show ?thesis
  proof (cases r)
    case (Inl e)
    with assms agg sel have "s' = ?s1" "res = Inl e" by (simp_all add: build_summary_def)
    then show ?thesis by simp
  next
    case (Inr t)
    obtain i n m where t: "t = (i, n, m)" by (cases t)
    show ?thesis
    proof (cases "read_history (bs_history B) (scope_of domain) H24 now (bd_histories ?s1)")
      case (Inl e)
      with assms agg sel \<open>r = Inr t\<close> t have "s' = ?s1" "res = Inl e" by (simp_all add: build_summary_def Let_def)
      then show ?thesis by simp
    next
      case (Inr points)
      note hist = Inr
      show ?thesis
      proof (cases "bs_ping B")
        case (Inl e)
        with assms agg sel \<open>r = Inr t\<close> t hist have "s' = ?s1" "res = Inl e" by (simp_all add: build_summary_def Let_def)
        then show ?thesis by simp
      next
        case (Inr pong)
        have "s' = s3 \<and> (\<forall>v. res = Inr v \<longrightarrow> sm_observed v = hp_observed (da_point a) \<and> sm_domain v = domain)"
          using assms agg sel \<open>r = Inr t\<close> t hist Inr l2 l3
          by (auto simp: build_summary_def Let_def simp del: max_def split: if_splits)
        with cache aggregate_observed [OF agg] show ?thesis by simp
      qed
    qed
  qed
qed

text \<open>Requests of any kind in the order of their times, and anything else that happens to the data.\<close>

inductive_set dashboard_reachable ::
  "('zp, 'hp, 'o, 's, 'pp, 'z, 'h, 'p, 'c) board_service \<Rightarrow> (time \<times> ('zp, 'hp, 'o, 's, 'z, 'h, 'c) board) set" for B where
  start: "bd_cache s = (\<lambda>_. None) \<Longrightarrow> (T, s) \<in> dashboard_reachable B"
| others: "(T, s) \<in> dashboard_reachable B \<Longrightarrow> T \<le> now \<Longrightarrow> bd_cache s' = bd_cache s \<Longrightarrow> (now, s') \<in> dashboard_reachable B"
| ask_summary: "(T, s) \<in> dashboard_reachable B \<Longrightarrow> T \<le> now \<Longrightarrow>
    (now, fst (board_summary B domain now now s)) \<in> dashboard_reachable B"
| ask_quality: "(T, s) \<in> dashboard_reachable B \<Longrightarrow> T \<le> now \<Longrightarrow>
    (now, fst (board_quality B d now now s)) \<in> dashboard_reachable B"
| ask_sources: "(T, s) \<in> dashboard_reachable B \<Longrightarrow> T \<le> now \<Longrightarrow>
    (now, fst (board_sources B d n now now s)) \<in> dashboard_reachable B"

context board_codec
begin

text \<open>One rule for the three kinds of answers: it has to hold of what is stored and of what is built.\<close>

lemma cached_answer:
  assumes "cache_ok T s" and "T \<le> now" and "cache_or_build parse dump now key ttl build s = (s', res)"
    and hit: "\<And>raw e v. cache_entry_ok now key (raw, e) \<Longrightarrow> now < e \<Longrightarrow> parse raw = Some v \<Longrightarrow> P v"
    and cache: "\<And>s1 r. build s = (s1, r) \<Longrightarrow> bd_cache s1 = bd_cache s"
    and built: "\<And>s1 v. build s = (s1, Inr v) \<Longrightarrow> cache_entry_ok now key (dump v, now + of_int ttl) \<and> P v"
  shows "cache_ok now s' \<and> (\<forall>v. res = Inr v \<longrightarrow> P v)"
proof -
  have ok: "cache_ok now s" using cache_later [OF assms(1,2) refl] .
  from cached_cases [OF assms(3)] consider
    (hit) raw e v where "bd_cache s key = Some (raw, e)" "now < e" "parse raw = Some v" "s' = s" "res = Inr v"
    | (failed) x where "build s = (s', Inl x)" "res = Inl x"
    | (built) s1 v where "build s = (s1, Inr v)" "s' = s1\<lparr>bd_cache := (bd_cache s1)(key \<mapsto> (dump v, now + of_int ttl))\<rparr>" "res = Inr v"
    by blast
  then show ?thesis
  proof cases
    case hit
    with ok have "cache_entry_ok now key (raw, e)" by (simp add: cache_ok_def)
    from assms(4) [OF this hit(2,3)] hit ok show ?thesis by simp
  next
    case failed
    with cache [OF failed(1)] cache_later [OF ok order_refl] show ?thesis by simp
  next
    case built
    from built_ok [OF cache_later [OF ok order_refl cache [OF built(1)]]] assms(6) [OF built(1)] built(2,3) show ?thesis by simp
  qed
qed

lemma summary_answer:
  assumes "cache_ok T s" and "T \<le> now" and "board_summary B domain now now s = (s', res)"
  shows "cache_ok now s' \<and> (\<forall>v. res = Inr v \<longrightarrow>
    now - 10 < sm_observed v \<and> sm_observed v \<le> now \<and> scope_of (sm_domain v) = scope_of domain)"
proof (rule cached_answer [OF assms(1,2) assms(3) [unfolded board_summary_def, folded summary_key_def]])
  fix raw e v assume "cache_entry_ok now (summary_key (scope_of domain)) (raw, e)" "now < e" "bs_parse_summary B raw = Some v"
  then show "now - 10 < sm_observed v \<and> sm_observed v \<le> now \<and> scope_of (sm_domain v) = scope_of domain"
    by cases (simp_all add: summary_codec)
next
  fix s1 v assume "build_summary B domain now now s = (s1, Inr v)"
  from build_summary_facts [OF this] summary_entry [of v now]
  show "cache_entry_ok now (summary_key (scope_of domain)) (bs_dump_summary B v, now + of_int 10) \<and>
      now - 10 < sm_observed v \<and> sm_observed v \<le> now \<and> scope_of (sm_domain v) = scope_of domain" by simp
qed (use build_summary_facts in blast)

lemma quality_answer:
  assumes "cache_ok T s" and "T \<le> now" and "board_quality B d now now s = (s', res)"
  shows "cache_ok now s' \<and> (\<forall>v. res = Inr v \<longrightarrow> now - 30 < qs_observed v \<and> qs_observed v \<le> now \<and> qs_domain v = d)"
proof (rule cached_answer [OF assms(1,2) assms(3) [unfolded board_quality_def, folded quality_key_def]])
  fix raw e v assume "cache_entry_ok now (quality_key d) (raw, e)" "now < e" and p: "bs_parse_quality B raw = Some v"
  then show "now - 30 < qs_observed v \<and> qs_observed v \<le> now \<and> qs_domain v = d"
  proof cases
    case (quality_entry w)
    with quality_codec [of w] p \<open>now < e\<close> show ?thesis by auto
  qed simp_all
next
  fix s1 v assume "(case board_aggregate (bs_svc B) (nat (ds_max_records (bs_settings B))) (Some d) now (bd_repo s) of Inl e \<Rightarrow> (s, Inl e)
      | Inr a \<Rightarrow> let p = da_point a in (s, Inr \<lparr>qs_domain = d, qs_observed = hp_observed p, qs_candidate = hp_candidate p,
           qs_available = hp_available p, qs_degraded = hp_degraded p, qs_quarantined = hp_quarantined p,
           qs_buckets = hp_buckets p, qs_latency = hp_latency p, qs_scanned = da_scanned a, qs_partial = da_partial a\<rparr>)) = (s1, Inr v)"
  then have v: "qs_observed v = now" "qs_domain v = d" using aggregate_observed by (auto simp: Let_def split: sum.splits)
  with quality_entry [of v now] show "cache_entry_ok now (quality_key d) (bs_dump_quality B v, now + of_int 30) \<and>
      now - 30 < qs_observed v \<and> qs_observed v \<le> now \<and> qs_domain v = d" by simp
qed (auto simp: Let_def split: sum.splits)

lemma sources_answer:
  assumes "cache_ok T s" and "T \<le> now" and "board_sources B d n now now s = (s', res)"
  shows "cache_ok now s' \<and> (\<forall>v. res = Inr v \<longrightarrow>
    now - 30 < ss_observed v \<and> ss_observed v \<le> now \<and> ss_domain v = d \<and> int (length (ss_items v)) \<le> n)"
proof (cases "1 \<le> n \<and> n \<le> 100")
  case False
  with assms(3) have "s' = s" "res = Inl (ValueError ''source limit must be within 1..100'')" by (auto simp: board_sources_def split: if_splits)
  with cache_later [OF assms(1,2) refl] show ?thesis by simp
next
  case True
  then have "board_sources B d n now now s = cache_or_build (bs_parse_sources B) (bs_dump_sources B) now (sources_key d n) 30
      (\<lambda>s. case board_aggregate (bs_svc B) (nat (ds_max_records (bs_settings B))) (Some d) now (bd_repo s) of
         Inl e \<Rightarrow> (s, Inl e)
       | Inr a \<Rightarrow> (s, Inr \<lparr>ss_domain = d, ss_observed = hp_observed (da_point a), ss_items = take (nat n) (da_sources a),
                           ss_scanned = da_scanned a, ss_partial = da_partial a\<rparr>)) s"
    by (simp add: board_sources_def sources_key_def)
  from cached_answer [OF assms(1,2) assms(3) [unfolded this]] show ?thesis
  proof (rule)
    fix raw e v assume "cache_entry_ok now (sources_key d n) (raw, e)" "now < e" "bs_parse_sources B raw = Some v"
    then show "now - 30 < ss_observed v \<and> ss_observed v \<le> now \<and> ss_domain v = d \<and> int (length (ss_items v)) \<le> n"
      by cases (simp_all add: sources_codec)
  next
    fix s1 v assume "(case board_aggregate (bs_svc B) (nat (ds_max_records (bs_settings B))) (Some d) now (bd_repo s) of
         Inl e \<Rightarrow> (s, Inl e)
       | Inr a \<Rightarrow> (s, Inr \<lparr>ss_domain = d, ss_observed = hp_observed (da_point a), ss_items = take (nat n) (da_sources a),
                           ss_scanned = da_scanned a, ss_partial = da_partial a\<rparr>)) = (s1, Inr v)"
    then have v: "ss_observed v = now" "ss_domain v = d" "int (length (ss_items v)) \<le> n"
      using aggregate_observed True by (auto split: sum.splits)
    with sources_entry [of v now n] show "cache_entry_ok now (sources_key d n) (bs_dump_sources B v, now + of_int 30) \<and>
        now - 30 < ss_observed v \<and> ss_observed v \<le> now \<and> ss_domain v = d \<and> int (length (ss_items v)) \<le> n" by simp
  qed (auto split: sum.splits)
qed

lemma reachable_cache: "(T, s) \<in> dashboard_reachable B \<Longrightarrow> cache_ok T s"
proof (induction rule: dashboard_reachable.induct)
  case (start s T)
  then show ?case by (simp add: cache_ok_def)
next
  case (others T s now s')
  then show ?case using cache_later by auto
next
  case (ask_summary T s now domain)
  then show ?case using summary_answer [of T s now domain] by (cases "board_summary B domain now now s") auto
next
  case (ask_quality T s now d)
  then show ?case using quality_answer [of T s now d] by (cases "board_quality B d now now s") auto
next
  case (ask_sources T s now d n)
  then show ?case using sources_answer [of T s now d n] by (cases "board_sources B d n now now s") auto
qed

end



section \<open>Answers from a readable pool\<close>

context pool_svc
begin

lemma gather_scans_total:
  assumes "1 \<le> n" and "n \<le> 100000"
  shows "\<forall>d \<in> set ds. d \<noteq> [] \<and> stored_ok E (pools R d) \<Longrightarrow> valid_scan g \<Longrightarrow>
    \<exists>g'. gather_scans E n R ds g = Inr g' \<and> valid_scan g'"
proof (induction ds arbitrary: g)
  case (Cons d ds)
  then have "d \<noteq> []" "stored_ok E (pools R d)" by simp_all
  from scan_records_valid [OF this, of "int n"] assms obtain scan
    where scan: "scan_records E R d (int n) 500 = Inr scan" "valid_scan scan" by auto
  let ?g = "\<lparr>scan_items = scan_items g @ take (n - length (scan_items g)) (scan_items scan),
      scanned = scanned g + length (take (n - length (scan_items g)) (scan_items scan)),
      partial = (partial g \<or> partial scan \<or> n - length (scan_items g) < scanned scan \<or> n - length (scan_items g) = 0)\<rparr>"
  have "valid_scan ?g" using scan(2) Cons.prems(2) by (auto simp: valid_scan_def dest: in_set_takeD)
  from Cons.IH [OF _ this] Cons.prems(1) scan(1) show ?case by (simp add: Let_def)
qed simp

lemma board_aggregate_total:
  assumes "readable E R" and "case domain of None \<Rightarrow> True | Some d \<Rightarrow> d \<in> set (list_domains E R)" and "1 \<le> n" and "n \<le> 100000"
  shows "\<exists>a st. board_aggregate E n domain now R = Inr a \<and> valid_aggregate a \<and> stats E R domain = Inr st \<and>
    hp_total (da_point a) = st_total st \<and> hp_candidate (da_point a) = st_candidate st \<and>
    hp_available (da_point a) = st_available st \<and> hp_degraded (da_point a) = st_degraded st \<and>
    hp_quarantined (da_point a) = st_quarantined st \<and> hp_due (da_point a) = st_due st \<and> hp_leased (da_point a) = st_leased st"
proof -
  from assms(2) have "domain = None \<or> the domain \<in> set (list_domains E R)" by (cases domain) simp_all
  from stats_total [OF assms(1) this] obtain st where st: "stats E R domain = Inr st" ..
  have "\<exists>g. valid_scan g \<and> board_aggregate E n domain now R = aggregate_records (scan_items g) st now (scanned g) (partial g)"
  proof (cases domain)
    case None
    let ?g = "\<lparr>scan_items = [], scanned = 0, partial = False\<rparr>"
    from gather_scans_total [OF assms(3,4), of "list_domains E R" R ?g] assms(1) obtain g
      where "gather_scans E n R (list_domains E R) ?g = Inr g" "valid_scan g" by (auto simp: readable_def valid_scan_def)
    with None st show ?thesis by (intro exI [of _ g]) (simp add: board_aggregate_def)
  next
    case (Some d)
    with assms(1,2) have d: "d \<noteq> []" "stored_ok E (pools R d)" by (auto simp: readable_def)
    from scan_records_valid [OF d, of "int n"] assms(3,4) obtain g
      where "scan_records E R d (int n) 500 = Inr g" "valid_scan g" by auto
    with Some st assms(2) show ?thesis by (intro exI [of _ g]) (simp add: board_aggregate_def require_known_domain_def)
  qed
  then obtain g where g: "valid_scan g" "board_aggregate E n domain now R = aggregate_records (scan_items g) st now (scanned g) (partial g)" by blast
  from aggregate_records_total [OF _ st, of "scan_items g" now "scanned g" "partial g"] g(1) obtain a
    where a: "aggregate_records (scan_items g) st now (scanned g) (partial g) = Inr a" "valid_aggregate a" unfolding valid_scan_def by blast
  with g(2) st show ?thesis
    by (intro exI [of _ a] exI [of _ st]) (auto simp: aggregate_records_def Let_def split: if_splits)
qed

end

lemma selection_totals_total:
  "\<forall>d \<in> set ds. d \<noteq> [] \<Longrightarrow> \<exists>R' t. selection_totals E c now ds acc R = (R', Inr t)"
proof (induction ds arbitrary: acc R)
  case (Cons d ds)
  obtain i n m where acc: "acc = (i, n, m)" by (cases acc)
  from Cons.prems have "d \<noteq> []" and rest: "\<forall>d \<in> set ds. d \<noteq> []" by simp_all
  then have "selection_counts E d (se_min_score c) (se_max_latency c) (se_max_age c) (se_min_successes c) now R = Inl LatencyIndexNotReady \<or>
      (\<exists>x. selection_counts E d (se_min_score c) (se_max_latency c) (se_max_age c) (se_min_successes c) now R = Inr x)"
    by (simp add: selection_counts_def latency_index_ready_def pool_for_def Let_def)
  then show ?case
  proof
    assume "selection_counts E d (se_min_score c) (se_max_latency c) (se_max_age c) (se_min_successes c) now R = Inl LatencyIndexNotReady"
    with Cons.IH [OF rest] acc show ?thesis by simp
  next
    assume "\<exists>x. selection_counts E d (se_min_score c) (se_max_latency c) (se_max_age c) (se_min_successes c) now R = Inr x"
    then obtain x where x: "selection_counts E d (se_min_score c) (se_max_latency c) (se_max_age c) (se_min_successes c) now R = Inr x" ..
    obtain R1 i1 k n1 where x1: "x = (R1, i1, k, n1)" by (cases x)
    from Cons.IH [OF rest, of "(i + i1, n + n1, m)" R1] x acc x1 show ?thesis by simp
  qed
qed auto

definition summary_matches :: "string option \<Rightarrow> time \<Rightarrow> pool_stats \<Rightarrow> dashboard_summary \<Rightarrow> bool" where
  "summary_matches domain now st v \<longleftrightarrow>
     sm_domain v = domain \<and> sm_observed v = now \<and> sm_total v = st_total st \<and> sm_candidate v = st_candidate st \<and>
     sm_available v = st_available st \<and> sm_degraded v = st_degraded st \<and> sm_quarantined v = st_quarantined st \<and>
     sm_due v = st_due st \<and> sm_leased v = st_leased st"

definition known_scope :: "('zp, 'hp, 'o, 's, 'pp) svc \<Rightarrow> ('zp, 'hp, 'o, 's) repo \<Rightarrow> string option \<Rightarrow> bool" where
  "known_scope E R domain \<longleftrightarrow> (case domain of None \<Rightarrow> True | Some d \<Rightarrow> d \<in> set (list_domains E R))"

lemma build_summary_total:
  assumes "pool_svc (bs_svc B)" and "history_store (bs_history B)" and "readable (bs_svc B) (bd_repo s)"
    and "\<forall>d res. history_ok (bs_history B) res (bd_histories s d res)" and "bs_ping B = Inr pong"
    and "10 \<le> ds_refresh (bs_settings B)" and "ds_refresh (bs_settings B) \<le> 300"
    and "1 \<le> ds_max_records (bs_settings B)" and "ds_max_records (bs_settings B) \<le> 100000"
    and "case domain of None \<Rightarrow> True | Some d \<Rightarrow> d \<in> set (list_domains (bs_svc B) (bd_repo s))"
  shows "\<exists>s' v st. build_summary B domain clock now s = (s', Inr v) \<and> stats (bs_svc B) (bd_repo s) domain = Inr st \<and> summary_matches domain now st v"
proof -
  let ?E = "bs_svc B" and ?R = "bd_repo s" and ?n = "nat (ds_max_records (bs_settings B))"
  have n: "1 \<le> ?n" "?n \<le> 100000" using assms(8,9) by simp_all
  from pool_svc.board_aggregate_total [OF assms(1,3,10) n, of now] obtain a st where
    a: "board_aggregate ?E ?n domain now ?R = Inr a" "valid_aggregate a" "stats ?E ?R domain = Inr st"
    and counts: "hp_total (da_point a) = st_total st" "hp_candidate (da_point a) = st_candidate st"
    "hp_available (da_point a) = st_available st" "hp_degraded (da_point a) = st_degraded st"
    "hp_quarantined (da_point a) = st_quarantined st" "hp_due (da_point a) = st_due st" "hp_leased (da_point a) = st_leased st"
    by blast
  have "\<forall>d \<in> set (case domain of None \<Rightarrow> list_domains ?E ?R | Some d \<Rightarrow> [d]). d \<noteq> []"
    using assms(3,10) by (auto simp: readable_def split: option.splits)
  from selection_totals_total [OF this, of ?E "bs_selection B" now "(0, 0, False)" ?R] obtain R' i k m where
    sel: "board_selection ?E (bs_selection B) domain now ?R = (R', Inr (i, k, m))" unfolding board_selection_def by auto
  have "history_ok (bs_history B) (rp_resolution (range_policy_of H24)) (bd_histories s (scope_of domain) (rp_resolution (range_policy_of H24)))"
    using assms(4) by blast
  from history_store.read_window [OF assms(2) this, of now] obtain points where
    hist: "read_history (bs_history B) (scope_of domain) H24 now (bd_histories s) = Inr points" unfolding read_history_def by blast
  obtain s2 h2 where l2: "look_at B Collector_Role clock now (s\<lparr>bd_repo := R'\<rparr>) = (s2, h2)" by (cases "look_at B Collector_Role clock now (s\<lparr>bd_repo := R'\<rparr>)")
  obtain s3 h3 where l3: "look_at B Checker_Role clock now s2 = (s3, h3)" by (cases "look_at B Checker_Role clock now s2")
  have rates: "unit_rate (hp_rate (da_point a))" "unit_rate (hp_share (da_point a))"
    using a(2) by (simp_all add: valid_aggregate_def valid_point_def)
  have "\<exists>v. build_summary B domain clock now s = (s3, Inr v) \<and> summary_matches domain now st v"
    using a(1) sel hist assms(5-7) l2 l3 rates counts aggregate_observed [OF a(1)]
    by (simp add: build_summary_def Let_def valid_dashboard_summary_def summary_matches_def)
  with a(3) show ?thesis by blast
qed

text \<open>
  C35: On a pool whose records can be read, with Redis answering, the summary route does not fail: a
  known domain or the whole pool is answered with the repository's statistics of that scope, and
  a domain that is not known with 404, unless an answer for the scope is cached.
\<close>

theorem summary_route_answers:
  assumes "pool_svc (bs_svc B)" and "history_store (bs_history B)" and "readable (bs_svc B) (bd_repo s)"
    and "\<forall>d res. history_ok (bs_history B) res (bd_histories s d res)" and "bs_ping B = Inr pong"
    and "10 \<le> ds_refresh (bs_settings B)" and "ds_refresh (bs_settings B) \<le> 300"
    and "1 \<le> ds_max_records (bs_settings B)" and "ds_max_records (bs_settings B) \<le> 100000"
    and "bd_cache s (cache_key (bs_sha B) (bs_prefix B) ''summary'' (scope_of domain) []) = None"
  shows "if known_scope (bs_svc B) (bd_repo s) domain
    then \<exists>s' v st. summary_route B domain clock now s = (s', Inr v) \<and> stats (bs_svc B) (bd_repo s) domain = Inr st \<and> summary_matches domain now st v
    else summary_route B domain clock now s = (s, Inl (HTTPException 404 ''domain not found''))"
proof (cases "known_scope (bs_svc B) (bd_repo s) domain")
  case False
  then obtain d where "domain = Some d" "d \<notin> set (list_domains (bs_svc B) (bd_repo s))" by (cases domain) (simp_all add: known_scope_def)
  then have "build_summary B domain clock now s = (s, Inl (LookupError d))"
    by (simp add: build_summary_def board_aggregate_def require_known_domain_def)
  with False assms(10) show ?thesis
    by (simp add: summary_route_def routed_def dashboard_error_def board_summary_def cache_or_build_def)
next
  case True
  from build_summary_total [OF assms(1-9) True [unfolded known_scope_def], of clock now] obtain s' v st where
    "build_summary B domain clock now s = (s', Inr v)" "stats (bs_svc B) (bd_repo s) domain = Inr st" "summary_matches domain now st v" by blast
  with True assms(10) show ?thesis by (simp add: summary_route_def routed_def board_summary_def cache_or_build_def)
qed

text \<open>A service for the witnesses: the cached texts are the values themselves.\<close>

datatype w_text = W_Summary dashboard_summary | W_Quality quality_summary | W_Sources source_summary

definition w_board ::
  "(ref_zset, (member \<times> proxy_record) list, (member \<times> string) list, member list, proxy_record,
    ref_zset, (member \<times> history_point) list, history_point, w_text) board_service" where
  "w_board =
     \<lparr>bs_svc = ref_svc, bs_history = w_history, bs_settings = w_dashboard,
      bs_selection = \<lparr>se_min_score = 80, se_max_latency = 500, se_max_age = 600, se_min_successes = 1\<rparr>,
      bs_prefix = ''p'', bs_heartbeat = w_heartbeat, bs_sha = id, bs_ping = Inr True,
      bs_dump_summary = W_Summary, bs_parse_summary = (\<lambda>t. case t of W_Summary v \<Rightarrow> Some v | _ \<Rightarrow> None),
      bs_dump_quality = W_Quality, bs_parse_quality = (\<lambda>t. case t of W_Quality v \<Rightarrow> Some v | _ \<Rightarrow> None),
      bs_dump_sources = W_Sources, bs_parse_sources = (\<lambda>t. case t of W_Sources v \<Rightarrow> Some v | _ \<Rightarrow> None)\<rparr>"

interpretation ref_board: board_codec w_board
proof
  show "\<exists>l. bs_parse_quality w_board (bs_dump_quality w_board w) = Some (w\<lparr>qs_latency := l\<rparr>)" for w
    by (rule exI [of _ "qs_latency w"]) (simp add: w_board_def)
qed (simp_all add: w_board_def)

definition w_page ::
  "(ref_zset, (member \<times> proxy_record) list, (member \<times> string) list, member list,
    ref_zset, (member \<times> history_point) list, w_text) board" where
  "w_page = \<lparr>bd_repo = ready_repo, bd_histories = (\<lambda>_ _. empty_history w_history),
     bd_beats = (\<lambda>_. \<lparr>hb_index = z_empty ref_zset_api, hb_keys = (\<lambda>_. None)\<rparr>), bd_cache = (\<lambda>_. None)\<rparr>"

lemma w_histories_ok: "\<forall>d res. history_ok (bs_history w_board) res (bd_histories w_page d res)"
  using ref_history.empty_history_ok(1) by (simp add: w_board_def w_page_def)

lemma w_services:
  "pool_svc (bs_svc w_board)" "history_store (bs_history w_board)" "readable (bs_svc w_board) (bd_repo w_page)"
  "bs_ping w_board = Inr True" "10 \<le> ds_refresh (bs_settings w_board)" "ds_refresh (bs_settings w_board) \<le> 300"
  "1 \<le> ds_max_records (bs_settings w_board)" "ds_max_records (bs_settings w_board) \<le> 100000"
  using ref_svc_pool w_history_store w_readable by (simp_all add: w_board_def w_page_def w_dashboard_def)

theorem summary_route_answers_witness:
  "(\<exists>s' v. summary_route w_board (Some ''d'') 5 5 w_page = (s', Inr v) \<and> sm_domain v = Some ''d'') \<and>
   summary_route w_board (Some ''x'') 5 5 w_page = (w_page, Inl (HTTPException 404 ''domain not found''))"
proof -
  have scopes: "known_scope (bs_svc w_board) (bd_repo w_page) (Some ''d'')" "\<not> known_scope (bs_svc w_board) (bd_repo w_page) (Some ''x'')"
    "bd_cache w_page k = None" for k
    using w_readable by (simp_all add: w_board_def w_page_def known_scope_def)
  note r = summary_route_answers [OF w_services(1-3) w_histories_ok w_services(4-8) scopes(3), where clock = 5 and now = 5]
  show ?thesis using r [of "Some ''d''"] r [of "Some ''x''"] scopes(1,2) by (auto simp: summary_matches_def)
qed

lemma asked_once: "(5, fst (board_summary w_board None 5 5 w_page)) \<in> dashboard_reachable w_board"
  by (rule dashboard_reachable.ask_summary [OF dashboard_reachable.start [of w_page 0]]) (simp_all add: w_page_def)

text \<open>
  The scope of the whole pool is not kept apart from a domain: while a summary of the pool is
  cached, an unknown domain \<open>__all__\<close> is answered with it instead of 404.
\<close>

lemma unknown_domain_answered:
  assumes "board_codec B" and "board_summary B None clock now s = (s', Inr v)" and "bd_cache s (cache_key (bs_sha B) (bs_prefix B) ''summary'' global_scope []) = None"
    and "clock \<le> clock'" and "clock' < clock + 10"
  shows "summary_route B (Some global_scope) clock' now' s' = (s', Inr v)"
proof -
  let ?key = "cache_key (bs_sha B) (bs_prefix B) ''summary'' global_scope []"
  have "cache_or_build (bs_parse_summary B) (bs_dump_summary B) clock ?key 10 (build_summary B None clock now) s = (s', Inr v)"
    using assms(2) by (simp add: board_summary_def scope_of_def)
  from board_codec.cached_cases [OF assms(1) this] assms(3) have "bd_cache s' ?key = Some (bs_dump_summary B v, clock + 10)" by auto
  with assms(5) board_codec.summary_codec [OF assms(1)] show ?thesis
    by (simp add: summary_route_def routed_def board_summary_def scope_of_def cache_or_build_def global_scope_def)
qed


end
