(* ===== verification/Migration.thy ===== *)
theory Migration
  imports PoolQuery Endpoints
begin

text \<open>
  The maintenance commands (migration.py, storage/legacy.py and the replacement scripts of
  storage/lua.py): the rebuild of a domain's latency and priority indexes from its records, and the
  import of an old proxy set.
\<close>

section \<open>Rebuilding the indexes\<close>

record rebuild_summary =
  rb_domain :: string
  rb_scanned :: nat
  rb_indexed :: nat
  rb_priority :: nat
  rb_ignored :: nat
  rb_dry_run :: bool

text \<open>The script \<open>REPLACE_LATENCY_INDEX\<close> on one index; a temporary key without members does not exist.\<close>

definition replace_index :: "'z zset_api \<Rightarrow> 'z \<Rightarrow> 'z" where
  "replace_index Z temporary = (if z_card Z temporary = 0 then z_empty Z else temporary)"

definition replace_latency_index ::
  "('z, 'h, 'o, 's, 'p) svc \<Rightarrow> 'z \<Rightarrow> string \<Rightarrow> ('z, 'h, 'o) pool \<Rightarrow> ('z, 'h, 'o) pool \<times> nat" where
  "replace_latency_index E temporary version p =
     (let p' = p\<lparr>available_latency := replace_index (zs E) temporary, available_latency_ready := Some version\<rparr>
      in (p', z_card (zs E) (available_latency p')))"

definition replace_selection_indexes ::
  "('z, 'h, 'o, 's, 'p) svc \<Rightarrow> 'z \<Rightarrow> 'z \<Rightarrow> string \<Rightarrow> string \<Rightarrow> ('z, 'h, 'o) pool \<Rightarrow> ('z, 'h, 'o) pool \<times> nat \<times> nat" where
  "replace_selection_indexes E temporary priority version priority_version p =
     (let p' = p\<lparr>available_latency := replace_index (zs E) temporary, available_latency_ready := Some version,
                priority_due := replace_index (zs E) priority, priority_due_ready := Some priority_version\<rparr>
      in (p', z_card (zs E) (available_latency p'), z_card (zs E) (priority_due p')))"

text \<open>A reply of \<open>HSCAN\<close> is a dictionary: each of its fields once.\<close>

definition reply_dict :: "(member \<times> 'v) list \<Rightarrow> (member \<times> 'v) list" where
  "reply_dict page = map (\<lambda>k. (k, the (map_of page k))) (remdups (map fst page))"

text \<open>What one reply makes eligible, and how many of its records are ignored.\<close>

fun eligible_of ::
  "('z, 'h, 'o, 's, 'p) svc \<Rightarrow> rat \<Rightarrow> (member \<times> 'p) list \<Rightarrow> (member \<times> rat) list \<times> (member \<times> rat) list \<times> nat" where
  "eligible_of E x [] = ([], [], 0)"
| "eligible_of E x ((m, raw) # items) =
     (case eligible_of E x items of (elig, priority, ignored) \<Rightarrow>
        (case decode_record E raw of
           None \<Rightarrow> (elig, priority, ignored + 1)
         | Some r \<Rightarrow>
             (case latency_index_score r of
                None \<Rightarrow> (elig, priority, ignored + 1)
              | Some latency \<Rightarrow>
                  ((m, latency) # elig,
                   (case priority_due_score r x of None \<Rightarrow> priority | Some t \<Rightarrow> (m, t) # priority), ignored))))"

definition add_all :: "'z zset_api \<Rightarrow> (member \<times> rat) list \<Rightarrow> 'z \<Rightarrow> 'z" where
  "add_all Z xs z = fold (\<lambda>(m, s) z. z_add Z z m s) xs z"

text \<open>The loop over the replies, with the counts so far and the two temporary sets.\<close>

fun rebuild_pages ::
  "('z, 'h, 'o, 's, 'p) svc \<Rightarrow> rat \<Rightarrow> bool \<Rightarrow> (member \<times> 'p) list list \<Rightarrow> rebuild_summary \<times> 'z \<times> 'z
     \<Rightarrow> rebuild_summary \<times> 'z \<times> 'z" where
  "rebuild_pages E x dry [] acc = acc"
| "rebuild_pages E x dry (page # pages) (sm, z, zp) =
     (case eligible_of E x (reply_dict page) of (elig, priority, ignored) \<Rightarrow>
        rebuild_pages E x dry pages
          (sm\<lparr>rb_scanned := rb_scanned sm + length (reply_dict page), rb_indexed := rb_indexed sm + length elig,
              rb_priority := rb_priority sm + length priority, rb_ignored := rb_ignored sm + ignored\<rparr>,
           if dry then z else add_all (zs E) elig z,
           if dry then zp else add_all (zs E) priority zp))"

definition index_schema_version :: string where
  "index_schema_version = ''1''"

definition rebuild ::
  "('z, 'h, 'o, 's, 'p) svc \<Rightarrow> string \<Rightarrow> rat \<Rightarrow> string \<Rightarrow> bool \<Rightarrow> ('z, 'h, 'o, 's) repo
     \<Rightarrow> ('z, 'h, 'o, 's) repo \<times> rebuild_summary result" where
  "rebuild E prefix x d dry R =
     (if prefix = [] then (R, Inl (ValueError ''prefix must be non-empty''))
      else if d = [] then (R, Inl (ValueError ''domain must be non-empty''))
      else
        (case rebuild_pages E x dry (h_scan (rh E) (records (pools R d)) 500)
                (\<lparr>rb_domain = d, rb_scanned = 0, rb_indexed = 0, rb_priority = 0, rb_ignored = 0, rb_dry_run = dry\<rparr>,
                 z_empty (zs E), z_empty (zs E)) of
           (sm, z, zp) \<Rightarrow>
             if dry then (R, Inr sm)
             else
               (case replace_selection_indexes E z zp index_schema_version index_schema_version (pools R d) of
                  (p', written, priority_written) \<Rightarrow>
                    let R' = on_pool d (\<lambda>_. p') R
                    in if written \<noteq> rb_indexed sm then (R', Inl (RuntimeError ''latency index rebuild count mismatch''))
                       else if priority_written \<noteq> rb_priority sm
                       then (R', Inl (RuntimeError ''priority due index rebuild count mismatch''))
                       else (R', Inr sm))))"

section \<open>What a rebuild leaves\<close>

lemma reply_dict_mem: "(k, v) \<in> set (reply_dict page) \<longleftrightarrow> map_of page k = Some v"
proof -
  have "k \<in> fst ` set page \<longleftrightarrow> (\<exists>v. map_of page k = Some v)" by (metis map_of_eq_None_iff not_None_eq)
  then show ?thesis by (auto simp: reply_dict_def image_iff)
qed

lemma reply_dict_distinct: "distinct (map fst (reply_dict page))"
  by (simp add: reply_dict_def comp_def)

lemma eligible_mem:
  assumes "eligible_of E x items = (el, pr, ig)"
  shows "(m, s) \<in> set el \<longleftrightarrow> (\<exists>raw r. (m, raw) \<in> set items \<and> decode_record E raw = Some r \<and> latency_index_score r = Some s)"
    and "(m, t) \<in> set pr \<longleftrightarrow> (\<exists>raw r. (m, raw) \<in> set items \<and> decode_record E raw = Some r \<and> priority_due_score r x = Some t)"
    and "length items = length el + ig"
    and "distinct (map fst items) \<Longrightarrow> distinct (map fst el) \<and> distinct (map fst pr)"
proof -
  have "((m, s) \<in> set el \<longleftrightarrow> (\<exists>raw r. (m, raw) \<in> set items \<and> decode_record E raw = Some r \<and> latency_index_score r = Some s)) \<and>
    ((m, t) \<in> set pr \<longleftrightarrow> (\<exists>raw r. (m, raw) \<in> set items \<and> decode_record E raw = Some r \<and> priority_due_score r x = Some t)) \<and>
    length items = length el + ig \<and> set (map fst el) \<subseteq> set (map fst items) \<and> set (map fst pr) \<subseteq> set (map fst items) \<and>
    (distinct (map fst items) \<longrightarrow> distinct (map fst el) \<and> distinct (map fst pr))"
    using assms
  proof (induction items arbitrary: el pr ig)
    case (Cons item items)
    obtain k raw where item: "item = (k, raw)" by (cases item)
    obtain el0 pr0 ig0 where rest: "eligible_of E x items = (el0, pr0, ig0)" by (cases "eligible_of E x items")
    note ih = Cons.IH [OF rest]
    have none: "latency_index_score r = None \<Longrightarrow> priority_due_score r x = None" for r
      by (simp add: priority_due_score_def)
    show ?case
    proof (cases "\<exists>r. decode_record E raw = Some r \<and> latency_index_score r \<noteq> None")
      case False
      then have "el = el0 \<and> pr = pr0 \<and> ig = ig0 + 1"
        using Cons.prems rest item by (cases "decode_record E raw") (auto split: option.splits)
      with ih item False none show ?thesis by auto
    next
      case True
      then obtain r l where r: "decode_record E raw = Some r" "latency_index_score r = Some l" by auto
      then have "el = (k, l) # el0 \<and> pr = (case priority_due_score r x of None \<Rightarrow> pr0 | Some t \<Rightarrow> (k, t) # pr0) \<and> ig = ig0"
        using Cons.prems rest item by auto
      with ih item r show ?thesis by (cases "priority_due_score r x") auto
    qed
  qed simp
  then show "(m, s) \<in> set el \<longleftrightarrow> (\<exists>raw r. (m, raw) \<in> set items \<and> decode_record E raw = Some r \<and> latency_index_score r = Some s)"
    "(m, t) \<in> set pr \<longleftrightarrow> (\<exists>raw r. (m, raw) \<in> set items \<and> decode_record E raw = Some r \<and> priority_due_score r x = Some t)"
    "length items = length el + ig" "distinct (map fst items) \<Longrightarrow> distinct (map fst el) \<and> distinct (map fst pr)" by blast+
qed

definition elig_all :: "('z, 'h, 'o, 's, 'p) svc \<Rightarrow> rat \<Rightarrow> (member \<times> 'p) list list \<Rightarrow> (member \<times> rat) list" where
  "elig_all E x pages = concat (map (\<lambda>page. fst (eligible_of E x (reply_dict page))) pages)"

definition prio_all :: "('z, 'h, 'o, 's, 'p) svc \<Rightarrow> rat \<Rightarrow> (member \<times> 'p) list list \<Rightarrow> (member \<times> rat) list" where
  "prio_all E x pages = concat (map (\<lambda>page. fst (snd (eligible_of E x (reply_dict page)))) pages)"

lemma add_all_append: "add_all Z (xs @ ys) z = add_all Z ys (add_all Z xs z)"
  by (simp add: add_all_def)

lemma rebuild_pages_result:
  assumes "rebuild_pages E x dry pages (sm, z, zp) = (sm', z', zp')"
  shows "rb_indexed sm' = rb_indexed sm + length (elig_all E x pages)"
    and "rb_priority sm' = rb_priority sm + length (prio_all E x pages)"
    and "rb_scanned sm' = rb_scanned sm + length (concat (map reply_dict pages))"
    and "rb_scanned sm' + rb_indexed sm + rb_ignored sm = rb_scanned sm + rb_indexed sm' + rb_ignored sm'"
    and "\<not> dry \<Longrightarrow> z' = add_all (zs E) (elig_all E x pages) z \<and> zp' = add_all (zs E) (prio_all E x pages) zp"
proof -
  have "rb_indexed sm' = rb_indexed sm + length (elig_all E x pages) \<and>
    rb_priority sm' = rb_priority sm + length (prio_all E x pages) \<and>
    rb_scanned sm' = rb_scanned sm + length (concat (map reply_dict pages)) \<and>
    rb_scanned sm' + rb_indexed sm + rb_ignored sm = rb_scanned sm + rb_indexed sm' + rb_ignored sm' \<and>
    (\<not> dry \<longrightarrow> z' = add_all (zs E) (elig_all E x pages) z \<and> zp' = add_all (zs E) (prio_all E x pages) zp)"
    using assms
  proof (induction pages arbitrary: sm z zp)
    case Nil
    then show ?case by (auto simp: elig_all_def prio_all_def add_all_def)
  next
    case (Cons page pages)
    obtain el pr ig where e: "eligible_of E x (reply_dict page) = (el, pr, ig)" by (cases "eligible_of E x (reply_dict page)")
    let ?sm = "sm\<lparr>rb_scanned := rb_scanned sm + length (reply_dict page), rb_indexed := rb_indexed sm + length el,
              rb_priority := rb_priority sm + length pr, rb_ignored := rb_ignored sm + ig\<rparr>"
    let ?z = "if dry then z else add_all (zs E) el z" and ?zp = "if dry then zp else add_all (zs E) pr zp"
    from Cons.prems e have "rebuild_pages E x dry pages (?sm, ?z, ?zp) = (sm', z', zp')" by simp
    note ih = Cons.IH [OF this]
    have parts: "elig_all E x (page # pages) = el @ elig_all E x pages" "prio_all E x (page # pages) = pr @ prio_all E x pages"
      by (simp_all add: elig_all_def prio_all_def e)
    from ih eligible_mem(3) [OF e] show ?case unfolding parts by (auto simp: add_all_append)
  qed
  then show "rb_indexed sm' = rb_indexed sm + length (elig_all E x pages)"
    "rb_priority sm' = rb_priority sm + length (prio_all E x pages)"
    "rb_scanned sm' = rb_scanned sm + length (concat (map reply_dict pages))"
    "rb_scanned sm' + rb_indexed sm + rb_ignored sm = rb_scanned sm + rb_indexed sm' + rb_ignored sm'"
    "\<not> dry \<Longrightarrow> z' = add_all (zs E) (elig_all E x pages) z \<and> zp' = add_all (zs E) (prio_all E x pages) zp" by blast+
qed

context zset
begin

lemma add_all_score:
  "\<forall>(m, s) \<in> set xs. f m = Some s \<Longrightarrow> z_score Z (add_all Z xs z) m = (if m \<in> fst ` set xs then f m else z_score Z z m)"
proof (induction xs arbitrary: z)
  case (Cons p xs)
  obtain k s where p: "p = (k, s)" by (cases p)
  from Cons.prems have "f k = Some s" "\<forall>(m, s) \<in> set xs. f m = Some s" by (auto simp: p)
  with Cons.IH [of "z_add Z z k s"] show ?case by (auto simp: add_all_def p)
qed (simp add: add_all_def)

lemma replace_index_score: "z_score Z (replace_index Z z) m = z_score Z z m"
proof (cases "z_card Z z = 0")
  case True
  then have "z_range Z z = []" by (simp add: card_range)
  then have "z_score Z z m = None" using range_score [of m _ z] by (cases "z_score Z z m") auto
  with True show ?thesis by (simp add: replace_index_def)
qed (simp add: replace_index_def)

lemma add_all_card: "distinct (map fst xs) \<Longrightarrow> z_card Z (add_all Z xs (z_empty Z)) = length xs"
proof -
  assume d: "distinct (map fst xs)"
  have "\<forall>(m, s) \<in> set xs. map_of xs m = Some s" using d by auto
  from add_all_score [OF this, of "z_empty Z"] have sc: "z_score Z (add_all Z xs (z_empty Z)) m = map_of xs m" for m
    by (simp add: map_of_eq_None_iff [symmetric] eq_commute [of None])
  have "{m. z_score Z (add_all Z xs (z_empty Z)) m \<noteq> None} = fst ` set xs"
    unfolding sc using map_of_eq_None_iff [of xs] by auto
  then show ?thesis using d distinct_card [of "map fst xs"] by (simp add: card_score)
qed

lemma card_cong: "(\<And>m. z_score Z z m = z_score Z z' m) \<Longrightarrow> z_card Z z = z_card Z z'"
  by (simp add: card_score)

end

lemma elig_sub:
  "set (map fst (fst (eligible_of E x (reply_dict page)))) \<subseteq> set (map fst page) \<and>
   set (map fst (fst (snd (eligible_of E x (reply_dict page))))) \<subseteq> set (map fst page) \<and>
   distinct (map fst (fst (eligible_of E x (reply_dict page)))) \<and> distinct (map fst (fst (snd (eligible_of E x (reply_dict page)))))"
proof -
  obtain el pr ig where e: "eligible_of E x (reply_dict page) = (el, pr, ig)" by (cases "eligible_of E x (reply_dict page)")
  have "(m, raw) \<in> set (reply_dict page) \<Longrightarrow> m \<in> fst ` set page" for m raw
    unfolding reply_dict_mem by (force dest: map_of_SomeD)
  then show ?thesis using eligible_mem(1,2) [OF e] eligible_mem(4) [OF e reply_dict_distinct] by (fastforce simp: e)
qed

lemma distinct_parts:
  "distinct (map fst (concat pages)) \<Longrightarrow> distinct (map fst (elig_all E x pages)) \<and> distinct (map fst (prio_all E x pages)) \<and>
     set (map fst (elig_all E x pages)) \<subseteq> set (map fst (concat pages)) \<and> set (map fst (prio_all E x pages)) \<subseteq> set (map fst (concat pages))"
proof (induction pages)
  case (Cons page pages)
  have cons: "elig_all E x (page # pages) = fst (eligible_of E x (reply_dict page)) @ elig_all E x pages"
    "prio_all E x (page # pages) = fst (snd (eligible_of E x (reply_dict page))) @ prio_all E x pages"
    by (simp_all add: elig_all_def prio_all_def)
  from Cons.prems have d: "distinct (map fst (concat pages))" "set (map fst page) \<inter> set (map fst (concat pages)) = {}" by simp_all
  have "distinct (a @ b) \<and> set (a @ b) \<subseteq> P \<union> Q" if "distinct a" "distinct b" "set a \<subseteq> P" "set b \<subseteq> Q" "P \<inter> Q = {}"
    for a b :: "member list" and P Q using that by auto
  note app = this [OF _ _ _ _ d(2)]
  note sub = elig_sub [of E x page] and ih = Cons.IH [OF d(1)]
  from sub ih have l: "distinct (map fst (elig_all E x (page # pages))) \<and>
      set (map fst (elig_all E x (page # pages))) \<subseteq> set (map fst page) \<union> set (map fst (concat pages))"
    unfolding cons map_append by (intro app) blast+
  from sub ih have p: "distinct (map fst (prio_all E x (page # pages))) \<and>
      set (map fst (prio_all E x (page # pages))) \<subseteq> set (map fst page) \<union> set (map fst (concat pages))"
    unfolding cons map_append by (intro app) blast+
  have all: "set (map fst (concat (page # pages))) = set (map fst page) \<union> set (map fst (concat pages))" by (simp add: image_Un)
  show ?case unfolding all using l p by blast
qed (simp add: elig_all_def prio_all_def)

lemma dict_of_page: "\<forall>(k, v) \<in> set page. f k = Some v \<Longrightarrow> map_of page k = Some v \<longleftrightarrow> (k, v) \<in> set page"
proof
  assume f: "\<forall>(k, v) \<in> set page. f k = Some v" and kv: "(k, v) \<in> set page"
  then obtain w where w: "map_of page k = Some w" by (metis map_of_eq_None_iff not_None_eq fst_conv image_eqI)
  then have "(k, w) \<in> set page" by (rule map_of_SomeD)
  then have "f k = Some w" using f by blast
  moreover have "f k = Some v" using f kv by blast
  ultimately show "map_of page k = Some v" using w by simp
qed (rule map_of_SomeD)

context pool_svc
begin

lemma scanned_records:
  assumes "\<forall>page \<in> set pages. \<forall>(m, raw) \<in> set page. h_get (rh E) (records p) m = Some raw"
  shows "(m, s) \<in> set (elig_all E x pages) \<longleftrightarrow> m \<in> fst ` set (concat pages) \<and> Option.bind (record_at E p m) latency_index_score = Some s"
    and "(m, t) \<in> set (prio_all E x pages) \<longleftrightarrow>
      m \<in> fst ` set (concat pages) \<and> Option.bind (record_at E p m) (\<lambda>r. priority_due_score r x) = Some t"
proof -
  have page: "(k, raw) \<in> set (reply_dict page) \<longleftrightarrow> (k, raw) \<in> set page" if "page \<in> set pages" for page k raw
    using dict_of_page [of page "h_get (rh E) (records p)"] assms that by (simp add: reply_dict_mem)
  have rec: "(\<exists>page raw r. page \<in> set pages \<and> (m, raw) \<in> set page \<and> decode_record E raw = Some r \<and> g r = Some v) \<longleftrightarrow>
      m \<in> fst ` set (concat pages) \<and> Option.bind (record_at E p m) g = Some v" for g :: "proxy_record \<Rightarrow> rat option" and v
  proof
    assume "\<exists>page raw r. page \<in> set pages \<and> (m, raw) \<in> set page \<and> decode_record E raw = Some r \<and> g r = Some v"
    then obtain page raw r where "page \<in> set pages" "(m, raw) \<in> set page" "decode_record E raw = Some r" "g r = Some v" by blast
    moreover from this assms have "h_get (rh E) (records p) m = Some raw" by blast
    moreover from calculation(1,2) have "(m, raw) \<in> set (concat pages)" by auto
    ultimately show "m \<in> fst ` set (concat pages) \<and> Option.bind (record_at E p m) g = Some v"
      by (intro conjI image_eqI [of _ fst "(m, raw)"]) (simp_all add: record_at_def)
  next
    assume r: "m \<in> fst ` set (concat pages) \<and> Option.bind (record_at E p m) g = Some v"
    then obtain page raw where pr: "page \<in> set pages" "(m, raw) \<in> set page" by auto
    with assms have "h_get (rh E) (records p) m = Some raw" by blast
    with r pr show "\<exists>page raw r. page \<in> set pages \<and> (m, raw) \<in> set page \<and> decode_record E raw = Some r \<and> g r = Some v"
      by (auto simp: record_at_def bind_eq_Some_conv)
  qed
  have el: "(m, s) \<in> set (fst (eligible_of E x (reply_dict page))) \<longleftrightarrow>
      (\<exists>raw r. (m, raw) \<in> set page \<and> decode_record E raw = Some r \<and> latency_index_score r = Some s)" if "page \<in> set pages" for page
    using page [OF that] by (cases "eligible_of E x (reply_dict page)") (simp add: eligible_mem(1))
  have pr: "(m, t) \<in> set (fst (snd (eligible_of E x (reply_dict page)))) \<longleftrightarrow>
      (\<exists>raw r. (m, raw) \<in> set page \<and> decode_record E raw = Some r \<and> priority_due_score r x = Some t)" if "page \<in> set pages" for page
    using page [OF that] by (cases "eligible_of E x (reply_dict page)") (simp add: eligible_mem(2))
  show "(m, s) \<in> set (elig_all E x pages) \<longleftrightarrow> m \<in> fst ` set (concat pages) \<and> Option.bind (record_at E p m) latency_index_score = Some s"
    unfolding rec [symmetric] elig_all_def using el by auto
  show "(m, t) \<in> set (prio_all E x pages) \<longleftrightarrow>
      m \<in> fst ` set (concat pages) \<and> Option.bind (record_at E p m) (\<lambda>r. priority_due_score r x) = Some t"
    unfolding rec [symmetric] prio_all_def using pr by auto
qed

end

context pool_svc
begin

text \<open>Whatever the indexes held, after the replacement they are those of the records.\<close>

lemma rebuilt_indexes:
  assumes "rebuild E prefix x d False R = (R', res)" and "prefix \<noteq> []" and "d \<noteq> []"
  shows "records (pools R' d) = records (pools R d) \<and> leased (pools R' d) = leased (pools R d) \<and>
    lease_owners (pools R' d) = lease_owners (pools R d)"
    and "latency_at E (pools R' d) m = Option.bind (record_at E (pools R d) m) latency_index_score"
    and "priority_at E (pools R' d) m = Option.bind (record_at E (pools R d) m) (\<lambda>r. priority_due_score r x)"
    and "available_latency_ready (pools R' d) = Some ''1'' \<and> priority_due_ready (pools R' d) = Some ''1''"
    and "distinct (map fst (concat (h_scan (rh E) (records (pools R d)) 500))) \<Longrightarrow>
      \<exists>s. res = Inr s \<and> rb_indexed s = z_card (zs E) (available_latency (pools R' d)) \<and>
        rb_priority s = z_card (zs E) (priority_due (pools R' d)) \<and> rb_scanned s = rb_indexed s + rb_ignored s"
proof -
  let ?p = "pools R d" and ?pages = "h_scan (rh E) (records (pools R d)) 500"
  let ?zero = "\<lparr>rb_domain = d, rb_scanned = 0, rb_indexed = 0, rb_priority = 0, rb_ignored = 0, rb_dry_run = False\<rparr>"
  let ?z = "add_all (zs E) (elig_all E x ?pages) (z_empty (zs E))" and ?zp = "add_all (zs E) (prio_all E x ?pages) (z_empty (zs E))"
  obtain sm z zp where pages: "rebuild_pages E x False ?pages (?zero, z_empty (zs E), z_empty (zs E)) = (sm, z, zp)"
    by (cases "rebuild_pages E x False ?pages (?zero, z_empty (zs E), z_empty (zs E))")
  note counts = rebuild_pages_result [OF pages]
  have zz: "z = ?z" "zp = ?zp" using counts(5) by simp_all
  define p' where "p' = ?p\<lparr>available_latency := replace_index (zs E) ?z, available_latency_ready := Some ''1'',
      priority_due := replace_index (zs E) ?zp, priority_due_ready := Some ''1''\<rparr>"
  have run: "pools R' d = p'" and res: "z_card (zs E) (available_latency p') = rb_indexed sm \<Longrightarrow>
      z_card (zs E) (priority_due p') = rb_priority sm \<Longrightarrow> res = Inr sm"
    using assms pages zz by (auto simp: rebuild_def replace_selection_indexes_def index_schema_version_def p'_def on_pool_def Let_def split: if_splits)
  show "records (pools R' d) = records ?p \<and> leased (pools R' d) = leased ?p \<and> lease_owners (pools R' d) = lease_owners ?p"
    "available_latency_ready (pools R' d) = Some ''1'' \<and> priority_due_ready (pools R' d) = Some ''1''"
    by (simp_all add: run p'_def)
  have stored: "(m, raw) \<in> set (concat ?pages) \<longleftrightarrow> h_get (rh E) (records ?p) m = Some raw" for m raw by (rule r.scan_get)
  then have each: "\<forall>page \<in> set ?pages. \<forall>(m, raw) \<in> set page. h_get (rh E) (records ?p) m = Some raw" by auto
  note elig = scanned_records(1) [OF each, of _ _ x] and prio = scanned_records(2) [OF each, of _ _ x]
  have scanned: "m \<in> fst ` set (concat ?pages)" if "Option.bind (record_at E ?p m) g = Some v" for m v and g :: "proxy_record \<Rightarrow> rat option"
  proof -
    from that obtain raw where "h_get (rh E) (records ?p) m = Some raw" by (auto simp: record_at_def bind_eq_Some_conv)
    then have "(m, raw) \<in> set (concat ?pages)" using stored by blast
    then show ?thesis by (rule image_eqI [rotated]) simp
  qed
  have score: "z_score (zs E) (replace_index (zs E) (add_all (zs E) xs (z_empty (zs E)))) m = Option.bind (record_at E ?p m) g"
    if "\<And>m v. (m, v) \<in> set xs \<longleftrightarrow> m \<in> fst ` set (concat ?pages) \<and> Option.bind (record_at E ?p m) g = Some v"
    for m xs and g :: "proxy_record \<Rightarrow> rat option"
  proof -
    have f: "\<forall>(m, v) \<in> set xs. Option.bind (record_at E ?p m) g = Some v" using that by blast
    have "Option.bind (record_at E ?p m) g = None" if "m \<notin> fst ` set xs"
    proof (cases "Option.bind (record_at E ?p m) g")
      case (Some v)
      with scanned have "(m, v) \<in> set xs" unfolding \<open>\<And>m v. (m, v) \<in> set xs \<longleftrightarrow> _\<close> by blast
      with that show ?thesis by force
    qed
    then show ?thesis unfolding z.replace_index_score z.add_all_score [OF f] by simp
  qed
  show "latency_at E (pools R' d) m = Option.bind (record_at E ?p m) latency_index_score"
    using score [OF elig] by (simp add: run p'_def)
  show "priority_at E (pools R' d) m = Option.bind (record_at E ?p m) (\<lambda>r. priority_due_score r x)"
    using score [OF prio] by (simp add: run p'_def)
  show "\<exists>s. res = Inr s \<and> rb_indexed s = z_card (zs E) (available_latency (pools R' d)) \<and>
        rb_priority s = z_card (zs E) (priority_due (pools R' d)) \<and> rb_scanned s = rb_indexed s + rb_ignored s"
    if "distinct (map fst (concat ?pages))"
  proof -
    have d: "distinct (map fst (elig_all E x ?pages))" "distinct (map fst (prio_all E x ?pages))"
      using distinct_parts [OF that, of E x] by simp_all
    have "z_card (zs E) (available_latency p') = rb_indexed sm" "z_card (zs E) (priority_due p') = rb_priority sm"
      using counts(1,2) z.add_all_card [OF d(1)] z.add_all_card [OF d(2)] z.card_cong [OF z.replace_index_score]
      by (simp_all add: p'_def)
    with res counts(4) show ?thesis by (simp add: run)
  qed
qed

end

text \<open>
  C36: A rebuild repairs a domain's indexes from its records, whatever the indexes held: afterwards the
  latency index is exactly the latency of the available records, the priority index exactly the
  due times of those fast enough, both are marked ready, and the pool satisfies the invariant of
  its runs; on a pool that satisfied it already the latency index does not change. When the scan
  lists each record once, the command succeeds and reports the sizes of the new indexes.
\<close>

theorem rebuild_restores_indexes:
  assumes "pool_svc E" and "stored_ok E (pools R d)" and "leases_agree E (pools R d)" and "prefix \<noteq> []" and "d \<noteq> []"
    and "rebuild E prefix x d False R = (R', res)"
  shows "pool_inv E x (pools R' d) \<and> latency_index_ready R' d = Inr True \<and> priority_due_index_ready R' d = Inr True \<and>
    (\<forall>m. priority_at E (pools R' d) m = Option.bind (record_at E (pools R d) m) (\<lambda>r. priority_due_score r x)) \<and>
    (pool_inv E x (pools R d) \<longrightarrow> (\<forall>m. latency_at E (pools R' d) m = latency_at E (pools R d) m)) \<and>
    (distinct (map fst (concat (h_scan (rh E) (records (pools R d)) 500))) \<longrightarrow>
       (\<exists>s. res = Inr s \<and> rb_indexed s = z_card (zs E) (available_latency (pools R' d)) \<and>
          rb_priority s = z_card (zs E) (priority_due (pools R' d)) \<and> rb_scanned s = rb_indexed s + rb_ignored s))"
proof -
  note rebuilt = pool_svc.rebuilt_indexes [OF assms(1,6,4,5)]
  have rec: "record_at E (pools R' d) m = record_at E (pools R d) m" for m using rebuilt(1) by (simp add: record_at_def)
  have "stored_ok E (pools R' d)" "leases_agree E (pools R' d)"
    using assms(2,3) rebuilt(1) by (simp_all add: stored_ok_def leases_agree_def)
  moreover have "latency_exact E (pools R' d)" using rebuilt(2) rec by (simp add: latency_exact_def)
  moreover have "priority_agrees E x (pools R' d)" using rebuilt(3) rec by (simp add: priority_agrees_def)
  ultimately have "pool_inv E x (pools R' d)" by (simp add: pool_inv_def)
  moreover have "latency_at E (pools R' d) m = latency_at E (pools R d) m" if "pool_inv E x (pools R d)" for m
    using that rebuilt(2) by (simp add: pool_inv_def latency_exact_def)
  ultimately show ?thesis using rebuilt(3,4,5) assms(5) by (simp add: latency_index_ready_def priority_due_index_ready_def pool_for_def)
qed

theorem rebuild_restores_indexes_witness:
  "\<exists>R' s. rebuild ref_svc ''p'' 1000 ''d'' False ready_repo = (R', Inr s) \<and> pool_inv ref_svc 1000 (pools R' ''d'')"
proof -
  obtain R' res where run: "rebuild ref_svc ''p'' 1000 ''d'' False ready_repo = (R', res)" by (cases "rebuild ref_svc ''p'' 1000 ''d'' False ready_repo")
  have "stored_ok ref_svc (pools ready_repo ''d'')" "leases_agree ref_svc (pools ready_repo ''d'')"
    using ready_inv by (simp_all add: ready_repo_def pool_inv_def)
  note r = rebuild_restores_indexes [OF ref_svc_pool this _ _ run]
  have "distinct (map fst (concat (h_scan (rh ref_svc) (records (pools ready_repo ''d'')) 500)))"
    by (simp add: ref_svc_def ref_hash_api_def comp_def)
  with r run show ?thesis by auto
qed

text \<open>A dry run changes nothing.\<close>

lemma rebuild_dry: "fst (rebuild E prefix x d True R) = R"
  by (simp add: rebuild_def split: prod.splits)

text \<open>
  A full iteration of \<open>HSCAN\<close> may return a record in two replies; then the counts differ and the
  command fails, although the indexes it has put in place are right.
\<close>

lemma repeated_record_fails:
  assumes "latency_index_score r = Some l" and "decode_record ref_svc r = Some r"
  shows "snd (rebuild (ref_svc\<lparr>rh := ref_hash_api\<lparr>h_scan := (\<lambda>h c. [h, h])\<rparr>\<rparr>) ''p'' x ''d'' False
      \<lparr>domains = [''d''], pools = (\<lambda>_. (empty_pool ref_svc)\<lparr>records := [(''m'', r)]\<rparr>)\<rparr>)
    = Inl (RuntimeError ''latency index rebuild count mismatch'')"
  using assms
  by (simp add: rebuild_def reply_dict_def replace_selection_indexes_def replace_index_def add_all_def Let_def
      ref_svc_def ref_zset_eval split: option.splits)

section \<open>Importing an old proxy set\<close>

record import_summary =
  im_scanned :: nat
  im_accepted :: nat
  im_invalid :: nat
  im_non_global :: nat
  im_written :: nat

text \<open>\<open>int(score)\<close> of a float, which truncates and does not take infinities or NaN.\<close>

definition py_trunc :: "pyfloat \<Rightarrow> int result" where
  "py_trunc v =
     (case v of
        Finite q \<Rightarrow> Inr (if 0 \<le> q then \<lfloor>q\<rfloor> else \<lceil>q\<rceil>)
      | NaN \<Rightarrow> Inl (ValueError ''cannot convert float NaN to integer'')
      | _ \<Rightarrow> Inl (OverflowError ''cannot convert float infinity to integer''))"

definition legacy_record :: "string \<Rightarrow> string \<Rightarrow> time \<Rightarrow> proxy_endpoint \<Rightarrow> pyfloat \<Rightarrow> proxy_record result" where
  "legacy_record key d now ep raw_score =
     (case py_trunc raw_score of
        Inl e \<Rightarrow> Inl e
      | Inr n \<Rightarrow>
          let r = \<lparr>endpoint = ep, rec_domain = d, score = max 0 (min 70 n), state = Candidate,
                   source_names = {''legacy:'' @ key}, first_seen_at = now, last_seen_at = now, last_checked_at = None,
                   next_check_at = now, consecutive_successes = 0, consecutive_failures = 0, success_count = 0,
                   failure_count = 0, latency_ewma_ms = None, last_status_code = None, last_error_type = None,
                   last_error_message = None\<rparr>
          in if valid_record r then Inr r else Inl (ValueError ''ProxyRecord''))"

text \<open>
  \<open>_write_batch\<close> starts all upserts of a batch at once. Each reads and then writes; \<open>early r\<close> says
  that the read for \<open>r\<close> came before the writes of the batch.
\<close>

fun write_batch ::
  "('z, 'h, 'o, 's, 'p) svc \<Rightarrow> rat \<Rightarrow> (proxy_record \<Rightarrow> bool) \<Rightarrow> ('z, 'h, 'o, 's) repo \<Rightarrow> proxy_record list
     \<Rightarrow> ('z, 'h, 'o, 's) repo \<Rightarrow> ('z, 'h, 'o, 's) repo result" where
  "write_batch E x early R0 [] R = Inr R"
| "write_batch E x early R0 (r # rs) R =
     (case get_record E (if early r then R0 else R) (rec_domain r) (canonical (endpoint r)) of
        Inl e \<Rightarrow> Inl e
      | Inr existing \<Rightarrow>
          write_batch E x early R0 rs
            (on_pool (rec_domain r) (upsert_write E x existing r) (R\<lparr>domains := s_add (ss E) (domains R) (rec_domain r)\<rparr>)))"

record ('z, 'h, 'o, 's) importing =
  ig_summary :: import_summary
  ig_batch :: "proxy_record list"
  ig_repo :: "('z, 'h, 'o, 's) repo"

definition flush_batch ::
  "('z, 'h, 'o, 's, 'p) svc \<Rightarrow> rat \<Rightarrow> (proxy_record \<Rightarrow> bool) \<Rightarrow> ('z, 'h, 'o, 's) importing \<Rightarrow> ('z, 'h, 'o, 's) importing result" where
  "flush_batch E x early g =
     (case write_batch E x early (ig_repo g) (ig_batch g) (ig_repo g) of
        Inl e \<Rightarrow> Inl e
      | Inr R \<Rightarrow> Inr (g\<lparr>ig_repo := R, ig_batch := [],
                       ig_summary := (ig_summary g)\<lparr>im_written := im_written (ig_summary g) + length (ig_batch g)\<rparr>\<rparr>))"

text \<open>The parts of the command that come from outside: the address parser and \<open>is_global\<close>.\<close>

record legacy_tools =
  lt_parse :: "string \<Rightarrow> proxy_endpoint option"
  lt_is_global :: "string \<Rightarrow> bool"

definition import_item ::
  "('z, 'h, 'o, 's, 'p) svc \<Rightarrow> rat \<Rightarrow> (proxy_record \<Rightarrow> bool) \<Rightarrow> legacy_tools \<Rightarrow> string \<Rightarrow> string \<Rightarrow> bool \<Rightarrow> time
     \<Rightarrow> string \<times> pyfloat \<Rightarrow> ('z, 'h, 'o, 's) importing \<Rightarrow> ('z, 'h, 'o, 's) importing result" where
  "import_item E x early L key d dry now item g0 =
     (let g = g0\<lparr>ig_summary := (ig_summary g0)\<lparr>im_scanned := im_scanned (ig_summary g0) + 1\<rparr>\<rparr>; sm = ig_summary g
      in case lt_parse L (fst item) of
           None \<Rightarrow> Inr (g\<lparr>ig_summary := sm\<lparr>im_invalid := im_invalid sm + 1\<rparr>\<rparr>)
         | Some ep \<Rightarrow>
             (case validate_proxy_endpoint (lt_is_global L) False [] ep of
                Inl _ \<Rightarrow> Inr (g\<lparr>ig_summary := sm\<lparr>im_non_global := im_non_global sm + 1\<rparr>\<rparr>)
              | Inr _ \<Rightarrow>
                  (case legacy_record key d now ep (snd item) of
                     Inl e \<Rightarrow> Inl e
                   | Inr r \<Rightarrow>
                       let g1 = g\<lparr>ig_summary := sm\<lparr>im_accepted := im_accepted sm + 1\<rparr>\<rparr>
                       in (case (if dry then Inr (Some r) else get_record E (ig_repo g1) d (canonical ep)) of
                             Inl e \<Rightarrow> Inl e
                           | Inr known \<Rightarrow>
                               let g2 = (if known = None then g1\<lparr>ig_batch := ig_batch g1 @ [r]\<rparr> else g1)
                               in if length (ig_batch g2) = 500 then flush_batch E x early g2 else Inr g2))))"

fun import_items ::
  "('z, 'h, 'o, 's, 'p) svc \<Rightarrow> rat \<Rightarrow> (proxy_record \<Rightarrow> bool) \<Rightarrow> legacy_tools \<Rightarrow> string \<Rightarrow> string \<Rightarrow> bool \<Rightarrow> time
     \<Rightarrow> (string \<times> pyfloat) list \<Rightarrow> ('z, 'h, 'o, 's) importing \<Rightarrow> ('z, 'h, 'o, 's) importing result" where
  "import_items E x early L key d dry now [] g = Inr g"
| "import_items E x early L key d dry now (item # items) g =
     (case import_item E x early L key d dry now item g of
        Inl e \<Rightarrow> Inl e
      | Inr g' \<Rightarrow> import_items E x early L key d dry now items g')"

text \<open>\<open>import_key\<close>: the replies of the iteration one after the other, then the rest of the batch.\<close>

definition import_key ::
  "('z, 'h, 'o, 's, 'p) svc \<Rightarrow> rat \<Rightarrow> (proxy_record \<Rightarrow> bool) \<Rightarrow> legacy_tools \<Rightarrow> string \<Rightarrow> string \<Rightarrow> bool \<Rightarrow> time
     \<Rightarrow> (string \<times> pyfloat) list list \<Rightarrow> ('z, 'h, 'o, 's) repo \<Rightarrow> (('z, 'h, 'o, 's) repo \<times> import_summary) result" where
  "import_key E x early L key d dry now replies R =
     (if key = [] \<or> d = [] then Inl (ValueError ''redis_key and domain must be non-empty'')
      else
        (case import_items E x early L key d dry now (concat replies)
                \<lparr>ig_summary = \<lparr>im_scanned = 0, im_accepted = 0, im_invalid = 0, im_non_global = 0, im_written = 0\<rparr>,
                 ig_batch = [], ig_repo = R\<rparr> of
           Inl e \<Rightarrow> Inl e
         | Inr g \<Rightarrow>
             (case (if ig_batch g = [] then Inr g else flush_batch E x early g) of
                Inl e \<Rightarrow> Inl e
              | Inr g' \<Rightarrow> Inr (ig_repo g', ig_summary g'))))"

text \<open>\<open>iter_legacy_records\<close> of storage/legacy.py: the records of the valid members, without any write.\<close>

fun iter_legacy_records ::
  "legacy_tools \<Rightarrow> string \<Rightarrow> string \<Rightarrow> time \<Rightarrow> (string \<times> pyfloat) list \<Rightarrow> proxy_record list result" where
  "iter_legacy_records L key d now [] = Inr []"
| "iter_legacy_records L key d now (item # items) =
     (case lt_parse L (fst item) of
        None \<Rightarrow> iter_legacy_records L key d now items
      | Some ep \<Rightarrow>
          (case validate_proxy_endpoint (lt_is_global L) False [] ep of
             Inl _ \<Rightarrow> iter_legacy_records L key d now items
           | Inr _ \<Rightarrow>
               (case legacy_record key d now ep (snd item) of
                  Inl e \<Rightarrow> Inl e
                | Inr r \<Rightarrow>
                    (case iter_legacy_records L key d now items of Inl e \<Rightarrow> Inl e | Inr rs \<Rightarrow> Inr (r # rs)))))"

section \<open>What an import does\<close>

definition has_record :: "('z, 'h, 'o, 's, 'p) svc \<Rightarrow> ('z, 'h, 'o) pool \<Rightarrow> member \<Rightarrow> bool" where
  "has_record E p m \<longleftrightarrow> h_get (rh E) (records p) m \<noteq> None"

text \<open>The items that are taken, with their endpoints.\<close>

definition imports_as :: "legacy_tools \<Rightarrow> string \<times> pyfloat \<Rightarrow> proxy_endpoint \<Rightarrow> bool" where
  "imports_as L item ep \<longleftrightarrow> lt_parse L (fst item) = Some ep \<and> (\<exists>e. validate_proxy_endpoint (lt_is_global L) False [] ep = Inr e)"

definition import_ok :: "('z, 'h, 'o, 's, 'p) svc \<Rightarrow> string \<Rightarrow> ('z, 'h, 'o, 's) importing \<Rightarrow> bool" where
  "import_ok E d g \<longleftrightarrow> d \<noteq> [] \<and> stored_ok E (pools (ig_repo g) d) \<and> (\<forall>r \<in> set (ig_batch g). storable r \<and> rec_domain r = d)"

definition covered :: "('z, 'h, 'o, 's, 'p) svc \<Rightarrow> string \<Rightarrow> ('z, 'h, 'o, 's) importing \<Rightarrow> member set" where
  "covered E d g = {m. has_record E (pools (ig_repo g) d) m} \<union> (\<lambda>r. canonical (endpoint r)) ` set (ig_batch g)"

definition tallied :: "import_summary \<Rightarrow> bool" where
  "tallied s \<longleftrightarrow> im_scanned s = im_accepted s + im_invalid s + im_non_global s"

lemma legacy_record_facts:
  "legacy_record key d now ep s = Inr r \<Longrightarrow>
     endpoint r = ep \<and> rec_domain r = d \<and> storable r \<and> 0 \<le> score r \<and> score r \<le> 70 \<and> state r = Candidate"
  by (auto simp: legacy_record_def storable_def Let_def split: sum.splits if_splits)

lemma legacy_record_any_time: "legacy_record key d now ep s = Inr r \<Longrightarrow> \<exists>r'. legacy_record key d now' ep s = Inr r'"
  by (auto simp: legacy_record_def valid_record_def Let_def split: sum.splits if_splits)

context pool_svc
begin

lemma upsert_write_has: "has_record E (upsert_write E x old r p) m \<longleftrightarrow> has_record E p m \<or> m = canonical (endpoint r)"
  by (cases old) (auto simp: has_record_def pool_writes)

lemma write_batch_has:
  "write_batch E x early R0 rs R = Inr R' \<Longrightarrow> stored_ok E (pools R0 d) \<and> stored_ok E (pools R d) \<and> d \<noteq> [] \<Longrightarrow>
     \<forall>r \<in> set rs. storable r \<and> rec_domain r = d \<Longrightarrow>
     stored_ok E (pools R' d) \<and>
     (\<forall>m. has_record E (pools R' d) m \<longleftrightarrow> has_record E (pools R d) m \<or> m \<in> (\<lambda>r. canonical (endpoint r)) ` set rs)"
proof (induction rs arbitrary: R)
  case (Cons r rs)
  let ?S = "if early r then R0 else R"
  from Cons.prems(1) obtain old where old: "get_record E ?S d (canonical (endpoint r)) = Inr old"
    and rest: "write_batch E x early R0 rs (on_pool d (upsert_write E x old r) (R\<lparr>domains := s_add (ss E) (domains R) d\<rparr>)) = Inr R'"
    using Cons.prems(3) by (auto split: sum.splits)
  let ?R = "on_pool d (upsert_write E x old r) (R\<lparr>domains := s_add (ss E) (domains R) d\<rparr>)"
  have p: "pools ?R d = upsert_write E x old r (pools R d)" by (simp add: on_pool_def)
  from old Cons.prems(2) have read: "get_record_pool E (pools ?S d) (canonical (endpoint r)) = Inr old"
    by (auto simp: get_record_def pool_for_def)
  have "stored_ok E (pools ?S d)" using Cons.prems(2) by simp
  from upsert_read [OF this read] have "readable_as old (canonical (endpoint r))" by blast
  then have "pool_step E x (pools R d) (Late_Write old r) (pools ?R d)"
    unfolding p using Cons.prems(3) by (intro pool_step.late_write) simp_all
  then have "stored_ok E (pools ?R d)" using stored_ok_step Cons.prems(2) by blast
  with Cons.IH [OF rest] Cons.prems(2,3) p upsert_write_has show ?case by auto
qed simp

lemma flush_batch_ok:
  assumes "flush_batch E x early g = Inr g'" and "import_ok E d g"
  shows "import_ok E d g' \<and> covered E d g' = covered E d g \<and> ig_batch g' = [] \<and> (tallied (ig_summary g) \<longrightarrow> tallied (ig_summary g'))"
proof -
  from assms(1) obtain R where R: "write_batch E x early (ig_repo g) (ig_batch g) (ig_repo g) = Inr R" "ig_repo g' = R" "ig_batch g' = []"
    "tallied (ig_summary g') = tallied (ig_summary g)"
    by (auto simp: flush_batch_def tallied_def split: sum.splits)
  from write_batch_has [OF R(1), of d] assms(2) R show ?thesis by (auto simp: import_ok_def covered_def)
qed

lemma import_item_ok:
  assumes "import_item E x early L key d False now item g = Inr g'" and "import_ok E d g"
  shows "import_ok E d g' \<and> covered E d g \<subseteq> covered E d g' \<and> (tallied (ig_summary g) \<longrightarrow> tallied (ig_summary g')) \<and>
    (\<forall>ep. imports_as L item ep \<longrightarrow> canonical ep \<in> covered E d g' \<and> (\<exists>r. legacy_record key d now ep (snd item) = Inr r))"
proof (cases "\<exists>ep. imports_as L item ep")
  case False
  with assms show ?thesis
    by (auto simp: import_item_def imports_as_def import_ok_def covered_def tallied_def Let_def split: option.splits sum.splits)
next
  case True
  then obtain ep e where ep: "lt_parse L (fst item) = Some ep" "validate_proxy_endpoint (lt_is_global L) False [] ep = Inr e"
    by (auto simp: imports_as_def)
  let ?sm = "ig_summary g"
  let ?g1 = "g\<lparr>ig_summary := ?sm\<lparr>im_scanned := im_scanned ?sm + 1, im_accepted := im_accepted ?sm + 1\<rparr>\<rparr>"
  from assms(1) ep obtain r known where r: "legacy_record key d now ep (snd item) = Inr r"
    and known: "get_record E (ig_repo g) d (canonical ep) = Inr known"
    by (auto simp: import_item_def Let_def split: sum.splits)
  let ?g2 = "if known = None then ?g1\<lparr>ig_batch := ig_batch g @ [r]\<rparr> else ?g1"
  from assms(1) ep r known have res: "(if length (ig_batch ?g2) = 500 then flush_batch E x early ?g2 else Inr ?g2) = Inr g'"
    by (cases known; auto simp: import_item_def Let_def split: if_splits)
  note rf = legacy_record_facts [OF r]
  have read: "get_record_pool E (pools (ig_repo g) d) (canonical ep) = Inr known"
    using known assms(2) by (simp add: get_record_def pool_for_def import_ok_def)
  have ok2: "import_ok E d ?g2" using assms(2) rf by (auto simp: import_ok_def)
  have cov: "covered E d g \<subseteq> covered E d ?g2" "canonical ep \<in> covered E d ?g2"
    using upsert_read [OF _ read] assms(2) rf by (auto simp: covered_def has_record_def import_ok_def)
  have tally: "tallied (ig_summary g) \<Longrightarrow> tallied (ig_summary ?g2)" by (simp add: tallied_def)
  have "import_ok E d g' \<and> covered E d g' = covered E d ?g2 \<and> (tallied (ig_summary ?g2) \<longrightarrow> tallied (ig_summary g'))"
  proof (cases "length (ig_batch ?g2) = 500")
    case True
    with res flush_batch_ok [OF _ ok2] show ?thesis by auto
  next
    case False
    with res have "g' = ?g2" by simp
    with ok2 show ?thesis by simp
  qed
  with cov tally r ep show ?thesis by (auto simp: imports_as_def)
qed

lemma import_items_ok:
  "import_items E x early L key d False now items g = Inr g' \<Longrightarrow> import_ok E d g \<Longrightarrow>
     import_ok E d g' \<and> covered E d g \<subseteq> covered E d g' \<and> (tallied (ig_summary g) \<longrightarrow> tallied (ig_summary g')) \<and>
     (\<forall>item \<in> set items. \<forall>ep. imports_as L item ep \<longrightarrow> canonical ep \<in> covered E d g' \<and> (\<exists>r. legacy_record key d now ep (snd item) = Inr r))"
proof (induction items arbitrary: g)
  case (Cons item items)
  from Cons.prems(1) obtain g1 where one: "import_item E x early L key d False now item g = Inr g1"
    and rest: "import_items E x early L key d False now items g1 = Inr g'" by (auto split: sum.splits)
  note first = import_item_ok [OF one Cons.prems(2)]
  from Cons.IH [OF rest] first show ?case by (auto 0 4)
qed simp

text \<open>The second time every accepted endpoint is found.\<close>

lemma import_items_again:
  "stored_ok E (pools R d) \<Longrightarrow> d \<noteq> [] \<Longrightarrow> ig_repo g = R \<Longrightarrow> ig_batch g = [] \<Longrightarrow>
     \<forall>item \<in> set items. \<forall>ep. imports_as L item ep \<longrightarrow> has_record E (pools R d) (canonical ep) \<and> (\<exists>r. legacy_record key d now ep (snd item) = Inr r) \<Longrightarrow>
     \<exists>g'. import_items E x early L key d False now items g = Inr g' \<and> ig_repo g' = R \<and> ig_batch g' = [] \<and>
       im_written (ig_summary g') = im_written (ig_summary g)"
proof (induction items arbitrary: g)
  case (Cons item items)
  have "\<exists>g1. import_item E x early L key d False now item g = Inr g1 \<and> ig_repo g1 = R \<and> ig_batch g1 = [] \<and>
      im_written (ig_summary g1) = im_written (ig_summary g)"
  proof (cases "\<exists>ep. imports_as L item ep")
    case False
    with Cons.prems(3,4) show ?thesis by (auto simp: import_item_def imports_as_def Let_def split: option.splits sum.splits)
  next
    case True
    then obtain ep where ep: "imports_as L item ep" ..
    with Cons.prems(5) obtain r where r: "legacy_record key d now ep (snd item) = Inr r" "has_record E (pools R d) (canonical ep)" by auto
    from r(2) obtain raw where raw: "h_get (rh E) (records (pools R d)) (canonical ep) = Some raw" by (auto simp: has_record_def)
    with Cons.prems(1) obtain old where "decode_record E raw = Some old" by (auto simp: stored_ok_def)
    with raw have "get_record E R d (canonical ep) = Inr (Some old)"
      using Cons.prems(2) by (simp add: get_record_def pool_for_def get_record_pool_def)
    with ep r(1) Cons.prems(3,4) show ?thesis by (auto simp: import_item_def imports_as_def Let_def)
  qed
  then obtain g1 where "import_item E x early L key d False now item g = Inr g1" "ig_repo g1 = R" "ig_batch g1 = []"
    "im_written (ig_summary g1) = im_written (ig_summary g)" by blast
  with Cons.IH [OF Cons.prems(1,2), of g1] Cons.prems(5) show ?case by simp
qed simp

end


definition w_endpoint :: proxy_endpoint where
  "w_endpoint = \<lparr>host = ''9.9.9.9'', host_version = 4, port = 80\<rparr>"

definition w_tools :: legacy_tools where
  "w_tools = \<lparr>lt_parse = (\<lambda>s. if s = ''a'' then Some w_endpoint else None), lt_is_global = (\<lambda>_. True)\<rparr>"

definition w_empty ::
  "(ref_zset, (member \<times> proxy_record) list, (member \<times> string) list, member list) repo" where
  "w_empty = \<lparr>domains = [], pools = (\<lambda>_. empty_pool ref_svc)\<rparr>"


end
