(* ===== verification/Settings.thy ===== *)
theory Settings
  imports Access Dashboard
begin

text \<open>
  The settings (config.py): the sections with the bounds of their fields, and the checks made when
  the API and the peer synchronisation start. The theorem connects the startup check of the keys
  with the authentication of requests.
\<close>

section \<open>The sections\<close>

record redis_settings =
  rd_url :: string
  rd_prefix :: string
  rd_connect_timeout :: rat
  rd_read_timeout :: rat

definition valid_redis :: "redis_settings \<Rightarrow> bool" where
  "valid_redis s \<longleftrightarrow> 1 \<le> length (rd_prefix s) \<and> length (rd_prefix s) \<le> 128 \<and>
     1 / 10 \<le> rd_connect_timeout s \<and> rd_connect_timeout s \<le> 30 \<and> 1 / 10 \<le> rd_read_timeout s \<and> rd_read_timeout s \<le> 60"

record api_settings =
  ap_port :: int
  ap_auth_enabled :: bool
  ap_keys :: "string list"
  ap_admin_keys :: "string list"
  ap_cursor_secret :: "string option"
  ap_max_page_size :: int
  ap_query_rate :: int
  ap_admin_rate :: int
  ap_rate_window :: int
  ap_admin_probe :: bool
  ap_legacy_routes :: bool

definition valid_api :: "api_settings \<Rightarrow> bool" where
  "valid_api s \<longleftrightarrow> 1 \<le> ap_port s \<and> ap_port s \<le> 65535 \<and> 1 \<le> ap_max_page_size s \<and> ap_max_page_size s \<le> 1000 \<and>
     1 \<le> ap_query_rate s \<and> ap_query_rate s \<le> 10000 \<and> 1 \<le> ap_admin_rate s \<and> ap_admin_rate s \<le> 1000 \<and>
     1 \<le> ap_rate_window s \<and> ap_rate_window s \<le> 3600"

record quota_settings =
  qt_enabled :: bool
  qt_keys :: "string list"

datatype reclaim_system = System_One | System_Two

record ownership_member =
  om_system :: reclaim_system
  om_key :: string

text \<open>\<open>members\<close> is a dictionary; the list has its items in order.\<close>

record ownership_settings =
  ow_enabled :: bool
  ow_members :: "(string \<times> ownership_member) list"
  ow_rate :: int

definition valid_ownership :: "ownership_settings \<Rightarrow> bool" where
  "valid_ownership s \<longleftrightarrow> distinct (map fst (ow_members s)) \<and> 1 \<le> ow_rate s \<and> ow_rate s \<le> 1000"

record peer_export_settings =
  px_enabled :: bool
  px_node :: string
  px_keys :: "string list"
  px_rate :: int

definition valid_peer_export :: "peer_export_settings \<Rightarrow> bool" where
  "valid_peer_export s \<longleftrightarrow> length (px_node s) \<le> 64 \<and> 1 \<le> px_rate s \<and> px_rate s \<le> 1000"

record peer_cache_settings =
  pe_enabled :: bool
  pe_peer :: string
  pe_origin :: string
  pe_base_url :: string
  pe_key :: "string option"
  pe_selection :: selection_settings
  pe_interval :: int
  pe_ttl :: int
  pe_cooldown :: int
  pe_max_items :: int

definition valid_peer_cache :: "peer_cache_settings \<Rightarrow> bool" where
  "valid_peer_cache s \<longleftrightarrow> length (pe_peer s) \<le> 64 \<and> length (pe_origin s) \<le> 64 \<and>
     0 \<le> se_min_score (pe_selection s) \<and> se_min_score (pe_selection s) \<le> 100 \<and>
     0 \<le> se_max_latency (pe_selection s) \<and> se_max_latency (pe_selection s) \<le> 60000 \<and>
     1 \<le> se_max_age (pe_selection s) \<and> se_max_age (pe_selection s) \<le> 86400 \<and>
     1 \<le> se_min_successes (pe_selection s) \<and> se_min_successes (pe_selection s) \<le> 20 \<and>
     10 \<le> pe_interval s \<and> pe_interval s \<le> 3600 \<and> 1 \<le> pe_ttl s \<and> pe_ttl s \<le> 3600 \<and>
     1 \<le> pe_cooldown s \<and> pe_cooldown s \<le> 86400 \<and> 1 \<le> pe_max_items s \<and> pe_max_items s \<le> 20"

record peer_alert_settings =
  pt_enabled :: bool
  pt_webhook :: "string option"

record collector_settings =
  cs_concurrency :: int
  cs_max_pages :: int
  cs_max_bytes :: int
  cs_max_round :: int
  cs_max_pool :: int
  cs_interval :: int
  cs_check_interval :: int
  cs_threshold :: int
  cs_min_score :: int
  cs_max_latency :: rat
  cs_max_new :: int

definition valid_collector :: "collector_settings \<Rightarrow> bool" where
  "valid_collector s \<longleftrightarrow>
     1 \<le> cs_concurrency s \<and> cs_concurrency s \<le> 200 \<and> 1 \<le> cs_max_pages s \<and> cs_max_pages s \<le> 100 \<and>
     1024 \<le> cs_max_bytes s \<and> cs_max_bytes s \<le> 10 * 1024 * 1024 \<and> 1 \<le> cs_max_round s \<and> cs_max_round s \<le> 100000 \<and>
     1 \<le> cs_max_pool s \<and> cs_max_pool s \<le> 1000000 \<and> 30 \<le> cs_interval s \<and> cs_interval s \<le> 86400 \<and>
     10 \<le> cs_check_interval s \<and> cs_check_interval s \<le> 3600 \<and> 0 \<le> cs_threshold s \<and> cs_threshold s \<le> 20 \<and>
     0 \<le> cs_min_score s \<and> cs_min_score s \<le> 100 \<and> 100 \<le> cs_max_latency s \<and> cs_max_latency s \<le> 60000 \<and>
     1 \<le> cs_max_new s \<and> cs_max_new s \<le> 10000"

record checker_settings =
  ks_concurrency :: int
  ks_batch :: int
  ks_lease :: int
  ks_timeout :: rat
  ks_failures :: int
  ks_cooldown :: int
  ks_drop_after :: int

definition valid_checker :: "checker_settings \<Rightarrow> bool" where
  "valid_checker s \<longleftrightarrow>
     1 \<le> ks_concurrency s \<and> ks_concurrency s \<le> 500 \<and> 1 \<le> ks_batch s \<and> ks_batch s \<le> 1000 \<and>
     5 \<le> ks_lease s \<and> ks_lease s \<le> 600 \<and> 1 / 2 \<le> ks_timeout s \<and> ks_timeout s \<le> 30 \<and>
     1 \<le> ks_failures s \<and> ks_failures s \<le> 20 \<and> 5 \<le> ks_cooldown s \<and> ks_cooldown s \<le> 3600 \<and>
     3 \<le> ks_drop_after s \<and> ks_drop_after s \<le> 20"

definition valid_selection :: "selection_settings \<Rightarrow> bool" where
  "valid_selection s \<longleftrightarrow>
     0 \<le> se_min_score s \<and> se_min_score s \<le> 100 \<and> 100 \<le> se_max_latency s \<and> se_max_latency s \<le> 60000 \<and>
     30 \<le> se_max_age s \<and> se_max_age s \<le> 86400 \<and> 1 \<le> se_min_successes s \<and> se_min_successes s \<le> 20"

definition valid_dashboard :: "dashboard_settings \<Rightarrow> bool" where
  "valid_dashboard s \<longleftrightarrow>
     60 \<le> ds_interval s \<and> ds_interval s \<le> 3600 \<and> 24 \<le> ds_short_hours s \<and> ds_short_hours s \<le> 168 \<and>
     168 \<le> ds_long_hours s \<and> ds_long_hours s \<le> 2160 \<and> 10 \<le> ds_heartbeat_interval s \<and> ds_heartbeat_interval s \<le> 300 \<and>
     30 \<le> ds_heartbeat_ttl s \<and> ds_heartbeat_ttl s \<le> 900 \<and> 10 \<le> ds_refresh s \<and> ds_refresh s \<le> 300 \<and>
     100 \<le> ds_max_records s \<and> ds_max_records s \<le> 100000"

record app_settings =
  as_redis :: redis_settings
  as_api :: api_settings
  as_collector :: collector_settings
  as_checker :: checker_settings
  as_selection :: selection_settings
  as_probe_hosts :: "string list"
  as_target_domain :: string
  as_dashboard_enabled :: bool
  as_dashboard :: dashboard_settings
  as_quota :: quota_settings
  as_ownership :: ownership_settings
  as_export :: peer_export_settings
  as_peer :: peer_cache_settings
  as_alerts :: peer_alert_settings

definition valid_settings :: "app_settings \<Rightarrow> bool" where
  "valid_settings s \<longleftrightarrow>
     valid_redis (as_redis s) \<and> valid_api (as_api s) \<and> valid_collector (as_collector s) \<and> valid_checker (as_checker s) \<and>
     valid_selection (as_selection s) \<and> 1 \<le> length (as_target_domain s) \<and> length (as_target_domain s) \<le> 253 \<and>
     valid_dashboard (as_dashboard s) \<and> valid_ownership (as_ownership s) \<and> valid_peer_export (as_export s) \<and>
     valid_peer_cache (as_peer s)"

section \<open>The startup checks\<close>

definition all_keys :: "app_settings \<Rightarrow> string list" where
  "all_keys s =
     ap_keys (as_api s) @ ap_admin_keys (as_api s) @ qt_keys (as_quota s) @ px_keys (as_export s) @
     map (\<lambda>m. om_key (snd m)) (ow_members (as_ownership s))"

definition note_if :: "bool \<Rightarrow> string \<Rightarrow> string list" where
  "note_if c text' = (if c then [text'] else [])"

definition https_prefix :: "string \<Rightarrow> bool" where
  "https_prefix url \<longleftrightarrow> take 8 url = ''https://''"

definition api_startup_errors :: "app_settings \<Rightarrow> string list" where
  "api_startup_errors s =
     (let api = as_api s; quota = as_quota s; own = as_ownership s; exp = as_export s; peer = as_peer s; alerts = as_alerts s;
          keys = all_keys s; systems = map (\<lambda>m. om_system (snd m)) (ow_members own)
      in note_if (ap_auth_enabled api \<and> keys = []) ''at least one API key is required when authentication is enabled'' @
         note_if ([] \<in> set keys) ''API keys must be non-empty'' @
         note_if (\<not> distinct keys) ''API keys must be unique across roles'' @
         note_if (qt_enabled quota \<and> \<not> ap_auth_enabled api) ''reclaim quota requires API authentication'' @
         note_if (qt_enabled quota \<and> length (qt_keys quota) \<noteq> 2) ''reclaim quota requires two dedicated client keys'' @
         (if ow_enabled own
          then note_if (\<not> ap_auth_enabled api) ''reclaim ownership requires API authentication'' @
               note_if (System_One \<notin> set systems) ''reclaim ownership requires a member on system-one'' @
               note_if (System_Two \<notin> set systems) ''reclaim ownership requires a member on system-two'' @
               note_if (\<exists>m \<in> set (ow_members own). str_strip (fst m) = []) ''reclaim ownership member IDs must be non-empty''
          else []) @
         note_if (px_enabled exp \<and> \<not> ap_auth_enabled api) ''peer export requires API authentication'' @
         note_if (px_enabled exp \<and> px_node exp = []) ''peer export requires node_id'' @
         note_if (px_enabled exp \<and> px_keys exp = []) ''peer export requires a dedicated client key'' @
         (if pe_enabled peer
          then note_if (pe_peer peer = [] \<or> pe_origin peer = []) ''peer cache requires peer_name and origin_node'' @
               note_if (pe_origin peer = px_node exp) ''peer origin must differ from local node_id'' @
               (case (if pt_enabled alerts then pt_webhook alerts else None) of
                  None \<Rightarrow> [''peer cache requires enabled peer alerts and webhook'']
                | Some url \<Rightarrow> note_if (\<not> https_prefix url) ''peer alert webhook requires HTTPS'')
          else []) @
         note_if (case ap_cursor_secret api of None \<Rightarrow> True | Some x \<Rightarrow> length x < 32)
           ''cursor secret must contain at least 32 characters'' @
         (if ap_admin_probe api
          then note_if (ap_admin_keys api = []) ''an admin API key is required for the admin probe'' @
               note_if (as_probe_hosts s = []) ''an allowed probe host is required for the admin probe''
          else []))"

definition validate_api_startup :: "app_settings \<Rightarrow> unit result" where
  "validate_api_startup s =
     (let errors = api_startup_errors s
      in if errors \<noteq> [] then Inl (ValueError (hd errors @ concat (map ((@) ''; '') (tl errors)))) else Inr ())"

definition validate_peer_sync_startup :: "app_settings \<Rightarrow> unit result" where
  "validate_peer_sync_startup s =
     (let peer = as_peer s
      in if \<not> pe_enabled peer then Inl (ValueError ''peer cache is disabled'')
         else if pe_peer peer = [] \<or> pe_origin peer = [] then Inl (ValueError ''peer cache requires peer_name and origin_node'')
         else if pe_base_url peer = [] \<or> (case pe_key peer of None \<Rightarrow> True | Some k \<Rightarrow> k = [])
         then Inl (ValueError ''peer cache requires base_url and API key'')
         else Inr ())"

text \<open>The part of the settings that authenticates requests.\<close>

definition access_of :: "app_settings \<Rightarrow> access_settings" where
  "access_of s =
     \<lparr>auth_enabled = ap_auth_enabled (as_api s),
      key_cfg = \<lparr>normal_keys = ap_keys (as_api s), admin_keys = ap_admin_keys (as_api s), quota_keys = qt_keys (as_quota s),
                 peer_export_keys = px_keys (as_export s),
                 ownership_keys = map (\<lambda>m. (fst m, om_key (snd m))) (ow_members (as_ownership s))\<rparr>,
      ownership_enabled = ow_enabled (as_ownership s), ownership_rate = ow_rate (as_ownership s),
      peer_export_rate = px_rate (as_export s), query_rate = ap_query_rate (as_api s), admin_rate = ap_admin_rate (as_api s),
      rate_window = ap_rate_window (as_api s)\<rparr>"

section \<open>What an accepted configuration guarantees\<close>

lemma accepted_keys:
  assumes "validate_api_startup s = Inr ()"
  shows "distinct (all_keys s)" and "[] \<notin> set (all_keys s)" and "ap_auth_enabled (as_api s) \<Longrightarrow> all_keys s \<noteq> []"
proof -
  have "api_startup_errors s = []" using assms by (simp add: validate_api_startup_def Let_def split: if_splits)
  then show "distinct (all_keys s)" "[] \<notin> set (all_keys s)" "ap_auth_enabled (as_api s) \<Longrightarrow> all_keys s \<noteq> []"
    unfolding api_startup_errors_def Let_def by (auto simp: note_if_def split: if_splits)
qed

lemma match_any_ascii: "is_ascii raw \<Longrightarrow> \<forall>k \<in> set ks. is_ascii k \<Longrightarrow> match_any raw ks b = Inr (b \<or> raw \<in> set ks)"
  by (induction ks arbitrary: b) (auto simp: compare_digest_def)

lemma match_member_ascii:
  "is_ascii raw \<Longrightarrow> \<forall>k \<in> set (map snd ks). is_ascii k \<Longrightarrow> distinct (map snd ks) \<Longrightarrow>
     match_member raw ks b = Inr (case map_of (map (\<lambda>(m, k). (k, m)) ks) raw of None \<Rightarrow> b | Some m \<Rightarrow> Some m)"
proof (induction ks arbitrary: b)
  case (Cons x ks)
  obtain m k where x: "x = (m, k)" by (cases x)
  have "map_of (map (\<lambda>(m, k). (k, m)) ks) k = None" using Cons.prems(3) by (force simp: x map_of_eq_None_iff)
  with Cons x show ?case by (auto simp: compare_digest_def)
qed simp

text \<open>The role a key is configured for.\<close>

definition configured_role :: "app_settings \<Rightarrow> string \<Rightarrow> (key_role \<times> string option) option" where
  "configured_role s raw =
     (if raw \<in> set (ap_keys (as_api s)) then Some (Normal, None)
      else if raw \<in> set (ap_admin_keys (as_api s)) then Some (Admin, None)
      else if raw \<in> set (qt_keys (as_quota s)) then Some (Quota_Client, None)
      else if raw \<in> set (px_keys (as_export s)) then Some (Peer_Export, None)
      else map_option (\<lambda>m. (Ownership_Client, Some m))
             (map_of (map (\<lambda>m. (om_key (snd m), fst m)) (ow_members (as_ownership s))) raw))"


definition w_settings :: app_settings where
  "w_settings =
     \<lparr>as_redis = \<lparr>rd_url = ''redis://localhost:6379/0'', rd_prefix = ''ippool:dev'', rd_connect_timeout = 2, rd_read_timeout = 5\<rparr>,
      as_api = \<lparr>ap_port = 8000, ap_auth_enabled = True, ap_keys = [''n''], ap_admin_keys = [''a''],
                ap_cursor_secret = Some (replicate 32 CHR ''s''), ap_max_page_size = 200, ap_query_rate = 120, ap_admin_rate = 10,
                ap_rate_window = 60, ap_admin_probe = False, ap_legacy_routes = False\<rparr>,
      as_collector = \<lparr>cs_concurrency = 20, cs_max_pages = 5, cs_max_bytes = 2097152, cs_max_round = 2000, cs_max_pool = 10000,
                      cs_interval = 300, cs_check_interval = 60, cs_threshold = 20, cs_min_score = 80, cs_max_latency = 2000,
                      cs_max_new = 500\<rparr>,
      as_checker = \<lparr>ks_concurrency = 100, ks_batch = 200, ks_lease = 60, ks_timeout = 5, ks_failures = 3, ks_cooldown = 60,
                    ks_drop_after = 5\<rparr>,
      as_selection = \<lparr>se_min_score = 90, se_max_latency = 5000, se_max_age = 600, se_min_successes = 2\<rparr>,
      as_probe_hosts = [], as_target_domain = ''httpbin.org'', as_dashboard_enabled = True, as_dashboard = w_dashboard,
      as_quota = \<lparr>qt_enabled = False, qt_keys = []\<rparr>,
      as_ownership = \<lparr>ow_enabled = True,
                      ow_members = [(''m'', \<lparr>om_system = System_One, om_key = ''o''\<rparr>), (''k'', \<lparr>om_system = System_Two, om_key = ''p''\<rparr>)],
                      ow_rate = 60\<rparr>,
      as_export = \<lparr>px_enabled = False, px_node = [], px_keys = [], px_rate = 30\<rparr>,
      as_peer = \<lparr>pe_enabled = False, pe_peer = [], pe_origin = [], pe_base_url = [], pe_key = None,
                 pe_selection = \<lparr>se_min_score = 90, se_max_latency = 2000, se_max_age = 600, se_min_successes = 2\<rparr>,
                 pe_interval = 60, pe_ttl = 180, pe_cooldown = 600, pe_max_items = 20\<rparr>,
      as_alerts = \<lparr>pt_enabled = False, pt_webhook = None\<rparr>\<rparr>"

lemma w_settings_accepted: "valid_settings w_settings" "validate_api_startup w_settings = Inr ()"
  by (code_simp, code_simp)


text \<open>
  The bounds of the dashboard's fields are checked one by one: a heartbeat interval and a time to live
  within their bounds can be refused when the store is built, at the start of the API.
\<close>

lemma valid_dashboard_refused:
  "valid_dashboard (w_dashboard\<lparr>ds_heartbeat_interval := 60\<rparr>)"
  "\<exists>m. new_heartbeat_store prefix (ds_heartbeat_interval (w_dashboard\<lparr>ds_heartbeat_interval := 60\<rparr>))
     (ds_heartbeat_ttl (w_dashboard\<lparr>ds_heartbeat_interval := 60\<rparr>)) = Inl (ValueError m)"
  by (simp_all add: valid_dashboard_def w_dashboard_def new_heartbeat_store_def)

end
