(* ===== verification/Network.thy ===== *)
theory Network
  imports Endpoints Cursors Sources
begin

text \<open>
  The network boundary (domain.py, security/network.py) and the admin probe that relies on it
  (api/routes/admin.py). \<open>urlsplit\<close>, \<open>urlunsplit\<close>, \<open>ip_address\<close>, the public suffix list, the
  resolver and the HTTP client are parameters.
\<close>

section \<open>Target URLs\<close>

record split_url =
  up_scheme :: string
  up_netloc :: string
  up_host :: "string option"
  up_user :: "string option"
  up_password :: "string option"
  up_path :: string
  up_query :: string

text \<open>
  An address is an abstract value with its text and with \<open>is_global\<close>; \<open>split\<close> may raise.
\<close>

record 'a url_tools =
  ut_split :: "string \<Rightarrow> split_url result"
  ut_unsplit :: "string \<times> string \<times> string \<times> string \<times> string \<Rightarrow> string"
  ut_address :: "string \<Rightarrow> 'a option"
  ut_text :: "'a \<Rightarrow> string"
  ut_global :: "'a \<Rightarrow> bool"
  ut_extract :: "string \<Rightarrow> string \<times> string"

text \<open>\<open>str.lower\<close> on one-byte characters.\<close>

definition py_lower_char :: "char \<Rightarrow> char" where
  "py_lower_char c =
     (let n = (of_char c :: nat)
      in if 65 \<le> n \<and> n \<le> 90 \<or> 192 \<le> n \<and> n \<le> 222 \<and> n \<noteq> 215 then char_of (n + 32) else c)"

definition py_lower :: "string \<Rightarrow> string" where
  "py_lower = map py_lower_char"

definition normalize_target_url :: "'a url_tools \<Rightarrow> string \<Rightarrow> string result" where
  "normalize_target_url T value =
     (case ut_split T (str_strip value) of
        Inl e \<Rightarrow> Inl e
      | Inr u \<Rightarrow>
          if py_lower (up_scheme u) \<notin> {''http'', ''https''} then Inl (ValueError ''target URL must use http or https'')
          else if up_host u = None then Inl (ValueError ''target URL must contain a host'')
          else if up_user u \<noteq> None \<or> up_password u \<noteq> None then Inl (ValueError ''target URL userinfo is forbidden'')
          else Inr (ut_unsplit T (py_lower (up_scheme u), up_netloc u, if up_path u = [] then ''/'' else up_path u, up_query u, [])))"

text \<open>\<open>raw.strip("[]")\<close>.\<close>

definition strip_brackets :: "string \<Rightarrow> string" where
  "strip_brackets s =
     (let b = (\<lambda>c. c = CHR ''['' \<or> c = CHR '']'') in rev (dropWhile b (rev (dropWhile b s))))"

definition host_of :: "'a url_tools \<Rightarrow> string \<Rightarrow> string option result" where
  "host_of T raw =
     (if contains_text ''://'' raw
      then (case normalize_target_url T raw of Inl e \<Rightarrow> Inl e | Inr url \<Rightarrow> map_sum id up_host (ut_split T url))
      else map_sum id up_host (ut_split T (''//'' @ raw)))"

definition registrable_domain :: "'a url_tools \<Rightarrow> string \<Rightarrow> string result" where
  "registrable_domain T host_or_url =
     (let raw = str_strip host_or_url
      in if raw = [] then Inl (ValueError ''host or URL must not be empty'')
         else
           (case ut_address T (strip_brackets raw) of
              Some a \<Rightarrow> Inr (ut_text T a)
            | None \<Rightarrow>
                (case host_of T raw of
                   Inl e \<Rightarrow> Inl e
                 | Inr None \<Rightarrow> Inl (ValueError ''unable to determine host'')
                 | Inr (Some h) \<Rightarrow>
                     (case ut_address T h of
                        Some a \<Rightarrow> Inr (ut_text T a)
                      | None \<Rightarrow>
                          (case ut_extract T (rstrip (CHR ''.'') (py_lower h)) of
                             (d, suffix) \<Rightarrow>
                               Inr (if d \<noteq> [] \<and> suffix \<noteq> [] then d @ ''.'' @ suffix else rstrip (CHR ''.'') (py_lower h)))))))"

section \<open>The boundary\<close>

record 'a validated_url =
  vu_url :: string
  vu_host :: string
  vu_addresses :: "'a set"

definition normal_host :: "string \<Rightarrow> string" where
  "normal_host h = rstrip (CHR ''.'') (py_lower h)"

text \<open>The resolver gives the texts of addresses, or raises \<open>OSError\<close>.\<close>

type_synonym resolver = "string \<Rightarrow> string list option"

definition raw_addresses :: "'a url_tools \<Rightarrow> resolver \<Rightarrow> string \<Rightarrow> string list result" where
  "raw_addresses T resolve h =
     (case ut_address T h of
        Some a \<Rightarrow> Inr [ut_text T a]
      | None \<Rightarrow>
          (case resolve h of
             None \<Rightarrow> Inl (NetworkBoundaryError ''target host could not be resolved'')
           | Some xs \<Rightarrow> Inr xs))"

definition validate_public_url :: "'a url_tools \<Rightarrow> resolver \<Rightarrow> string list \<Rightarrow> string \<Rightarrow> 'a validated_url result" where
  "validate_public_url T resolve allowed_hosts url =
     (case normalize_target_url T url of
        Inl e \<Rightarrow> Inl e
      | Inr normalized \<Rightarrow>
          (case ut_split T normalized of
             Inl e \<Rightarrow> Inl e
           | Inr parsed \<Rightarrow>
               (case up_host parsed of
                  None \<Rightarrow> Inl (NetworkBoundaryError ''target URL has no host'')
                | Some host' \<Rightarrow>
                    let h = normal_host host'; allowlist = normal_host ` set allowed_hosts
                    in if allowlist = {} \<or> h \<notin> allowlist then Inl (NetworkBoundaryError ''target host is not allowlisted'')
                       else
                         (case raw_addresses T resolve h of
                            Inl e \<Rightarrow> Inl e
                          | Inr raws \<Rightarrow>
                              if \<exists>raw \<in> set raws. ut_address T raw = None
                              then Inl (NetworkBoundaryError ''resolver returned an invalid address'')
                              else
                                let addresses = (\<lambda>raw. the (ut_address T raw)) ` set raws
                                in if addresses = {} \<or> (\<exists>a \<in> addresses. \<not> ut_global T a)
                                   then Inl (NetworkBoundaryError ''target resolves to a non-global address'')
                                   else Inr \<lparr>vu_url = normalized, vu_host = h, vu_addresses = addresses\<rparr>))))"

text \<open>\<open>compile_proxy_networks\<close>: \<open>network\<close> is \<open>ip_network(text, strict=True)\<close>.\<close>

fun compile_proxy_networks :: "(string \<Rightarrow> ip_network option) \<Rightarrow> string list \<Rightarrow> ip_network list result" where
  "compile_proxy_networks network [] = Inr []"
| "compile_proxy_networks network (n # ns) =
     (case network n of
        None \<Rightarrow> Inl (NetworkBoundaryError ''blocked proxy network is invalid'')
      | Some net \<Rightarrow> (case compile_proxy_networks network ns of Inl e \<Rightarrow> Inl e | Inr nets \<Rightarrow> Inr (net # nets)))"

section \<open>The admin probe\<close>

definition ends_with :: "string \<Rightarrow> string \<Rightarrow> bool" where
  "ends_with e s \<longleftrightarrow> starts_with (rev e) (rev s)"

definition is_textual :: "string \<Rightarrow> bool" where
  "is_textual content_type =
     (let media = str_strip (takeWhile (\<lambda>c. c \<noteq> CHR '';'') (py_lower content_type))
      in starts_with ''text/'' media \<or> media = ''application/json'' \<or> ends_with ''+json'' media \<or>
         media \<in> {''application/xml'', ''application/xhtml+xml''} \<or> ends_with ''+xml'' media)"

text \<open>The loop over the chunks of the body: what is kept, with its size, and the chunks never read.\<close>

fun read_snippet :: "'b list list \<Rightarrow> 'b list \<Rightarrow> nat \<Rightarrow> 'b list \<times> 'b list list" where
  "read_snippet [] acc n = (acc, [])"
| "read_snippet (chunk # chunks) acc n =
     (let remaining = 8192 - n; acc' = acc @ take remaining chunk; m = n + min (length chunk) remaining
      in if 8192 \<le> m then (acc', chunks) else read_snippet chunks acc' m)"

text \<open>What the client meets: a response, \<open>ProxyError\<close> or \<open>ConnectTimeout\<close>, or another exception.\<close>

datatype 'b client_outcome =
    Got_Response int string "'b list list" pyfloat
  | Proxy_Failure
  | Other_Failure

record 'b admin_tools =
  ad_parse :: "string \<Rightarrow> proxy_endpoint option"
  ad_is_global :: "string \<Rightarrow> bool"
  ad_decode :: "'b list \<Rightarrow> string"
  ad_client :: "string \<Rightarrow> string \<Rightarrow> rat \<Rightarrow> 'b client_outcome"

record admin_probe_response =
  pb_category :: probe_category
  pb_latency :: "pyfloat option"
  pb_status :: "int option"
  pb_snippet :: "string option"

record admin_probe_request =
  rq_proxy :: string
  rq_url :: string
  rq_timeout :: rat

text \<open>The route, with the requests it makes: the proxy URL and the target URL of each.\<close>

definition admin_probe ::
  "'b admin_tools \<Rightarrow> 'a url_tools \<Rightarrow> resolver \<Rightarrow> string list \<Rightarrow> admin_probe_request
     \<Rightarrow> (string \<times> string) list \<times> admin_probe_response result" where
  "admin_probe P T resolve allowed_hosts body =
     (let rejected = ([], Inl (HTTPException 422 ''invalid probe boundary''));
          failure = \<lparr>pb_category = System_Error, pb_latency = None, pb_status = None, pb_snippet = None\<rparr>
      in case ad_parse P (rq_proxy body) of
           None \<Rightarrow> rejected
         | Some parsed \<Rightarrow>
             (case validate_proxy_endpoint (ad_is_global P) False [] parsed of
                Inl _ \<Rightarrow> rejected
              | Inr ep \<Rightarrow>
                  (case validate_public_url T resolve allowed_hosts (rq_url body) of
                     Inl _ \<Rightarrow> rejected
                   | Inr v \<Rightarrow>
                       let proxy_url = ''http://'' @ canonical ep
                       in ([(proxy_url, vu_url v)],
                           Inr (case ad_client P proxy_url (vu_url v) (rq_timeout body) of
                                  Got_Response status content_type chunks latency \<Rightarrow>
                                    \<lparr>pb_category = Success, pb_latency = Some latency, pb_status = Some status,
                                     pb_snippet = (if is_textual content_type
                                                   then Some (take 2048 (ad_decode P (fst (read_snippet chunks [] 0)))) else None)\<rparr>
                                | Proxy_Failure \<Rightarrow> failure\<lparr>pb_category := Proxy_Error\<rparr>
                                | Other_Failure \<Rightarrow> failure)))))"

section \<open>What gets through\<close>

lemma read_snippet_take:
  "length acc = n \<Longrightarrow> n < 8192 \<Longrightarrow> fst (read_snippet chunks acc n) = take 8192 (acc @ concat chunks)"
proof (induction chunks arbitrary: acc n)
  case (Cons chunk chunks)
  show ?case
  proof (cases "8192 \<le> n + min (length chunk) (8192 - n)")
    case True
    then have "8192 - n \<le> length chunk" by linarith
    with True Cons.prems show ?thesis by (simp add: Let_def)
  next
    case False
    then have "take (8192 - n) chunk = chunk" "n + min (length chunk) (8192 - n) = n + length chunk" by auto
    with False Cons.IH [of "acc @ chunk" "n + length chunk"] Cons.prems show ?thesis by (simp add: Let_def)
  qed
qed simp

lemma read_snippet_all: "fst (read_snippet chunks [] 0) = take 8192 (concat chunks)"
  by (simp add: read_snippet_take)

lemma normalized_url:
  assumes "normalize_target_url T url = Inr n"
  shows "\<exists>u. ut_split T (str_strip url) = Inr u \<and> py_lower (up_scheme u) \<in> {''http'', ''https''} \<and> up_host u \<noteq> None \<and>
    up_user u = None \<and> up_password u = None \<and>
    n = ut_unsplit T (py_lower (up_scheme u), up_netloc u, if up_path u = [] then ''/'' else up_path u, up_query u, [])"
  using assms by (auto simp: normalize_target_url_def split: sum.splits if_splits)

text \<open>An accepted URL names an allowed host, and all its addresses, at least one, are global.\<close>

lemma validated_url:
  assumes "validate_public_url T resolve allowed_hosts url = Inr v"
  shows "normalize_target_url T url = Inr (vu_url v) \<and> vu_host v \<in> normal_host ` set allowed_hosts \<and> vu_addresses v \<noteq> {} \<and>
    (\<forall>a \<in> vu_addresses v. ut_global T a) \<and>
    (\<exists>u h. ut_split T (vu_url v) = Inr u \<and> up_host u = Some h \<and> vu_host v = normal_host h) \<and>
    (ut_address T (vu_host v) = None \<longrightarrow> (\<exists>xs. resolve (vu_host v) = Some xs \<and> vu_addresses v = (\<lambda>x. the (ut_address T x)) ` set xs))"
  using assms
  by (auto simp: validate_public_url_def raw_addresses_def Let_def split: sum.splits option.splits if_splits)


definition w_url_tools :: "nat url_tools" where
  "w_url_tools =
     \<lparr>ut_split = (\<lambda>_. Inr \<lparr>up_scheme = ''HTTP'', up_netloc = ''a.b.'', up_host = Some ''a.b.'', up_user = None, up_password = None,
                          up_path = [], up_query = []\<rparr>),
      ut_unsplit = (\<lambda>(s, n, p, q, f). s @ ''://'' @ n @ p), ut_address = (\<lambda>t. if t = ''9'' then Some 9 else None),
      ut_text = (\<lambda>_. ''9''), ut_global = (\<lambda>n. n = 9), ut_extract = (\<lambda>_. ([], []))\<rparr>"

definition w_admin_tools :: "nat admin_tools" where
  "w_admin_tools =
     \<lparr>ad_parse = (\<lambda>_. Some \<lparr>host = ''8.8.8.8'', host_version = 4, port = 80\<rparr>), ad_is_global = (\<lambda>_. True),
      ad_decode = map char_of, ad_client = (\<lambda>_ _ _. Got_Response 200 ''text/html; x'' [[104, 105], [33]] (Finite 5))\<rparr>"

lemma w_admin_run:
  "admin_probe w_admin_tools w_url_tools (\<lambda>_. Some [''9'']) [''A.b''] \<lparr>rq_proxy = ''p'', rq_url = ''u'', rq_timeout = 5\<rparr> =
     ([(''http://8.8.8.8:80'', ''http://a.b./'')],
      Inr \<lparr>pb_category = Success, pb_latency = Some (Finite 5), pb_status = Some 200, pb_snippet = Some ''hi!''\<rparr>)"
  by code_simp


end
