(* ===== verification/Observability.thy ===== *)
theory Observability
  imports Endpoints Probe Sources PeerMonitor Ownership PoolQuery
begin

text \<open>
  What is logged and measured (observability/logging.py and the label check of metrics.py): the
  redaction of secrets in log events. The theorem says what a redacted event can still contain.
\<close>

section \<open>Credentials in URLs\<close>

text \<open>\<open>\w\<close> on one-byte characters; \<open>\s\<close> is \<open>is_space\<close>.\<close>

definition is_word :: "char \<Rightarrow> bool" where
  "is_word c =
     (let n = (of_char c :: nat)
      in (48 \<le> n \<and> n \<le> 57) \<or> (65 \<le> n \<and> n \<le> 90) \<or> n = 95 \<or> (97 \<le> n \<and> n \<le> 122) \<or>
         n \<in> {170, 178, 179, 181, 185, 186, 188, 189, 190} \<or> (192 \<le> n \<and> n \<noteq> 215 \<and> n \<noteq> 247))"

definition credential_char :: "char \<Rightarrow> bool" where
  "credential_char c \<longleftrightarrow> c \<noteq> CHR ''/'' \<and> c \<noteq> CHR ''@'' \<and> \<not> is_space c"

text \<open>
  A match of \<open>(\w+://)[^/@\s]+@\<close> at the head of a text: the word, and the text after the match. The
  three runs end where their class of characters ends, so there is at most one way to match.
\<close>

definition url_credential :: "string \<Rightarrow> (string \<times> string) option" where
  "url_credential s =
     (let w = takeWhile is_word s; s1 = dropWhile is_word s; s2 = drop 3 s1;
          c = takeWhile credential_char s2; s3 = dropWhile credential_char s2
      in if w \<noteq> [] \<and> starts_with ''://'' s1 \<and> c \<noteq> [] \<and> starts_with ''@'' s3 then Some (w, drop 1 s3) else None)"

lemma url_credential_shorter: "url_credential s = Some (w, rest) \<Longrightarrow> length rest < length s"
proof -
  assume m: "url_credential s = Some (w, rest)"
  then have w: "takeWhile is_word s \<noteq> []" and rest: "rest = drop 1 (dropWhile credential_char (drop 3 (dropWhile is_word s)))"
    by (auto simp: url_credential_def Let_def split: if_splits)
  have "length rest \<le> length (dropWhile is_word s)"
    unfolding rest by (metis diff_le_self dual_order.trans length_drop length_dropWhile_le)
  moreover have "length (takeWhile is_word s) + length (dropWhile is_word s) = length s"
    by (metis length_append takeWhile_dropWhile_id)
  moreover have "0 < length (takeWhile is_word s)" using w by simp
  ultimately show ?thesis by linarith
qed

text \<open>\<open>_URL_CREDENTIAL.sub\<close>.\<close>

function redact_urls :: "string \<Rightarrow> string" where
  "redact_urls [] = []"
| "redact_urls (c # cs) =
     (case url_credential (c # cs) of
        Some (w, rest) \<Rightarrow> w @ ''://[REDACTED]@'' @ redact_urls rest
      | None \<Rightarrow> c # redact_urls cs)"
  by pat_completeness auto
termination
  by (relation "measure length") (auto dest: url_credential_shorter)

section \<open>Log events\<close>

text \<open>The values of an event; other objects are left as they are.\<close>

datatype log_value =
    L_Text string
  | L_Dict "(string \<times> log_value) list"
  | L_Items "log_value list"
  | L_Other

text \<open>\<open>_SECRET_KEY.search\<close>, ignoring case.\<close>

definition is_secret_key :: "string \<Rightarrow> bool" where
  "is_secret_key key =
     (let k = map lower_char key
      in list_ex (\<lambda>p. contains_text p k)
           [''apikey'', ''api_key'', ''api-key'', ''authorization'', ''password'', ''secret'', ''token'',
            ''redisurl'', ''redis_url'', ''redis-url''])"

definition redacted :: log_value where
  "redacted = L_Text ''[REDACTED]''"

definition is_error_key :: "string \<Rightarrow> bool" where
  "is_error_key key = contains_text ''error'' (map lower_char key)"

lemma item_size: "(k, x) \<in> set items \<Longrightarrow> size (x :: log_value) \<le> size_list (size_prod (\<lambda>_. 0) size) items"
  by (induction items) auto

lemma element_size: "x \<in> set xs \<Longrightarrow> size (x :: log_value) \<le> size_list size xs"
  by (induction xs) auto

function redact_value :: "string \<Rightarrow> log_value \<Rightarrow> log_value" where
  "redact_value key v =
     (if is_secret_key key then redacted
      else
        (case v of
           L_Dict items \<Rightarrow> L_Dict (map (\<lambda>(k, x). (k, redact_value k x)) items)
         | L_Items xs \<Rightarrow> L_Items (map (redact_value []) xs)
         | L_Text t \<Rightarrow> L_Text (if is_error_key key then take 256 (redact_urls t) else redact_urls t)
         | L_Other \<Rightarrow> L_Other))"
  by pat_completeness auto
termination
proof (relation "measure (\<lambda>(k, v). size v)", goal_cases)
  case (2 key v items z k x)
  have z: "z = (k, x)" by (rule sym) (rule 2(4))
  from item_size [of k x items] 2(3) show ?case by (simp add: 2(2) z)
next
  case (3 key v xs x)
  then have "x \<in> set xs" by simp
  from element_size [OF this] show ?case by (simp add: 3(2))
qed simp

declare redact_value.simps [simp del]

definition redact_secrets :: "(string \<times> log_value) list \<Rightarrow> (string \<times> log_value) list" where
  "redact_secrets event = map (\<lambda>(k, x). (k, redact_value k x)) event"

section \<open>Labels\<close>

definition forbidden_labels :: "string list" where
  "forbidden_labels = [''endpoint'', ''url'', ''query'', ''error_message'', ''api_key'', ''authorization'', ''token'']"

definition validate_metric_labels :: "string list \<Rightarrow> unit result" where
  "validate_metric_labels labels =
     (let found = filter (\<lambda>f. f \<in> set (map (map lower_char) labels)) (sort forbidden_labels)
      in if found \<noteq> [] then Inl (ValueError (''forbidden label: '' @ hd found)) else Inr ())"


section \<open>What a redacted event contains\<close>

text \<open>A text is clean when what stands like a credential in a URL is the mark.\<close>

definition clean :: "string \<Rightarrow> bool" where
  "clean t \<longleftrightarrow> (\<forall>a w c b. t = a @ w @ ''://'' @ c @ ''@'' @ b \<longrightarrow> w \<noteq> [] \<longrightarrow> list_all is_word w \<longrightarrow>
     c \<noteq> [] \<longrightarrow> list_all credential_char c \<longrightarrow> c = ''[REDACTED]'')"

lemma class_facts [simp]:
  "\<not> is_word (CHR '':'')" "\<not> is_word (CHR ''@'')" "\<not> credential_char (CHR ''@'')" "\<not> credential_char (CHR ''/'')"
  by (simp_all add: is_word_def credential_char_def)

lemma url_credentialI:
  assumes "w \<noteq> []" and "list_all is_word w" and "c \<noteq> []" and "list_all credential_char c"
  shows "url_credential (w @ ''://'' @ c @ ''@'' @ b) = Some (w, b)"
proof -
  have w: "takeWhile is_word (w @ ''://'' @ c @ ''@'' @ b) = w" "dropWhile is_word (w @ ''://'' @ c @ ''@'' @ b) = ''://'' @ c @ ''@'' @ b"
    using assms(2) by (simp_all add: list_all_iff)
  have c: "takeWhile credential_char (c @ ''@'' @ b) = c" "dropWhile credential_char (c @ ''@'' @ b) = ''@'' @ b"
    using assms(4) by (simp_all add: list_all_iff)
  show ?thesis unfolding url_credential_def w Let_def using c assms(1,3) by (simp add: starts_with_def)
qed

lemma length_of_marks: "length ''://'' = 3" "length ''@'' = 1"
  by simp_all

lemma url_credentialD:
  assumes "url_credential s = Some (w, rest)"
  shows "\<exists>c. s = w @ ''://'' @ c @ ''@'' @ rest \<and> w \<noteq> [] \<and> list_all is_word w \<and> c \<noteq> [] \<and> list_all credential_char c"
proof -
  let ?s1 = "dropWhile is_word s"
  let ?s2 = "drop 3 ?s1"
  let ?s3 = "dropWhile credential_char ?s2"
  have gate: "takeWhile is_word s \<noteq> [] \<and> starts_with ''://'' ?s1 \<and> takeWhile credential_char ?s2 \<noteq> [] \<and> starts_with ''@'' ?s3"
    using assms unfolding url_credential_def Let_def by (meson option.distinct(1))
  with assms have out: "w = takeWhile is_word s" "rest = drop 1 ?s3"
    unfolding url_credential_def Let_def by simp_all
  from gate have heads: "starts_with ''://'' ?s1" "starts_with ''@'' ?s3" by blast+
  have m: "w = takeWhile is_word s" "w \<noteq> []" "take 3 ?s1 = ''://''" "takeWhile credential_char ?s2 \<noteq> []"
    "take 1 ?s3 = ''@''" "rest = drop 1 ?s3"
    using gate out heads(1) [unfolded starts_with_def] heads(2) [unfolded starts_with_def]
    by (simp_all only: length_of_marks simp_thms)
  have "s = w @ ?s1" using m(1) by simp
  also have "?s1 = ''://'' @ ?s2" using append_take_drop_id [of 3 ?s1] m(3) by simp
  also have "?s2 = takeWhile credential_char ?s2 @ ?s3" by simp
  also have "?s3 = ''@'' @ rest" using append_take_drop_id [of 1 ?s3, symmetric] unfolding m(5) m(6) [symmetric] .
  finally show ?thesis using m(1,2,4)
    by (intro exI [of _ "takeWhile credential_char ?s2"]) (auto simp: list_all_iff dest: set_takeWhileD)
qed

text \<open>The last \<open>://\<close> before the end of a credential is unique.\<close>

lemma scheme_unique:
  assumes "a @ ''://'' @ c = b @ ''://'' @ d" and "CHR ''/'' \<notin> set c" and "CHR ''/'' \<notin> set d"
  shows "a = b \<and> c = d"
  using last_part_unique [of "a @ '':/''" "CHR ''/''" c "b @ '':/''" d] assms by simp

lemma first_piece_unique: "p @ m # b = q @ m # d \<Longrightarrow> m \<notin> set p \<Longrightarrow> m \<notin> set q \<Longrightarrow> p = q \<and> b = d"
  by (auto simp: append_eq_append_conv2 Cons_eq_append_conv append_eq_Cons_conv)

lemma split_at_mark:
  "h @ m # r = a @ f @ m # b \<Longrightarrow> m \<notin> set h \<Longrightarrow> m \<notin> set f \<Longrightarrow>
     (a @ f = h \<and> r = b) \<or> (\<exists>a'. a = h @ m # a' \<and> r = a' @ f @ m # b)"
proof (induction h arbitrary: a)
  case Nil
  then show ?case by (cases a; cases f) auto
next
  case (Cons x h)
  show ?case
  proof (cases a)
    case Nil
    with Cons.prems first_piece_unique [of "x # h" m r f b] show ?thesis by simp
  next
    case a: (Cons y a')
    with Cons.prems have "h @ m # r = a' @ f @ m # b" "m \<notin> set h" "m \<notin> set f" "y = x" by simp_all
    from Cons.IH [OF this(1-3)] this(4) a show ?thesis by auto
  qed
qed

lemma no_at: "list_all is_word w \<Longrightarrow> CHR ''@'' \<notin> set w" "list_all credential_char c \<Longrightarrow> CHR ''@'' \<notin> set c \<and> CHR ''/'' \<notin> set c"
  by (auto simp: list_all_iff)

text \<open>Up to the first \<open>@\<close> a redacted text is the text, or the text with its credential replaced.\<close>

lemma first_piece:
  "redact_urls s = p @ CHR ''@'' # b \<Longrightarrow> CHR ''@'' \<notin> set p \<Longrightarrow>
     (\<exists>b'. s = p @ CHR ''@'' # b') \<or> (\<exists>x w. p = x @ w @ ''://[REDACTED]'')"
proof (induction s arbitrary: p rule: redact_urls.induct)
  case (2 c cs)
  show ?case
  proof (cases "url_credential (c # cs)")
    case (Some m)
    obtain w rest where m: "m = (w, rest)" by (cases m)
    from url_credentialD [OF Some [unfolded m]] have w: "list_all is_word w" by blast
    have "(w @ ''://[REDACTED]'') @ CHR ''@'' # redact_urls rest = p @ CHR ''@'' # b" using 2(3) Some m by simp
    from first_piece_unique [OF this _ 2(4)] no_at(1) [OF w] have "p = [] @ w @ ''://[REDACTED]''" by simp
    then show ?thesis by blast
  next
    case None
    then have out: "c # redact_urls cs = p @ CHR ''@'' # b" using 2(3) by simp
    show ?thesis
    proof (cases p)
      case Nil
      with out show ?thesis by auto
    next
      case (Cons d q)
      with out 2(4) have q: "redact_urls cs = q @ CHR ''@'' # b" "CHR ''@'' \<notin> set q" "d = c" by simp_all
      from 2(1) [OF None q(1,2)] show ?thesis
      proof
        assume "\<exists>x w. q = x @ w @ ''://[REDACTED]''"
        then obtain x w where "q = x @ w @ ''://[REDACTED]''" by blast
        then have "p = (c # x) @ w @ ''://[REDACTED]''" using Cons q(3) by simp
        then show ?thesis by blast
      qed (use Cons q(3) in auto)
    qed
  qed
qed simp

lemma clean_redacted: "clean (redact_urls s)"
proof (induction s rule: redact_urls.induct)
  case 1
  then show ?case by (simp add: clean_def)
next
  case (2 c cs)
  show ?case unfolding clean_def
  proof (intro allI impI)
    fix a w cr b
    assume out: "redact_urls (c # cs) = a @ w @ ''://'' @ cr @ ''@'' @ b" and w: "w \<noteq> []" "list_all is_word w"
      and cr: "cr \<noteq> []" "list_all credential_char cr"
    have free: "CHR ''@'' \<notin> set (w @ ''://'' @ cr)" using no_at(1) [OF w(2)] no_at(2) [OF cr(2)] by simp
    show "cr = ''[REDACTED]''"
    proof (cases "url_credential (c # cs)")
      case None
      then have whole: "redact_urls (c # cs) = c # redact_urls cs" by simp
      show ?thesis
      proof (cases a)
        case Nil
        with out have "redact_urls (c # cs) = (w @ ''://'' @ cr) @ CHR ''@'' # b" by simp
        from first_piece [OF this free] show ?thesis
        proof
          assume "\<exists>b'. c # cs = (w @ ''://'' @ cr) @ CHR ''@'' # b'"
          then obtain b' where "c # cs = w @ ''://'' @ cr @ ''@'' @ b'" by auto
          with url_credentialI [OF w cr, of b'] None show ?thesis by simp
        next
          assume "\<exists>x w'. w @ ''://'' @ cr = x @ w' @ ''://[REDACTED]''"
          then obtain x w' where "w @ ''://'' @ cr = (x @ w') @ ''://'' @ ''[REDACTED]''" by auto
          from scheme_unique [OF this] no_at(2) [OF cr(2)] show ?thesis by simp
        qed
      next
        case (Cons d a')
        with out whole have "redact_urls cs = a' @ w @ ''://'' @ cr @ ''@'' @ b" by simp
        with 2(1) [OF None] w cr show ?thesis unfolding clean_def by blast
      qed
    next
      case (Some m)
      obtain w0 rest where m: "m = (w0, rest)" by (cases m)
      from url_credentialD [OF Some [unfolded m]] have w0: "list_all is_word w0" by blast
      let ?head = "w0 @ ''://[REDACTED]''"
      from out Some m have eq: "?head @ CHR ''@'' # redact_urls rest = a @ w @ ''://'' @ cr @ ''@'' @ b" by simp
      have eq': "?head @ CHR ''@'' # redact_urls rest = a @ (w @ ''://'' @ cr) @ CHR ''@'' # b" using eq by simp
      have clear: "CHR ''@'' \<notin> set ?head" using no_at(1) [OF w0] by simp
      from split_at_mark [OF eq' clear free] show ?thesis
      proof
        assume "a @ (w @ ''://'' @ cr) = ?head \<and> redact_urls rest = b"
        then have "(a @ w) @ ''://'' @ cr = w0 @ ''://'' @ ''[REDACTED]''" by simp
        from scheme_unique [OF this] no_at(2) [OF cr(2)] show ?thesis by simp
      next
        assume "\<exists>a'. a = ?head @ CHR ''@'' # a' \<and> redact_urls rest = a' @ (w @ ''://'' @ cr) @ CHR ''@'' # b"
        then obtain a' where "redact_urls rest = a' @ w @ ''://'' @ cr @ ''@'' @ b" by auto
        with 2(2) [OF Some m [symmetric]] w cr show ?thesis unfolding clean_def by blast
      qed
    qed
  qed
qed

lemma clean_without_at: "CHR ''@'' \<notin> set t \<Longrightarrow> clean t"
  unfolding clean_def by auto

lemma clean_take:
  assumes "clean t"
  shows "clean (take n t)"
  unfolding clean_def
proof (intro allI impI)
  fix a w c b
  assume "take n t = a @ w @ ''://'' @ c @ ''@'' @ b" and h: "w \<noteq> []" "list_all is_word w" "c \<noteq> []" "list_all credential_char c"
  then have "t = a @ w @ ''://'' @ c @ ''@'' @ (b @ drop n t)"
    by (metis append.assoc append_take_drop_id)
  with assms h show "c = ''[REDACTED]''" unfolding clean_def by blast
qed

text \<open>The values of an event with the keys they stand under; the items of a list have none.\<close>

inductive stands :: "(string \<times> log_value) list \<Rightarrow> string \<Rightarrow> log_value \<Rightarrow> bool" for event where
  stands_top: "(k, v) \<in> set event \<Longrightarrow> stands event k v"
| stands_dict: "stands event k (L_Dict items) \<Longrightarrow> (k', v) \<in> set items \<Longrightarrow> stands event k' v"
| stands_items: "stands event k (L_Items xs) \<Longrightarrow> v \<in> set xs \<Longrightarrow> stands event [] v"

lemma redact_value_dict: "redact_value k v = L_Dict items \<Longrightarrow> (k', x) \<in> set items \<Longrightarrow> \<exists>x0. x = redact_value k' x0"
  by (subst (asm) redact_value.simps) (auto simp: redacted_def split: if_splits log_value.splits)

lemma redact_value_items: "redact_value k v = L_Items xs \<Longrightarrow> x \<in> set xs \<Longrightarrow> \<exists>x0. x = redact_value [] x0"
  by (subst (asm) redact_value.simps) (auto simp: redacted_def split: if_splits log_value.splits)

lemma stands_redacted: "stands (redact_secrets event) k v \<Longrightarrow> \<exists>v0. v = redact_value k v0"
proof (induction rule: stands.induct)
  case (stands_top k v)
  then show ?case by (auto simp: redact_secrets_def)
next
  case (stands_dict k items k' v)
  from stands_dict.IH obtain v0 where "redact_value k v0 = L_Dict items" by metis
  from redact_value_dict [OF this stands_dict.hyps(2)] show ?case .
next
  case (stands_items k xs v)
  from stands_items.IH obtain v0 where "redact_value k v0 = L_Items xs" by metis
  from redact_value_items [OF this stands_items.hyps(2)] show ?case .
qed

lemma redact_value_text:
  assumes "redact_value k v = L_Text t"
  shows "clean t \<and> (is_error_key k \<longrightarrow> length t \<le> 256)"
proof (cases "is_secret_key k")
  case True
  with assms have "t = ''[REDACTED]''" by (simp add: redact_value.simps [of k v] redacted_def)
  then show ?thesis by (simp add: clean_without_at)
next
  case False
  with assms obtain t0 where "t = (if is_error_key k then take 256 (redact_urls t0) else redact_urls t0)"
    by (subst (asm) redact_value.simps) (auto split: log_value.splits)
  then show ?thesis by (simp add: clean_take clean_redacted)
qed


definition logged_event :: "(string \<times> log_value) list" where
  "logged_event = [(''event'', L_Text ''failed''), (''peer'', L_Dict [(''api_key'', L_Text ''s3''), (''last_error'', L_Text ''at http://u:p@h'')])]"

lemma event_redacted:
  "redact_secrets logged_event =
     [(''event'', L_Text ''failed''),
      (''peer'', L_Dict [(''api_key'', redacted), (''last_error'', L_Text ''at http://[REDACTED]@h'')])]"
  by code_simp


text \<open>
  The expression ends at the first \<open>@\<close>: of a password that holds an unescaped \<open>@\<close> the rest is logged.
\<close>

lemma password_after_at_is_logged: "redact_urls ''http://u:p@ss@h'' = ''http://[REDACTED]@ss@h''"
  by code_simp

text \<open>A label that names a request value is refused, in any case of its letters.\<close>

lemma forbidden_label_refused:
  "(\<exists>m. validate_metric_labels labels = Inl (ValueError m)) \<longleftrightarrow>
     (\<exists>l \<in> set labels. map lower_char l \<in> set forbidden_labels)"
proof -
  have "filter (\<lambda>f. f \<in> set (map (map lower_char) labels)) (sort forbidden_labels) \<noteq> [] \<longleftrightarrow>
      (\<exists>l \<in> set labels. map lower_char l \<in> set forbidden_labels)"
    by (auto simp: filter_empty_conv)
  then show ?thesis unfolding validate_metric_labels_def Let_def by auto
qed

end
