(* ===== verification/Metrics.thy ===== *)
theory Metrics
  imports Observability
begin

text \<open>
  What is measured (observability/metrics.py, the metrics page of api/routes/health.py and
  \<open>OwnershipStore.metrics_snapshot\<close>): the metrics with their labels, what each call of the \<open>Metrics\<close>
  interface changes. The lemmas say that no label is a request value, that every call names the
  labels its metric has, and that the counters of selections add up.
\<close>

section \<open>Metrics\<close>

datatype metric =
    Source_Fetch | Source_Parsed | Probe_Total | Circuit_Transition | Pool_State | Tasks | Lease_Reclaimed
  | Api_Duration | Api_Rejected | Redis_Duration | Redis_Errors | Worker_Heartbeat
  | Peer_Available | Peer_Valid | Peer_Failures | Peer_Heartbeat | Peer_Success | Peer_Evictions
  | Latency_Index_Members | Selectable_Candidates | Selection_Total | Selection_Returned
  | Selection_Skipped | Selection_Duration
  | Ownership_Heartbeat | Ownership_Backlog | Ownership_Pending | Ownership_Oldest
  | Ownership_Errors | Ownership_Conflicts

fun metric_labels :: "metric \<Rightarrow> string list" where
  "metric_labels Source_Fetch = [''source'', ''outcome'']"
| "metric_labels Source_Parsed = [''source'']"
| "metric_labels Probe_Total = [''category'']"
| "metric_labels Circuit_Transition = [''target'', ''state'']"
| "metric_labels Pool_State = [''domain'', ''state'']"
| "metric_labels Tasks = [''domain'', ''kind'']"
| "metric_labels Lease_Reclaimed = [''domain'']"
| "metric_labels Api_Duration = [''route'', ''method'', ''status'']"
| "metric_labels Api_Rejected = [''scope'']"
| "metric_labels Redis_Duration = [''operation'']"
| "metric_labels Redis_Errors = [''operation'']"
| "metric_labels Worker_Heartbeat = [''role'']"
| "metric_labels Peer_Available = [''domain'', ''peer'']"
| "metric_labels Peer_Valid = [''domain'', ''peer'']"
| "metric_labels Peer_Failures = [''domain'', ''peer'']"
| "metric_labels Peer_Heartbeat = [''domain'', ''peer'']"
| "metric_labels Peer_Success = [''domain'', ''peer'']"
| "metric_labels Peer_Evictions = [''domain'', ''peer'']"
| "metric_labels Latency_Index_Members = [''domain'']"
| "metric_labels Selectable_Candidates = [''domain'']"
| "metric_labels Selection_Total = [''domain'', ''outcome'']"
| "metric_labels Selection_Returned = [''domain'']"
| "metric_labels Selection_Skipped = [''domain'', ''reason'']"
| "metric_labels Selection_Duration = [''domain'']"
| "metric_labels Ownership_Heartbeat = [''member_id'']"
| "metric_labels Ownership_Backlog = [''member_id'']"
| "metric_labels Ownership_Pending = []"
| "metric_labels Ownership_Oldest = []"
| "metric_labels Ownership_Errors = []"
| "metric_labels Ownership_Conflicts = []"

text \<open>
  A gauge is set, to \<open>float('nan')\<close> where there is no value, or to the current time; a counter is
  increased; a histogram observes a value. The labels of a change are in the order of the metric's.
\<close>

datatype change = Increase nat | Set_To rat | Set_Nan | Set_Now | Observed rat

type_synonym measurement = "metric \<times> string list \<times> change"

section \<open>Calls\<close>

datatype metrics_call =
    C_Source_Fetch string string
  | C_Source_Parsed string nat
  | C_Probe string
  | C_Circuit string string
  | C_Pool_State string string nat
  | C_Tasks string nat nat
  | C_Reclaimed string nat
  | C_Api_Request string string string rat
  | C_Api_Rejected string
  | C_Redis string rat bool
  | C_Heartbeat string
  | C_Peer string string "metrics option"
  | C_Selection string nat nat nat nat "string \<Rightarrow> nat" rat

text \<open>\<open>Peer_Snapshot\<close> with \<open>available\<close> false carries no values, so the assertions after the early return hold.\<close>

definition peer_snapshot :: "string \<Rightarrow> string \<Rightarrow> metrics option \<Rightarrow> measurement list" where
  "peer_snapshot d p m =
     (case m of
        None \<Rightarrow>
          (Peer_Available, [d, p], Set_To 0) #
          map (\<lambda>metric. (metric, [d, p], Set_Nan)) [Peer_Valid, Peer_Failures, Peer_Heartbeat, Peer_Success, Peer_Evictions]
      | Some v \<Rightarrow>
          [(Peer_Available, [d, p], Set_To 1),
           (Peer_Valid, [d, p], Set_To (of_nat (me_valid_count v))),
           (Peer_Failures, [d, p], Set_To (of_nat (me_failures v))),
           (Peer_Heartbeat, [d, p], Set_To (me_heartbeat v)),
           (Peer_Success, [d, p], Set_To (me_last_success v)),
           (Peer_Evictions, [d, p], Set_To (of_nat (me_evictions v)))])"

definition selection_outcome :: "nat \<Rightarrow> nat \<Rightarrow> string" where
  "selection_outcome requested returned =
     (if returned = 0 then ''empty'' else if returned \<ge> requested then ''success'' else ''partial'')"

definition skip_reasons :: "string list" where
  "skip_reasons = [''score'', ''freshness'', ''successes'', ''inconsistent'']"

definition proxy_selection_measured ::
  "string \<Rightarrow> nat \<Rightarrow> nat \<Rightarrow> nat \<Rightarrow> nat \<Rightarrow> (string \<Rightarrow> nat) \<Rightarrow> rat \<Rightarrow> measurement list" where
  "proxy_selection_measured d members candidates requested returned skipped duration =
     [(Latency_Index_Members, [d], Set_To (of_nat members)),
      (Selectable_Candidates, [d], Set_To (of_nat candidates)),
      (Selection_Total, [d, selection_outcome requested returned], Increase 1),
      (Selection_Returned, [d], Observed (of_nat returned))] @
     map (\<lambda>reason. (Selection_Skipped, [d, reason], Increase (skipped reason)))
       (filter (\<lambda>reason. skipped reason \<noteq> 0) skip_reasons) @
     [(Selection_Duration, [d], Observed duration)]"

fun prometheus :: "metrics_call \<Rightarrow> measurement list" where
  "prometheus (C_Source_Fetch src outcome) = [(Source_Fetch, [src, outcome], Increase 1)]"
| "prometheus (C_Source_Parsed src n) = [(Source_Parsed, [src], Increase n)]"
| "prometheus (C_Probe cat) = [(Probe_Total, [cat], Increase 1)]"
| "prometheus (C_Circuit target st) = [(Circuit_Transition, [target, st], Increase 1)]"
| "prometheus (C_Pool_State d st n) = [(Pool_State, [d, st], Set_To (of_nat n))]"
| "prometheus (C_Tasks d dues leases) =
     [(Tasks, [d, ''due''], Set_To (of_nat dues)), (Tasks, [d, ''leased''], Set_To (of_nat leases))]"
| "prometheus (C_Reclaimed d n) = [(Lease_Reclaimed, [d], Increase n)]"
| "prometheus (C_Api_Request route verb status seconds) = [(Api_Duration, [route, verb, status], Observed seconds)]"
| "prometheus (C_Api_Rejected scope) = [(Api_Rejected, [scope], Increase 1)]"
| "prometheus (C_Redis operation seconds failed) =
     (Redis_Duration, [operation], Observed seconds) # (if failed then [(Redis_Errors, [operation], Increase 1)] else [])"
| "prometheus (C_Heartbeat worker) = [(Worker_Heartbeat, [worker], Set_Now)]"
| "prometheus (C_Peer d p m) = peer_snapshot d p m"
| "prometheus (C_Selection d members candidates requested returned skipped duration) =
     proxy_selection_measured d members candidates requested returned skipped duration"

text \<open>\<open>NoopMetrics\<close>, of the services that have no registry.\<close>

definition noop_metrics :: "metrics_call \<Rightarrow> measurement list" where
  "noop_metrics call = []"

text \<open>The call the random route makes for a finished selection.\<close>

definition selection_call :: "string \<Rightarrow> int \<Rightarrow> proxy_selection \<Rightarrow> rat \<Rightarrow> metrics_call" where
  "selection_call d n sel duration =
     (let s = sel_counts sel
      in C_Selection d (index_members sel) (indexed_candidates sel) (nat (min n 20)) (length (sel_records sel))
           ((\<lambda>_. 0)(''score'' := skipped_score s, ''freshness'' := skipped_freshness s,
                    ''successes'' := skipped_successes s, ''inconsistent'' := skipped_inconsistent s))
           duration)"

section \<open>Ownership\<close>

record ownership_health =
  oh_pending :: nat
  oh_oldest_age :: rat
  oh_check_errors :: nat
  oh_conflicts :: nat
  oh_heartbeats :: "string \<Rightarrow> (ms \<times> nat) option"

definition ownership_snapshot :: "'z zset_api \<Rightarrow> ms \<Rightarrow> ('z, 's) ownership \<Rightarrow> ownership_health" where
  "ownership_snapshot Z now s =
     \<lparr>oh_pending = z_card Z (o_deadlines s),
      oh_oldest_age =
        (case z_range Z (o_deadlines s) of
           [] \<Rightarrow> 0
         | (_, deadline) # _ \<Rightarrow> max 0 ((of_int now - (deadline - 86400000)) / 1000)),
      oh_check_errors = o_check_errors s,
      oh_conflicts = o_conflicts s,
      oh_heartbeats = (\<lambda>m. alive now (o_heartbeats s m))\<rparr>"

definition ownership_measured :: "ownership_health \<Rightarrow> string list \<Rightarrow> measurement list" where
  "ownership_measured h members =
     [(Ownership_Pending, [], Set_To (of_nat (oh_pending h))),
      (Ownership_Oldest, [], Set_To (oh_oldest_age h)),
      (Ownership_Errors, [], Set_To (of_nat (oh_check_errors h))),
      (Ownership_Conflicts, [], Set_To (of_nat (oh_conflicts h)))] @
     concat (map (\<lambda>m.
       let (received, backlog) = (case oh_heartbeats h m of None \<Rightarrow> (0, 0) | Some v \<Rightarrow> v)
       in [(Ownership_Heartbeat, [m], Set_To (of_int received / 1000)),
           (Ownership_Backlog, [m], Set_To (of_nat backlog))]) members)"

section \<open>The page\<close>

text \<open>
  \<open>GET /metrics\<close>: what is measured before the registry is printed. Without a registry the page is
  refused; the peer and the ownership metrics are read again for every page.
\<close>

definition metrics_route ::
  "bool \<Rightarrow> (string \<times> string \<times> metrics option) option \<Rightarrow> (ownership_health \<times> string list) option
     \<Rightarrow> measurement list result" where
  "metrics_route has_registry peer ownership =
     (if \<not> has_registry then Inl (HTTPException 503 ''metrics unavailable'')
      else Inr ((case peer of None \<Rightarrow> [] | Some (d, p, m) \<Rightarrow> prometheus (C_Peer d p m)) @
                (case ownership of None \<Rightarrow> [] | Some (h, members) \<Rightarrow> ownership_measured h members)))"

section \<open>Labels\<close>

lemma metric_labels_allowed: "validate_metric_labels (metric_labels m) = Inr ()"
  by (cases m) (simp only: metric_labels.simps; code_simp)+

definition fits :: "measurement \<Rightarrow> bool" where
  "fits x \<longleftrightarrow> length (fst (snd x)) = length (metric_labels (fst x))"

lemma labels_fit: "x \<in> set (prometheus call) \<Longrightarrow> fits x"
  by (cases call) (auto simp: fits_def peer_snapshot_def proxy_selection_measured_def split: option.splits if_splits)

lemma ownership_labels_fit: "x \<in> set (ownership_measured h members) \<Longrightarrow> fits x"
  by (auto simp: fits_def ownership_measured_def Let_def split: prod.splits)

lemma forbidden_metric_label: "l \<in> set (metric_labels m) \<Longrightarrow> map lower_char l \<notin> set forbidden_labels"
  using metric_labels_allowed [of m] forbidden_label_refused [of "metric_labels m"] by auto

lemma page_labels_fit: "metrics_route has_registry peer ownership = Inr xs \<Longrightarrow> x \<in> set xs \<Longrightarrow> fits x"
  by (auto simp: metrics_route_def simp del: prometheus.simps split: if_splits option.splits prod.splits
      dest: labels_fit ownership_labels_fit)

section \<open>Selections add up\<close>

text \<open>How much a list of measurements increases the counters of some series of a metric together.\<close>

fun increase_of :: "metric \<Rightarrow> string list set \<Rightarrow> measurement list \<Rightarrow> nat" where
  "increase_of m series [] = 0"
| "increase_of m series ((m', l, c) # xs) =
     (case c of Increase n \<Rightarrow> if m' = m \<and> l \<in> series then n else 0 | _ \<Rightarrow> 0) + increase_of m series xs"

lemma increase_of_append [simp]: "increase_of m series (xs @ ys) = increase_of m series xs + increase_of m series ys"
  by (induction xs rule: increase_of.induct) simp_all

lemma increase_of_other: "\<forall>x \<in> set xs. fst x \<noteq> m \<Longrightarrow> increase_of m series xs = 0"
  by (induction xs rule: increase_of.induct) (auto split: change.splits)

definition outcomes :: "string \<Rightarrow> string list set" where
  "outcomes d = {[d, ''empty''], [d, ''success''], [d, ''partial'']}"

fun selects :: "string \<Rightarrow> metrics_call \<Rightarrow> bool" where
  "selects d (C_Selection d' _ _ _ _ _ _) = (d' = d)"
| "selects d _ = False"

lemma selection_outcome_cases:
  "selection_outcome q r = ''empty'' \<or> selection_outcome q r = ''success'' \<or> selection_outcome q r = ''partial''"
  by (simp add: selection_outcome_def)

lemma outcome_in: "[d', selection_outcome q r] \<in> outcomes d \<longleftrightarrow> d' = d"
  by (simp add: outcomes_def selection_outcome_def)

lemma skipped_increase: "increase_of Selection_Total series (map (\<lambda>reason. (Selection_Skipped, f reason, g reason)) reasons) = 0"
  by (rule increase_of_other) auto

lemma call_counted: "increase_of Selection_Total (outcomes d) (prometheus c) = (if selects d c then 1 else 0)"
proof (cases "\<exists>d'. selects d' c")
  case True
  then obtain d' a b q r sk t where "c = C_Selection d' a b q r sk t" by (cases c) simp_all
  then show ?thesis by (simp add: proxy_selection_measured_def skipped_increase outcome_in)
next
  case False
  then have "\<not> selects d c" and "increase_of Selection_Total (outcomes d) (prometheus c) = 0"
    by (simp, intro increase_of_other) (cases c; auto simp: peer_snapshot_def split: option.splits if_splits)
  then show ?thesis by simp
qed

text \<open>Every selection of a domain is counted once, as empty, partial or successful.\<close>

lemma selections_counted:
  "increase_of Selection_Total (outcomes d) (concat (map prometheus calls)) = length (filter (selects d) calls)"
  by (induction calls) (simp_all add: call_counted)

text \<open>The series of a selection are bounded: three outcomes and four reasons for each domain.\<close>

lemma selection_series_bounded:
  assumes "(m, l, c) \<in> set (prometheus (C_Selection d a b q r skipped t))"
  shows "l = [d] \<or> (\<exists>x \<in> {''empty'', ''success'', ''partial''} \<union> set skip_reasons. l = [d, x])"
  using assms selection_outcome_cases [of q r] by (auto simp: proxy_selection_measured_def)

text \<open>A peer that could not be read is shown as unavailable, and all its other gauges lose their values.\<close>

lemma unread_peer_has_no_values:
  "(m, [d, p], c) \<in> set (prometheus (C_Peer d p None)) \<longleftrightarrow>
     m = Peer_Available \<and> c = Set_To 0 \<or>
     m \<in> {Peer_Valid, Peer_Failures, Peer_Heartbeat, Peer_Success, Peer_Evictions} \<and> c = Set_Nan"
  by (auto simp: peer_snapshot_def)

end
