(* ===== verification/Runtime.thy ===== *)
theory Runtime
  imports Settings Sources
begin

text \<open>
  The processes (runtime.py): the inventory check and the wait between two rounds of the collector,
  the maintenance of the dashboard, the shutdown, the exit codes of the roles and the doctor. What
  a role does in its rounds is in the theories of the roles; here a round is an argument.
\<close>

section \<open>Inventory\<close>

text \<open>\<open>Inl LatencyIndexNotReady\<close> is the error of a pool whose index has not been built.\<close>

definition inventory_requires_refill ::
  "('z, 'h, 'o, 's, 'p) svc \<Rightarrow> collector_settings \<Rightarrow> selection_settings \<Rightarrow> string \<Rightarrow> time \<Rightarrow> (nat \<Rightarrow> nat)
     \<Rightarrow> (proxy_record list \<Rightarrow> proxy_record list) \<Rightarrow> ('z, 'h, 'o, 's) repo \<Rightarrow> (('z, 'h, 'o, 's) repo \<times> bool) result" where
  "inventory_requires_refill E c sel d now draw shuffle R =
     (let threshold = cs_threshold c
      in if threshold = 0 then Inr (R, False)
         else
           (case random_proxies E d (max (cs_min_score c) (se_min_score sel)) threshold
                   (Some (min (cs_max_latency c) (se_max_latency sel))) (Some (se_max_age sel)) (se_min_successes sel)
                   now draw shuffle R of
              Inl e \<Rightarrow> Inl e
            | Inr (R', found) \<Rightarrow> Inr (R', int (length found) < threshold)))"

text \<open>The records a consumer can get: those the index lists within the latency that pass every limit.\<close>

definition hot_records ::
  "('z, 'h, 'o, 's, 'p) svc \<Rightarrow> collector_settings \<Rightarrow> selection_settings \<Rightarrow> string \<Rightarrow> time \<Rightarrow> ('z, 'h, 'o, 's) repo
     \<Rightarrow> proxy_record list" where
  "hot_records E c sel d now R =
     (let p = pools R d; latency = Some (min (cs_max_latency c) (se_max_latency sel));
          k = criteria_of (max (cs_min_score c) (se_min_score sel)) latency (Some (se_max_age sel)) (se_min_successes sel) now
      in List.map_filter (eligible E p k) (z_rangebyscore (zs E) (available_latency p) (Incl 0) (latency_bound latency)))"

section \<open>The wait of the collector\<close>

datatype wait_end = Interval_Over | Stop_Requested | Refill_Needed | Check_Failed exn

text \<open>
  The inner loop of \<open>run_collector\<close>: \<open>stopping e t\<close> says that the stop event is set within the
  \<open>t\<close> seconds after the first \<open>e\<close>, \<open>low e\<close> is the inventory check after \<open>e\<close> seconds. The result
  has the seconds waited; \<open>None\<close> is a loop that does not end.
\<close>

partial_function (option) wait_loop ::
  "int \<Rightarrow> int \<Rightarrow> (int \<Rightarrow> int \<Rightarrow> bool) \<Rightarrow> (int \<Rightarrow> bool result) \<Rightarrow> int \<Rightarrow> (wait_end \<times> int) option" where
  "wait_loop interval check stopping low elapsed =
     (if \<not> elapsed < interval then Some (Interval_Over, elapsed)
      else
        let timeout = min check (interval - elapsed)
        in if stopping elapsed timeout then Some (Stop_Requested, elapsed)
           else
             let elapsed' = elapsed + timeout
             in if interval \<le> elapsed' then Some (Interval_Over, elapsed')
                else
                  (case low elapsed' of
                     Inl e \<Rightarrow> Some (Check_Failed e, elapsed')
                   | Inr needed \<Rightarrow>
                       if needed then Some (Refill_Needed, elapsed')
                       else wait_loop interval check stopping low elapsed'))"

definition collector_wait ::
  "collector_settings \<Rightarrow> (int \<Rightarrow> int \<Rightarrow> bool) \<Rightarrow> (int \<Rightarrow> bool result) \<Rightarrow> (wait_end \<times> int) option" where
  "collector_wait c stopping low = wait_loop (cs_interval c) (cs_check_interval c) stopping low 0"

text \<open>
  The outer loop, over what it meets: whether the stop event is set when a round would begin, and
  how the wait after the round ends. A round gets whether it is forced, and may raise. \<open>None\<close> is a
  process that still runs.
\<close>

fun collector_loop ::
  "(bool \<Rightarrow> 's \<Rightarrow> 's \<times> unit result) \<Rightarrow> bool \<Rightarrow> (bool \<times> wait_end) list \<Rightarrow> 's \<Rightarrow> 's \<times> int result option" where
  "collector_loop collect force [] s = (s, None)"
| "collector_loop collect force ((stopped, w) # ws) s =
     (if stopped then (s, Some (Inr 0))
      else
        (case collect force s of
           (s', Inl e) \<Rightarrow> (s', Some (Inl e))
         | (s', Inr _) \<Rightarrow>
             (case w of
                Stop_Requested \<Rightarrow> (s', Some (Inr 0))
              | Check_Failed e \<Rightarrow> (s', Some (Inl e))
              | Refill_Needed \<Rightarrow> collector_loop collect True ws s'
              | Interval_Over \<Rightarrow> collector_loop collect False ws s')))"

section \<open>Dashboard maintenance\<close>

text \<open>One pass of the loop, and the loop over the times of its passes until the stop event.\<close>

definition maintenance_pass ::
  "(time \<Rightarrow> 's \<Rightarrow> 's \<times> unit result) \<Rightarrow> (time \<Rightarrow> 's \<Rightarrow> 's \<times> unit result) option \<Rightarrow> time \<Rightarrow> 's \<Rightarrow> 's \<times> unit result" where
  "maintenance_pass send_beat recorder current s =
     (case send_beat current s of
        (s', Inl e) \<Rightarrow> (s', Inl e)
      | (s', Inr _) \<Rightarrow> (case recorder of None \<Rightarrow> (s', Inr ()) | Some rec \<Rightarrow> rec current s'))"

fun run_dashboard_maintenance ::
  "(time \<Rightarrow> 's \<Rightarrow> 's \<times> unit result) \<Rightarrow> (time \<Rightarrow> 's \<Rightarrow> 's \<times> unit result) option \<Rightarrow> time list \<Rightarrow> 's \<Rightarrow> 's \<times> unit result" where
  "run_dashboard_maintenance send_beat recorder [] s = (s, Inr ())"
| "run_dashboard_maintenance send_beat recorder (current # later) s =
     (case maintenance_pass send_beat recorder current s of
        (s', Inl e) \<Rightarrow> (s', Inl e)
      | (s', Inr _) \<Rightarrow> run_dashboard_maintenance send_beat recorder later s')"

section \<open>Shutdown\<close>

text \<open>A resource has some of the three methods; a method returns or raises.\<close>

record resource =
  rs_name :: string
  rs_methods :: "string \<Rightarrow> unit result option"

record coordinator =
  co_grace :: rat
  co_event :: bool
  co_resources :: "resource list"
  co_stopped :: bool

datatype shutdown_action = Called string string | Cancel string

definition new_coordinator :: "rat \<Rightarrow> coordinator result" where
  "new_coordinator grace =
     (if grace \<le> 0 then Inl (ValueError ''grace_seconds must be positive'')
      else Inr \<lparr>co_grace = grace, co_event = False, co_resources = [], co_stopped = False\<rparr>)"

definition register_resource :: "resource \<Rightarrow> coordinator \<Rightarrow> coordinator" where
  "register_resource r c = c\<lparr>co_resources := co_resources c @ [r]\<rparr>"

fun invoke :: "string \<Rightarrow> resource list \<Rightarrow> shutdown_action list \<times> unit result" where
  "invoke m [] = ([], Inr ())"
| "invoke m (r # rs) =
     (case rs_methods r m of
        None \<Rightarrow> invoke m rs
      | Some (Inl e) \<Rightarrow> ([Called (rs_name r) m], Inl e)
      | Some (Inr _) \<Rightarrow> apfst ((#) (Called (rs_name r) m)) (invoke m rs))"

text \<open>
  \<open>stop\<close>; the tasks are the tracked ones that have not ended, without the one that stops, each
  with the time it still takes by itself (\<open>None\<close>: it does not end). What \<open>asyncio.wait\<close> leaves
  pending is cancelled.
\<close>

definition late :: "rat \<Rightarrow> string \<times> rat option \<Rightarrow> bool" where
  "late grace t \<longleftrightarrow> (case snd t of None \<Rightarrow> True | Some d \<Rightarrow> grace < d)"

definition stop :: "(string \<times> rat option) list \<Rightarrow> coordinator \<Rightarrow> coordinator \<times> shutdown_action list \<times> int result" where
  "stop tasks c =
     (if co_stopped c then (c, [], Inr 0)
      else
        let c' = c\<lparr>co_stopped := True, co_event := True\<rparr>
        in case invoke ''stop_new_work'' (co_resources c) of
             (as, Inl e) \<Rightarrow> (c', as, Inl e)
           | (as, Inr _) \<Rightarrow>
               (let pending = filter (late (co_grace c)) tasks;
                    as1 = as @ map (\<lambda>t. Cancel (fst t)) pending
                in case invoke ''release_inflight'' (co_resources c) of
                     (bs, Inl e) \<Rightarrow> (c', as1 @ bs, Inl e)
                   | (bs, Inr _) \<Rightarrow>
                       (case invoke ''close'' (co_resources c) of
                          (cs, Inl e) \<Rightarrow> (c', as1 @ bs @ cs, Inl e)
                        | (cs, Inr _) \<Rightarrow> (c', as1 @ bs @ cs, Inr (if pending \<noteq> [] then 1 else 0)))))"

section \<open>Exit codes\<close>

text \<open>How a task ended; \<open>task.exception()\<close> raises for a cancelled one.\<close>

datatype task_end = Returned int | Raised_Error exn | Was_Cancelled

text \<open>\<open>run_api\<close>: a server that ends by itself gives an exit code, one that is told to stop is awaited.\<close>

definition api_exit :: "bool \<Rightarrow> task_end \<Rightarrow> task_end" where
  "api_exit stop_first server =
     (case server of
        Returned _ \<Rightarrow> Returned 0
      | _ \<Rightarrow> if stop_first then server else Returned 1)"

text \<open>
  The test of \<open>run_all\<close> over the tasks \<open>FIRST_EXCEPTION\<close> returns, in the order of the set; \<open>None\<close>
  is the \<open>CancelledError\<close>.
\<close>

fun any_failed :: "task_end list \<Rightarrow> bool option" where
  "any_failed [] = Some False"
| "any_failed (Returned n # ts) = (if n \<noteq> 0 then Some True else any_failed ts)"
| "any_failed (Raised_Error e # ts) = Some True"
| "any_failed (Was_Cancelled # ts) = None"

text \<open>Whether the others are told to stop, and the exit code.\<close>

definition run_all :: "task_end list \<Rightarrow> (bool \<times> int) option" where
  "run_all ts = map_option (\<lambda>failed. (failed, if failed then 1 else 0)) (any_failed ts)"

definition require_selection_indexes :: "('z, 'h, 'o, 's, 'p) svc \<Rightarrow> ('z, 'h, 'o, 's) repo \<Rightarrow> unit result" where
  "require_selection_indexes E R =
     (case all_selection_indexes_ready E R of
        Inl e \<Rightarrow> Inl e
      | Inr ready \<Rightarrow> if \<not> ready then Inl (RuntimeError ''selection indexes not ready'') else Inr ())"

text \<open>\<open>run_checker\<close> after the construction of its parts: the exit code, or the error of the start or the worker.\<close>

definition run_checker ::
  "('z, 'h, 'o, 's, 'p) svc \<Rightarrow> (('z, 'h, 'o, 's) repo \<Rightarrow> ('z, 'h, 'o, 's) repo \<times> unit result) \<Rightarrow> ('z, 'h, 'o, 's) repo
     \<Rightarrow> ('z, 'h, 'o, 's) repo \<times> int result" where
  "run_checker E worker R =
     (case require_selection_indexes E R of
        Inl e \<Rightarrow> (R, Inl e)
      | Inr _ \<Rightarrow> (case worker R of (R', Inl e) \<Rightarrow> (R', Inl e) | (R', Inr _) \<Rightarrow> (R', Inr 0)))"

definition run_peer_sync :: "app_settings \<Rightarrow> ('s \<Rightarrow> 's \<times> unit result) \<Rightarrow> 's \<Rightarrow> 's \<times> int result" where
  "run_peer_sync cfg worker s =
     (case validate_peer_sync_startup cfg of
        Inl e \<Rightarrow> (s, Inl e)
      | Inr _ \<Rightarrow> (case worker s of (s', Inl e) \<Rightarrow> (s', Inl e) | (s', Inr _) \<Rightarrow> (s', Inr 0)))"

section \<open>The doctor\<close>

record doctor_report =
  dr_settings :: "string option"
  dr_python :: bool
  dr_sources :: nat
  dr_redis :: "string + bool"

definition report_ok :: "doctor_report \<Rightarrow> bool" where
  "report_ok r \<longleftrightarrow> dr_settings r = None \<and> dr_python r \<and> dr_sources r \<noteq> 0 \<and> dr_redis r = Inr True"

definition doctor :: "app_settings \<Rightarrow> bool \<Rightarrow> string + bool \<Rightarrow> (doctor_report \<times> int) result" where
  "doctor s python ping =
     (case sources_for_region ''all'' of
        Inl e \<Rightarrow> Inl e
      | Inr sources \<Rightarrow>
          (let r = \<lparr>dr_settings = (case validate_api_startup s of
                       Inl (ValueError m) \<Rightarrow> Some (take 256 m) | Inl _ \<Rightarrow> Some [] | Inr _ \<Rightarrow> None),
                    dr_python = python, dr_sources = length sources, dr_redis = ping\<rparr>
           in Inr (r, if report_ok r then 0 else 1)))"

section \<open>The wait ends\<close>

text \<open>
  From a multiple of the check interval on: the wait ends, nothing stopped it or was low before its
  end, and its end is the reason it gives.
\<close>

definition wait_reason ::
  "int \<Rightarrow> int \<Rightarrow> (int \<Rightarrow> int \<Rightarrow> bool) \<Rightarrow> (int \<Rightarrow> bool result) \<Rightarrow> wait_end \<Rightarrow> int \<Rightarrow> bool" where
  "wait_reason interval check stopping low w e \<longleftrightarrow>
     e \<le> interval \<and> (e = interval \<or> (\<exists>j. e = j * check)) \<and> (w = Interval_Over \<longleftrightarrow> e = interval) \<and>
     (w = Stop_Requested \<longrightarrow> stopping e (min check (interval - e))) \<and>
     (w = Refill_Needed \<longrightarrow> low e = Inr True) \<and> (\<forall>x. w = Check_Failed x \<longrightarrow> low e = Inl x)"

definition wait_ok ::
  "int \<Rightarrow> int \<Rightarrow> (int \<Rightarrow> int \<Rightarrow> bool) \<Rightarrow> (int \<Rightarrow> bool result) \<Rightarrow> int \<Rightarrow> wait_end \<Rightarrow> int \<Rightarrow> bool" where
  "wait_ok interval check stopping low k w e \<longleftrightarrow>
     k * check \<le> e \<and>
     (\<forall>j > k. j * check < e \<longrightarrow> low (j * check) = Inr False) \<and>
     (\<forall>j \<ge> k. j * check < e \<longrightarrow> \<not> stopping (j * check) (min check (interval - j * check))) \<and>
     wait_reason interval check stopping low w e"

lemma wait_ok_earlier:
  assumes "wait_ok interval check stopping low (k + 1) w t" and "0 < check"
    and "\<not> stopping (k * check) (min check (interval - k * check))" and "low ((k + 1) * check) = Inr False"
  shows "wait_ok interval check stopping low k w t"
proof -
  have later: "(k + 1) * check \<le> t" "wait_reason interval check stopping low w t"
    and clear: "\<And>j. k + 1 < j \<Longrightarrow> j * check < t \<Longrightarrow> low (j * check) = Inr False"
    and quiet: "\<And>j. k + 1 \<le> j \<Longrightarrow> j * check < t \<Longrightarrow> \<not> stopping (j * check) (min check (interval - j * check))"
    using assms(1) unfolding wait_ok_def by simp_all
  have "k * check \<le> t" using later(1) assms(2) by (simp add: algebra_simps)
  moreover have "low (j * check) = Inr False" if "k < j" "j * check < t" for j
    using clear [of j] assms(4) that by (cases "j = k + 1") simp_all
  moreover have "\<not> stopping (j * check) (min check (interval - j * check))" if "k \<le> j" "j * check < t" for j
    using quiet [of j] assms(3) that by (cases "j = k") simp_all
  ultimately show ?thesis using later(2) unfolding wait_ok_def by simp
qed

lemma multiple_between: "0 < (check :: int) \<Longrightarrow> k \<le> j \<Longrightarrow> j * check < (k + 1) * check \<Longrightarrow> j = k"
  by (simp add: mult_less_cancel_right)

lemma wait_loop_ends:
  assumes "0 < check" and "k * check < interval"
  shows "\<exists>w e. wait_loop interval check stopping low (k * check) = Some (w, e) \<and> wait_ok interval check stopping low k w e"
  using assms(2)
proof (induction "nat (interval - k * check)" arbitrary: k rule: less_induct)
  case less
  let ?t = "min check (interval - k * check)"
  have next_mult: "k * check + check = (k + 1) * check" by (simp add: algebra_simps)
  note step = wait_loop.simps [of interval check stopping low "k * check"]
  have only_k: "\<And>j. k \<le> j \<Longrightarrow> j * check < (k + 1) * check \<Longrightarrow> j = k"
    using multiple_between [OF assms(1)] .
  show ?case
  proof (cases "stopping (k * check) ?t")
    case True
    have "wait_ok interval check stopping low k Stop_Requested (k * check)"
      using True less.prems assms(1) by (auto simp: wait_ok_def wait_reason_def mult_less_cancel_right)
    with step True less.prems show ?thesis by (simp add: Let_def)
  next
    case quiet: False
    show ?thesis
    proof (cases "interval \<le> k * check + ?t")
      case True
      then have e: "k * check + ?t = interval" "interval \<le> (k + 1) * check" using next_mult by (simp_all add: min_def split: if_splits)
      have one: "j = k" if "k \<le> j" "j * check < interval" for j using only_k [of j] that e(2) by simp
      have "\<forall>j > k. j * check < interval \<longrightarrow> low (j * check) = Inr False" using one by (metis less_imp_le less_irrefl)
      moreover have "\<forall>j \<ge> k. j * check < interval \<longrightarrow> \<not> stopping (j * check) (min check (interval - j * check))"
        using one quiet by metis
      ultimately have "wait_ok interval check stopping low k Interval_Over interval"
        using less.prems by (simp add: wait_ok_def wait_reason_def)
      with step True e(1) quiet less.prems show ?thesis by (simp add: Let_def)
    next
      case False
      then have e: "k * check + ?t = (k + 1) * check" "(k + 1) * check < interval" "?t = check"
        using next_mult by (simp_all add: min_def split: if_splits)
      have quiet': "\<not> stopping (k * check) check" using quiet unfolding e(3) .
      have step: "wait_loop interval check stopping low (k * check) =
          (case low ((k + 1) * check) of
             Inl x \<Rightarrow> Some (Check_Failed x, (k + 1) * check)
           | Inr needed \<Rightarrow> if needed then Some (Refill_Needed, (k + 1) * check)
               else wait_loop interval check stopping low ((k + 1) * check))"
        unfolding step Let_def e(3) next_mult using quiet' less.prems e(2) by simp
      have prefix: "\<And>j. k \<le> j \<Longrightarrow> j * check < (k + 1) * check \<Longrightarrow> \<not> stopping (j * check) (min check (interval - j * check))"
        using only_k quiet by blast
      have none: "\<And>j. k < j \<Longrightarrow> \<not> j * check < (k + 1) * check" using only_k by (metis less_imp_le less_irrefl)
      show ?thesis
      proof (cases "low ((k + 1) * check)")
        case (Inl x)
        have "wait_ok interval check stopping low k (Check_Failed x) ((k + 1) * check)"
          using Inl prefix none e(2) assms(1) unfolding wait_ok_def wait_reason_def by (auto simp: mult_le_cancel_right)
        with step Inl show ?thesis by (simp add: Let_def)
      next
        case low: (Inr needed)
        show ?thesis
        proof (cases needed)
          case True
          have "wait_ok interval check stopping low k Refill_Needed ((k + 1) * check)"
            using low True prefix none e(2) assms(1) unfolding wait_ok_def wait_reason_def by (auto simp: mult_le_cancel_right)
          with step low True show ?thesis by (simp add: Let_def)
        next
          case no: False
          have "nat (interval - (k + 1) * check) < nat (interval - k * check)"
            using e(2) assms(1) next_mult by simp
          from less.hyps [OF this e(2)] obtain w t where
            go: "wait_loop interval check stopping low ((k + 1) * check) = Some (w, t)" and
            ok: "wait_ok interval check stopping low (k + 1) w t" by blast
          have "wait_ok interval check stopping low k w t"
            by (rule wait_ok_earlier [OF ok assms(1) quiet]) (simp add: low no)
          moreover have "wait_loop interval check stopping low (k * check) = Some (w, t)"
            using step low no go by (simp add: Let_def)
          ultimately show ?thesis by blast
        qed
      qed
    qed
  qed
qed

text \<open>
  Between two rounds the collector waits at most its collection interval: the wait always ends;
  it ends before the interval is over only at a multiple of the check interval, because the process
  is asked to stop in the seconds that follow, because the inventory check finds the pool low or
  because that check raises; and it is the first such multiple.
\<close>

lemma collector_wait_ends:
  assumes "valid_collector c"
  shows "\<exists>w e. collector_wait c stopping low = Some (w, e) \<and>
    wait_ok (cs_interval c) (cs_check_interval c) stopping low 0 w e"
proof -
  from assms have "0 < cs_check_interval c" "0 * cs_check_interval c < cs_interval c"
    unfolding valid_collector_def by linarith+
  from wait_loop_ends [OF this, of stopping low] show ?thesis by (simp add: collector_wait_def)
qed

definition w_waiting :: collector_settings where
  "w_waiting = \<lparr>cs_concurrency = 20, cs_max_pages = 5, cs_max_bytes = 2048, cs_max_round = 100, cs_max_pool = 100,
     cs_interval = 300, cs_check_interval = 60, cs_threshold = 5, cs_min_score = 80, cs_max_latency = 2000, cs_max_new = 10\<rparr>"

lemma collector_wait_ends_witness:
  "collector_wait w_waiting (\<lambda>e t. False) (\<lambda>e. Inr (e = 120)) = Some (Refill_Needed, 120) \<and>
   (\<exists>w e. collector_wait w_waiting (\<lambda>e t. False) (\<lambda>e. Inr False) = Some (w, e) \<and>
      wait_ok 300 60 (\<lambda>e t. False) (\<lambda>e. Inr False) 0 w e)"
proof -
  have "valid_collector w_waiting" by (simp add: valid_collector_def w_waiting_def)
  from collector_wait_ends [OF this, of "\<lambda>e t. False" "\<lambda>e. Inr False"]
  have "\<exists>w e. collector_wait w_waiting (\<lambda>e t. False) (\<lambda>e. Inr False) = Some (w, e) \<and>
      wait_ok 300 60 (\<lambda>e t. False) (\<lambda>e. Inr False) 0 w e" by (simp add: w_waiting_def)
  moreover have "collector_wait w_waiting (\<lambda>e t. False) (\<lambda>e. Inr (e = 120)) = Some (Refill_Needed, 120)"
    by (simp add: collector_wait_def w_waiting_def wait_loop.simps Let_def)
  ultimately show ?thesis by blast
qed

section \<open>Inventory\<close>

text \<open>
  The check tells whether fewer records than the threshold can be got: the sample it draws is
  as good as a count, since the threshold is within the size of one selection.
\<close>

lemma refill_iff_few_hot_records:
  assumes "pool_svc E" and "0 \<le> cs_threshold c" and "cs_threshold c \<le> 20"
    and "inventory_requires_refill E c sel d now draw shuffle R = Inr (R', b)"
    and "\<And>n. 0 < n \<Longrightarrow> draw n < n" and "\<And>xs. mset (shuffle xs) = mset xs"
  shows "b \<longleftrightarrow> int (length (hot_records E c sel d now R)) < cs_threshold c"
proof (cases "cs_threshold c = 0")
  case True
  with assms(4) show ?thesis by (simp add: inventory_requires_refill_def)
next
  case False
  let ?lat = "Some (min (cs_max_latency c) (se_max_latency sel))"
  let ?k = "criteria_of (max (cs_min_score c) (se_min_score sel)) ?lat (Some (se_max_age sel)) (se_min_successes sel) now"
  let ?p = "pools R d"
  let ?hot = "hot_records E c sel d now R"
  have req: "nat (min (cs_threshold c) 20) = nat (cs_threshold c)" using assms(3) by simp
  obtain p' s where run: "select_pool E ?k (nat (cs_threshold c)) True draw shuffle ?p = (p', s)"
    and b: "b \<longleftrightarrow> int (length (sel_records s)) < cs_threshold c"
    using assms(4) False unfolding inventory_requires_refill_def random_proxies_def select_random_proxies_def Let_def req
    by (auto split: if_splits sum.splits prod.splits)
  have mx: "c_max_latency ?k = ?lat" by (simp add: criteria_of_def)
  obtain seen where s1: "mset seen \<subseteq># mset (z_rangebyscore (zs E) (available_latency ?p) (Incl 0) (latency_bound ?lat))"
    and s2: "mset (sel_records s) \<subseteq># mset (List.map_filter (eligible E ?p ?k) seen)"
    and s3: "length (sel_records s) \<le> nat (cs_threshold c)"
    and s4: "length (sel_records s) < nat (cs_threshold c) \<longrightarrow> mset (sel_records s) = mset (List.map_filter (eligible E ?p ?k)
               (z_rangebyscore (zs E) (available_latency ?p) (Incl 0) (latency_bound ?lat)))"
    by (rule pool_svc.selection_cases [OF assms(1) run assms(5,6), unfolded mx])
  have hot: "?hot = List.map_filter (eligible E ?p ?k)
      (z_rangebyscore (zs E) (available_latency ?p) (Incl 0) (latency_bound ?lat))"
    by (simp add: hot_records_def Let_def)
  have "mset (sel_records s) \<subseteq># mset ?hot"
    unfolding hot using s2 map_filter_mset_mono [OF s1] by (rule subset_mset.order_trans)
  then have "length (sel_records s) \<le> length ?hot" by (metis size_mset size_mset_mono)
  moreover have "length (sel_records s) < nat (cs_threshold c) \<Longrightarrow> length (sel_records s) = length ?hot"
    using s4 unfolding hot by (metis size_mset)
  ultimately show ?thesis unfolding b using s3 by linarith
qed

section \<open>The loops stop at an error\<close>

text \<open>
  A pass that raises ends the maintenance for good: no beat follows, although the task of the role
  keeps running. A failing history write so makes a working checker look offline.
\<close>

lemma maintenance_stops_at_failure:
  assumes "run_dashboard_maintenance send_beat recorder before s = (s1, Inr ())"
    and "maintenance_pass send_beat recorder t s1 = (s2, Inl e)"
  shows "run_dashboard_maintenance send_beat recorder (before @ t # later) s = (s2, Inl e)"
  using assms by (induction before arbitrary: s) (auto split: prod.splits sum.splits)

lemma maintenance_passes:
  assumes "\<And>t s. snd (maintenance_pass send_beat recorder t s) = Inr ()"
  shows "run_dashboard_maintenance send_beat recorder ts s = (fold (\<lambda>t. fst \<circ> maintenance_pass send_beat recorder t) ts s, Inr ())"
proof (induction ts arbitrary: s)
  case (Cons t ts)
  obtain s' where "maintenance_pass send_beat recorder t s = (s', Inr ())" using assms [of t s] by (metis prod.collapse)
  with Cons.IH show ?case by simp
qed simp

text \<open>A round that raises ends the collector, after any number of rounds.\<close>

lemma collector_stops_at_error:
  "collect force s = (s', Inl e) \<Longrightarrow> collector_loop collect force ((False, w) # ws) s = (s', Some (Inl e))"
  by simp

section \<open>Shutdown\<close>

abbreviation never_raises :: "coordinator \<Rightarrow> bool" where
  "never_raises c \<equiv> \<forall>r \<in> set (co_resources c). \<forall>m e. rs_methods r m \<noteq> Some (Inl e)"

definition calls_of :: "string \<Rightarrow> coordinator \<Rightarrow> shutdown_action list" where
  "calls_of m c = map (\<lambda>r. Called (rs_name r) m) (filter (\<lambda>r. rs_methods r m \<noteq> None) (co_resources c))"

lemma invoke_all:
  "\<forall>r \<in> set rs. \<forall>e. rs_methods r m \<noteq> Some (Inl e) \<Longrightarrow>
     invoke m rs = (map (\<lambda>r. Called (rs_name r) m) (filter (\<lambda>r. rs_methods r m \<noteq> None) rs), Inr ())"
  by (induction rs) (auto split: option.splits sum.splits)

text \<open>
  A shutdown sets the stop event, then calls in this order \<open>stop_new_work\<close> of every resource
  that has it, cancels exactly the tasks that outlast the grace period, calls \<open>release_inflight\<close>
  and at last \<open>close\<close>; the exit code is 1 when a task was cancelled and 0 otherwise. Every later
  request, of a second signal or another task, does nothing.
\<close>

lemma shutdown_once_in_order:
  assumes "\<not> co_stopped c" and "never_raises c"
  shows "\<exists>c'. stop tasks c =
      (c', calls_of ''stop_new_work'' c @ map (\<lambda>t. Cancel (fst t)) (filter (late (co_grace c)) tasks) @
             calls_of ''release_inflight'' c @ calls_of ''close'' c,
       Inr (if \<exists>t \<in> set tasks. late (co_grace c) t then 1 else 0)) \<and>
    co_event c' \<and> (\<forall>tasks'. stop tasks' c' = (c', [], Inr 0))"
proof -
  have run: "invoke m (co_resources c) = (calls_of m c, Inr ())" for m
    unfolding calls_of_def using assms(2) by (intro invoke_all) blast
  have "filter (late (co_grace c)) tasks \<noteq> [] \<longleftrightarrow> (\<exists>t \<in> set tasks. late (co_grace c) t)"
    by (simp add: filter_empty_conv)
  with assms(1) show ?thesis by (simp add: stop_def run Let_def)
qed

definition w_coordinator :: coordinator where
  "w_coordinator = \<lparr>co_grace = 30, co_event = False,
     co_resources = [\<lparr>rs_name = ''a'', rs_methods = [''close'' \<mapsto> Inr ()]\<rparr>], co_stopped = False\<rparr>"

lemma shutdown_once_in_order_witness:
  "\<exists>c'. stop [(''api'', Some 2), (''check'', None)] w_coordinator = (c', [Cancel ''check'', Called ''a'' ''close''], Inr 1) \<and>
     stop [] c' = (c', [], Inr 0)"
proof -
  have "\<not> co_stopped w_coordinator" by (simp add: w_coordinator_def)
  moreover have "never_raises w_coordinator" by (simp add: w_coordinator_def)
  moreover note shutdown_once_in_order [of w_coordinator "[(''api'', Some 2), (''check'', None)]"]
  moreover have "calls_of ''stop_new_work'' w_coordinator = []" "calls_of ''release_inflight'' w_coordinator = []"
    "calls_of ''close'' w_coordinator = [Called ''a'' ''close'']" "co_grace w_coordinator = 30"
    by (simp_all add: w_coordinator_def calls_of_def)
  ultimately show ?thesis by (auto simp: late_def)
qed

text \<open>A method that raises ends the shutdown: what should have been released or closed after it is not.\<close>

lemma raising_method_ends_shutdown:
  assumes "\<not> co_stopped c" and "invoke ''stop_new_work'' (co_resources c) = (as, Inl e)"
  shows "snd (stop tasks c) = (as, Inl e)" and "snd (stop tasks (fst (stop tasks c))) = ([], Inr 0)"
  using assms by (simp_all add: stop_def Let_def)

section \<open>Exit codes\<close>

lemma any_failed_iff:
  "Was_Cancelled \<notin> set ts \<Longrightarrow>
     any_failed ts = Some (\<exists>t \<in> set ts. (\<exists>e. t = Raised_Error e) \<or> (\<exists>n. t = Returned n \<and> n \<noteq> 0))"
  by (induction ts rule: any_failed.induct) auto

lemma run_all_exit:
  assumes "Was_Cancelled \<notin> set ts"
  shows "run_all ts = (if set ts \<subseteq> {Returned 0} then Some (False, 0) else Some (True, 1))"
proof -
  have "(\<exists>t \<in> set ts. (\<exists>e. t = Raised_Error e) \<or> (\<exists>n. t = Returned n \<and> n \<noteq> 0)) \<longleftrightarrow> \<not> set ts \<subseteq> {Returned 0}"
  proof -
    have "(\<exists>e. t = Raised_Error e) \<or> (\<exists>n. t = Returned n \<and> n \<noteq> 0) \<longleftrightarrow> t \<noteq> Returned 0" if "t \<in> set ts" for t
      using assms that by (cases t) auto
    then show ?thesis by (auto simp only: subset_iff singleton_iff)
  qed
  then show ?thesis unfolding run_all_def any_failed_iff [OF assms] by simp
qed

text \<open>The doctor exits with 0 exactly when the API could start, Python is new enough and Redis answers.\<close>

lemma doctor_exit:
  assumes "doctor s python ping = Inr (r, n)"
  shows "n = 0 \<longleftrightarrow> validate_api_startup s = Inr () \<and> python \<and> ping = Inr True \<and> dr_sources r \<noteq> 0"
proof -
  obtain sources where src: "sources_for_region ''all'' = Inr sources"
    using assms unfolding doctor_def by (cases "sources_for_region ''all''") simp_all
  define R where R: "R = \<lparr>dr_settings = (case validate_api_startup s of
        Inl (ValueError m) \<Rightarrow> Some (take 256 m) | Inl _ \<Rightarrow> Some [] | Inr _ \<Rightarrow> None),
      dr_python = python, dr_sources = length sources, dr_redis = ping\<rparr>"
  have "doctor s python ping = Inr (R, if report_ok R then 0 else 1)"
    unfolding doctor_def src sum.case Let_def R ..
  with assms have r: "r = R" and n: "n = (if report_ok r then 0 else 1)" by auto
  have "dr_settings r = None \<longleftrightarrow> validate_api_startup s = Inr ()"
    unfolding r R by (cases "validate_api_startup s") (simp_all split: exn.splits)
  moreover have "dr_python r = python" "dr_redis r = ping" unfolding r R by simp_all
  ultimately show ?thesis unfolding n report_ok_def by auto
qed

text \<open>A checker that starts has found the indexes of every domain.\<close>

lemma checker_starts_on_ready_indexes:
  "run_checker E worker R = (R', Inr n) \<Longrightarrow> all_selection_indexes_ready E R = Inr True"
  by (auto simp: run_checker_def require_selection_indexes_def split: sum.splits if_splits)

end
