(* ===== verification/Spec2Isabelle.thy ===== *)
theory Spec2Isabelle
  imports PoolProperties PoolQuery Checker Quota Access Ownership PeerCache PeerSync PeerMonitor RouteProperties
    CollectorProperties Dashboard Migration Settings Network Metrics Runtime
begin

text \<open>
  A verification development for the IP proxy pool (src/src/ip_proxy_pool).

  The program. Collectors read public proxy lists and put the endpoints into a pool in Redis;
  checkers lease due endpoints from the pool, probe them through the target sites and write
  the result back as a score and a next check; an HTTP API serves the good ones and takes
  feedback on them. Next to the pool stand smaller services on the same Redis: a global quota for
  attempts to reclaim a lead, the ownership cases that decide whether a lead belongs to one of the
  members, a cache of the proxies another node exports, and a dashboard with its history. Everything
  that is shared is in Redis and changes by Lua scripts and MULTI pipelines, so the models are
  functions on records that hold the keys, one function per script, and the properties are about
  sequences of these functions in any order.

  Theories and sources.
  \<^item> Prelude: times, floats with their special values, the exceptions, list lemmas.
  \<^item> Redis: sorted sets, hashes and sets as abstract types, a locale with the documented laws
    of the commands of each, and reference implementations that interpret the locales. A key
    with EXPIRE is a value with the time it disappears (\<open>alive\<close>).
  \<^item> Keys: storage/keys.py, dashboard/keys.py. Models: models.py, checker/errors.py and the
    address test of security/network.py. Endpoints: the parser of models.py.
  \<^item> Scoring: checker/scoring.py and scheduling.py.
  \<^item> Pool: the writes of storage/repository.py with storage/lua.py; PoolOps: the effect of each
    operation key by key; LeaseProtocol: the pool as a transition system with its invariants;
    Capacity: \<open>enforce_capacity\<close>; PoolProperties: the properties; PoolQuery: the reads.
  \<^item> Breaker: checker/circuit_breaker.py. Probe: checker/probe.py. Checker: checker/worker.py,
    one round over the pool, the breakers and the probes.
  \<^item> Sources: collector/models.py, sources.py, pagination.py, parsers.py, health.py, downloader.py
    and cache.py. Collector: collector/worker.py, its ingestions as steps that interleave;
    CollectorProperties: the properties of both.
  \<^item> Quota: reclaim_quota and its route. Ownership: reclaim_ownership and its routes.
  \<^item> Access: security/auth.py, security/rate_limit.py and the request dependencies of
    api/dependencies.py. Settings: config.py with its startup checks.
  \<^item> Cursors: api/cursors.py. Routes: api/routes/proxies.py, stats.py, health.py, legacy.py and the
    middleware of api/app.py, over an interface of calls any of which may raise; RouteProperties:
    their properties, some over the models of the stores (\<open>model_calls\<close>).
  \<^item> Network: domain.py, security/network.py and the admin probe of api/routes/admin.py.
  \<^item> PeerCache: peer_cache/policy.py, models.py, lua.py, store.py and receipts.py. PeerSync:
    the export route api/routes/peer.py and peer_cache/sync.py. PeerMonitor:
    peer_cache/monitor.py and alerts.py.
  \<^item> Analytics: dashboard/analytics.py and models.py. History: dashboard/history.py and lua.py.
    Heartbeat: dashboard/heartbeat.py. Snapshot: dashboard/snapshot.py, a call and several recorders
    as a step relation. Dashboard: dashboard/service.py, api/routes/dashboard.py and their models.
  \<^item> Migration: migration.py, storage/legacy.py and the scripts that replace the indexes.
  \<^item> Observability: observability/logging.py and the label check. Metrics: observability/metrics.py
    and the metrics page. Runtime: runtime.py.

  Interaction. Checker composes Pool, Breaker, Probe and Scoring as \<open>run_once\<close> does; Collector
  composes Sources with the writes of Pool; Routes compose the selection of PoolQuery, the receipts
  and the selection of PeerCache, Scoring and Cursors; the export route composes the selection with
  the policy of PeerCache; PeerSync feeds such a reply into the cache; PeerMonitor reads what PeerSync
  and the selections leave. Snapshot reads the pool by PoolQuery, aggregates it by Analytics and writes
  to History; Dashboard reads all of these and Heartbeat; Runtime asks PoolQuery for the inventory.

  What the lemmas show. For the pool: between a claim and the end of a lease nobody else can
  write the endpoint, the indexes agree with the records in every reachable state, what is
  due gets claimed, paging loses nothing, selection returns what the request asked for, the
  capacity limit evicts the lowest ranks, and a rebuild gives back the indexes of the records. For the
  collector: what a source contributes, and by how much interleaved ingestions overfill a pool. For
  the checker: each lease of a round is settled, a proxy passes only with every target, the breaker
  opens, cools down and has one half-open owner, and scores and schedules stay in their bounds. For
  the API: a failing store degrades an answer instead of failing it, answers stay within what was
  asked for, a client that follows cursors comes to an end, a failure is counted once, roles do not
  mix, no more requests than the limit pass in a window, and the admin probe stays inside its
  boundary. For the services: at most five grants in any minute, and ownership cases that become
  external only after two complete rounds. For the peer cache: a failed endpoint stays out for ten
  minutes and until a newer check, a synchronisation commits a whole snapshot or nothing, an
  exported reply is accepted by the other end, and alerts alternate. For the dashboard: a history
  implements a map from bucket times to points, recordings of a bucket do not overlap, the health
  shown is a function of the last beats, and no answer is older than its time to live. For the
  operation: redacted events have no secret, every metric has only labels of a few values, a
  selection is counted once, the wait between two rounds ends, and a shutdown runs once.
  Lemmas also state what goes wrong in the code: an evicted endpoint that comes back, an update
  that is lost to a late write, a hostile status code that raises and the lease such a task strands,
  the key that is not ASCII, the penalty that is lost to a failed save, statistics and summaries that
  share a cache key, the bucket that is recorded again, the heartbeat settings that are refused at
  the start, the rebuild that raises after it has succeeded, the password of which a part is logged
  and the maintenance that ends at its first error.

  Assumptions. The laws of Redis are the locales \<open>zset\<close>, \<open>hash\<close> and \<open>redis_set\<close>; the codec
  of records decodes what it encoded (\<open>pool_svc\<close>), and so do the readers of the dashboard's cached
  answers, whose digests of different texts differ (\<open>board_codec\<close>). SHA-256, HMAC, the HTTP client,
  address tests, URL splitting, date parsing, JSON decoding and every random draw are arguments. Times
  and latencies are exact rationals: the rounding of doubles is not modelled. The clocks of the
  processes that share a peer cache agree. Texts are of one-byte characters.

  Bounds and fuel. Two definitions are given a number of steps: \<open>follow\<close> of RouteProperties, the
  requests of a client that pages, for which 10001 are shown to be enough, and \<open>ingest_steps\<close> of
  Collector, where nine are enough for the ingestion of an endpoint alone. The wait of the collector
  (\<open>wait_loop\<close>) is a partial function that is shown to end for all valid settings. Loops over
  replies of Redis end because each batch is non-empty (\<open>list_pages\<close>, \<open>select_batches\<close>,
  \<open>count_batches\<close>, \<open>chunks\<close>, each with its measure); iterations by SCAN are lists of replies; all
  other recursion is structural or on a shorter text. The limits that occur in the definitions (batches
  of 200 and 500, 20 proxies, 64 KiB, 10001 positions, three failures, five grants, 600 seconds, 576
  and 720 buckets, 100 instances) are those of the code.

  Not modelled, and why: the construction of clients, workers and the application from the settings,
  signal handlers and the argument parser (wiring without a decision of its own); how settings are
  read from the environment, logger configuration and the Prometheus client (libraries); the benchmark
  scripts and the static page; parsing of HTML, JSON, URLs and dates by libraries. A read of several
  commands is modelled on a pool that does not change while it runs.
\<close>

end
